(* ===== verification/Prelude.thy ===== *)
theory Prelude
  imports Main "HOL-Library.Word" "HOL-Library.Multiset" "HOL-Library.Signed_Division"
begin

text \<open>
  Shared vocabulary of the development: how a C++ computation ends (\<open>res\<close>), sequencing
  of computations, byte-addressed memory blocks with checked accesses, and the generic list
  lemmas that several components use.
\<close>

named_theorems res_simps \<open>evaluation of sequenced computations\<close>
named_theorems mem_simps \<open>reads and writes of memory blocks\<close>

section \<open>How a C++ computation ends\<close>

text \<open>
  Every operation of the source that can fail is modelled with an explicit outcome.
  \<open>Assertion\<close> is a failed \<^verbatim>\<open>assert\<close>; \<open>Out_of_bounds\<close> an access outside the storage of an
  array or \<^verbatim>\<open>std::vector\<close> (undefined behaviour in C++); \<open>Null_deref\<close> a use of a null pointer;
  \<open>Empty_container\<close> \<^verbatim>\<open>front\<close> or \<^verbatim>\<open>pop_front\<close> on an empty container; \<open>Terminate\<close> a
  \<^verbatim>\<open>throw;\<close> with no active exception (\<^verbatim>\<open>std::terminate\<close>); \<open>Thrown\<close> an exception with its
  message; \<open>Diverges\<close> a loop or recursion that does not end.
\<close>

datatype fault =
    Assertion
  | Out_of_bounds
  | Null_deref
  | Empty_container
  | Terminate
  | Thrown string
  | Diverges

type_synonym 'a res = "fault + 'a"

definition bind_res :: "'a res \<Rightarrow> ('a \<Rightarrow> 'b res) \<Rightarrow> 'b res" where
  "bind_res m f = (case m of Inl e \<Rightarrow> Inl e | Inr x \<Rightarrow> f x)"

definition check :: "bool \<Rightarrow> fault \<Rightarrow> unit res" where
  "check c e = (if c then Inr () else Inl e)"

lemma bind_res_simps [simp, res_simps]:
  "bind_res (Inl e) f = Inl e"
  "bind_res (Inr x) f = f x"
  by (simp_all add: bind_res_def)

lemma check_simps [simp, res_simps]:
  "check True e = Inr ()"
  "check False e = Inl e"
  by (simp_all add: check_def)

lemma bind_res_Inr_iff: "bind_res m f = Inr y \<longleftrightarrow> (\<exists>x. m = Inr x \<and> f x = Inr y)"
  by (cases m) auto

lemma bind_res_Inl_iff:
  "bind_res m f = Inl e \<longleftrightarrow> m = Inl e \<or> (\<exists>x. m = Inr x \<and> f x = Inl e)"
  by (cases m) auto

lemma check_Inr_iff [simp]: "check c e = Inr u \<longleftrightarrow> c"
  by (simp add: check_def)

lemma check_Inl_iff [simp]: "check c e = Inl e' \<longleftrightarrow> \<not> c \<and> e' = e"
  by (auto simp: check_def)

lemma bind_res_cong [fundef_cong]:
  "m = m' \<Longrightarrow> (\<And>x. m' = Inr x \<Longrightarrow> f x = g x) \<Longrightarrow> bind_res m f = bind_res m' g"
  by (cases m') (auto simp: bind_res_def)

lemmas res_iffs = bind_res_Inr_iff bind_res_Inl_iff check_Inr_iff check_Inl_iff

section \<open>Memory blocks\<close>

text \<open>
  A byte of freshly allocated storage is indeterminate until it is written: a cell is
  \<open>None\<close> before its first write and \<open>Some c\<close> afterwards. A block is the list of its cells;
  reads and writes of a range (\<^verbatim>\<open>memcpy\<close>, \<^verbatim>\<open>memmove\<close>) are checked against the block's size.
  Offsets and lengths are \<open>int\<close>, since the source computes them in the signed type
  \<^verbatim>\<open>off_t\<close> and they can become negative.
\<close>

type_synonym cell = "char option"

definition new_block :: "int \<Rightarrow> cell list res" where
  "new_block n =
     (if n < 0 then Inl (Thrown ''std::bad_array_new_length'') else Inr (replicate (nat n) None))"

definition read_range :: "'c list \<Rightarrow> int \<Rightarrow> int \<Rightarrow> 'c list res" where
  "read_range xs a n =
     (if 0 \<le> a \<and> 0 \<le> n \<and> a + n \<le> int (length xs)
      then Inr (take (nat n) (drop (nat a) xs)) else Inl Out_of_bounds)"

definition write_range :: "'c list \<Rightarrow> int \<Rightarrow> 'c list \<Rightarrow> 'c list res" where
  "write_range xs a ys =
     (if 0 \<le> a \<and> a + int (length ys) \<le> int (length xs)
      then Inr (take (nat a) xs @ ys @ drop (nat a + length ys) xs) else Inl Out_of_bounds)"

definition memmove :: "'c list \<Rightarrow> int \<Rightarrow> int \<Rightarrow> int \<Rightarrow> 'c list res" where
  "memmove xs dst src n = bind_res (read_range xs src n) (write_range xs dst)"

lemma read_range_ok [mem_simps]:
  "0 \<le> a \<Longrightarrow> 0 \<le> n \<Longrightarrow> a + n \<le> int (length xs) \<Longrightarrow>
     read_range xs a n = Inr (take (nat n) (drop (nat a) xs))"
  by (simp add: read_range_def)

lemma write_range_ok [mem_simps]:
  "0 \<le> a \<Longrightarrow> a + int (length ys) \<le> int (length xs) \<Longrightarrow>
     write_range xs a ys = Inr (take (nat a) xs @ ys @ drop (nat a + length ys) xs)"
  by (simp add: write_range_def)

lemma length_write_range: "write_range xs a ys = Inr zs \<Longrightarrow> length zs = length xs"
  by (auto simp: write_range_def split: if_splits)

lemma length_memmove: "memmove xs d s n = Inr zs \<Longrightarrow> length zs = length xs"
  by (auto simp: memmove_def bind_res_Inr_iff dest: length_write_range)

lemma memmove_ok [mem_simps]:
  "0 \<le> s \<Longrightarrow> 0 \<le> n \<Longrightarrow> s + n \<le> int (length xs) \<Longrightarrow> 0 \<le> d \<Longrightarrow> d + n \<le> int (length xs) \<Longrightarrow>
     memmove xs d s n =
       Inr (take (nat d) xs @ take (nat n) (drop (nat s) xs) @ drop (nat d + nat n) xs)"
  by (simp add: memmove_def read_range_def write_range_def min_absorb2 nat_le_iff)

section \<open>C++ integer arithmetic\<close>

text \<open>
  \<^verbatim>\<open>static_cast<uint32_t>\<close> keeps the low 32 bits. Division and remainder of signed integers
  truncate toward zero (\<open>sdiv\<close> and \<open>smod\<close> of the library's Signed_Division).
\<close>

definition to_uint32 :: "int \<Rightarrow> int" where
  "to_uint32 x = x mod 2 ^ 32"

lemma to_uint32_small [simp]: "0 \<le> x \<Longrightarrow> x < 2 ^ 32 \<Longrightarrow> to_uint32 x = x"
  by (simp add: to_uint32_def)

lemma sdiv_nonneg: "0 \<le> a \<Longrightarrow> 0 < b \<Longrightarrow> a sdiv b = a div (b::int)"
  by (cases "a = 0") (simp_all add: signed_divide_int_def)

lemma smod_nonneg: "0 \<le> a \<Longrightarrow> 0 < b \<Longrightarrow> a smod b = a mod (b::int)"
  by (cases "a = 0") (simp_all add: signed_modulo_int_def)

lemma nat_int_diff [simp]: "nat (int a - int b) = a - b"
  by simp

section \<open>Lists\<close>

lemma nth_list_update_if:
  "i < length xs \<Longrightarrow> xs[i := x] ! j = (if i = j then x else xs ! j)"
  by (simp add: nth_list_update)

lemma take_drop_mid:
  "l \<le> r \<Longrightarrow> r \<le> length xs \<Longrightarrow>
     take (r - l) (drop l (take l xs @ ys @ drop r xs)) = take (r - l) (ys @ drop r xs)"
  by simp

section \<open>Steps that may not return\<close>

text \<open>
  \<open>None\<close> is a computation that does not return; \<open>bind_run\<close> sequences such computations and stops at
  the first fault.
\<close>

definition bind_run :: "'a res option \<Rightarrow> ('a \<Rightarrow> 'b res option) \<Rightarrow> 'b res option" where
  "bind_run m f = (case m of None \<Rightarrow> None | Some (Inl e) \<Rightarrow> Some (Inl e) | Some (Inr x) \<Rightarrow> f x)"

lemma bind_run_simps [simp]:
  "bind_run None f = None" "bind_run (Some (Inl e)) f = Some (Inl e)"
  "bind_run (Some (Inr x)) f = f x"
  by (simp_all add: bind_run_def)

lemma bind_run_Inr_iff:
  "bind_run m f = Some (Inr y) \<longleftrightarrow> (\<exists>x. m = Some (Inr x) \<and> f x = Some (Inr y))"
  by (auto simp: bind_run_def split: option.splits sum.splits)

lemma bind_run_assoc: "bind_run (bind_run m f) g = bind_run m (\<lambda>x. bind_run (f x) g)"
  by (auto simp: bind_run_def split: option.splits sum.splits)

end
