(* ===== verification/Interfaces.thy ===== *)
theory Interfaces
  imports Prelude
begin

text \<open>
  The contracts between components, as locales: what a client relies on, and the lemmas every
  client gets from it. Each is interpreted in the theory of the component that provides it.
\<close>

section \<open>Byte queues\<close>

text \<open>
  \<^verbatim>\<open>Buffer\<close> as its clients (connections, UDP sockets, the HTTP server and client) use it:
  bytes are appended at the end and consumed from the front. \<open>run_ops\<close> is a client's
  sequence of calls, stopping at the first fault; \<open>spec_ops\<close> is its effect on the bytes.
\<close>

datatype 'c qop = Put "'c list" | Get nat

fun run_ops ::
    "('c list \<Rightarrow> 'q \<Rightarrow> 'q res) \<Rightarrow> (int \<Rightarrow> 'q \<Rightarrow> 'q res) \<Rightarrow> 'c qop list \<Rightarrow> 'q \<Rightarrow> 'q res" where
  "run_ops put get [] q = Inr q"
| "run_ops put get (Put xs # ops) q = bind_res (put xs q) (run_ops put get ops)"
| "run_ops put get (Get n # ops) q = bind_res (get (int n) q) (run_ops put get ops)"

fun spec_ops :: "'c qop list \<Rightarrow> 'c list \<Rightarrow> 'c list" where
  "spec_ops [] bs = bs"
| "spec_ops (Put xs # ops) bs = spec_ops ops (bs @ xs)"
| "spec_ops (Get n # ops) bs = spec_ops ops (drop n bs)"

locale byte_queue =
  fixes inv :: "'q \<Rightarrow> bool"
    and bytes :: "'q \<Rightarrow> 'c list"
    and put :: "'c list \<Rightarrow> 'q \<Rightarrow> 'q res"
    and get :: "int \<Rightarrow> 'q \<Rightarrow> 'q res"
  assumes put_law: "inv q \<Longrightarrow> xs \<noteq> [] \<Longrightarrow>
      \<exists>q'. put xs q = Inr q' \<and> inv q' \<and> bytes q' = bytes q @ xs"
    and get_law: "inv q \<Longrightarrow> 0 \<le> n \<Longrightarrow>
      \<exists>q'. get n q = Inr q' \<and> inv q' \<and> bytes q' = drop (nat n) (bytes q)"
begin

lemma put_cases:
  assumes "inv q" "xs \<noteq> []"
  obtains q' where "put xs q = Inr q'" "inv q'" "bytes q' = bytes q @ xs"
  using put_law [OF assms] by blast

lemma get_cases:
  assumes "inv q" "0 \<le> n"
  obtains q' where "get n q = Inr q'" "inv q'" "bytes q' = drop (nat n) (bytes q)"
  using get_law [OF assms] by blast

lemma run_refines:
  "inv q \<Longrightarrow> Put [] \<notin> set ops \<Longrightarrow>
     \<exists>q'. run_ops put get ops q = Inr q' \<and> inv q' \<and> bytes q' = spec_ops ops (bytes q)"
proof (induction ops arbitrary: q)
  case Nil
  then show ?case by simp
next
  case (Cons op ops)
  show ?case
  proof (cases op)
    case (Put xs)
    with Cons.prems obtain q' where "put xs q = Inr q'" "inv q'" "bytes q' = bytes q @ xs"
      by (auto elim: put_cases [of q xs])
    with Put Cons.prems Cons.IH [of q'] show ?thesis by simp
  next
    case (Get n)
    with Cons.prems obtain q' where "get (int n) q = Inr q'" "inv q'"
      "bytes q' = drop n (bytes q)"
      by (auto elim: get_cases [of q "int n"])
    with Get Cons.prems Cons.IH [of q'] show ?thesis by simp
  qed
qed

end

section \<open>Comparison\<close>

text \<open>
  What \<^verbatim>\<open>BinaryHeap\<close> and \<^verbatim>\<open>std::map\<close> require of \<^verbatim>\<open>operator<\<close> on the values they hold: a
  strict weak order on the set \<open>A\<close> of those values.
\<close>

locale weak_order =
  fixes A :: "'a set"
    and lt :: "'a \<Rightarrow> 'a \<Rightarrow> bool"
  assumes asym: "x \<in> A \<Longrightarrow> y \<in> A \<Longrightarrow> lt x y \<Longrightarrow> \<not> lt y x"
    and cotrans: "x \<in> A \<Longrightarrow> y \<in> A \<Longrightarrow> z \<in> A \<Longrightarrow> lt x z \<Longrightarrow> lt x y \<or> lt y z"
begin

lemma irrefl: "x \<in> A \<Longrightarrow> \<not> lt x x"
  using asym by blast

lemma le_trans:
  "x \<in> A \<Longrightarrow> y \<in> A \<Longrightarrow> z \<in> A \<Longrightarrow> \<not> lt y x \<Longrightarrow> \<not> lt z y \<Longrightarrow> \<not> lt z x"
  using cotrans by blast

lemma less_trans: "x \<in> A \<Longrightarrow> y \<in> A \<Longrightarrow> z \<in> A \<Longrightarrow> lt x y \<Longrightarrow> lt y z \<Longrightarrow> lt x z"
  using cotrans asym by blast

end

section \<open>Priority queues\<close>

text \<open>
  The contract of a heap with respect to the order of its elements: insertion adds one element,
  \<open>peek\<close> returns one that no other precedes, \<open>pop\<close> removes exactly that one. \<open>drain\<close> empties
  a queue into the list of its successive minima.
\<close>

fun drain :: "('q \<Rightarrow> 'a res) \<Rightarrow> ('q \<Rightarrow> 'q res) \<Rightarrow> nat \<Rightarrow> 'q \<Rightarrow> 'a list res" where
  "drain peek pop 0 q = Inr []"
| "drain peek pop (Suc n) q =
     bind_res (peek q) (\<lambda>x. bind_res (pop q) (\<lambda>q'.
     bind_res (drain peek pop n q') (\<lambda>xs. Inr (x # xs))))"

fun insert_all :: "('a \<Rightarrow> 'q \<Rightarrow> 'q res) \<Rightarrow> 'a list \<Rightarrow> 'q \<Rightarrow> 'q res" where
  "insert_all push [] q = Inr q"
| "insert_all push (x # xs) q = bind_res (push x q) (insert_all push xs)"

locale priority_queue = weak_order A lt for A :: "'a set" and lt +
  fixes inv :: "'q \<Rightarrow> bool"
    and elems :: "'q \<Rightarrow> 'a multiset"
    and push :: "'a \<Rightarrow> 'q \<Rightarrow> 'q res"
    and peek :: "'q \<Rightarrow> 'a res"
    and pop :: "'q \<Rightarrow> 'q res"
  assumes elems_law: "inv q \<Longrightarrow> set_mset (elems q) \<subseteq> A"
    and ins_law: "inv q \<Longrightarrow> x \<in> A \<Longrightarrow>
      \<exists>q'. push x q = Inr q' \<and> inv q' \<and> elems q' = add_mset x (elems q)"
    and min_law: "inv q \<Longrightarrow> elems q \<noteq> {#} \<Longrightarrow>
      \<exists>m q'. peek q = Inr m \<and> pop q = Inr q' \<and> inv q' \<and> elems q = add_mset m (elems q')
        \<and> (\<forall>y \<in># elems q. \<not> lt y m)"
begin

lemma insert_all_law:
  "inv q \<Longrightarrow> set xs \<subseteq> A \<Longrightarrow>
     \<exists>q'. insert_all push xs q = Inr q' \<and> inv q' \<and> elems q' = elems q + mset xs"
proof (induction xs arbitrary: q)
  case Nil
  then show ?case by simp
next
  case (Cons x xs)
  then obtain q1 where q1: "push x q = Inr q1" "inv q1" "elems q1 = add_mset x (elems q)"
    using ins_law [of q x] by auto
  with Cons.IH [of q1] Cons.prems show ?case by auto
qed

lemma drain_law:
  "inv q \<Longrightarrow> size (elems q) = n \<Longrightarrow>
     \<exists>xs. drain peek pop n q = Inr xs \<and> mset xs = elems q \<and> sorted_wrt (\<lambda>x y. \<not> lt y x) xs"
proof (induction n arbitrary: q)
  case 0
  then show ?case by simp
next
  case (Suc n)
  then obtain m q' where m: "peek q = Inr m" "pop q = Inr q'" "inv q'"
    "elems q = add_mset m (elems q')" "\<forall>y \<in># elems q. \<not> lt y m"
    using min_law [of q] by (metis size_empty nat.distinct(1))
  with Suc.prems Suc.IH [of q'] obtain xs where
    xs: "drain peek pop n q' = Inr xs" "mset xs = elems q'" "sorted_wrt (\<lambda>x y. \<not> lt y x) xs"
    by auto
  then have "set xs = set_mset (elems q')" by (metis set_mset_mset)
  with m xs show ?case by simp
qed

lemma heap_sort_law:
  assumes "inv q" "elems q = {#}" "set xs \<subseteq> A"
  shows "\<exists>q' ys. insert_all push xs q = Inr q' \<and> drain peek pop (length xs) q' = Inr ys
    \<and> mset ys = mset xs \<and> sorted_wrt (\<lambda>x y. \<not> lt y x) ys"
proof -
  from insert_all_law [OF assms(1,3)] assms(2) obtain q' where
    q': "insert_all push xs q = Inr q'" "inv q'" "elems q' = mset xs" by auto
  with drain_law [of q' "length xs"] show ?thesis by auto
qed

end

section \<open>Keyed stores\<close>

text \<open>
  A map from keys to elements as its clients use it: \<open>ins\<close> writes, \<open>has\<close> tests for a key, \<open>at_key\<close>
  reads and creates a default element where there is none. \<open>good\<close> are the keys the store accepts.
\<close>

fun ins_all :: "('k \<Rightarrow> 'v \<Rightarrow> 's \<Rightarrow> 's res) \<Rightarrow> ('k \<times> 'v) list \<Rightarrow> 's \<Rightarrow> 's res" where
  "ins_all ins [] s = Inr s"
| "ins_all ins ((k, v) # kvs) s = bind_res (ins k v s) (ins_all ins kvs)"

locale keyed_store =
  fixes good :: "'k \<Rightarrow> bool"
    and inv :: "'s \<Rightarrow> bool"
    and lookup :: "'s \<Rightarrow> 'k \<Rightarrow> 'v option"
    and dflt :: 'v
    and ins :: "'k \<Rightarrow> 'v \<Rightarrow> 's \<Rightarrow> 's res"
    and has :: "'k \<Rightarrow> 's \<Rightarrow> bool res"
    and at_key :: "'k \<Rightarrow> 's \<Rightarrow> ('v \<times> 's) res"
  assumes ins_law: "inv s \<Longrightarrow> good k \<Longrightarrow>
      \<exists>s'. ins k v s = Inr s' \<and> inv s' \<and> lookup s' = (lookup s)(k \<mapsto> v)"
    and has_law: "inv s \<Longrightarrow> good k \<Longrightarrow> has k s = Inr (lookup s k \<noteq> None)"
    and at_law: "inv s \<Longrightarrow> good k \<Longrightarrow>
      \<exists>v s'. at_key k s = Inr (v, s') \<and> inv s' \<and> v = (case lookup s k of None \<Rightarrow> dflt | Some w \<Rightarrow> w)
        \<and> lookup s' = (lookup s)(k \<mapsto> v)"
begin

lemma ins_all_law:
  "inv s \<Longrightarrow> \<forall>k \<in> fst ` set kvs. good k \<Longrightarrow>
     \<exists>s'. ins_all ins kvs s = Inr s' \<and> inv s' \<and> lookup s' = lookup s ++ map_of (rev kvs)"
proof (induction kvs arbitrary: s)
  case Nil
  then show ?case by simp
next
  case (Cons kv kvs)
  obtain k v where kv: "kv = (k, v)" by force
  with Cons.prems obtain s1 where s1: "ins k v s = Inr s1" "inv s1" "lookup s1 = (lookup s)(k \<mapsto> v)"
    using ins_law [of s k v] by auto
  have "\<forall>k \<in> fst ` set kvs. good k" using Cons.prems(2) by simp
  then obtain s' where s': "ins_all ins kvs s1 = Inr s'" "inv s'" "lookup s' = lookup s1 ++ map_of (rev kvs)"
    using Cons.IH [OF s1(2)] by blast
  have "lookup s' = lookup s ++ map_of (rev (kv # kvs))"
    unfolding s'(3) s1(3) by (simp add: kv map_add_def fun_eq_iff split: option.split)
  moreover have "ins_all ins (kv # kvs) s = Inr s'" by (simp add: kv s1(1) s'(1))
  ultimately show ?case using s'(2) by blast
qed

lemma last_write_law:
  assumes "inv s" "\<forall>k \<in> fst ` set kvs. good k" "good k" "lookup s = Map.empty"
  shows "\<exists>s'. ins_all ins kvs s = Inr s' \<and> has k s' = Inr (k \<in> fst ` set kvs)
    \<and> (\<exists>s''. at_key k s' = Inr (case map_of (rev kvs) k of None \<Rightarrow> dflt | Some v \<Rightarrow> v, s''))"
proof -
  from ins_all_law [OF assms(1,2)] assms(4) obtain s' where
    s': "ins_all ins kvs s = Inr s'" "inv s'" "lookup s' = map_of (rev kvs)" by auto
  have "(map_of (rev kvs) k = None) = (k \<notin> fst ` set kvs)" by (simp add: map_of_eq_None_iff)
  with s' has_law [OF s'(2) assms(3)] at_law [OF s'(2) assms(3)] show ?thesis by auto
qed

end

end
