(* ===== verification/Timestamps.thy ===== *)
theory Timestamps
  imports Prelude
begin

text \<open>
  \<^verbatim>\<open>Liby::Timestamp\<close> of \<^verbatim>\<open>src/src/util.h\<close>: a \<^verbatim>\<open>struct timeval\<close> with its normalising
  constructor, comparison, addition and subtraction. \<^verbatim>\<open>time_t\<close> and \<^verbatim>\<open>suseconds_t\<close> are
  64-bit signed and stay far from their limits, so both fields are \<open>int\<close>; the one narrowing
  cast of the constructor (to \<^verbatim>\<open>uint32_t\<close>) is modelled. Conversions to \<^verbatim>\<open>double\<close> and the
  formatting through \<^verbatim>\<open>localtime_r\<close> are not modelled.
\<close>

section \<open>The type and its operations\<close>

datatype timestamp = TV (sec: int) (usec: int)

definition kMicrosecondsPerSecond :: int where
  "kMicrosecondsPerSecond = 1000 * 1000"

definition Timestamp :: "int \<Rightarrow> int \<Rightarrow> timestamp" where
  "Timestamp s u =
     (if to_uint32 u > kMicrosecondsPerSecond
      then TV (s + u sdiv kMicrosecondsPerSecond) (u smod kMicrosecondsPerSecond)
      else TV s u)"

definition invalidTime :: timestamp where
  "invalidTime = Timestamp 0 0"

definition invalid :: "timestamp \<Rightarrow> bool" where
  "invalid t \<longleftrightarrow> sec t = 0 \<and> usec t = 0"

definition compareTo :: "timestamp \<Rightarrow> timestamp \<Rightarrow> int" where
  "compareTo t rhs =
     (if sec rhs > sec t then -1
      else if sec rhs < sec t then 1
      else if usec rhs > usec t then -1
      else if usec rhs < usec t then 1
      else 0)"

definition Timestamp_minus :: "timestamp \<Rightarrow> timestamp \<Rightarrow> timestamp" where
  "Timestamp_minus lhs rhs =
     (let s = sec lhs - sec rhs; lusec = usec lhs; rusec = usec rhs in
      if lusec < rusec
      then Timestamp (s - 1) (lusec + kMicrosecondsPerSecond - rusec)
      else Timestamp s (lusec - rusec))"

definition Timestamp_plus :: "timestamp \<Rightarrow> timestamp \<Rightarrow> timestamp" where
  "Timestamp_plus lhs rhs = Timestamp (sec lhs + sec rhs) (usec lhs + usec rhs)"

definition toMillSec :: "timestamp \<Rightarrow> 64 word" where
  "toMillSec t = word_of_int (sec t * 1000 + usec t sdiv 1000)"

definition toMicroSec :: "timestamp \<Rightarrow> 64 word" where
  "toMicroSec t = word_of_int (sec t) * 1000000 + word_of_int (usec t)"

definition Timestamp_less :: "timestamp \<Rightarrow> timestamp \<Rightarrow> bool" where
  "Timestamp_less lhs rhs \<longleftrightarrow> compareTo lhs rhs = -1"

definition Timestamp_equal :: "timestamp \<Rightarrow> timestamp \<Rightarrow> bool" where
  "Timestamp_equal lhs rhs \<longleftrightarrow> compareTo lhs rhs = 0"

definition Timestamp_greater :: "timestamp \<Rightarrow> timestamp \<Rightarrow> bool" where
  "Timestamp_greater lhs rhs \<longleftrightarrow> compareTo lhs rhs = 1"

section \<open>The order\<close>

text \<open>
  \<^verbatim>\<open>operator<\<close>, \<^verbatim>\<open>operator==\<close> and \<^verbatim>\<open>operator>\<close> are defined from \<^verbatim>\<open>compareTo\<close>; together
  they are the lexicographic linear order of the two fields.
\<close>

lemma Timestamp_less_lex:
  "Timestamp_less a b \<longleftrightarrow> sec a < sec b \<or> sec a = sec b \<and> usec a < usec b"
  by (auto simp: Timestamp_less_def compareTo_def)

lemma Timestamp_equal_iff [simp]: "Timestamp_equal a b \<longleftrightarrow> a = b"
  by (cases a; cases b) (auto simp: Timestamp_equal_def compareTo_def)

instantiation timestamp :: linorder
begin

definition less_timestamp :: "timestamp \<Rightarrow> timestamp \<Rightarrow> bool" where
  "less_timestamp = Timestamp_less"

definition less_eq_timestamp :: "timestamp \<Rightarrow> timestamp \<Rightarrow> bool" where
  "less_eq_timestamp lhs rhs \<longleftrightarrow> Timestamp_less lhs rhs \<or> Timestamp_equal lhs rhs"

instance
proof
  fix a b c :: timestamp
  show "a \<le> a"
    by (simp add: less_eq_timestamp_def)
  show "a < b \<longleftrightarrow> a \<le> b \<and> \<not> b \<le> a"
    unfolding less_timestamp_def less_eq_timestamp_def Timestamp_less_lex Timestamp_equal_iff
    by (cases a; cases b) (simp, linarith)
  show "a \<le> b \<Longrightarrow> b \<le> c \<Longrightarrow> a \<le> c"
    unfolding less_eq_timestamp_def Timestamp_less_lex Timestamp_equal_iff
    by (cases a; cases b; cases c) (simp, linarith)
  show "a \<le> b \<Longrightarrow> b \<le> a \<Longrightarrow> a = b"
    unfolding less_eq_timestamp_def Timestamp_less_lex Timestamp_equal_iff
    by (cases a; cases b) (simp, linarith)
  show "a \<le> b \<or> b \<le> a"
    unfolding less_eq_timestamp_def Timestamp_less_lex Timestamp_equal_iff
    by (cases a; cases b) (simp, linarith)
qed

end

lemma Timestamp_less_iff [simp]: "Timestamp_less a b \<longleftrightarrow> a < b"
  by (simp add: less_timestamp_def)

lemma timestamp_less_iff: "a < b \<longleftrightarrow> sec a < sec b \<or> sec a = sec b \<and> usec a < usec b"
  by (simp only: less_timestamp_def Timestamp_less_lex)

lemma Timestamp_greater_iff [simp]: "Timestamp_greater a b \<longleftrightarrow> b < a"
  by (auto simp: Timestamp_greater_def compareTo_def timestamp_less_iff)

section \<open>Values and normal form\<close>

definition micros :: "timestamp \<Rightarrow> int" where
  "micros t = sec t * 1000000 + usec t"

definition normalized :: "timestamp \<Rightarrow> bool" where
  "normalized t \<longleftrightarrow> 0 \<le> usec t \<and> usec t < 1000000"

lemma micros_Timestamp: "micros (Timestamp s u) = s * 1000000 + u"
  using sdiv_mult_smod_eq [of u 1000000]
  by (simp add: micros_def Timestamp_def kMicrosecondsPerSecond_def algebra_simps)

text \<open>What the constructor does to a sum of two microsecond fields in normal form.\<close>

lemma Timestamp_below_two_seconds:
  assumes "0 \<le> u" "u < 2000000"
  shows "Timestamp s u = (if 1000000 < u then TV (s + 1) (u - 1000000) else TV s u)"
proof (cases "1000000 < u")
  case True
  have d: "u div 1000000 = 1"
    using div_pos_geq [of 1000000 u] div_pos_pos_trivial [of "u - 1000000" 1000000] True assms
    by simp
  then have "u mod 1000000 = u - 1000000"
    using div_mult_mod_eq [of u 1000000] by simp
  with d True assms show ?thesis
    by (simp add: Timestamp_def kMicrosecondsPerSecond_def sdiv_nonneg smod_nonneg)
next
  case False
  with assms show ?thesis by (simp add: Timestamp_def kMicrosecondsPerSecond_def)
qed

lemma normalized_less_micros:
  "normalized a \<Longrightarrow> normalized b \<Longrightarrow> a < b \<longleftrightarrow> micros a < micros b"
  unfolding timestamp_less_iff micros_def normalized_def by linarith

lemma normalized_micros_inject:
  "normalized a \<Longrightarrow> normalized b \<Longrightarrow> micros a = micros b \<longleftrightarrow> a = b"
  by (metis less_irrefl linorder_neqE normalized_less_micros)

section \<open>Properties\<close>

text \<open>Addition and subtraction of timestamps are exact: the value in microseconds of the
  result is the sum (the difference) of the values, for every pair of timestamps, normal form
  or not, whichever branch the carry and the constructor take.\<close>
theorem Timestamp_arith_exact:
  "micros (Timestamp_plus a b) = micros a + micros b
   \<and> micros (Timestamp_minus a b) = micros a - micros b"
proof
  show "micros (Timestamp_plus a b) = micros a + micros b"
    unfolding Timestamp_plus_def micros_Timestamp by (simp add: micros_def)
  show "micros (Timestamp_minus a b) = micros a - micros b"
    by (simp add: Timestamp_minus_def Let_def micros_Timestamp)
      (simp add: micros_def kMicrosecondsPerSecond_def)
qed

text \<open>On timestamps in normal form (\<open>0 \<le> usec < 1000000\<close>) the three-way comparison is
  the sign of the difference of the values, and subtraction stays in normal form and undoes
  addition.\<close>
theorem Timestamp_normal_form_laws:
  assumes "normalized a" "normalized b"
  shows "compareTo a b = sgn (micros a - micros b)
    \<and> normalized (Timestamp_minus a b)
    \<and> Timestamp_minus (Timestamp_plus a b) b = a"
proof (intro conjI)
  show "compareTo a b = sgn (micros a - micros b)"
    using assms unfolding compareTo_def micros_def normalized_def sgn_if by (auto split: if_splits)
  show "normalized (Timestamp_minus a b)"
    using assms
    by (auto simp: Timestamp_minus_def Let_def normalized_def kMicrosecondsPerSecond_def
        Timestamp_below_two_seconds)
  show "Timestamp_minus (Timestamp_plus a b) b = a"
    using assms
    by (cases a; cases b)
      (auto simp: Timestamp_plus_def Timestamp_minus_def Let_def normalized_def
        kMicrosecondsPerSecond_def Timestamp_below_two_seconds)
qed

theorem Timestamp_normal_form_laws_witness:
  "compareTo (TV 5 200) (TV 4 999999) = 1
   \<and> Timestamp_minus (Timestamp_plus (TV 5 200) (TV 4 999999)) (TV 4 999999) = TV 5 200"
  using Timestamp_normal_form_laws [of "TV 5 200" "TV 4 999999"]
  by (simp add: normalized_def micros_def)

text \<open>Addition of two timestamps in normal form leaves normal form in exactly one case,
  when the microsecond fields sum to one full second: the constructor's test is \<open>>\<close> where it
  needs \<open>\<ge>\<close>, so that carry is not taken and the field is 1000000.\<close>
theorem Timestamp_plus_normalized_iff:
  assumes "normalized a" "normalized b"
  shows "normalized (Timestamp_plus a b) \<longleftrightarrow> usec a + usec b \<noteq> 1000000"
  using assms by (auto simp: Timestamp_plus_def normalized_def Timestamp_below_two_seconds)

theorem Timestamp_plus_normalized_iff_witness:
  "normalized (TV 3 500000) \<and> \<not> normalized (Timestamp_plus (TV 3 500000) (TV 2 500000))"
  using Timestamp_plus_normalized_iff [of "TV 3 500000" "TV 2 500000"]
  by (simp add: normalized_def)

end
