(* ===== verification/Buffers.thy ===== *)
theory Buffers
  imports Interfaces
begin

text \<open>
  \<^verbatim>\<open>Liby::Buffer\<close> (\<^verbatim>\<open>src/src/Buffer.h\<close>, \<^verbatim>\<open>src/src/Buffer.cpp\<close>): a contiguous byte buffer
  with a read index, a write index and a capacity. The record has the class's four fields
  (\<open>bufptr\<close> is \<^verbatim>\<open>buffer_\<close>, the others lose their trailing underscore); the storage is the
  block behind \<^verbatim>\<open>buffer_\<close> (\<open>None\<close> for the null pointer) with indeterminate
  cells until they are written. Every \<^verbatim>\<open>memcpy\<close> and \<^verbatim>\<open>memmove\<close> is checked against the blocks
  it touches. A \<^verbatim>\<open>const char *\<close> argument is the list of the bytes it points to, in storage
  other than the buffer's own. \<^verbatim>\<open>off_t\<close> arithmetic does not overflow at the sizes memory
  allows, so the indices are \<open>int\<close>.
\<close>

section \<open>State\<close>

record buf =
  bufptr :: "cell list option"
  leftIndex :: int
  rightIndex :: int
  capacity :: int

definition defaultPrependSize :: int where
  "defaultPrependSize = 0"

definition Buffer_default :: buf where
  "Buffer_default = \<lparr>bufptr = None, leftIndex = 0, rightIndex = 0, capacity = 0\<rparr>"

definition storage :: "buf \<Rightarrow> cell list" where
  "storage b = (case bufptr b of None \<Rightarrow> [] | Some xs \<Rightarrow> xs)"

text \<open>Writes through \<^verbatim>\<open>buffer_\<close>; a write of no byte through the null pointer does nothing.\<close>

definition put_storage :: "int \<Rightarrow> cell list \<Rightarrow> buf \<Rightarrow> buf res" where
  "put_storage off bs b =
     (case bufptr b of
        None \<Rightarrow> if bs = [] then Inr b else Inl Null_deref
      | Some xs \<Rightarrow> bind_res (write_range xs off bs) (\<lambda>ys. Inr (b\<lparr>bufptr := Some ys\<rparr>)))"

definition move_storage :: "int \<Rightarrow> int \<Rightarrow> int \<Rightarrow> buf \<Rightarrow> buf res" where
  "move_storage dst src n b =
     bind_res (read_range (storage b) src n) (\<lambda>bs. put_storage dst bs b)"

definition cstr :: "string \<Rightarrow> cell list" where
  "cstr s = map Some s @ [Some (CHR 0x00)]"

section \<open>Construction\<close>

definition Buffer_alloc :: "int \<Rightarrow> buf res" where
  "Buffer_alloc len =
     bind_res (new_block (len + defaultPrependSize)) (\<lambda>blk.
       Inr \<lparr>bufptr = Some blk, leftIndex = defaultPrependSize,
            rightIndex = defaultPrependSize, capacity = len + defaultPrependSize\<rparr>)"

definition Buffer_of_bytes :: "cell list \<Rightarrow> int \<Rightarrow> buf res" where
  "Buffer_of_bytes src len =
     bind_res (new_block len) (\<lambda>blk.
     bind_res (read_range src 0 len) (\<lambda>bs.
     bind_res (write_range blk 0 bs) (\<lambda>blk'.
       Inr \<lparr>bufptr = Some blk', leftIndex = 0, rightIndex = len, capacity = len\<rparr>)))"

definition Buffer_of_vector :: "cell list \<Rightarrow> buf res" where
  "Buffer_of_vector v =
     (if v = [] then Inl Out_of_bounds else Buffer_of_bytes v (int (length v)))"

definition Buffer_of_string :: "string \<Rightarrow> buf res" where
  "Buffer_of_string s = Buffer_of_bytes (cstr s) (int (length s) + 1)"

definition Buffer_setBuffer :: "cell list \<Rightarrow> int \<Rightarrow> buf \<Rightarrow> buf" where
  "Buffer_setBuffer p len b =
     b\<lparr>bufptr := Some p, leftIndex := 0, rightIndex := len, capacity := len\<rparr>"

definition Buffer_resetBuffer :: "buf \<Rightarrow> buf" where
  "Buffer_resetBuffer b = b\<lparr>bufptr := None\<rparr>"

text \<open>\<^verbatim>\<open>this->swap(that)\<close>: the new \<open>that\<close> and the new \<open>this\<close>.\<close>

definition Buffer_swap :: "buf \<Rightarrow> buf \<Rightarrow> buf \<times> buf" where
  "Buffer_swap that b = (b, that)"

section \<open>Observers\<close>

text \<open>\<^verbatim>\<open>data()\<close> and \<^verbatim>\<open>wdata()\<close> return pointers into the storage: their offsets.\<close>

definition Buffer_data :: "buf \<Rightarrow> int res" where
  "Buffer_data b =
     bind_res (check (bufptr b \<noteq> None \<and> rightIndex b \<ge> leftIndex b) Assertion)
       (\<lambda>_. Inr (leftIndex b))"

definition Buffer_wdata :: "buf \<Rightarrow> int res" where
  "Buffer_wdata b =
     bind_res (check (bufptr b \<noteq> None \<and> rightIndex b \<ge> leftIndex b) Assertion)
       (\<lambda>_. Inr (rightIndex b))"

definition Buffer_empty :: "buf \<Rightarrow> bool" where
  "Buffer_empty b \<longleftrightarrow> leftIndex b = rightIndex b"

definition Buffer_size :: "buf \<Rightarrow> int res" where
  "Buffer_size b =
     bind_res (check (rightIndex b \<ge> leftIndex b) Assertion)
       (\<lambda>_. Inr (rightIndex b - leftIndex b))"

definition Buffer_capacity :: "buf \<Rightarrow> int res" where
  "Buffer_capacity b =
     bind_res (check (capacity b > 0 \<and> rightIndex b \<ge> leftIndex b) Assertion)
       (\<lambda>_. Inr (capacity b))"

definition Buffer_availbleSize :: "buf \<Rightarrow> int res" where
  "Buffer_availbleSize b =
     bind_res (check (bufptr b \<noteq> None \<and> rightIndex b \<ge> leftIndex b) Assertion)
       (\<lambda>_. Inr (capacity b - rightIndex b))"

section \<open>Moving and resizing\<close>

definition Buffer_retrieve_all :: "buf \<Rightarrow> buf" where
  "Buffer_retrieve_all b = b\<lparr>leftIndex := 0, rightIndex := 0\<rparr>"

definition Buffer_forward :: "int \<Rightarrow> buf \<Rightarrow> buf res" where
  "Buffer_forward offset b =
     bind_res (check (offset \<ge> 0) Assertion) (\<lambda>_.
     if offset = 0 then
       (if leftIndex b = 0 then Inr b
        else bind_res (Buffer_size b) (\<lambda>n.
             bind_res (move_storage 0 (leftIndex b) n b) (\<lambda>b1.
               Inr (b1\<lparr>rightIndex := rightIndex b - leftIndex b, leftIndex := 0\<rparr>))))
     else if offset \<ge> rightIndex b then
       Inr (b\<lparr>leftIndex := 0, rightIndex := 0\<rparr>)
     else if offset \<le> leftIndex b then
       bind_res (move_storage (leftIndex b - offset) (leftIndex b)
                   (rightIndex b - leftIndex b) b) (\<lambda>b1.
         Inr (b1\<lparr>leftIndex := leftIndex b - offset, rightIndex := rightIndex b - offset\<rparr>))
     else
       bind_res (move_storage 0 (rightIndex b - offset) (rightIndex b - offset) b) (\<lambda>b1.
         Inr (b1\<lparr>leftIndex := 0, rightIndex := rightIndex b - offset\<rparr>)))"

definition Buffer_backward :: "int \<Rightarrow> buf \<Rightarrow> buf res" where
  "Buffer_backward offset b =
     bind_res (check (offset \<ge> 0) Assertion) (\<lambda>_.
     if offset = 0 then
       (if rightIndex b = capacity b then Inr b
        else bind_res (move_storage (leftIndex b + capacity b - rightIndex b) (leftIndex b)
                         (capacity b - rightIndex b) b) (\<lambda>b1.
               Inr (b1\<lparr>leftIndex := leftIndex b + (capacity b - rightIndex b),
                       rightIndex := capacity b\<rparr>)))
     else if offset \<ge> capacity b - leftIndex b then
       Inr (b\<lparr>leftIndex := capacity b, rightIndex := capacity b\<rparr>)
     else if offset \<le> capacity b - rightIndex b then
       bind_res (move_storage (leftIndex b + offset) (leftIndex b)
                   (rightIndex b - leftIndex b) b) (\<lambda>b1.
         Inr (b1\<lparr>leftIndex := leftIndex b + offset, rightIndex := rightIndex b + offset\<rparr>))
     else
       bind_res (move_storage (leftIndex b + offset) (leftIndex b)
                   (capacity b - leftIndex b - offset) b) (\<lambda>b1.
         Inr (b1\<lparr>leftIndex := leftIndex b + (capacity b - leftIndex b - offset),
                 rightIndex := capacity b\<rparr>)))"

definition Buffer_resize :: "int \<Rightarrow> buf \<Rightarrow> buf res" where
  "Buffer_resize minSize b =
     (if minSize < capacity b then Inr b
      else bind_res (new_block minSize) (\<lambda>newBuffer.
           bind_res (Buffer_size b) (\<lambda>n.
           bind_res (read_range (storage b) (leftIndex b) n) (\<lambda>bs.
           bind_res (write_range newBuffer (leftIndex b) bs) (\<lambda>m.
             Inr (b\<lparr>bufptr := Some m, capacity := minSize\<rparr>))))))"

partial_function (option) reserve_loop :: "int \<Rightarrow> int \<Rightarrow> int option" where
  "reserve_loop newSize minSize =
     (if newSize < minSize then reserve_loop (newSize * 2) minSize else Some newSize)"

definition Buffer_reserve :: "int \<Rightarrow> buf \<Rightarrow> buf res" where
  "Buffer_reserve minSize b =
     (if minSize < capacity b then Inr b
      else case reserve_loop (capacity b * 2) minSize of
             None \<Rightarrow> Inl Diverges
           | Some newSize \<Rightarrow> Buffer_resize newSize b)"

definition Buffer_shrink :: "int \<Rightarrow> buf \<Rightarrow> buf res" where
  "Buffer_shrink len b =
     (if len < capacity b then
        bind_res (new_block len) (\<lambda>newBuffer.
        bind_res (read_range (storage b) 0 len) (\<lambda>bs.
        bind_res (write_range newBuffer 0 bs) (\<lambda>m.
          Inr (b\<lparr>bufptr := Some m, capacity := len, leftIndex := 0, rightIndex := 0\<rparr>))))
      else Inr b)"

definition Buffer_shrink_to_fit :: "int \<Rightarrow> buf \<Rightarrow> buf res" where
  "Buffer_shrink_to_fit len b =
     bind_res (Buffer_size b) (\<lambda>n.
     if len < n then Buffer_shrink n b
     else if len < capacity b - leftIndex b then
       bind_res (new_block (len + leftIndex b)) (\<lambda>newBuffer.
       bind_res (read_range (storage b) (leftIndex b) n) (\<lambda>bs.
       bind_res (write_range newBuffer (leftIndex b) bs) (\<lambda>m.
         Inr (b\<lparr>bufptr := Some m, capacity := len + leftIndex b\<rparr>))))
     else Inr b)"

section \<open>Appending and prepending\<close>

definition Buffer_append_n :: "int \<Rightarrow> buf \<Rightarrow> buf res" where
  "Buffer_append_n n b =
     bind_res (check (n \<ge> 0 \<and> rightIndex b + n \<le> capacity b) Assertion)
       (\<lambda>_. Inr (b\<lparr>rightIndex := rightIndex b + n\<rparr>))"

definition Buffer_safeAppend :: "cell list \<Rightarrow> int \<Rightarrow> buf \<Rightarrow> buf res" where
  "Buffer_safeAppend src len b =
     bind_res (read_range src 0 len) (\<lambda>bs.
     bind_res (put_storage (rightIndex b) bs b) (\<lambda>b1.
       Inr (b1\<lparr>rightIndex := rightIndex b + len\<rparr>)))"

definition Buffer_append_bytes :: "cell list \<Rightarrow> int \<Rightarrow> buf \<Rightarrow> buf res" where
  "Buffer_append_bytes src len b =
     bind_res (check (len > 0) Assertion) (\<lambda>_.
     if Buffer_empty b then
       bind_res (Buffer_of_bytes src len) (\<lambda>buffer. Inr (snd (Buffer_swap buffer b)))
     else
       bind_res
         (if capacity b - rightIndex b \<ge> len then Inr b
          else bind_res (Buffer_size b) (\<lambda>n.
               if len + n \<le> capacity b then Buffer_forward 0 b
               else Buffer_reserve (n + len + leftIndex b) b))
         (Buffer_safeAppend src len))"

definition Buffer_append_buffer :: "buf \<Rightarrow> buf \<Rightarrow> buf res" where
  "Buffer_append_buffer that b =
     (if Buffer_empty that then Inr b
      else bind_res (Buffer_data that) (\<lambda>off.
           bind_res (Buffer_size that) (\<lambda>n.
             Buffer_append_bytes (drop (nat off) (storage that)) n b)))"

definition Buffer_append_string :: "string \<Rightarrow> buf \<Rightarrow> buf res" where
  "Buffer_append_string s b = Buffer_append_bytes (cstr s) (int (length s) + 1) b"

definition Buffer_safePreappend :: "cell list \<Rightarrow> int \<Rightarrow> buf \<Rightarrow> buf res" where
  "Buffer_safePreappend src len b =
     bind_res (Buffer_data b) (\<lambda>off.
     bind_res (read_range src 0 len) (\<lambda>bs.
     bind_res (put_storage (off - len) bs b) (\<lambda>b1.
       Inr (b1\<lparr>leftIndex := leftIndex b - len\<rparr>))))"

definition Buffer_prepend_bytes :: "cell list \<Rightarrow> int \<Rightarrow> buf \<Rightarrow> buf res" where
  "Buffer_prepend_bytes src len b =
     bind_res (check (len > 0) Assertion) (\<lambda>_.
     bind_res
       (if leftIndex b \<ge> len then Inr b
        else bind_res (Buffer_size b) (\<lambda>n.
             if len + n \<le> capacity b then Buffer_backward (len - leftIndex b) b
             else bind_res (Buffer_alloc (len + n)) (\<lambda>nb.
                  bind_res (Buffer_append_buffer b nb) (\<lambda>nb1.
                    Inr (snd (Buffer_swap nb1 b))))))
       (Buffer_safePreappend src len))"

definition Buffer_prepend_buffer :: "buf \<Rightarrow> buf \<Rightarrow> buf res" where
  "Buffer_prepend_buffer that b =
     bind_res (Buffer_data that) (\<lambda>off.
     bind_res (Buffer_size that) (\<lambda>n.
       Buffer_prepend_bytes (drop (nat off) (storage that)) n b))"

definition Buffer_prepend_string :: "string \<Rightarrow> buf \<Rightarrow> buf res" where
  "Buffer_prepend_string s b = Buffer_prepend_bytes (cstr s) (int (length s) + 1) b"

section \<open>Copying and moving whole buffers\<close>

text \<open>\<^verbatim>\<open>this\<close> and \<^verbatim>\<open>that\<close> are two objects; on one and the same the source returns at once.\<close>

definition Buffer_copy :: "buf \<Rightarrow> buf \<Rightarrow> buf \<times> buf" where
  "Buffer_copy that b =
     (b\<lparr>bufptr := bufptr that, leftIndex := leftIndex that,
        rightIndex := rightIndex that, capacity := capacity that\<rparr>,
      that\<lparr>bufptr := None\<rparr>)"

definition Buffer_deepCopy :: "buf \<Rightarrow> buf \<Rightarrow> buf res" where
  "Buffer_deepCopy that b =
     (if Buffer_empty that then Inr (Buffer_retrieve_all b)
      else bind_res (Buffer_size that) (\<lambda>n.
           bind_res (new_block (n + defaultPrependSize)) (\<lambda>blk.
           bind_res (Buffer_data that) (\<lambda>off.
           bind_res (read_range (storage that) off n) (\<lambda>bs.
           bind_res (write_range blk defaultPrependSize bs) (\<lambda>m.
             Inr ((Buffer_resetBuffer b)\<lparr>bufptr := Some m, leftIndex := defaultPrependSize,
                    rightIndex := n + defaultPrependSize,
                    capacity := n + defaultPrependSize\<rparr>)))))))"

definition Buffer_copy_ctor :: "buf \<Rightarrow> buf res" where
  "Buffer_copy_ctor that = Buffer_deepCopy that Buffer_default"

definition Buffer_move_ctor :: "buf \<Rightarrow> buf \<times> buf" where
  "Buffer_move_ctor that = (let (that', this') = Buffer_swap that Buffer_default in (this', that'))"

definition Buffer_assign :: "buf \<Rightarrow> buf \<Rightarrow> buf res" where
  "Buffer_assign that b = Buffer_deepCopy that b"

section \<open>Consuming\<close>

definition Buffer_retrieve :: "int \<Rightarrow> buf \<Rightarrow> buf res" where
  "Buffer_retrieve len b =
     bind_res (check (len \<ge> 0) Assertion) (\<lambda>_.
     bind_res (Buffer_size b) (\<lambda>n.
       if n = 0 then Inr b
       else if len > n then Inr (b\<lparr>leftIndex := 0, rightIndex := 0\<rparr>)
       else Inr (b\<lparr>leftIndex := leftIndex b + len\<rparr>)))"

partial_function (option) Buffer_retriveveAsString ::
    "int \<Rightarrow> buf \<Rightarrow> (cell list \<times> buf) res option" where
  "Buffer_retriveveAsString len b =
     (if len < 0 then Some (Inl Assertion)
      else case Buffer_size b of
             Inl e \<Rightarrow> Some (Inl e)
           | Inr n \<Rightarrow>
               if len = 0 \<or> len > n then Buffer_retriveveAsString n b
               else Some (bind_res (Buffer_data b) (\<lambda>off.
                          bind_res (read_range (storage b) off len) (\<lambda>ret.
                          bind_res (Buffer_retrieve len b) (\<lambda>b1. Inr (ret, b1))))))"

definition Buffer_retriveveAllAsString :: "buf \<Rightarrow> (cell list \<times> buf) res option" where
  "Buffer_retriveveAllAsString b =
     (case Buffer_size b of Inl e \<Rightarrow> Some (Inl e) | Inr n \<Rightarrow> Buffer_retriveveAsString n b)"

text \<open>
  \<^verbatim>\<open>retriveveAllAsVector\<close> and \<^verbatim>\<open>retriveveAsVector\<close> call each other; the first only passes
  \<^verbatim>\<open>size()\<close> on, so the recursive call below is the call through it.
\<close>

partial_function (option) Buffer_retriveveAsVector ::
    "int \<Rightarrow> buf \<Rightarrow> (cell list \<times> buf) res option" where
  "Buffer_retriveveAsVector len b =
     (if len < 0 then Some (Inl Assertion)
      else case Buffer_size b of
             Inl e \<Rightarrow> Some (Inl e)
           | Inr n \<Rightarrow>
               if len = 0 \<or> len > n then Buffer_retriveveAsVector n b
               else Some (bind_res (read_range (storage b) (leftIndex b)
                                     (rightIndex b - leftIndex b)) (\<lambda>ret.
                          bind_res (Buffer_retrieve len b) (\<lambda>b1. Inr (ret, b1)))))"

definition Buffer_retriveveAllAsVector :: "buf \<Rightarrow> (cell list \<times> buf) res option" where
  "Buffer_retriveveAllAsVector b =
     (case Buffer_size b of Inl e \<Rightarrow> Some (Inl e) | Inr n \<Rightarrow> Buffer_retriveveAsVector n b)"

text \<open>\<^verbatim>\<open>take\<close> of an object of \<open>k\<close> bytes: its bytes, or nothing when the buffer holds fewer.\<close>

definition Buffer_take :: "int \<Rightarrow> buf \<Rightarrow> (cell list option \<times> buf) res" where
  "Buffer_take k b =
     bind_res (Buffer_size b) (\<lambda>n.
     if k \<le> n then
       bind_res (Buffer_data b) (\<lambda>off.
       bind_res (read_range (storage b) off k) (\<lambda>e.
       bind_res (Buffer_retrieve k b) (\<lambda>b1. Inr (Some e, b1))))
     else Inr (None, b))"

section \<open>The invariant and the content\<close>

definition buf_ok :: "buf \<Rightarrow> bool" where
  "buf_ok b \<longleftrightarrow> 0 \<le> leftIndex b \<and> leftIndex b \<le> rightIndex b \<and> rightIndex b \<le> capacity b
     \<and> int (length (storage b)) = capacity b"

definition content :: "buf \<Rightarrow> cell list" where
  "content b = take (nat (rightIndex b - leftIndex b)) (drop (nat (leftIndex b)) (storage b))"

text \<open>Buffers in the invariant have a normal form with natural-number indices.\<close>

definition buf_of :: "cell list \<Rightarrow> nat \<Rightarrow> nat \<Rightarrow> buf" where
  "buf_of xs l r =
     \<lparr>bufptr = Some xs, leftIndex = int l, rightIndex = int r, capacity = int (length xs)\<rparr>"

lemma buf_of_sel [simp]:
  "bufptr (buf_of xs l r) = Some xs"
  "leftIndex (buf_of xs l r) = int l"
  "rightIndex (buf_of xs l r) = int r"
  "capacity (buf_of xs l r) = int (length xs)"
  "storage (buf_of xs l r) = xs"
  by (simp_all add: buf_of_def storage_def)

lemma Buffer_default_sel [simp]:
  "bufptr Buffer_default = None"
  "leftIndex Buffer_default = 0"
  "rightIndex Buffer_default = 0"
  "capacity Buffer_default = 0"
  "storage Buffer_default = []"
  by (simp_all add: Buffer_default_def storage_def)

lemma buf_of_upd [simp]:
  "(buf_of xs l r)\<lparr>leftIndex := int l'\<rparr> = buf_of xs l' r"
  "(buf_of xs l r)\<lparr>rightIndex := int r'\<rparr> = buf_of xs l r'"
  "length ys = length xs \<Longrightarrow> (buf_of xs l r)\<lparr>bufptr := Some ys\<rparr> = buf_of ys l r"
  "(buf_of xs l r)\<lparr>leftIndex := int l', rightIndex := int r'\<rparr> = buf_of xs l' r'"
  "(buf_of xs l r)\<lparr>leftIndex := 0, rightIndex := 0\<rparr> = buf_of xs 0 0"
  "(buf_of xs l r)\<lparr>leftIndex := int a + int c\<rparr> = buf_of xs (a + c) r"
  "(buf_of xs l r)\<lparr>rightIndex := int a + int c\<rparr> = buf_of xs l (a + c)"
  "c \<le> a \<Longrightarrow> (buf_of xs l r)\<lparr>rightIndex := int a - int c, leftIndex := 0\<rparr> = buf_of xs 0 (a - c)"
  by (simp_all add: buf_of_def of_nat_diff)

lemma buf_ok_buf_of [simp]: "buf_ok (buf_of xs l r) \<longleftrightarrow> l \<le> r \<and> r \<le> length xs"
  by (simp add: buf_ok_def)

lemma content_buf_of [simp]: "content (buf_of xs l r) = take (r - l) (drop l xs)"
  by (simp add: content_def nat_diff_distrib')

lemma buf_ok_default [simp]: "buf_ok Buffer_default"
  by (simp add: buf_ok_def)

lemma content_default [simp]: "content Buffer_default = []"
  by (simp add: content_def)

lemma buf_ok_cases [consumes 1, case_names null block]:
  assumes "buf_ok b"
  obtains "b = Buffer_default"
    | xs l r where "b = buf_of xs l r" "l \<le> r" "r \<le> length xs"
proof (cases "bufptr b")
  case None
  with assms have "b = Buffer_default"
    by (simp add: buf_ok_def storage_def Buffer_default_def)
  then show thesis by (rule that(1))
next
  case (Some xs)
  with assms have "b = buf_of xs (nat (leftIndex b)) (nat (rightIndex b))"
    by (simp add: buf_ok_def storage_def buf_of_def)
  then show thesis
    using Some assms
    by (intro that(2) [of xs "nat (leftIndex b)" "nat (rightIndex b)"])
      (auto simp: buf_ok_def storage_def)
qed

lemma length_content: "buf_ok b \<Longrightarrow> int (length (content b)) = rightIndex b - leftIndex b"
  by (auto simp: content_def buf_ok_def)

lemma content_Nil_iff: "buf_ok b \<Longrightarrow> content b = [] \<longleftrightarrow> leftIndex b = rightIndex b"
  using length_content [of b] by fastforce

lemma Buffer_empty_iff: "buf_ok b \<Longrightarrow> Buffer_empty b \<longleftrightarrow> content b = []"
  by (simp add: Buffer_empty_def content_Nil_iff)

lemma Buffer_size_ok: "buf_ok b \<Longrightarrow> Buffer_size b = Inr (int (length (content b)))"
  by (simp add: Buffer_size_def length_content) (simp add: buf_ok_def)

lemma buf_ok_bufptr: "buf_ok b \<Longrightarrow> content b \<noteq> [] \<Longrightarrow> bufptr b \<noteq> None"
  by (auto elim!: buf_ok_cases)

lemma Buffer_data_ok: "buf_ok b \<Longrightarrow> content b \<noteq> [] \<Longrightarrow> Buffer_data b = Inr (leftIndex b)"
  by (simp add: Buffer_data_def buf_ok_bufptr) (simp add: buf_ok_def)

text \<open>The bytes at \<^verbatim>\<open>data()\<close>, as a source for \<^verbatim>\<open>memcpy\<close>.\<close>

lemma read_content:
  "buf_ok b \<Longrightarrow> 0 \<le> k \<Longrightarrow> k \<le> int (length (content b)) \<Longrightarrow>
     read_range (storage b) (leftIndex b) k = Inr (take (nat k) (content b))"
  by (erule buf_ok_cases) (auto simp: read_range_def min_absorb2 take_drop nat_le_iff)

lemma read_data_drop:
  "buf_ok b \<Longrightarrow> n = int (length (content b)) \<Longrightarrow>
     read_range (drop (nat (leftIndex b)) (storage b)) 0 n = Inr (content b)"
  by (erule buf_ok_cases) (auto simp: read_range_def nat_diff_distrib')

lemma put_storage_buf_of:
  "a + length bs \<le> length xs \<Longrightarrow>
     put_storage (int a) bs (buf_of xs l r) =
       Inr (buf_of (take a xs @ bs @ drop (a + length bs) xs) l r)"
  by (simp add: put_storage_def write_range_def)

lemma move_storage_buf_of:
  "s + n \<le> length xs \<Longrightarrow> d + n \<le> length xs \<Longrightarrow>
     move_storage (int d) (int s) (int n) (buf_of xs l r) =
       Inr (buf_of (take d xs @ take n (drop s xs) @ drop (d + n) xs) l r)"
  using put_storage_buf_of [of d "take n (drop s xs)" xs l r]
  by (simp add: move_storage_def read_range_def min_absorb2)

lemma put_storage_outside:
  "bs \<noteq> [] \<Longrightarrow> bufptr b \<noteq> None \<Longrightarrow> off < 0 \<Longrightarrow> put_storage off bs b = Inl Out_of_bounds"
  by (auto simp: put_storage_def write_range_def)

section \<open>Lemmas on the operations\<close>

lemma Buffer_of_bytes_ok:
  "0 \<le> len \<Longrightarrow> len \<le> int (length src) \<Longrightarrow>
     Buffer_of_bytes src len = Inr (buf_of (take (nat len) src) 0 (nat len))"
  by (cases len) (simp_all add: Buffer_of_bytes_def new_block_def read_range_def
      write_range_def buf_of_def min_def)

lemma Buffer_alloc_ok:
  "0 \<le> n \<Longrightarrow> Buffer_alloc n = Inr (buf_of (replicate (nat n) None) 0 0)"
  by (simp add: Buffer_alloc_def new_block_def defaultPrependSize_def buf_of_def)

lemma Buffer_safeAppend_ok:
  assumes "buf_ok b" "0 < len" "len \<le> int (length src)" "rightIndex b + len \<le> capacity b"
  shows "\<exists>b'. Buffer_safeAppend src len b = Inr b' \<and> buf_ok b'
    \<and> content b' = content b @ take (nat len) src \<and> capacity b' = capacity b"
  using assms(1)
proof (cases rule: buf_ok_cases)
  case null
  with assms show ?thesis by simp
next
  case (block xs l r)
  from assms obtain n where n: "len = int n" "0 < n" "n \<le> length src"
    by (metis nat_0_le nat_le_iff of_nat_0_less_iff order_less_imp_le)
  with block n assms show ?thesis
    by (simp add: Buffer_safeAppend_def read_range_def put_storage_buf_of min_absorb2 drop_take)
qed

lemma Buffer_forward_0_ok:
  assumes "buf_ok b"
  shows "\<exists>b'. Buffer_forward 0 b = Inr b' \<and> buf_ok b' \<and> content b' = content b
    \<and> leftIndex b' = 0 \<and> rightIndex b' = rightIndex b - leftIndex b \<and> capacity b' = capacity b"
  using assms
proof (cases rule: buf_ok_cases)
  case null
  then show ?thesis by (simp add: Buffer_forward_def)
next
  case (block xs l r)
  then have size: "Buffer_size b = Inr (int (r - l))"
    by (simp add: Buffer_size_def of_nat_diff)
  show ?thesis
  proof (cases "l = 0")
    case True
    with block show ?thesis by (simp add: Buffer_forward_def)
  next
    case False
    have "move_storage 0 (int l) (int (r - l)) b =
        Inr (buf_of (take (r - l) (drop l xs) @ drop (r - l) xs) l r)"
      using move_storage_buf_of [of l "r - l" xs 0] block by simp
    with False block size show ?thesis
      by (simp add: Buffer_forward_def of_nat_diff)
  qed
qed

lemma Buffer_resize_ok:
  assumes "buf_ok b" "capacity b \<le> m"
  shows "\<exists>b'. Buffer_resize m b = Inr b' \<and> buf_ok b' \<and> content b' = content b
    \<and> leftIndex b' = leftIndex b \<and> rightIndex b' = rightIndex b \<and> capacity b' = m"
  using assms(1)
proof (cases rule: buf_ok_cases)
  case null
  with assms have "Buffer_default\<lparr>bufptr := Some (replicate (nat m) None), capacity := m\<rparr> =
      buf_of (replicate (nat m) None) 0 0"
    by (simp add: buf_of_def Buffer_default_def)
  note upd = this
  from null assms show ?thesis
    by (simp add: Buffer_resize_def new_block_def Buffer_size_def read_range_def write_range_def upd)
next
  case (block xs l r)
  from assms block obtain n where n: "m = int n" "length xs \<le> n"
    by (metis buf_of_sel(4) nat_0_le nat_le_iff of_nat_0_le_iff order_trans zle_int)
  let ?ys = "replicate l None @ take (r - l) (drop l xs) @ replicate (n - r) None"
  have upd: "(buf_of xs l r)\<lparr>bufptr := Some ?ys, capacity := int n\<rparr> = buf_of ?ys l r"
    using block n by (simp add: buf_of_def)
  from block n show ?thesis
    by (simp add: Buffer_resize_def Buffer_size_def new_block_def read_range_def write_range_def
        min_absorb2 upd)
qed

lemma reserve_loop_Some:
  "0 < n \<Longrightarrow> \<exists>k. reserve_loop n m = Some k \<and> m \<le> k \<and> n \<le> k"
proof (induction "nat (m - n)" arbitrary: n rule: less_induct)
  case less
  show ?case
  proof (cases "n < m")
    case True
    with less.prems have "nat (m - n * 2) < nat (m - n)" "0 < n * 2" by simp_all
    from less.hyps [OF this] show ?thesis
      using True less.prems by (subst reserve_loop.simps) auto
  next
    case False
    then show ?thesis by (subst reserve_loop.simps) simp
  qed
qed

lemma reserve_loop_zero_None: "0 < m \<Longrightarrow> reserve_loop 0 m = None"
proof (rule ccontr)
  assume "0 < m" "reserve_loop 0 m \<noteq> None"
  then obtain k where ret: "reserve_loop 0 m = Some k" by auto
  have "(0::int) = 0 \<longrightarrow> m \<le> 0"
  proof (rule reserve_loop.raw_induct [where P = "\<lambda>n m k. n = 0 \<longrightarrow> m \<le> 0", OF _ ret])
    fix f :: "int \<Rightarrow> int \<Rightarrow> int option" and n m k
    assume IH: "\<And>n m k. f n m = Some k \<Longrightarrow> n = 0 \<longrightarrow> m \<le> 0"
      and eq: "(if n < m then f (n * 2) m else Some n) = Some k"
    then show "n = 0 \<longrightarrow> m \<le> 0"
      by (cases "n < m") (use IH [of "n * 2" m k] in auto)
  qed
  with \<open>0 < m\<close> show False by simp
qed

lemma Buffer_reserve_ok:
  assumes "buf_ok b" "0 < capacity b"
  shows "\<exists>b'. Buffer_reserve m b = Inr b' \<and> buf_ok b' \<and> content b' = content b
    \<and> leftIndex b' = leftIndex b \<and> rightIndex b' = rightIndex b
    \<and> m \<le> capacity b' \<and> capacity b \<le> capacity b'"
proof (cases "m < capacity b")
  case True
  with assms show ?thesis by (simp add: Buffer_reserve_def)
next
  case False
  from assms obtain k where k: "reserve_loop (capacity b * 2) m = Some k" "m \<le> k"
    "capacity b * 2 \<le> k"
    using reserve_loop_Some [of "capacity b * 2" m] by auto
  with assms have "capacity b \<le> k" by simp
  from Buffer_resize_ok [OF assms(1) this] k False \<open>capacity b \<le> k\<close> show ?thesis
    by (auto simp: Buffer_reserve_def)
qed

lemma Buffer_append_n_ok:
  assumes "buf_ok b" "0 \<le> n" "rightIndex b + n \<le> capacity b"
  shows "\<exists>b'. Buffer_append_n n b = Inr b' \<and> buf_ok b' \<and> content b' =
    content b @ take (nat n) (drop (nat (rightIndex b)) (storage b))"
  using assms(1)
proof (cases rule: buf_ok_cases)
  case null
  with assms show ?thesis
    by (intro exI [of _ Buffer_default]) (simp add: Buffer_append_n_def Buffer_default_def)
next
  case (block xs l r)
  from assms obtain k where "n = int k" by (auto elim: nonneg_int_cases)
  moreover from this block have "take (r + k - l) (drop l xs) =
      take (r - l) (drop l xs) @ take k (drop r xs)"
    using take_add [of "r - l" k "drop l xs"] by simp
  ultimately show ?thesis using block assms by (simp add: Buffer_append_n_def)
qed

lemma Buffer_append_bytes_ok:
  assumes "buf_ok b" "0 < len" "len \<le> int (length src)"
  shows "\<exists>b'. Buffer_append_bytes src len b = Inr b' \<and> buf_ok b'
    \<and> content b' = content b @ take (nat len) src"
proof (cases "content b = []")
  case True
  with assms show ?thesis
    by (simp add: Buffer_append_bytes_def Buffer_empty_iff Buffer_of_bytes_ok Buffer_swap_def
        nat_le_iff)
next
  case False
  let ?n = "int (length (content b))"
  from assms False have pos: "0 < capacity b"
    by (auto simp: content_Nil_iff buf_ok_def)
  let ?room = "if len \<le> capacity b - rightIndex b then Inr b
        else if len + ?n \<le> capacity b then Buffer_forward 0 b
        else Buffer_reserve (?n + len + leftIndex b) b"
  have eq: "Buffer_append_bytes src len b = bind_res ?room (Buffer_safeAppend src len)"
    using assms False by (simp add: Buffer_append_bytes_def Buffer_empty_iff Buffer_size_ok)
  have step: ?thesis
    if "buf_ok b1" "content b1 = content b" "rightIndex b1 + len \<le> capacity b1"
      "?room = Inr b1" for b1
    unfolding eq that(4) bind_res_simps
    using Buffer_safeAppend_ok [OF that(1) assms(2,3) that(3)] that(2) by auto
  consider "len \<le> capacity b - rightIndex b"
    | "\<not> len \<le> capacity b - rightIndex b" "len + ?n \<le> capacity b"
    | "\<not> len \<le> capacity b - rightIndex b" "\<not> len + ?n \<le> capacity b"
    by blast
  then show ?thesis
  proof cases
    case 1
    with assms show ?thesis by (intro step [of b]) auto
  next
    case 2
    from Buffer_forward_0_ok [OF assms(1)] obtain b1 where
      "Buffer_forward 0 b = Inr b1" "buf_ok b1" "content b1 = content b"
      "rightIndex b1 = rightIndex b - leftIndex b" "capacity b1 = capacity b" by blast
    with 2 length_content [OF assms(1)] show ?thesis by (intro step [of b1]) simp_all
  next
    case 3
    from Buffer_reserve_ok [OF assms(1) pos] obtain b1 where
      "Buffer_reserve (?n + len + leftIndex b) b = Inr b1" "buf_ok b1" "content b1 = content b"
      "rightIndex b1 = rightIndex b" "?n + len + leftIndex b \<le> capacity b1" by blast
    with 3 length_content [OF assms(1)] show ?thesis by (intro step [of b1]) simp_all
  qed
qed

lemma Buffer_append_buffer_ok:
  assumes "buf_ok b" "buf_ok that"
  shows "\<exists>b'. Buffer_append_buffer that b = Inr b' \<and> buf_ok b' \<and> content b' = content b @ content that"
proof (cases "content that = []")
  case True
  with assms show ?thesis by (simp add: Buffer_append_buffer_def Buffer_empty_iff)
next
  case False
  let ?src = "drop (nat (leftIndex that)) (storage that)"
  have "take (length (content that)) ?src = content that"
    using read_data_drop [OF assms(2) refl] by (auto simp: read_range_def split: if_splits)
  moreover have "length (content that) \<le> length ?src"
    using assms(2) length_content [OF assms(2)] by (auto simp: buf_ok_def)
  ultimately show ?thesis
    using Buffer_append_bytes_ok [OF assms(1), of "int (length (content that))" ?src] False assms
    by (simp add: Buffer_append_buffer_def Buffer_empty_iff Buffer_data_ok Buffer_size_ok)
qed

lemma Buffer_append_string_ok:
  "buf_ok b \<Longrightarrow> \<exists>b'. Buffer_append_string s b = Inr b' \<and> buf_ok b' \<and> content b' = content b @ cstr s"
  using Buffer_append_bytes_ok [of b "int (length s) + 1" "cstr s"]
  by (simp add: Buffer_append_string_def cstr_def nat_add_distrib)

lemma Buffer_retrieve_ok:
  assumes "buf_ok b" "0 \<le> n"
  shows "\<exists>b'. Buffer_retrieve n b = Inr b' \<and> buf_ok b' \<and> content b' = drop (nat n) (content b)
    \<and> capacity b' = capacity b"
  using assms(1)
proof (cases rule: buf_ok_cases)
  case null
  then show ?thesis using assms by (simp add: Buffer_retrieve_def Buffer_size_def)
next
  case (block xs l r)
  from assms obtain k where k: "n = int k" by (auto elim: nonneg_int_cases)
  show ?thesis
  proof (cases "k \<le> r - l")
    case True
    with block k show ?thesis
      by (auto simp: Buffer_retrieve_def Buffer_size_def drop_take add.commute)
  next
    case False
    with block k show ?thesis
      by (auto simp: Buffer_retrieve_def Buffer_size_def)
  qed
qed

interpretation bq: byte_queue buf_ok content
    "\<lambda>xs. Buffer_append_bytes xs (int (length xs))" Buffer_retrieve
proof
  fix b :: buf and xs :: "cell list"
  assume "buf_ok b" "xs \<noteq> []"
  then show "\<exists>b'. Buffer_append_bytes xs (int (length xs)) b = Inr b' \<and> buf_ok b'
      \<and> content b' = content b @ xs"
    using Buffer_append_bytes_ok [of b "int (length xs)" xs] by simp
next
  fix b :: buf and n :: int
  assume "buf_ok b" "0 \<le> n"
  then show "\<exists>b'. Buffer_retrieve n b = Inr b' \<and> buf_ok b' \<and> content b' = drop (nat n) (content b)"
    using Buffer_retrieve_ok by blast
qed

lemma Buffer_backward_slack:
  assumes "buf_ok b" "0 < k" "k \<le> capacity b - rightIndex b"
  shows "\<exists>b'. Buffer_backward k b = Inr b' \<and> buf_ok b' \<and> content b' = content b
    \<and> leftIndex b' = leftIndex b + k \<and> rightIndex b' = rightIndex b + k
    \<and> capacity b' = capacity b \<and> bufptr b' \<noteq> None"
  using assms(1)
proof (cases rule: buf_ok_cases)
  case null
  with assms show ?thesis by simp
next
  case (block xs l r)
  from assms obtain n where n: "k = int n" "0 < n" by (auto elim: pos_int_cases)
  from assms block n have room: "r + n \<le> length xs" by simp
  have upd: "(buf_of ys l r)\<lparr>leftIndex := int l + int n, rightIndex := int r + int n\<rparr> =
      buf_of ys (l + n) (r + n)" for ys by (simp add: buf_of_def)
  show ?thesis
  proof (cases "length xs \<le> n + l")
    case True
    with room block have "l = r" "length xs = r + n" by auto
    with block n show ?thesis
      by (simp add: Buffer_backward_def buf_of_def content_def buf_ok_def storage_def)
  next
    case False
    with block n room move_storage_buf_of [of l "r - l" xs "l + n" l r] show ?thesis
      by (simp add: Buffer_backward_def of_nat_diff min_absorb2 upd)
  qed
qed

lemma Buffer_forward_slack:
  assumes "buf_ok b" "0 < k" "k \<le> leftIndex b"
  shows "\<exists>b'. Buffer_forward k b = Inr b' \<and> buf_ok b' \<and> content b' = content b
    \<and> leftIndex b' = leftIndex b - k \<and> rightIndex b' = rightIndex b - k \<and> capacity b' = capacity b"
  using assms(1)
proof (cases rule: buf_ok_cases)
  case null
  with assms show ?thesis by simp
next
  case (block xs l r)
  from assms obtain n where n: "k = int n" "0 < n" by (auto elim: pos_int_cases)
  from assms block n have room: "n \<le> l" by simp
  have upd: "(buf_of ys l r)\<lparr>leftIndex := int l - int n, rightIndex := int r - int n\<rparr> =
      buf_of ys (l - n) (r - n)" for ys
    using room block by (simp add: buf_of_def of_nat_diff)
  show ?thesis
  proof (cases "r \<le> n")
    case True
    with room block have "l = r" "n = r" by auto
    with block n show ?thesis by (simp add: Buffer_forward_def)
  next
    case False
    with block n room move_storage_buf_of [of l "r - l" xs "l - n" l r] show ?thesis
      by (auto simp: Buffer_forward_def of_nat_diff min_absorb2 upd)
  qed
qed

lemma Buffer_safePreappend_ok:
  assumes "buf_ok b" "bufptr b \<noteq> None" "0 < len" "len \<le> int (length src)" "len \<le> leftIndex b"
  shows "\<exists>b'. Buffer_safePreappend src len b = Inr b' \<and> buf_ok b'
    \<and> content b' = take (nat len) src @ content b"
  using assms(1)
proof (cases rule: buf_ok_cases)
  case null
  with assms show ?thesis by simp
next
  case (block xs l r)
  from assms obtain n where n: "len = int n" "0 < n" "n \<le> length src"
    by (metis nat_0_le nat_le_iff of_nat_0_less_iff order_less_imp_le)
  from assms block n have room: "n \<le> l" by simp
  have upd: "(buf_of ys l r)\<lparr>leftIndex := int l - int n\<rparr> = buf_of ys (l - n) r" for ys
    using room by (simp add: buf_of_def of_nat_diff)
  have data: "Buffer_data b = Inr (int l)"
    using block by (simp add: Buffer_data_def)
  have put: "put_storage (int l - int n) (take n src) b =
      Inr (buf_of (take (l - n) xs @ take n src @ drop l xs) l r)"
    using put_storage_buf_of [of "l - n" "take n src" xs l r] block n room
    by (simp add: of_nat_diff min_absorb2)
  have "take (r - (l - n)) (take n src @ drop l xs) = take n src @ take (r - l) (drop l xs)"
    using n room block by simp
  with block n room data put show ?thesis
    by (auto simp: Buffer_safePreappend_def read_range_def upd drop_take)
qed

text \<open>
  When neither the room on the left nor the whole capacity suffices, \<^verbatim>\<open>prepend\<close> allocates a
  larger buffer and appends itself to it; but appending to an empty buffer replaces its
  storage by one of exactly the appended size, so there is still no room on the left.
\<close>

lemma Buffer_prepend_grow_fault:
  assumes "buf_ok b" "0 < len" "len \<le> int (length src)" "leftIndex b < len"
    "capacity b < len + int (length (content b))"
  shows "Buffer_prepend_bytes src len b = Inl Out_of_bounds"
proof -
  let ?m = "len + int (length (content b))"
  obtain nb1 where nb1: "Buffer_append_buffer b (buf_of (replicate (nat ?m) None) 0 0) = Inr nb1"
    "leftIndex nb1 = 0" "rightIndex nb1 \<ge> 0" "bufptr nb1 \<noteq> None"
  proof (cases "content b = []")
    case True
    with assms that [of "buf_of (replicate (nat ?m) None) 0 0"] show ?thesis
      by (simp add: Buffer_append_buffer_def Buffer_empty_iff)
  next
    case False
    let ?src = "drop (nat (leftIndex b)) (storage b)"
    have "int (length (content b)) \<le> int (length ?src)"
      using assms(1) length_content [OF assms(1)] by (auto simp: buf_ok_def)
    with False assms that [of "buf_of (take (length (content b)) ?src) 0 (length (content b))"]
    show ?thesis
      by (simp add: Buffer_append_buffer_def Buffer_empty_iff Buffer_data_ok Buffer_size_ok
          Buffer_append_bytes_def Buffer_of_bytes_ok Buffer_swap_def)
  qed
  have nonempty: "take (nat len) src \<noteq> []" using assms by auto
  show ?thesis
    using assms nb1 put_storage_outside [OF nonempty nb1(4)] nonempty
    by (simp add: Buffer_prepend_bytes_def Buffer_size_ok Buffer_alloc_ok Buffer_swap_def
        Buffer_safePreappend_def Buffer_data_def read_range_def)
qed

lemma Buffer_prepend_room_ok:
  assumes "buf_ok b" "0 < len" "len \<le> int (length src)"
    "len \<le> leftIndex b \<or> len + int (length (content b)) \<le> capacity b"
  shows "\<exists>b'. Buffer_prepend_bytes src len b = Inr b' \<and> buf_ok b'
    \<and> content b' = take (nat len) src @ content b"
proof (cases "len \<le> leftIndex b")
  case True
  then have "bufptr b \<noteq> None"
    using assms by (auto elim!: buf_ok_cases)
  with True Buffer_safePreappend_ok [of b len src] assms show ?thesis
    by (simp add: Buffer_prepend_bytes_def)
next
  case False
  have "len - leftIndex b \<le> capacity b - rightIndex b"
    using assms False length_content [OF assms(1)] by simp
  then obtain b1 where b1: "Buffer_backward (len - leftIndex b) b = Inr b1" "buf_ok b1"
    "content b1 = content b" "leftIndex b1 = len" "bufptr b1 \<noteq> None"
    using Buffer_backward_slack [OF assms(1), of "len - leftIndex b"] False by auto
  then have "Buffer_prepend_bytes src len b = Buffer_safePreappend src len b1"
    using False assms by (simp add: Buffer_prepend_bytes_def Buffer_size_ok)
  with Buffer_safePreappend_ok [OF b1(2,5) assms(2,3)] b1 show ?thesis by simp
qed

lemma Buffer_reserve_null:
  "Buffer_reserve m Buffer_default = (if m < 0 then Inr Buffer_default
     else if m = 0 then Inr (buf_of [] 0 0) else Inl Diverges)"
proof -
  consider "m < 0" | "m = 0" | "0 < m" by linarith
  then show ?thesis
  proof cases
    case 2
    have "reserve_loop 0 0 = Some 0" by (subst reserve_loop.simps) simp
    with 2 show ?thesis
      by (simp add: Buffer_reserve_def Buffer_resize_def new_block_def Buffer_size_def
          read_range_def write_range_def buf_of_def Buffer_default_def)
  qed (simp_all add: Buffer_reserve_def reserve_loop_zero_None)
qed

lemma AsString_empty_None:
  assumes "buf_ok b" "content b = []" "0 \<le> len"
  shows "Buffer_retriveveAsString len b = None"
proof (rule ccontr)
  assume "Buffer_retriveveAsString len b \<noteq> None"
  then obtain r where ret: "Buffer_retriveveAsString len b = Some r" by auto
  have "\<not> (0 \<le> len \<and> Buffer_size b = Inr 0)"
  proof (rule Buffer_retriveveAsString.raw_induct
      [where P = "\<lambda>len b r. \<not> (0 \<le> len \<and> Buffer_size b = Inr 0)", OF _ ret], rule notI, elim conjE)
    fix f :: "int \<Rightarrow> buf \<Rightarrow> (cell list \<times> buf) res option" and len b r
    assume IH: "\<And>len b r. f len b = Some r \<Longrightarrow> \<not> (0 \<le> len \<and> Buffer_size b = Inr 0)"
      and eq: "(if len < 0 then Some (Inl Assertion)
      else case Buffer_size b of
             Inl e \<Rightarrow> Some (Inl e)
           | Inr n \<Rightarrow>
               if len = 0 \<or> len > n then f n b
               else Some (bind_res (Buffer_data b) (\<lambda>off.
                          bind_res (read_range (storage b) off len) (\<lambda>ret.
                          bind_res (Buffer_retrieve len b) (\<lambda>b1. Inr (ret, b1)))))) = Some r"
      and "0 \<le> len" "Buffer_size b = Inr 0"
    then have "f 0 b = Some r" by (auto split: if_splits)
    from IH [OF this] \<open>Buffer_size b = Inr 0\<close> show False by simp
  qed
  with assms show False by (simp add: Buffer_size_ok)
qed

lemma AsVector_empty_None:
  assumes "buf_ok b" "content b = []" "0 \<le> len"
  shows "Buffer_retriveveAsVector len b = None"
proof (rule ccontr)
  assume "Buffer_retriveveAsVector len b \<noteq> None"
  then obtain r where ret: "Buffer_retriveveAsVector len b = Some r" by auto
  have "\<not> (0 \<le> len \<and> Buffer_size b = Inr 0)"
  proof (rule Buffer_retriveveAsVector.raw_induct
      [where P = "\<lambda>len b r. \<not> (0 \<le> len \<and> Buffer_size b = Inr 0)", OF _ ret], rule notI, elim conjE)
    fix f :: "int \<Rightarrow> buf \<Rightarrow> (cell list \<times> buf) res option" and len b r
    assume IH: "\<And>len b r. f len b = Some r \<Longrightarrow> \<not> (0 \<le> len \<and> Buffer_size b = Inr 0)"
      and eq: "(if len < 0 then Some (Inl Assertion)
      else case Buffer_size b of
             Inl e \<Rightarrow> Some (Inl e)
           | Inr n \<Rightarrow>
               if len = 0 \<or> len > n then f n b
               else Some (bind_res (read_range (storage b) (leftIndex b)
                                     (rightIndex b - leftIndex b)) (\<lambda>ret.
                          bind_res (Buffer_retrieve len b) (\<lambda>b1. Inr (ret, b1))))) = Some r"
      and "0 \<le> len" "Buffer_size b = Inr 0"
    then have "f 0 b = Some r" by (auto split: if_splits)
    from IH [OF this] \<open>Buffer_size b = Inr 0\<close> show False by simp
  qed
  with assms show False by (simp add: Buffer_size_ok)
qed

lemma AsString_part:
  assumes "buf_ok b" "0 < len" "len \<le> int (length (content b))"
  shows "\<exists>b'. Buffer_retriveveAsString len b = Some (Inr (take (nat len) (content b), b'))
    \<and> buf_ok b' \<and> content b' = drop (nat len) (content b)"
proof -
  from assms have "content b \<noteq> []" by auto
  with assms Buffer_retrieve_ok [of b len] show ?thesis
    by (subst Buffer_retriveveAsString.simps)
      (auto simp: Buffer_size_ok Buffer_data_ok read_content)
qed

lemma AsVector_part:
  assumes "buf_ok b" "0 < len" "len \<le> int (length (content b))"
  shows "\<exists>b'. Buffer_retriveveAsVector len b = Some (Inr (content b, b'))
    \<and> buf_ok b' \<and> content b' = drop (nat len) (content b)"
proof -
  have "read_range (storage b) (leftIndex b) (rightIndex b - leftIndex b) = Inr (content b)"
    using read_content [OF assms(1), of "int (length (content b))"] length_content [OF assms(1)]
    by simp
  with assms Buffer_retrieve_ok [of b len] show ?thesis
    by (subst Buffer_retriveveAsVector.simps) (auto simp: Buffer_size_ok)
qed

text \<open>The length actually consumed: a zero or oversized request means everything.\<close>

definition wanted :: "int \<Rightarrow> buf \<Rightarrow> int" where
  "wanted len b =
     (if len = 0 \<or> len > int (length (content b)) then int (length (content b)) else len)"

lemma AsString_ok:
  assumes "buf_ok b" "content b \<noteq> []" "0 \<le> len"
  shows "\<exists>b'. Buffer_retriveveAsString len b = Some (Inr (take (nat (wanted len b)) (content b), b'))
    \<and> buf_ok b' \<and> content b' = drop (nat (wanted len b)) (content b)"
proof (cases "len = 0 \<or> len > int (length (content b))")
  case True
  then have "Buffer_retriveveAsString len b =
      Buffer_retriveveAsString (int (length (content b))) b"
    using assms by (subst Buffer_retriveveAsString.simps) (simp add: Buffer_size_ok)
  with True AsString_part [OF assms(1), of "int (length (content b))"] assms show ?thesis
    by (simp add: wanted_def)
next
  case False
  with AsString_part [OF assms(1), of len] assms show ?thesis by (simp add: wanted_def)
qed

lemma take_all:
  assumes "buf_ok b" "content b \<noteq> []"
  shows "\<exists>b'. Buffer_retriveveAllAsString b = Some (Inr (content b, b')) \<and> buf_ok b' \<and> content b' = [] \<and> bufptr b' \<noteq> None"
proof -
  let ?n = "int (length (content b))"
  obtain b' where b': "Buffer_retrieve ?n b = Inr b'" "buf_ok b'" "content b' = []"
    using Buffer_retrieve_ok [OF assms(1), of ?n] by auto
  obtain l where l: "Buffer_data b = Inr l" "l = leftIndex b" using Buffer_data_ok [OF assms] by simp
  have r: "read_range (storage b) (leftIndex b) ?n = Inr (content b)"
    using read_content [OF assms(1), of ?n] by simp
  have "Buffer_retriveveAllAsString b = Some (Inr (content b, b'))"
    unfolding Buffer_retriveveAllAsString_def Buffer_size_ok [OF assms(1)]
    by (simp, subst Buffer_retriveveAsString.simps) (use assms b' l r in \<open>simp add: Buffer_size_ok\<close>)
  moreover have "bufptr b' \<noteq> None"
    using b'(1) buf_ok_bufptr [OF assms]
    by (auto simp: Buffer_retrieve_def Buffer_size_ok [OF assms(1)] split: if_splits)
  ultimately show ?thesis using b'(2,3) by blast
qed

lemma AsVector_ok:
  assumes "buf_ok b" "content b \<noteq> []" "0 \<le> len"
  shows "\<exists>b'. Buffer_retriveveAsVector len b = Some (Inr (content b, b'))
    \<and> buf_ok b' \<and> content b' = drop (nat (wanted len b)) (content b)"
proof (cases "len = 0 \<or> len > int (length (content b))")
  case True
  then have "Buffer_retriveveAsVector len b =
      Buffer_retriveveAsVector (int (length (content b))) b"
    using assms by (subst Buffer_retriveveAsVector.simps) (simp add: Buffer_size_ok)
  with True AsVector_part [OF assms(1), of "int (length (content b))"] assms show ?thesis
    by (simp add: wanted_def)
next
  case False
  with AsVector_part [OF assms(1), of len] assms show ?thesis by (simp add: wanted_def)
qed

lemma Buffer_deepCopy_ok:
  assumes "buf_ok that" "buf_ok b"
  shows "\<exists>b'. Buffer_deepCopy that b = Inr b' \<and> buf_ok b' \<and> content b' = content that"
proof (cases "content that = []")
  case True
  have "buf_ok (Buffer_retrieve_all b) \<and> content (Buffer_retrieve_all b) = []"
    using assms(2) by (simp add: Buffer_retrieve_all_def buf_ok_def content_def storage_def)
  with True assms show ?thesis by (simp add: Buffer_deepCopy_def Buffer_empty_iff)
next
  case False
  let ?n = "int (length (content that))"
  have "read_range (storage that) (leftIndex that) ?n = Inr (content that)"
    using read_content [OF assms(1), of ?n] by simp
  moreover have upd: "(Buffer_resetBuffer b)\<lparr>bufptr := Some (content that), leftIndex := 0,
      rightIndex := ?n, capacity := ?n\<rparr> = buf_of (content that) 0 (length (content that))"
    by (simp add: Buffer_resetBuffer_def buf_of_def)
  ultimately show ?thesis
    using False assms
    by (simp add: Buffer_deepCopy_def Buffer_empty_iff Buffer_size_ok Buffer_data_ok new_block_def
        write_range_def defaultPrependSize_def upd)
qed

lemma Buffer_shrink_to_fit_small:
  assumes "buf_ok b" "0 \<le> len" "len < int (length (content b))"
  shows "\<exists>b'. Buffer_shrink_to_fit len b = Inr b' \<and> buf_ok b'
    \<and> (content b' = content b \<and> int (length (content b)) = capacity b
       \<or> content b' = [] \<and> int (length (content b)) < capacity b)"
proof (cases "int (length (content b)) < capacity b")
  case True
  with assms show ?thesis
    by (simp add: Buffer_shrink_to_fit_def Buffer_size_ok Buffer_shrink_def new_block_def
        read_range_def write_range_def)
      (simp add: buf_ok_def content_def storage_def)
next
  case False
  with assms length_content [OF assms(1)] show ?thesis
    by (simp add: Buffer_shrink_to_fit_def Buffer_size_ok Buffer_shrink_def)
      (simp add: buf_ok_def)
qed

section \<open>Properties\<close>

text \<open>C1. A buffer is a first-in first-out byte queue: from any well-formed buffer, every sequence
  of appends (of at least one byte) and retrieves runs without a fault, keeps the invariant, and
  the content is what the same operations give on a plain list, whichever of in-place append,
  compaction or reallocation each append takes.\<close>
theorem Buffer_refines_byte_queue:
  assumes "buf_ok b" "Put [] \<notin> set ops"
  shows "\<exists>b'. run_ops (\<lambda>xs. Buffer_append_bytes xs (int (length xs))) Buffer_retrieve ops b = Inr b'
    \<and> buf_ok b' \<and> content b' = spec_ops ops (content b)"
  using bq.run_refines [OF assms] .

theorem Buffer_refines_byte_queue_witness:
  "\<exists>b'. run_ops (\<lambda>xs. Buffer_append_bytes xs (int (length xs))) Buffer_retrieve
      [Put [Some CHR ''a'', Some CHR ''b''], Get 1, Put [Some CHR ''c'']] Buffer_default = Inr b'
    \<and> buf_ok b' \<and> content b' = [Some CHR ''b'', Some CHR ''c'']"
  using Buffer_refines_byte_queue [of Buffer_default
      "[Put [Some CHR ''a'', Some CHR ''b''], Get 1, Put [Some CHR ''c'']]"]
  by simp

text \<open>Appending another buffer appends its content (nothing when it is empty), and appending a
  \<^verbatim>\<open>std::string\<close> appends its characters followed by a terminating NUL byte, on every
  well-formed buffer.\<close>
theorem Buffer_append_variants:
  assumes "buf_ok b" "buf_ok that"
  shows "(\<exists>b'. Buffer_append_buffer that b = Inr b' \<and> buf_ok b' \<and> content b' = content b @ content that)
    \<and> (\<exists>b'. Buffer_append_string s b = Inr b' \<and> buf_ok b'
         \<and> content b' = content b @ map Some s @ [Some (CHR 0x00)])"
  using Buffer_append_buffer_ok [OF assms] Buffer_append_string_ok [OF assms(1)]
  by (simp add: cstr_def)

theorem Buffer_append_variants_witness:
  "\<exists>b'. Buffer_append_string ''GET'' (buf_of [Some CHR ''x'', None] 0 1) = Inr b'
    \<and> content b' = [Some CHR ''x'', Some CHR ''G'', Some CHR ''E'', Some CHR ''T'', Some (CHR 0x00)]"
  using Buffer_append_variants [of "buf_of [Some CHR ''x'', None] 0 1" Buffer_default "''GET''"]
  by auto

text \<open>\<^verbatim>\<open>prepend\<close> puts the bytes in front of the content exactly when there is room, on the
  left or by shifting right within the capacity. When the buffer has to grow it writes before
  the start of its new storage: an out-of-bounds write, on every well-formed buffer.\<close>
theorem Buffer_prepend_iff_room:
  assumes "buf_ok b" "0 < len" "len \<le> int (length src)"
  shows "if len \<le> leftIndex b \<or> len + int (length (content b)) \<le> capacity b
    then \<exists>b'. Buffer_prepend_bytes src len b = Inr b' \<and> buf_ok b'
           \<and> content b' = take (nat len) src @ content b
    else Buffer_prepend_bytes src len b = Inl Out_of_bounds"
  using Buffer_prepend_room_ok [OF assms] Buffer_prepend_grow_fault [OF assms] by auto

theorem Buffer_prepend_iff_room_witness:
  "Buffer_prepend_bytes [Some CHR ''a''] 1 (buf_of [Some CHR ''b''] 0 1) = Inl Out_of_bounds
   \<and> (\<exists>b'. Buffer_prepend_bytes [Some CHR ''a''] 1 (buf_of [Some CHR ''b'', None] 0 1) = Inr b'
        \<and> content b' = [Some CHR ''a'', Some CHR ''b''])"
  using Buffer_prepend_iff_room [of "buf_of [Some CHR ''b''] 0 1" 1 "[Some CHR ''a'']"]
    Buffer_prepend_iff_room [of "buf_of [Some CHR ''b'', None] 0 1" 1 "[Some CHR ''a'']"]
  by auto



text \<open>Consuming as a string returns the first \<open>wanted\<close> bytes and removes them; consuming as a
  vector returns the whole content but removes only \<open>wanted\<close> bytes. On an empty buffer neither
  returns: each calls itself with the size 0 for ever.\<close>
theorem Buffer_retriveve_as:
  assumes "buf_ok b" "0 \<le> len"
  shows "if content b = [] then Buffer_retriveveAsString len b = None
             \<and> Buffer_retriveveAllAsString b = None \<and> Buffer_retriveveAsVector len b = None
    else (\<exists>b'. Buffer_retriveveAsString len b = Some (Inr (take (nat (wanted len b)) (content b), b'))
             \<and> buf_ok b' \<and> content b' = drop (nat (wanted len b)) (content b))
       \<and> (\<exists>b'. Buffer_retriveveAsVector len b = Some (Inr (content b, b'))
             \<and> buf_ok b' \<and> content b' = drop (nat (wanted len b)) (content b))"
  using AsString_ok [OF assms(1) _ assms(2)] AsVector_ok [OF assms(1) _ assms(2)]
    AsString_empty_None [OF assms(1) _ assms(2)] AsVector_empty_None [OF assms(1) _ assms(2)]
    AsString_empty_None [OF assms(1), of 0]
  by (auto simp: Buffer_retriveveAllAsString_def Buffer_size_ok assms(1))

theorem Buffer_retriveve_as_witness:
  "Buffer_retriveveAllAsString (buf_of [None] 0 0) = None
   \<and> (\<exists>b'. Buffer_retriveveAsVector 1 (buf_of [Some CHR ''a'', Some CHR ''b''] 0 2)
          = Some (Inr ([Some CHR ''a'', Some CHR ''b''], b')) \<and> content b' = [Some CHR ''b''])"
  using Buffer_retriveve_as [of "buf_of [None] 0 0" 0]
    Buffer_retriveve_as [of "buf_of [Some CHR ''a'', Some CHR ''b''] 0 2" 1]
  by (auto simp: wanted_def)

text \<open>Copy construction and assignment give a well-formed buffer with the same content whatever
  the target held, and move construction hands the whole state over and leaves the empty buffer.\<close>
theorem Buffer_copies:
  assumes "buf_ok that" "buf_ok b"
  shows "(\<exists>b'. Buffer_assign that b = Inr b' \<and> buf_ok b' \<and> content b' = content that)
    \<and> (\<exists>b'. Buffer_copy_ctor that = Inr b' \<and> buf_ok b' \<and> content b' = content that)
    \<and> Buffer_move_ctor that = (that, Buffer_default)"
  using Buffer_deepCopy_ok [OF assms] Buffer_deepCopy_ok [OF assms(1) buf_ok_default]
  by (simp add: Buffer_assign_def Buffer_copy_ctor_def Buffer_move_ctor_def Buffer_swap_def)

theorem Buffer_copies_witness:
  "\<exists>b'. Buffer_assign (buf_of [None, Some CHR ''k''] 1 2) Buffer_default = Inr b'
    \<and> content b' = [Some CHR ''k'']"
  using Buffer_copies [of "buf_of [None, Some CHR ''k''] 1 2" Buffer_default] by auto

text \<open>Sliding within the free room (\<^verbatim>\<open>forward\<close> by at most the left index, \<^verbatim>\<open>backward\<close> by at
  most the room on the right) and compacting with \<^verbatim>\<open>forward(0)\<close> keep the content and the
  capacity.\<close>
theorem Buffer_slide_keeps_content:
  assumes "buf_ok b"
  shows "(0 \<le> k \<and> k \<le> leftIndex b \<longrightarrow>
      (\<exists>b'. Buffer_forward k b = Inr b' \<and> buf_ok b' \<and> content b' = content b
        \<and> capacity b' = capacity b \<and> leftIndex b' = (if k = 0 then 0 else leftIndex b - k)))
    \<and> (0 < k \<and> k \<le> capacity b - rightIndex b \<longrightarrow>
      (\<exists>b'. Buffer_backward k b = Inr b' \<and> buf_ok b' \<and> content b' = content b
        \<and> capacity b' = capacity b \<and> leftIndex b' = leftIndex b + k))"
  using Buffer_forward_0_ok [OF assms] Buffer_forward_slack [OF assms, of k]
    Buffer_backward_slack [OF assms, of k]
  by (cases "k = 0") fastforce+

theorem Buffer_slide_keeps_content_witness:
  "\<exists>b'. Buffer_forward 1 (buf_of [None, Some CHR ''q'', None] 1 2) = Inr b'
    \<and> content b' = [Some CHR ''q''] \<and> leftIndex b' = 0"
  using Buffer_slide_keeps_content [of "buf_of [None, Some CHR ''q'', None] 1 2" 1] by auto

text \<open>\<^verbatim>\<open>shrink_to_fit\<close> with a length below the size (its default is 0) keeps the content only
  when the buffer is already full; otherwise it drops every byte of it.\<close>
theorem Buffer_shrink_to_fit_drops:
  assumes "buf_ok b" "0 \<le> len" "len < int (length (content b))"
  shows "\<exists>b'. Buffer_shrink_to_fit len b = Inr b' \<and> buf_ok b'
    \<and> content b' = (if int (length (content b)) = capacity b then content b else [])"
  using Buffer_shrink_to_fit_small [OF assms] by auto

theorem Buffer_shrink_to_fit_drops_witness:
  "\<exists>b'. Buffer_shrink_to_fit 0 (buf_of [Some CHR ''a'', None] 0 1) = Inr b' \<and> content b' = []"
  using Buffer_shrink_to_fit_drops [of "buf_of [Some CHR ''a'', None] 0 1" 0] by auto

text \<open>
  The remaining branches of \<^verbatim>\<open>forward\<close> and \<^verbatim>\<open>backward\<close> copy the wrong range: a shift past the
  left index reads from \<open>rightIndex - offset\<close> instead of \<open>offset\<close>, and \<^verbatim>\<open>backward(0)\<close> copies
  \<open>capacity - rightIndex\<close> bytes instead of the content.
\<close>

lemma Buffer_forward_past_left_faults:
  "Buffer_forward 1 (buf_of (map Some ''abcd'') 0 4) = Inl Out_of_bounds"
  by (simp add: Buffer_forward_def move_storage_def read_range_def)

lemma Buffer_backward_0_garbles:
  "\<exists>b'. Buffer_backward 0 (buf_of (map Some ''abc'' @ [None]) 0 3) = Inr b'
     \<and> content b' = [Some CHR ''a'', Some CHR ''c'', None]"
  by (simp add: Buffer_backward_def move_storage_def read_range_def put_storage_def
      write_range_def content_def storage_def buf_of_def)

end
