(* ===== verification/Binary_Heap.thy ===== *)
theory Binary_Heap
  imports Interfaces
begin

text \<open>
  \<^verbatim>\<open>Liby::BinaryHeap\<close> (\<^verbatim>\<open>src/src/BinaryHeap.h\<close>): the array heap under the timer queue. The
  record holds the \<^verbatim>\<open>std::vector\<close> and the element count; slot 0 is unused. \<^verbatim>\<open>operator<\<close> of the
  element type and its default value \<^verbatim>\<open>T()\<close> are the arguments \<open>lt\<close> and \<open>dflt\<close>. Counts stay
  below \<open>2 ^ 32\<close> (a vector of that many elements does not fit in memory), so \<^verbatim>\<open>size_type\<close> is
  \<open>nat\<close>; the unsigned wrap of \<^verbatim>\<open>heap.size() - 1\<close> on an empty vector is written out.
\<close>

section \<open>State and operations\<close>

record 'a bheap =
  heap :: "'a list"
  hsize :: nat

definition BinaryHeap_new :: "'a \<Rightarrow> nat \<Rightarrow> 'a bheap" where
  "BinaryHeap_new dflt cap = \<lparr>heap = replicate cap dflt, hsize = 0\<rparr>"

definition BinaryHeap_empty :: "'a bheap \<Rightarrow> bool" where
  "BinaryHeap_empty h \<longleftrightarrow> hsize h = 0"

definition BinaryHeap_find_min :: "'a bheap \<Rightarrow> 'a res" where
  "BinaryHeap_find_min h =
     (if 1 < length (heap h) then Inr (heap h ! 1) else Inl Out_of_bounds)"

text \<open>
  The loop of \<^verbatim>\<open>insert\<close>: \<open>hole\<close> moves up while \<open>x\<close> precedes the parent of the hole, each
  parent dropping into the hole it leaves; \<open>x\<close> is stored last.
\<close>

fun percolate_up :: "('a \<Rightarrow> 'a \<Rightarrow> bool) \<Rightarrow> 'a \<Rightarrow> nat \<Rightarrow> 'a list \<Rightarrow> 'a list" where
  "percolate_up lt x hole xs =
     (if hole > 1 \<and> lt x (xs ! (hole div 2))
      then percolate_up lt x (hole div 2) (xs[hole := xs ! (hole div 2)])
      else xs[hole := x])"

declare percolate_up.simps [simp del]

definition BinaryHeap_insert ::
    "('a \<Rightarrow> 'a \<Rightarrow> bool) \<Rightarrow> 'a \<Rightarrow> 'a \<Rightarrow> 'a bheap \<Rightarrow> 'a bheap res" where
  "BinaryHeap_insert lt dflt x h =
     (let xs = (if hsize h = (if heap h = [] then 2 ^ 64 - 1 else length (heap h) - 1)
                then heap h @ replicate (length (heap h)) dflt else heap h);
          hole = hsize h + 1
      in if hole < length xs
         then Inr \<lparr>heap = percolate_up lt x hole xs, hsize = hole\<rparr>
         else Inl Out_of_bounds)"

text \<open>
  The loop of \<^verbatim>\<open>percolate_down\<close>: the smaller child moves up into the hole while it precedes
  \<open>tmp\<close>. Every caller starts at an index of at least 1.
\<close>

function percolate_down_loop ::
    "('a \<Rightarrow> 'a \<Rightarrow> bool) \<Rightarrow> nat \<Rightarrow> 'a \<Rightarrow> nat \<Rightarrow> 'a list \<Rightarrow> 'a list" where
  "percolate_down_loop lt n tmp hole xs =
     (if 0 < hole \<and> hole * 2 \<le> n then
        (let child = (if hole * 2 \<noteq> n \<and> lt (xs ! (hole * 2 + 1)) (xs ! (hole * 2))
                      then hole * 2 + 1 else hole * 2)
         in if lt (xs ! child) tmp
            then percolate_down_loop lt n tmp child (xs[hole := xs ! child])
            else xs[hole := tmp])
      else xs[hole := tmp])"
  by pat_completeness auto
termination
  by (relation "measure (\<lambda>(lt, n, tmp, hole, xs). n - hole)") (auto split: if_splits)

declare percolate_down_loop.simps [simp del]

definition percolate_down :: "('a \<Rightarrow> 'a \<Rightarrow> bool) \<Rightarrow> nat \<Rightarrow> nat \<Rightarrow> 'a list \<Rightarrow> 'a list" where
  "percolate_down lt n hole xs = percolate_down_loop lt n (xs ! hole) hole xs"

definition BinaryHeap_delete_min ::
    "('a \<Rightarrow> 'a \<Rightarrow> bool) \<Rightarrow> 'a \<Rightarrow> 'a bheap \<Rightarrow> 'a bheap res" where
  "BinaryHeap_delete_min lt dflt h =
     (if BinaryHeap_empty h then Inl Terminate
      else if hsize h < length (heap h) then
        (let xs = (heap h)[1 := heap h ! hsize h]; n = hsize h - 1
         in Inr \<lparr>heap = (percolate_down lt n 1 xs)[n + 1 := dflt], hsize = n\<rparr>)
      else Inl Out_of_bounds)"

text \<open>The overload that moves the minimum out leaves the vacated last slot as it is.\<close>

definition BinaryHeap_delete_min_into ::
    "('a \<Rightarrow> 'a \<Rightarrow> bool) \<Rightarrow> 'a \<Rightarrow> 'a bheap \<Rightarrow> ('a \<times> 'a bheap) res" where
  "BinaryHeap_delete_min_into lt dflt h =
     (if BinaryHeap_empty h then Inl Terminate
      else if hsize h < length (heap h) then
        (let x = heap h ! 1; xs = (heap h)[1 := dflt]; xs' = xs[1 := xs ! hsize h]; n = hsize h - 1
         in Inr (x, \<lparr>heap = percolate_down lt n 1 xs', hsize = n\<rparr>))
      else Inl Out_of_bounds)"

fun first_index :: "('a \<Rightarrow> bool) \<Rightarrow> 'a list \<Rightarrow> nat \<Rightarrow> nat \<Rightarrow> nat" where
  "first_index f xs i 0 = i"
| "first_index f xs i (Suc k) = (if f (xs ! i) then i else first_index f xs (i + 1) k)"

definition BinaryHeap_erase_if ::
    "('a \<Rightarrow> 'a \<Rightarrow> bool) \<Rightarrow> 'a \<Rightarrow> ('a \<Rightarrow> bool) \<Rightarrow> 'a bheap \<Rightarrow> 'a bheap res" where
  "BinaryHeap_erase_if lt dflt f h =
     (if BinaryHeap_empty h then Inr h
      else if hsize h < length (heap h) then
        (let i = first_index f (heap h) 1 (hsize h)
         in if i = hsize h + 1 then Inr h
            else let xs = (heap h)[i := heap h ! hsize h]; n = hsize h - 1
                 in Inr \<lparr>heap = (percolate_down lt n i xs)[n + 1 := dflt], hsize = n\<rparr>)
      else Inl Out_of_bounds)"

definition BinaryHeap_clear :: "'a bheap \<Rightarrow> 'a bheap" where
  "BinaryHeap_clear h = \<lparr>heap = [], hsize = 0\<rparr>"

fun build_loop :: "('a \<Rightarrow> 'a \<Rightarrow> bool) \<Rightarrow> nat \<Rightarrow> nat \<Rightarrow> 'a list \<Rightarrow> 'a list" where
  "build_loop lt n 0 xs = xs"
| "build_loop lt n (Suc i) xs = build_loop lt n i (percolate_down lt n (Suc i) xs)"

definition BinaryHeap_build :: "('a \<Rightarrow> 'a \<Rightarrow> bool) \<Rightarrow> 'a bheap \<Rightarrow> 'a bheap" where
  "BinaryHeap_build lt h = h\<lparr>heap := build_loop lt (hsize h) (hsize h div 2) (heap h)\<rparr>"

fun copy_items :: "'a list \<Rightarrow> nat \<Rightarrow> 'a list \<Rightarrow> 'a list" where
  "copy_items [] i xs = xs"
| "copy_items (y # ys) i xs = copy_items ys (i + 1) (xs[i + 1 := y])"

definition BinaryHeap_of_vector :: "('a \<Rightarrow> 'a \<Rightarrow> bool) \<Rightarrow> 'a \<Rightarrow> 'a list \<Rightarrow> 'a bheap" where
  "BinaryHeap_of_vector lt dflt items =
     BinaryHeap_build lt
       \<lparr>heap = copy_items items 0 (replicate (length items + 10) dflt), hsize = length items\<rparr>"

definition BinaryHeap_of_list :: "('a \<Rightarrow> 'a \<Rightarrow> bool) \<Rightarrow> 'a \<Rightarrow> 'a list \<Rightarrow> 'a bheap res" where
  "BinaryHeap_of_list lt dflt l =
     insert_all (BinaryHeap_insert lt dflt) l (BinaryHeap_new dflt (length l + 10))"

section \<open>Reference sifting by exchanges\<close>

text \<open>
  The textbook loops exchange neighbours; the source's loops move a hole and store the element
  once. They agree.
\<close>

definition exchange :: "nat \<Rightarrow> nat \<Rightarrow> 'a list \<Rightarrow> 'a list" where
  "exchange i j xs = xs[i := xs ! j, j := xs ! i]"

fun sift_up :: "('a \<Rightarrow> 'a \<Rightarrow> bool) \<Rightarrow> nat \<Rightarrow> 'a list \<Rightarrow> 'a list" where
  "sift_up lt i xs =
     (if i > 1 \<and> lt (xs ! i) (xs ! (i div 2))
      then sift_up lt (i div 2) (exchange i (i div 2) xs) else xs)"

declare sift_up.simps [simp del]

definition smaller_child :: "('a \<Rightarrow> 'a \<Rightarrow> bool) \<Rightarrow> nat \<Rightarrow> nat \<Rightarrow> 'a list \<Rightarrow> nat" where
  "smaller_child lt n i xs =
     (if i * 2 \<noteq> n \<and> lt (xs ! (i * 2 + 1)) (xs ! (i * 2)) then i * 2 + 1 else i * 2)"

function sift_down :: "('a \<Rightarrow> 'a \<Rightarrow> bool) \<Rightarrow> nat \<Rightarrow> nat \<Rightarrow> 'a list \<Rightarrow> 'a list" where
  "sift_down lt n i xs =
     (if 0 < i \<and> i * 2 \<le> n \<and> lt (xs ! smaller_child lt n i xs) (xs ! i)
      then sift_down lt n (smaller_child lt n i xs) (exchange i (smaller_child lt n i xs) xs)
      else xs)"
  by pat_completeness auto
termination
  by (relation "measure (\<lambda>(lt, n, i, xs). n - i)") (auto simp: smaller_child_def)

declare sift_down.simps [simp del]

lemma length_exchange [simp]: "length (exchange i j xs) = length xs"
  by (simp add: exchange_def)

lemma nth_exchange:
  "i < length xs \<Longrightarrow> j < length xs \<Longrightarrow>
     exchange i j xs ! k = (if k = j then xs ! i else if k = i then xs ! j else xs ! k)"
  by (simp add: exchange_def nth_list_update)

lemma mset_exchange: "i < length xs \<Longrightarrow> j < length xs \<Longrightarrow> mset (exchange i j xs) = mset xs"
  by (simp add: exchange_def mset_swap)

lemma percolate_up_eq_sift_up:
  "hole < length xs \<Longrightarrow> percolate_up lt x hole xs = sift_up lt hole (xs[hole := x])"
proof (induction lt x hole xs rule: percolate_up.induct)
  case (1 lt x hole xs)
  let ?p = "hole div 2"
  show ?case
  proof (cases "hole > 1 \<and> lt x (xs ! ?p)")
    case True
    with "1.prems" have "?p < length xs" "?p \<noteq> hole" by auto
    then have "(xs[hole := xs ! ?p])[?p := x] = exchange hole ?p (xs[hole := x])"
      using "1.prems" by (simp add: exchange_def list_update_swap)
    with True "1.IH" "1.prems" \<open>?p < length xs\<close> \<open>?p \<noteq> hole\<close> show ?thesis
      by (subst percolate_up.simps, subst sift_up.simps) simp
  next
    case False
    with "1.prems" show ?thesis
      by (subst percolate_up.simps, subst sift_up.simps) auto
  qed
qed

lemma percolate_down_loop_eq_sift_down:
  "n < length xs \<Longrightarrow> hole < length xs \<Longrightarrow>
     percolate_down_loop lt n tmp hole xs = sift_down lt n hole (xs[hole := tmp])"
proof (induction lt n tmp hole xs rule: percolate_down_loop.induct)
  case (1 lt n tmp hole xs)
  show ?case
  proof (cases "0 < hole \<and> hole * 2 \<le> n")
    case True
    let ?c = "smaller_child lt n hole xs"
    have c: "?c < length xs" "?c \<noteq> hole" "0 < ?c"
      using True "1.prems" by (auto simp: smaller_child_def)
    have same: "smaller_child lt n hole (xs[hole := tmp]) = ?c"
      using True by (simp add: smaller_child_def)
    have ex: "(xs[hole := xs ! ?c])[?c := tmp] = exchange hole ?c (xs[hole := tmp])"
      using c "1.prems" by (simp add: exchange_def list_update_swap)
    show ?thesis
    proof (cases "lt (xs ! ?c) tmp")
      case less: True
      have "percolate_down_loop lt n tmp ?c (xs[hole := xs ! ?c]) =
          sift_down lt n ?c ((xs[hole := xs ! ?c])[?c := tmp])"
        using "1.IH" [OF True] less "1.prems" c by (simp add: smaller_child_def)
      with True less c same ex "1.prems" show ?thesis
        by (subst percolate_down_loop.simps, subst sift_down.simps)
          (simp add: smaller_child_def [symmetric] Let_def del: One_nat_def)
    next
      case less: False
      with True c same "1.prems" show ?thesis
        by (subst percolate_down_loop.simps, subst sift_down.simps)
          (simp add: smaller_child_def [symmetric] Let_def del: One_nat_def)
    qed
  next
    case False
    then show ?thesis
      by (subst percolate_down_loop.simps, subst sift_down.simps) auto
  qed
qed

lemma percolate_down_eq_sift_down:
  "n < length xs \<Longrightarrow> hole < length xs \<Longrightarrow> percolate_down lt n hole xs = sift_down lt n hole xs"
  by (simp add: percolate_down_def percolate_down_loop_eq_sift_down)

section \<open>Heap order\<close>

text \<open>
  \<open>ord_from lt k n xs\<close>: among the slots \<open>1..n\<close>, no element precedes its parent, for the
  parents from index \<open>k\<close> on. \<open>k = 1\<close> is the heap order.
\<close>

definition ord_from :: "('a \<Rightarrow> 'a \<Rightarrow> bool) \<Rightarrow> nat \<Rightarrow> nat \<Rightarrow> 'a list \<Rightarrow> bool" where
  "ord_from lt k n xs \<longleftrightarrow> (\<forall>j \<in> {2..n}. k \<le> j div 2 \<longrightarrow> \<not> lt (xs ! j) (xs ! (j div 2)))"

lemma ord_fromD:
  "ord_from lt k n xs \<Longrightarrow> 2 \<le> j \<Longrightarrow> j \<le> n \<Longrightarrow> k \<le> j div 2 \<Longrightarrow> \<not> lt (xs ! j) (xs ! (j div 2))"
  by (simp add: ord_from_def)

context weak_order
begin

definition slots_in :: "nat \<Rightarrow> 'a list \<Rightarrow> bool" where
  "slots_in n xs \<longleftrightarrow> n < length xs \<and> (\<forall>k \<in> {1..n}. xs ! k \<in> A)"

lemma slots_inD: "slots_in n xs \<Longrightarrow> 1 \<le> k \<Longrightarrow> k \<le> n \<Longrightarrow> xs ! k \<in> A"
  by (simp add: slots_in_def)

lemma slots_in_exchange:
  "slots_in n xs \<Longrightarrow> 1 \<le> i \<Longrightarrow> i \<le> n \<Longrightarrow> 1 \<le> j \<Longrightarrow> j \<le> n \<Longrightarrow> slots_in n (exchange i j xs)"
  by (auto simp: slots_in_def nth_exchange)

text \<open>
  All but the element at \<open>i\<close> are in order with their parents, and the children of \<open>i\<close> with its parent: what
  \<open>sift_up\<close> keeps while the element moves up.
\<close>

definition up_ordered :: "nat \<Rightarrow> nat \<Rightarrow> 'a list \<Rightarrow> bool" where
  "up_ordered n i xs \<longleftrightarrow> slots_in n xs \<and> 1 \<le> i \<and> i \<le> n
     \<and> (\<forall>j. 2 \<le> j \<and> j \<le> n \<and> j \<noteq> i \<longrightarrow> \<not> lt (xs ! j) (xs ! (j div 2)))
     \<and> (\<forall>c. 1 < i \<and> c \<le> n \<and> c div 2 = i \<longrightarrow> \<not> lt (xs ! c) (xs ! (i div 2)))"

lemma up_orderedD:
  assumes "up_ordered n i xs"
  shows "slots_in n xs" "1 \<le> i" "i \<le> n"
    "\<And>j. 2 \<le> j \<Longrightarrow> j \<le> n \<Longrightarrow> j \<noteq> i \<Longrightarrow> \<not> lt (xs ! j) (xs ! (j div 2))"
    "\<And>c. 1 < i \<Longrightarrow> c \<le> n \<Longrightarrow> c div 2 = i \<Longrightarrow> \<not> lt (xs ! c) (xs ! (i div 2))"
    "\<And>k. 1 \<le> k \<Longrightarrow> k \<le> n \<Longrightarrow> xs ! k \<in> A"
  using assms slots_inD by (auto simp: up_ordered_def)

lemma up_orderedI:
  assumes "slots_in n xs" "1 \<le> i" "i \<le> n"
    "\<And>j. 2 \<le> j \<Longrightarrow> j \<le> n \<Longrightarrow> j \<noteq> i \<Longrightarrow> \<not> lt (xs ! j) (xs ! (j div 2))"
    "\<And>c. 1 < i \<Longrightarrow> c \<le> n \<Longrightarrow> c div 2 = i \<Longrightarrow> \<not> lt (xs ! c) (xs ! (i div 2))"
  shows "up_ordered n i xs"
  using assms by (simp add: up_ordered_def)

lemma nth_exchange_slots:
  "slots_in n xs \<Longrightarrow> i \<le> n \<Longrightarrow> j \<le> n \<Longrightarrow> exchange i j xs ! k = (if k = j then xs ! i else if k = i then xs ! j else xs ! k)"
  by (simp add: slots_in_def nth_exchange)

text \<open>One step up: the element and its parent change places.\<close>

lemma exchange_up_parents:
  assumes "up_ordered n i xs" "1 < i" "lt (xs ! i) (xs ! (i div 2))" "2 \<le> j" "j \<le> n" "j \<noteq> i div 2"
  shows "\<not> lt (exchange i (i div 2) xs ! j) (exchange i (i div 2) xs ! (j div 2))"
proof -
  let ?p = "i div 2"
  note up = up_orderedD [OF assms(1)]
  have p: "1 \<le> ?p" "?p \<le> n" "?p \<noteq> i" using assms(2) up(3) by auto
  note nth = nth_exchange_slots [OF up(1,3) p(2)]
  consider "j = i" | "j \<noteq> i" "j div 2 = i" | "j \<noteq> i" "j div 2 = ?p" | "j \<noteq> i" "j div 2 \<noteq> i" "j div 2 \<noteq> ?p" by blast
  then show ?thesis
  proof cases
    case 1
    with assms(2,3) p asym [of "xs ! i" "xs ! ?p"] up(2,3) up(6) [of i] up(6) [of ?p] show ?thesis by (simp add: nth)
  next
    case 2
    with up(5) [of j] assms(2,5,6) p show ?thesis by (simp add: nth)
  next
    case 3
    have "\<not> lt (xs ! j) (xs ! i)"
      using up(4) [of j] 3 assms(3-5) p up(2,3) up(6) [of j] up(6) [of i] up(6) [of ?p]
        less_trans [of "xs ! j" "xs ! i" "xs ! ?p"] by auto
    with 3 assms(6) p show ?thesis by (simp add: nth)
  next
    case 4
    with up(4) [of j] assms(4-6) show ?thesis by (simp add: nth)
  qed
qed

lemma exchange_up_children:
  assumes "up_ordered n i xs" "1 < i" "1 < i div 2" "c \<le> n" "c div 2 = i div 2"
  shows "\<not> lt (exchange i (i div 2) xs ! c) (exchange i (i div 2) xs ! (i div 2 div 2))"
proof -
  let ?p = "i div 2"
  note up = up_orderedD [OF assms(1)]
  have p: "2 \<le> ?p" "?p \<le> n" "?p \<noteq> i" "1 \<le> ?p div 2" "?p div 2 \<le> n" "?p div 2 \<noteq> ?p" "?p div 2 \<noteq> i"
    using assms(2,3) up(3) by auto
  note nth = nth_exchange_slots [OF up(1,3) p(2)]
  have p1: "\<not> lt (xs ! ?p) (xs ! (?p div 2))" using up(4) [of ?p] p by simp
  have c: "c \<noteq> ?p" "2 \<le> c" using assms(3,5) by auto
  show ?thesis
  proof (cases "c = i")
    case True
    with p1 p show ?thesis by (simp add: nth)
  next
    case False
    then have "\<not> lt (xs ! c) (xs ! ?p)" using up(4) [of c] c(2) assms(4,5) by simp
    then have "\<not> lt (xs ! c) (xs ! (?p div 2))"
      using le_trans [OF up(6) up(6) up(6) p1, of c] c(2) assms(4) p by auto
    with False c(1) p show ?thesis by (simp add: nth)
  qed
qed

lemma up_ordered_step:
  assumes "up_ordered n i xs" "1 < i" "lt (xs ! i) (xs ! (i div 2))"
  shows "up_ordered n (i div 2) (exchange i (i div 2) xs)"
proof -
  note up = up_orderedD [OF assms(1)]
  have p: "1 \<le> i div 2" "i div 2 \<le> n" using assms(2) up(3) by auto
  show ?thesis
    unfolding up_ordered_def
    using slots_in_exchange [OF up(1-3) p] p exchange_up_parents [OF assms] exchange_up_children [OF assms(1,2)] by blast
qed

lemma sift_up_ordered:
  "up_ordered n i xs \<Longrightarrow> ord_from lt 1 n (sift_up lt i xs)"
proof (induction i arbitrary: xs rule: less_induct)
  case (less i xs)
  show ?case
  proof (cases "i > 1 \<and> lt (xs ! i) (xs ! (i div 2))")
    case False
    have "\<not> lt (xs ! j) (xs ! (j div 2))" if "2 \<le> j" "j \<le> n" for j
      using up_orderedD(4) [OF less.prems, of j] False that by (cases "j = i") auto
    then have "ord_from lt 1 n xs" by (simp add: ord_from_def)
    with False show ?thesis by (subst sift_up.simps) auto
  next
    case True
    then have "ord_from lt 1 n (sift_up lt (i div 2) (exchange i (i div 2) xs))"
      using up_ordered_step [OF less.prems] by (intro less.IH) auto
    with True show ?thesis by (subst sift_up.simps) simp
  qed
qed

lemma smaller_child_least:
  assumes "slots_in n xs" "1 \<le> i" "j \<le> n" "j div 2 = i"
  shows "\<not> lt (xs ! j) (xs ! smaller_child lt n i xs)"
proof -
  have j: "j = i * 2 \<or> j = i * 2 + 1" using assms(4) by auto
  have inA: "xs ! (i * 2) \<in> A" "i * 2 \<noteq> n \<Longrightarrow> xs ! (i * 2 + 1) \<in> A"
    using assms j slots_inD [OF assms(1)] by auto
  let ?l = "xs ! (i * 2)" and ?r = "xs ! (i * 2 + 1)"
  show ?thesis
  proof (cases "i * 2 \<noteq> n \<and> lt ?r ?l")
    case True
    then have "\<not> lt ?l ?r" "\<not> lt ?r ?r"
      using inA asym [of ?r ?l] irrefl [of ?r] by blast+
    with True j show ?thesis by (auto simp: smaller_child_def)
  next
    case False
    have "\<not> lt ?l ?l" using inA irrefl by blast
    moreover have "i * 2 = n \<Longrightarrow> j = i * 2" using j assms(3) by linarith
    ultimately show ?thesis using False j by (auto simp: smaller_child_def)
  qed
qed

text \<open>
  From the parents at \<open>k\<close> on all is in order but the children of \<open>i\<close>, and these are with the parent of \<open>i\<close>:
  what \<open>sift_down\<close> keeps while the element at \<open>i\<close> moves down.
\<close>

definition down_ordered :: "nat \<Rightarrow> nat \<Rightarrow> nat \<Rightarrow> 'a list \<Rightarrow> bool" where
  "down_ordered k n i xs \<longleftrightarrow> slots_in n xs \<and> 1 \<le> k \<and> k \<le> i
     \<and> (\<forall>j. 2 \<le> j \<and> j \<le> n \<and> k \<le> j div 2 \<and> j div 2 \<noteq> i \<longrightarrow> \<not> lt (xs ! j) (xs ! (j div 2)))
     \<and> (\<forall>c. c \<le> n \<and> c div 2 = i \<and> k \<le> i div 2 \<longrightarrow> \<not> lt (xs ! c) (xs ! (i div 2)))"

lemma down_orderedD:
  assumes "down_ordered k n i xs"
  shows "slots_in n xs" "1 \<le> k" "k \<le> i"
    "\<And>j. 2 \<le> j \<Longrightarrow> j \<le> n \<Longrightarrow> k \<le> j div 2 \<Longrightarrow> j div 2 \<noteq> i \<Longrightarrow> \<not> lt (xs ! j) (xs ! (j div 2))"
    "\<And>c. c \<le> n \<Longrightarrow> c div 2 = i \<Longrightarrow> k \<le> i div 2 \<Longrightarrow> \<not> lt (xs ! c) (xs ! (i div 2))"
    "\<And>j. 1 \<le> j \<Longrightarrow> j \<le> n \<Longrightarrow> xs ! j \<in> A"
  using assms slots_inD by (auto simp: down_ordered_def)

lemma down_orderedI:
  assumes "slots_in n xs" "1 \<le> k" "k \<le> i"
    "\<And>j. 2 \<le> j \<Longrightarrow> j \<le> n \<Longrightarrow> k \<le> j div 2 \<Longrightarrow> j div 2 \<noteq> i \<Longrightarrow> \<not> lt (xs ! j) (xs ! (j div 2))"
    "\<And>c. c \<le> n \<Longrightarrow> c div 2 = i \<Longrightarrow> k \<le> i div 2 \<Longrightarrow> \<not> lt (xs ! c) (xs ! (i div 2))"
  shows "down_ordered k n i xs"
  using assms by (simp add: down_ordered_def)

lemma down_ordered_done:
  assumes "down_ordered k n i xs" "\<not> (i * 2 \<le> n \<and> lt (xs ! smaller_child lt n i xs) (xs ! i))"
  shows "ord_from lt k n xs"
proof -
  let ?c = "smaller_child lt n i xs"
  note down = down_orderedD [OF assms(1)]
  have "\<not> lt (xs ! j) (xs ! (j div 2))" if j: "2 \<le> j" "j \<le> n" "k \<le> j div 2" for j
  proof (cases "j div 2 = i")
    case True
    then have c: "1 \<le> ?c" "?c \<le> n" and "\<not> lt (xs ! ?c) (xs ! i)"
      using assms(2) j by (auto simp: smaller_child_def)
    moreover have "\<not> lt (xs ! j) (xs ! ?c)"
      using smaller_child_least [OF down(1)] True j down(2,3) by auto
    ultimately show ?thesis
      using True j down(2,3) le_trans [of "xs ! i" "xs ! ?c" "xs ! j"] down(6) by auto
  next
    case False
    with down(4) [OF j] show ?thesis by simp
  qed
  then show ?thesis by (simp add: ord_from_def)
qed

text \<open>One step down: the element and its smaller child change places.\<close>

lemma exchange_down_parents:
  assumes "down_ordered k n i xs" "i * 2 \<le> n" "c = smaller_child lt n i xs" "lt (xs ! c) (xs ! i)"
    and j: "2 \<le> j" "j \<le> n" "k \<le> j div 2" "j div 2 \<noteq> c"
  shows "\<not> lt (exchange i c xs ! j) (exchange i c xs ! (j div 2))"
proof -
  note down = down_orderedD [OF assms(1)]
  have c: "c div 2 = i" "2 \<le> c" "c \<le> n" "i < c"
    using assms(2,3) down(2,3) by (auto simp: smaller_child_def)
  have i: "1 \<le> i" "i \<le> n" using c down(2,3) by auto
  note nth = nth_exchange_slots [OF down(1) i(2) c(3)]
  consider "j = c" | "j \<noteq> c" "j div 2 = i" | "j \<noteq> c" "j div 2 \<noteq> i" "j = i" | "j \<noteq> c" "j div 2 \<noteq> i" "j \<noteq> i" by blast
  then show ?thesis
  proof cases
    case 1
    with assms(4) c i asym [of "xs ! c" "xs ! i"] down(6) [of c] down(6) [of i] show ?thesis by (simp add: nth)
  next
    case 2
    then have "j \<noteq> i" using j by auto
    moreover have "\<not> lt (xs ! j) (xs ! c)" unfolding assms(3) by (rule smaller_child_least [OF down(1) i(1) j(2) 2(2)])
    ultimately show ?thesis using 2 c by (simp add: nth)
  next
    case 3
    with down(5) [of c] c j show ?thesis by (simp add: nth)
  next
    case 4
    with down(4) [of j] j show ?thesis by (simp add: nth)
  qed
qed

lemma down_ordered_step:
  assumes "down_ordered k n i xs" "i * 2 \<le> n" "c = smaller_child lt n i xs" "lt (xs ! c) (xs ! i)"
  shows "down_ordered k n c (exchange i c xs) \<and> i < c \<and> c \<le> n"
proof -
  note down = down_orderedD [OF assms(1)]
  have c: "c div 2 = i" "2 \<le> c" "c \<le> n" "i < c"
    using assms(2,3) down(2,3) by (auto simp: smaller_child_def)
  have i: "1 \<le> i" "i \<le> n" using c down(2,3) by auto
  note nth = nth_exchange_slots [OF down(1) i(2) c(3)]
  have "\<not> lt (exchange i c xs ! d) (exchange i c xs ! (c div 2))" if d: "d \<le> n" "d div 2 = c" for d
  proof -
    have "d \<noteq> c" "d \<noteq> i" "2 \<le> d" using d c by auto
    then show ?thesis using down(3) down(4) [of d] d c by (simp add: nth)
  qed
  then show ?thesis
    unfolding down_ordered_def
    using slots_in_exchange [OF down(1) i _ c(3)] down(2,3) c exchange_down_parents [OF assms] by auto
qed

lemma sift_down_ordered:
  "down_ordered k n i xs \<Longrightarrow> ord_from lt k n (sift_down lt n i xs)"
proof (induction "n - i" arbitrary: i xs rule: less_induct)
  case (less i xs)
  let ?c = "smaller_child lt n i xs"
  have "0 < i" using down_orderedD(2,3) [OF less.prems] by simp
  show ?case
  proof (cases "i * 2 \<le> n \<and> lt (xs ! ?c) (xs ! i)")
    case False
    with down_ordered_done [OF less.prems] show ?thesis by (subst sift_down.simps) auto
  next
    case True
    then have "ord_from lt k n (sift_down lt n ?c (exchange i ?c xs))"
      using down_ordered_step [OF less.prems _ HOL.refl] by (intro less.hyps) auto
    with True \<open>0 < i\<close> show ?thesis by (subst sift_down.simps) auto
  qed
qed

lemma root_least:
  assumes "slots_in n xs" "ord_from lt 1 n xs" "1 \<le> j" "j \<le> n"
  shows "\<not> lt (xs ! j) (xs ! 1)"
  using assms(3,4)
proof (induction j rule: less_induct)
  case (less j)
  show ?case
  proof (cases "j = 1")
    case True
    with less.prems slots_inD [OF assms(1)] irrefl show ?thesis by simp
  next
    case False
    with less.prems have "1 \<le> j div 2" "j div 2 < j" "2 \<le> j" by auto
    then have "\<not> lt (xs ! (j div 2)) (xs ! 1)" "\<not> lt (xs ! j) (xs ! (j div 2))"
      using less ord_fromD [OF assms(2), of j] by auto
    with \<open>1 \<le> j div 2\<close> less.prems show ?thesis
      using le_trans [of "xs ! 1" "xs ! (j div 2)" "xs ! j"] slots_inD [OF assms(1)] by auto
  qed
qed

end

section \<open>Which elements a heap holds\<close>

definition elems :: "'a bheap \<Rightarrow> 'a list" where
  "elems h = take (hsize h) (drop 1 (heap h))"

text \<open>A rearrangement of the slots \<open>1..n\<close> that leaves all others alone.\<close>

definition perm_slots :: "nat \<Rightarrow> 'a list \<Rightarrow> 'a list \<Rightarrow> bool" where
  "perm_slots n xs ys \<longleftrightarrow> length ys = length xs \<and> mset ys = mset xs \<and>
     take 1 ys = take 1 xs \<and> drop (n + 1) ys = drop (n + 1) xs"

lemma perm_slots_refl [simp]: "perm_slots n xs xs"
  by (simp add: perm_slots_def)

lemma perm_slots_trans: "perm_slots n xs ys \<Longrightarrow> perm_slots n ys zs \<Longrightarrow> perm_slots n xs zs"
  by (simp add: perm_slots_def)

lemma perm_slots_length: "perm_slots n xs ys \<Longrightarrow> length ys = length xs"
  by (simp add: perm_slots_def)

lemma perm_slots_mset:
  assumes "perm_slots n xs ys"
  shows "mset (take n (drop 1 ys)) = mset (take n (drop 1 xs))"
proof -
  have split: "zs = take 1 zs @ take n (drop 1 zs) @ drop (n + 1) zs" for zs :: "'a list"
    by (metis add.commute append_take_drop_id drop_drop)
  have "mset (take 1 ys) + (mset (take n (drop 1 ys)) + mset (drop (n + 1) ys)) =
      mset (take 1 xs) + (mset (take n (drop 1 xs)) + mset (drop (n + 1) xs))"
    using assms split [of xs] split [of ys] unfolding perm_slots_def
    by (metis mset_append)
  with assms show ?thesis by (simp add: perm_slots_def)
qed

lemma perm_slots_exchange:
  assumes "1 \<le> i" "i \<le> n" "1 \<le> j" "j \<le> n" "n < length xs"
  shows "perm_slots n xs (exchange i j xs)"
  using assms
  by (auto simp: perm_slots_def mset_exchange) (auto simp: exchange_def)

lemma perm_slots_sift_up:
  "1 \<le> i \<Longrightarrow> i \<le> n \<Longrightarrow> n < length xs \<Longrightarrow> perm_slots n xs (sift_up lt i xs)"
proof (induction i arbitrary: xs rule: less_induct)
  case (less i xs)
  show ?case
  proof (cases "i > 1 \<and> lt (xs ! i) (xs ! (i div 2))")
    case True
    with less.prems have "perm_slots n xs (exchange i (i div 2) xs)"
      by (intro perm_slots_exchange) auto
    moreover have "perm_slots n (exchange i (i div 2) xs) (sift_up lt (i div 2) (exchange i (i div 2) xs))"
      using True less.prems by (intro less.IH) auto
    ultimately show ?thesis using True by (subst sift_up.simps) (auto intro: perm_slots_trans)
  next
    case False
    then show ?thesis by (subst sift_up.simps) auto
  qed
qed

lemma perm_slots_sift_down:
  "1 \<le> i \<Longrightarrow> n < length xs \<Longrightarrow> perm_slots n xs (sift_down lt n i xs)"
proof (induction "n - i" arbitrary: i xs rule: less_induct)
  case (less i xs)
  let ?c = "smaller_child lt n i xs"
  show ?case
  proof (cases "i * 2 \<le> n \<and> lt (xs ! ?c) (xs ! i)")
    case True
    then have c: "i < ?c" "?c \<le> n" using less.prems by (auto simp: smaller_child_def)
    with less.prems have "perm_slots n xs (exchange i ?c xs)"
      by (intro perm_slots_exchange) auto
    moreover have "perm_slots n (exchange i ?c xs) (sift_down lt n ?c (exchange i ?c xs))"
      using c less.prems by (intro less.hyps) auto
    ultimately show ?thesis
      using True less.prems by (subst sift_down.simps) (auto intro: perm_slots_trans)
  next
    case False
    then show ?thesis by (subst sift_down.simps) auto
  qed
qed

lemma percolate_down_perm:
  "1 \<le> i \<Longrightarrow> i < length xs \<Longrightarrow> n < length xs \<Longrightarrow> perm_slots n xs (percolate_down lt n i xs)"
  by (simp add: percolate_down_eq_sift_down perm_slots_sift_down)


section \<open>The invariant and the operations\<close>

definition heap_ok :: "'a set \<Rightarrow> ('a \<Rightarrow> 'a \<Rightarrow> bool) \<Rightarrow> 'a bheap \<Rightarrow> bool" where
  "heap_ok A lt h \<longleftrightarrow>
     hsize h < length (heap h) \<and> set (elems h) \<subseteq> A \<and> ord_from lt 1 (hsize h) (heap h)"

lemma length_elems [simp]: "hsize h < length (heap h) \<Longrightarrow> length (elems h) = hsize h"
  by (simp add: elems_def)

lemma ord_from_cong:
  "(\<And>j. 1 \<le> j \<Longrightarrow> j \<le> n \<Longrightarrow> xs ! j = ys ! j) \<Longrightarrow> ord_from lt k n xs = ord_from lt k n ys"
  unfolding ord_from_def by (intro ball_cong) auto

lemma take_drop_1_nth: "k < length xs \<Longrightarrow> i < k \<Longrightarrow> take k (drop 1 xs) ! i = xs ! (i + 1)"
  by simp

lemma take_drop_1_update:
  "take k (drop (Suc 0) (xs[Suc i := x])) = (take k (drop (Suc 0) xs))[i := x]"
  by (cases xs) (simp_all add: take_update_swap)

lemma mset_move_last:
  assumes "i < length es"
  shows "mset es = add_mset (es ! i) (mset (butlast (es[i := last es])))"
proof (cases es rule: rev_cases)
  case Nil
  with assms show ?thesis by simp
next
  case (snoc ys y)
  show ?thesis
  proof (cases "i = length ys")
    case True
    with snoc show ?thesis by simp
  next
    case False
    with assms snoc have i: "i < length ys" by simp
    then have "ys ! i \<in># mset ys" by simp
    with i snoc show ?thesis by (simp add: list_update_append nth_append mset_update butlast_append)
  qed
qed

lemma mset_remove_slot:
  assumes "n < length xs" "1 \<le> i" "i \<le> n"
  shows "mset (take n (drop 1 xs)) =
     add_mset (xs ! i) (mset (take (n - 1) (drop 1 (xs[i := xs ! n]))))"
proof -
  let ?es = "take n (drop 1 xs)"
  obtain k where k: "i = Suc k" using assms(2) by (cases i) auto
  have len: "length ?es = n" and last: "last ?es = xs ! n" and nth: "?es ! k = xs ! i"
    using assms k by (auto simp: last_conv_nth)
  have "take (n - 1) (drop 1 (xs[i := xs ! n])) = butlast (?es[k := last ?es])"
    using assms k last len
    by (simp add: take_drop_1_update butlast_conv_take take_update_swap min_def)
  with mset_move_last [of k ?es] len nth k assms(3) show ?thesis by simp
qed

lemma elems_of_perm:
  assumes "perm_slots n xs ys" "hsize h = n" "heap h = ys"
  shows "mset (elems h) = mset (take n (drop 1 xs))"
  using perm_slots_mset [OF assms(1)] assms(2,3) by (simp add: elems_def)

context weak_order
begin

lemma slots_in_iff: "slots_in n xs \<longleftrightarrow> n < length xs \<and> set (take n (drop 1 xs)) \<subseteq> A"
proof (cases "n < length xs")
  case True
  then have "take n (drop 1 xs) = map ((!) xs) [1..<Suc n]"
    by (intro nth_equalityI) (auto simp del: upt_Suc)
  then have "set (take n (drop 1 xs)) = (!) xs ` {1..<Suc n}"
    by (metis set_map set_upt)
  with True show ?thesis by (auto simp: slots_in_def)
qed (simp add: slots_in_def)

lemma slots_in_perm: "slots_in n xs \<Longrightarrow> perm_slots n xs ys \<Longrightarrow> slots_in n ys"
  by (metis slots_in_iff perm_slots_length perm_slots_mset mset_eq_setD)

lemma heap_ok_slots: "heap_ok A lt h \<longleftrightarrow> slots_in (hsize h) (heap h) \<and> ord_from lt 1 (hsize h) (heap h)"
  by (auto simp: heap_ok_def slots_in_iff elems_def)

lemma insert_ok:
  assumes "heap_ok A lt h" "x \<in> A"
  shows "\<exists>h'. BinaryHeap_insert lt dflt x h = Inr h' \<and> heap_ok A lt h'
    \<and> mset (elems h') = add_mset x (mset (elems h))"
proof -
  let ?n = "hsize h" and ?hole = "Suc (hsize h)"
  define xs where "xs = (if ?n = length (heap h) - 1 then heap h @ replicate (length (heap h)) dflt
    else heap h)"
  define ys where "ys = sift_up lt ?hole (xs[?hole := x])"
  from assms(1) have h: "?n < length (heap h)" "slots_in ?n (heap h)" "ord_from lt 1 ?n (heap h)"
    by (auto simp: heap_ok_slots slots_in_def)
  then have hole: "?hole < length xs" by (auto simp: xs_def)
  have same: "xs ! j = heap h ! j" if "j \<le> ?n" for j
    using that h(1) by (auto simp: xs_def nth_append)
  have slots: "slots_in ?hole (xs[?hole := x])"
    using h(2) assms(2) hole same by (auto simp: slots_in_def nth_list_update)
  have old: "take ?n (drop 1 xs) = elems h"
    using h(1) by (auto simp: xs_def elems_def)
  have "ord_from lt 1 ?hole ys"
    unfolding ys_def
  proof (rule sift_up_ordered [OF up_orderedI [OF slots]])
    fix j assume j: "2 \<le> j" "j \<le> ?hole" "j \<noteq> ?hole"
    then have "j \<le> ?n" "j div 2 \<le> ?n" "j div 2 \<noteq> ?hole" by auto
    with j ord_fromD [OF h(3), of j] show "\<not> lt (xs[?hole := x] ! j) (xs[?hole := x] ! (j div 2))"
      by (simp add: same)
  qed auto
  moreover have perm: "perm_slots ?hole (xs[?hole := x]) ys"
    unfolding ys_def using hole by (intro perm_slots_sift_up) auto
  moreover have "mset (take ?hole (drop 1 (xs[?hole := x]))) = add_mset x (mset (elems h))"
    using hole old h(1) length_elems [OF h(1)]
    by (simp add: take_Suc_conv_app_nth take_drop_1_update list_update_append)
  moreover have "BinaryHeap_insert lt dflt x h = Inr \<lparr>heap = ys, hsize = ?hole\<rparr>"
    using h(1) hole percolate_up_eq_sift_up [OF hole, of lt x]
    by (auto simp: BinaryHeap_insert_def xs_def ys_def Let_def)
  ultimately show ?thesis
    using slots_in_perm [OF slots perm] elems_of_perm [OF perm, of "\<lparr>heap = ys, hsize = ?hole\<rparr>"]
    by (simp add: heap_ok_slots)
qed

text \<open>The step \<^verbatim>\<open>delete_min\<close> and \<^verbatim>\<open>erase_if\<close> share: the last element overwrites slot \<open>i\<close> and sinks.\<close>

lemma sink_ok:
  assumes "heap_ok A lt h" "1 \<le> i" "i \<le> hsize h"
    and "n = hsize h - 1" "ys = percolate_down lt n i ((heap h)[i := heap h ! hsize h])"
  shows "perm_slots n ((heap h)[i := heap h ! hsize h]) ys \<and> length ys = length (heap h)
    \<and> (\<not> (1 < i \<and> lt (heap h ! hsize h) (heap h ! (i div 2))) \<longrightarrow> heap_ok A lt \<lparr>heap = ys, hsize = n\<rparr>)
    \<and> mset (elems h) = add_mset (heap h ! i) (mset (elems \<lparr>heap = ys, hsize = n\<rparr>))"
proof -
  let ?N = "hsize h"
  let ?xs = "(heap h)[i := heap h ! ?N]"
  from assms(1) have h: "?N < length (heap h)" "slots_in ?N (heap h)" "ord_from lt 1 ?N (heap h)"
    by (auto simp: heap_ok_slots slots_in_def)
  have ys: "ys = sift_down lt n i ?xs"
    using assms h(1) by (simp add: percolate_down_eq_sift_down)
  have perm: "perm_slots n ?xs ys"
    unfolding ys using assms(2-4) h(1) by (intro perm_slots_sift_down) auto
  have slots: "slots_in n ?xs"
    using h(1,2) assms(2-4) slots_inD [OF h(2)] by (auto simp: slots_in_def nth_list_update)
  have ord: "ord_from lt 1 n ys" if "\<not> (1 < i \<and> lt (heap h ! ?N) (heap h ! (i div 2)))"
    unfolding ys
  proof (rule sift_down_ordered [OF down_orderedI [OF slots]])
    fix j assume j: "2 \<le> j" "j \<le> n" "1 \<le> j div 2" "j div 2 \<noteq> i"
    show "\<not> lt (?xs ! j) (?xs ! (j div 2))"
    proof (cases "j = i")
      case True
      then show ?thesis using that j h(1) assms by (auto simp: nth_list_update)
    next
      case False
      then show ?thesis using ord_fromD [OF h(3), of j] j assms(4) by (simp add: nth_list_update)
    qed
  next
    fix c assume c: "c \<le> n" "c div 2 = i" "1 \<le> i div 2"
    then have "c \<noteq> i" "i div 2 \<noteq> i" "2 \<le> c" "2 \<le> i" "c \<le> ?N" "i div 2 \<le> ?N" "1 \<le> i div 2"
      using assms(2-4) by auto
    then show "\<not> lt (?xs ! c) (?xs ! (i div 2))"
      using ord_fromD [OF h(3), of c] ord_fromD [OF h(3), of i] c(2) assms(2,3)
        le_trans [of "heap h ! (i div 2)" "heap h ! i" "heap h ! c"] slots_inD [OF h(2)]
      by (simp add: nth_list_update)
  qed (use assms in auto)
  have "mset (elems h) = add_mset (heap h ! i) (mset (elems \<lparr>heap = ys, hsize = n\<rparr>))"
    using mset_remove_slot [OF h(1) assms(2,3)]
      elems_of_perm [OF perm, of "\<lparr>heap = ys, hsize = n\<rparr>"] assms(4)
    by (simp add: elems_def)
  with perm ord slots_in_perm [OF slots perm] perm_slots_length [OF perm] show ?thesis
    by (simp add: heap_ok_slots)
qed

lemma clear_last:
  assumes "hsize h = n" "n + 1 < length (heap h)"
  shows "heap_ok A lt \<lparr>heap = (heap h)[n + 1 := y], hsize = n\<rparr> = heap_ok A lt h
    \<and> elems \<lparr>heap = (heap h)[n + 1 := y], hsize = n\<rparr> = elems h"
  using assms ord_from_cong [of n "(heap h)[n + 1 := y]" "heap h" lt 1]
  by (simp add: heap_ok_def elems_def take_drop_1_update list_update_beyond)

lemma root_least_elem:
  assumes "heap_ok A lt h" "y \<in> set (elems h)"
  shows "\<not> lt y (heap h ! 1)"
proof -
  from assms(1) have h: "hsize h < length (heap h)" "slots_in (hsize h) (heap h)"
    "ord_from lt 1 (hsize h) (heap h)" by (auto simp: heap_ok_slots slots_in_def)
  from assms(2) h(1) obtain i where "i < hsize h" "y = heap h ! Suc i"
    by (auto simp: elems_def in_set_conv_nth)
  with root_least [OF h(2,3), of "Suc i"] show ?thesis by simp
qed

lemma delete_min_ok:
  assumes "heap_ok A lt h" "hsize h \<noteq> 0"
  shows "\<exists>m h'. BinaryHeap_find_min h = Inr m \<and> BinaryHeap_delete_min lt dflt h = Inr h'
    \<and> heap_ok A lt h' \<and> mset (elems h) = add_mset m (mset (elems h'))
    \<and> (\<forall>y \<in> set (elems h). \<not> lt y m)"
proof -
  let ?n = "hsize h - 1"
  define ys where "ys = percolate_down lt ?n 1 ((heap h)[1 := heap h ! hsize h])"
  have len: "hsize h < length (heap h)" using assms(1) by (simp add: heap_ok_def)
  have sink: "length ys = length (heap h)" "heap_ok A lt \<lparr>heap = ys, hsize = ?n\<rparr>"
    "mset (elems h) = add_mset (heap h ! 1) (mset (elems \<lparr>heap = ys, hsize = ?n\<rparr>))"
    using sink_ok [OF assms(1), of 1 ?n ys] assms(2) by (simp_all add: ys_def)
  moreover have "BinaryHeap_delete_min lt dflt h = Inr \<lparr>heap = ys[?n + 1 := dflt], hsize = ?n\<rparr>"
    using assms(2) len by (simp add: BinaryHeap_delete_min_def BinaryHeap_empty_def ys_def Let_def)
  moreover have "BinaryHeap_find_min h = Inr (heap h ! 1)"
    using assms(2) len by (simp add: BinaryHeap_find_min_def)
  ultimately show ?thesis
    using clear_last [of "\<lparr>heap = ys, hsize = ?n\<rparr>" ?n dflt] len assms(2) root_least_elem [OF assms(1)]
    by auto
qed

lemma delete_min_into_ok:
  assumes "heap_ok A lt h" "hsize h \<noteq> 0"
  shows "\<exists>m h'. BinaryHeap_delete_min_into lt dflt h = Inr (m, h')
    \<and> heap_ok A lt h' \<and> mset (elems h) = add_mset m (mset (elems h'))
    \<and> (\<forall>y \<in> set (elems h). \<not> lt y m)"
proof -
  let ?n = "hsize h - 1"
  define ys where "ys = percolate_down lt ?n 1 ((heap h)[1 := heap h ! hsize h])"
  have len: "hsize h < length (heap h)" using assms(1) by (simp add: heap_ok_def)
  have "hsize h = 1 \<Longrightarrow> ?n = 0" by simp
  show ?thesis
  proof (cases "hsize h = 1")
    case True
    define zs where "zs = percolate_down lt 0 1 ((heap h)[1 := dflt])"
    have "BinaryHeap_delete_min_into lt dflt h = Inr (heap h ! 1, \<lparr>heap = zs, hsize = 0\<rparr>)"
      using True len
      by (simp add: BinaryHeap_delete_min_into_def BinaryHeap_empty_def zs_def Let_def)
    moreover have "length zs = length (heap h)"
      using True len perm_slots_length [OF percolate_down_perm [of 1 "(heap h)[1 := dflt]" 0 lt]]
      unfolding zs_def by fastforce
    then have "heap_ok A lt \<lparr>heap = zs, hsize = 0\<rparr>"
      using True len by (auto simp: heap_ok_def elems_def ord_from_def)
    moreover have "mset (elems h) = {#heap h ! 1#}"
      using True len by (cases "heap h") (auto simp: elems_def take_Suc_conv_app_nth)
    ultimately show ?thesis using root_least_elem [OF assms(1)] by (auto simp: elems_def)
  next
    case False
    have "BinaryHeap_delete_min_into lt dflt h = Inr (heap h ! 1, \<lparr>heap = ys, hsize = ?n\<rparr>)"
      using assms(2) False len
      by (simp add: BinaryHeap_delete_min_into_def BinaryHeap_empty_def ys_def Let_def)
    with sink_ok [OF assms(1), of 1 ?n ys] assms(2) root_least_elem [OF assms(1)] show ?thesis
      by (simp add: ys_def)
  qed
qed

lemma build_loop_ok:
  "slots_in n xs \<Longrightarrow> k \<le> n \<Longrightarrow> ord_from lt (Suc k) n xs \<Longrightarrow>
     perm_slots n xs (build_loop lt n k xs) \<and> ord_from lt 1 n (build_loop lt n k xs)"
proof (induction k arbitrary: xs)
  case 0
  then show ?case by simp
next
  case (Suc k)
  let ?ys = "percolate_down lt n (Suc k) xs"
  have n: "n < length xs" "Suc k < length xs"
    using Suc.prems(1,2) by (auto simp: slots_in_def)
  have perm: "perm_slots n xs ?ys"
    using n by (intro percolate_down_perm) auto
  have "ord_from lt (Suc k) n (sift_down lt n (Suc k) xs)"
  proof (rule sift_down_ordered [OF down_orderedI [OF Suc.prems(1)]])
    fix j assume j: "2 \<le> j" "j \<le> n" "Suc k \<le> j div 2" "j div 2 \<noteq> Suc k"
    then show "\<not> lt (xs ! j) (xs ! (j div 2))" using ord_fromD [OF Suc.prems(3), of j] by simp
  qed auto
  then have "ord_from lt (Suc k) n ?ys"
    using n by (simp add: percolate_down_eq_sift_down)
  then show ?case
    using Suc.IH [of ?ys] Suc.prems slots_in_perm [OF _ perm] perm_slots_trans [OF perm] by simp
qed

lemma build_ok:
  assumes "hsize h < length (heap h)" "set (elems h) \<subseteq> A"
  shows "heap_ok A lt (BinaryHeap_build lt h) \<and> mset (elems (BinaryHeap_build lt h)) = mset (elems h)"
proof -
  let ?n = "hsize h"
  let ?ys = "build_loop lt ?n (?n div 2) (heap h)"
  have slots: "slots_in ?n (heap h)" using assms by (simp add: slots_in_iff elems_def)
  have "ord_from lt (Suc (?n div 2)) ?n (heap h)"
  proof -
    have "\<not> Suc (?n div 2) \<le> j div 2" if "j \<le> ?n" for j using that by (simp add: div_le_mono not_less_eq_eq)
    then show ?thesis by (auto simp: ord_from_def)
  qed
  then have ys: "perm_slots ?n (heap h) ?ys" "ord_from lt 1 ?n ?ys"
    using build_loop_ok [OF slots, of "?n div 2"] by auto
  then show ?thesis
    using slots_in_perm [OF slots ys(1)] perm_slots_mset [OF ys(1)]
    by (simp add: heap_ok_slots BinaryHeap_build_def elems_def)
qed

end

lemma copy_items_eq:
  "length ys + i < length xs \<Longrightarrow>
     copy_items ys i xs = take (Suc i) xs @ ys @ drop (Suc i + length ys) xs"
proof (induction ys arbitrary: i xs)
  case Nil
  then show ?case by simp
next
  case (Cons y ys)
  then have "copy_items (y # ys) i xs =
      take (Suc (i + 1)) (xs[i + 1 := y]) @ ys @ drop (Suc (i + 1) + length ys) (xs[i + 1 := y])"
    by simp
  moreover have "take (Suc (i + 1)) (xs[i + 1 := y]) = take (Suc i) xs @ [y]"
    using Cons.prems by (simp add: take_Suc_conv_app_nth)
  ultimately show ?case using Cons.prems by (simp add: drop_update_cancel)
qed

lemma elems_copied:
  "elems \<lparr>heap = copy_items items 0 (replicate (length items + 10) dflt), hsize = length items\<rparr> = items"
  by (simp add: elems_def copy_items_eq)

text \<open>
  The priority-queue contract, provided by the heap for every \<open>operator<\<close> that is a strict weak
  order.
\<close>

lemma heap_priority_queue:
  assumes "weak_order A lt"
  shows "priority_queue A lt (heap_ok A lt) (\<lambda>h. mset (elems h)) (BinaryHeap_insert lt dflt)
    BinaryHeap_find_min (BinaryHeap_delete_min lt dflt)"
proof (intro priority_queue.intro priority_queue_axioms.intro)
  fix h assume h: "heap_ok A lt h"
  then show "set_mset (mset (elems h)) \<subseteq> A" by (simp add: heap_ok_def)
  show "\<exists>h'. BinaryHeap_insert lt dflt x h = Inr h' \<and> heap_ok A lt h' \<and>
      mset (elems h') = add_mset x (mset (elems h))" if "x \<in> A" for x
    by (rule weak_order.insert_ok [OF assms h that])
  assume "mset (elems h) \<noteq> {#}"
  then have "hsize h \<noteq> 0" by (auto simp: elems_def)
  from weak_order.delete_min_ok [OF assms h this, of dflt]
  show "\<exists>m h'. BinaryHeap_find_min h = Inr m \<and> BinaryHeap_delete_min lt dflt h = Inr h' \<and>
      heap_ok A lt h' \<and> mset (elems h) = add_mset m (mset (elems h')) \<and>
      (\<forall>y \<in># mset (elems h). \<not> lt y m)"
    by auto
qed (rule assms)

lemma weak_order_less: "weak_order UNIV ((<) :: 'a::linorder \<Rightarrow> 'a \<Rightarrow> bool)"
  by unfold_locales auto

lemma first_index_find:
  "i + k \<le> length xs \<Longrightarrow>
     (case find f (take k (drop i xs)) of
        None \<Rightarrow> first_index f xs i k = i + k
      | Some x \<Rightarrow> i \<le> first_index f xs i k \<and> first_index f xs i k < i + k
          \<and> xs ! first_index f xs i k = x)"
proof (induction k arbitrary: i)
  case 0
  then show ?case by simp
next
  case (Suc k)
  then have "take (Suc k) (drop i xs) = xs ! i # take k (drop (Suc i) xs)"
    by (simp add: Cons_nth_drop_Suc [symmetric])
  with Suc.IH [of "Suc i"] Suc.prems show ?case by (auto split: option.splits)
qed

text \<open>
  After \<open>erase_if\<close> at slot \<open>i\<close> the order can only break between \<open>i\<close> and its parent: the slot
  holds the old last element when that precedes the parent.
\<close>

lemma sift_down_stays:
  "\<not> lt (xs ! smaller_child lt n i xs) (xs ! i) \<Longrightarrow> sift_down lt n i xs = xs"
  by (subst sift_down.simps) simp

context weak_order
begin

lemma sink_breaks:
  assumes "heap_ok A lt h" "1 < i" "i < hsize h"
    and "lt (heap h ! hsize h) (heap h ! (i div 2))" "n = hsize h - 1"
    and "ys = percolate_down lt n i ((heap h)[i := heap h ! hsize h])"
  shows "\<not> heap_ok A lt \<lparr>heap = ys, hsize = n\<rparr>"
proof -
  let ?N = "hsize h"
  let ?xs = "(heap h)[i := heap h ! ?N]"
  let ?c = "smaller_child lt n i ?xs"
  from assms(1) have h: "?N < length (heap h)" "slots_in ?N (heap h)" "ord_from lt 1 ?N (heap h)"
    by (auto simp: heap_ok_slots slots_in_def)
  have inA: "\<And>k. 1 \<le> k \<Longrightarrow> k \<le> ?N \<Longrightarrow> heap h ! k \<in> A" using slots_inD [OF h(2)] .
  have ys: "ys = sift_down lt n i ?xs"
    using assms h(1) by (simp add: percolate_down_eq_sift_down)
  have "sift_down lt n i ?xs = ?xs"
  proof (cases "i * 2 \<le> n")
    case True
    have c: "?c div 2 = i" "2 \<le> ?c" "?c \<le> n" "?c \<noteq> i" "?c \<le> ?N"
      using True assms(2,3,5) by (auto simp: smaller_child_def)
    have "\<not> lt (heap h ! ?c) (heap h ! i)"
      using ord_fromD [OF h(3), of ?c] c assms(2) by simp
    moreover have "\<not> lt (heap h ! i) (heap h ! (i div 2))"
      using ord_fromD [OF h(3), of i] assms(2,3) by simp
    ultimately have "\<not> lt (heap h ! ?c) (heap h ! (i div 2))"
      using le_trans [of "heap h ! (i div 2)" "heap h ! i" "heap h ! ?c"] inA c assms(2,3) by simp
    then have "\<not> lt (heap h ! ?c) (heap h ! ?N)"
      using less_trans [of "heap h ! ?c" "heap h ! ?N" "heap h ! (i div 2)"] inA c assms(2-4)
      by auto
    then show ?thesis using c assms(2,3) h(1) by (intro sift_down_stays) simp
  qed (subst sift_down.simps, simp)
  then have "ys ! i = heap h ! ?N" "ys ! (i div 2) = heap h ! (i div 2)" "i \<le> n"
    using ys assms(2,3,5) h(1) by auto
  with assms(2,4) have "\<not> ord_from lt 1 n ys"
    using ord_fromD [of lt 1 n ys i] \<open>1 < i\<close> by (auto simp: Suc_le_eq div_greater_zero_iff)
  then show ?thesis by (simp add: heap_ok_def)
qed

lemma erase_if_cases:
  assumes "heap_ok A lt h"
  shows "\<exists>h'. BinaryHeap_erase_if lt dflt f h = Inr h' \<and>
    (case find f (elems h) of
       None \<Rightarrow> h' = h
     | Some x \<Rightarrow> mset (elems h) = add_mset x (mset (elems h'))
         \<and> (\<exists>i \<in> {1..hsize h}. heap h ! i = x \<and> i = first_index f (heap h) 1 (hsize h) \<and>
              (heap_ok A lt h' \<longleftrightarrow> \<not> (1 < i \<and> lt (heap h ! hsize h) (heap h ! (i div 2))))))"
proof -
  let ?N = "hsize h" and ?i = "first_index f (heap h) 1 (hsize h)"
  have len: "?N < length (heap h)" using assms by (simp add: heap_ok_def)
  have found: "case find f (elems h) of None \<Rightarrow> ?i = 1 + ?N
      | Some x \<Rightarrow> 1 \<le> ?i \<and> ?i < 1 + ?N \<and> heap h ! ?i = x"
    using first_index_find [of 1 ?N "heap h" f] len unfolding elems_def by simp
  show ?thesis
  proof (cases "find f (elems h)")
    case None
    with found len show ?thesis by (auto simp: BinaryHeap_erase_if_def Let_def)
  next
    case (Some x)
    with found have i: "1 \<le> ?i" "?i \<le> ?N" "heap h ! ?i = x" by auto
    define n where "n = ?N - 1"
    define ys where "ys = percolate_down lt n ?i ((heap h)[?i := heap h ! ?N])"
    let ?g = "\<lparr>heap = ys, hsize = n\<rparr>" and ?h' = "\<lparr>heap = ys[n + 1 := dflt], hsize = n\<rparr>"
    note sink = sink_ok [OF assms i(1,2) n_def ys_def]
    have "BinaryHeap_erase_if lt dflt f h = Inr ?h'"
      using i len by (auto simp: BinaryHeap_erase_if_def BinaryHeap_empty_def Let_def n_def ys_def)
    moreover have same: "heap_ok A lt ?h' = heap_ok A lt ?g" "elems ?h' = elems ?g"
      using clear_last [of ?g n dflt] sink len i by (auto simp: n_def)
    moreover have "heap_ok A lt ?g \<longleftrightarrow> \<not> (1 < ?i \<and> lt (heap h ! ?N) (heap h ! (?i div 2)))"
    proof (cases "1 < ?i \<and> lt (heap h ! ?N) (heap h ! (?i div 2))")
      case True
      have "ord_from lt 1 ?N (heap h)" using assms by (simp add: heap_ok_def)
      with True i have "?i \<noteq> ?N" using ord_fromD [of lt 1 ?N "heap h" ?N] by auto
      with True i sink_breaks [OF assms, of ?i n ys] show ?thesis
        by (simp add: n_def ys_def)
    next
      case False
      with sink show ?thesis by blast
    qed
    ultimately show ?thesis using Some sink i by auto
  qed
qed

end

section \<open>Without an order\<close>

text \<open>
  What the operations do to the elements for any comparison at all, a strict weak order or not.
\<close>

lemma percolate_up_root:
  "1 < hole \<Longrightarrow> hole < length xs \<Longrightarrow> \<not> lt x (xs ! 1) \<Longrightarrow> percolate_up lt x hole xs ! 1 = xs ! 1"
proof (induction hole arbitrary: xs rule: less_induct)
  case (less hole xs)
  show ?case
  proof (cases "lt x (xs ! (hole div 2))")
    case True
    with less.prems have "hole div 2 \<noteq> 1" by auto
    then have "1 < hole div 2" "hole div 2 < hole" using less.prems by auto
    with True less.prems show ?thesis
      using less.IH [of "hole div 2" "xs[hole := xs ! (hole div 2)]"]
      by (subst percolate_up.simps) simp
  next
    case False
    with less.prems show ?thesis by (subst percolate_up.simps) simp
  qed
qed

lemma insert_elems:
  assumes "hsize h < length (heap h)"
  shows "\<exists>h'. BinaryHeap_insert lt dflt x h = Inr h' \<and> hsize h' = Suc (hsize h)
    \<and> hsize h' < length (heap h') \<and> mset (elems h') = add_mset x (mset (elems h))
    \<and> (0 < hsize h \<longrightarrow> \<not> lt x (heap h ! 1) \<longrightarrow> heap h' ! 1 = heap h ! 1)"
proof -
  let ?n = "hsize h" and ?hole = "Suc (hsize h)"
  define xs where "xs = (if ?n = length (heap h) - 1 then heap h @ replicate (length (heap h)) dflt
    else heap h)"
  define h' where "h' = \<lparr>heap = percolate_up lt x ?hole xs, hsize = ?hole\<rparr>"
  have hole: "?hole < length xs" using assms by (auto simp: xs_def)
  have perm: "perm_slots ?hole (xs[?hole := x]) (heap h')"
    using hole by (simp add: h'_def percolate_up_eq_sift_up perm_slots_sift_up)
  have "take ?n (drop 1 xs) = elems h"
    using assms by (auto simp: xs_def elems_def)
  then have "mset (take ?hole (drop 1 (xs[?hole := x]))) = add_mset x (mset (elems h))"
    using hole assms length_elems [OF assms]
    by (simp add: take_Suc_conv_app_nth take_drop_1_update list_update_append)
  then have "mset (elems h') = add_mset x (mset (elems h))"
    using elems_of_perm [OF perm] by (simp add: h'_def)
  moreover have "length (heap h') = length xs" using perm_slots_length [OF perm] by simp
  moreover have "heap h' ! 1 = heap h ! 1" if "0 < ?n" "\<not> lt x (heap h ! 1)"
  proof -
    have "xs ! 1 = heap h ! 1" using that(1) assms by (auto simp: xs_def nth_append)
    with that hole percolate_up_root [of ?hole xs lt x] show ?thesis by (simp add: h'_def)
  qed
  moreover have "BinaryHeap_insert lt dflt x h = Inr h'"
    using assms hole by (auto simp: BinaryHeap_insert_def xs_def h'_def Let_def)
  ultimately show ?thesis using hole by (simp add: h'_def)
qed

lemma insert_length:
  assumes "hsize h < length (heap h)" "BinaryHeap_insert lt dflt x h = Inr h'"
  shows "length (heap h') = (if hsize h = length (heap h) - 1 then 2 else 1) * length (heap h)"
proof -
  define xs where "xs = (if hsize h = length (heap h) - 1 then heap h @ replicate (length (heap h)) dflt else heap h)"
  have hole: "hsize h + 1 < length xs" using assms(1) by (auto simp: xs_def)
  moreover have xs: "xs = (if hsize h = (if heap h = [] then 2 ^ 64 - 1 else length (heap h) - 1)
      then heap h @ replicate (length (heap h)) dflt else heap h)" using assms(1) by (auto simp: xs_def)
  have "heap h' = percolate_up lt x (hsize h + 1) xs"
    using assms(2) hole unfolding BinaryHeap_insert_def Let_def xs [symmetric] by (auto simp del: percolate_up.simps)
  ultimately have "length (heap h') = length xs"
    using perm_slots_length [OF perm_slots_sift_up [where i = "hsize h + 1" and n = "hsize h + 1"
        and xs = "xs[hsize h + 1 := x]" and lt = lt]] hole
    by (simp add: percolate_up_eq_sift_up)
  then show ?thesis by (simp add: xs_def)
qed

lemma delete_min_elems:
  assumes "hsize h < length (heap h)" "hsize h \<noteq> 0"
  shows "\<exists>h'. BinaryHeap_find_min h = Inr (heap h ! 1) \<and> BinaryHeap_delete_min lt dflt h = Inr h'
    \<and> hsize h' = hsize h - 1 \<and> hsize h' < length (heap h')
    \<and> mset (elems h) = add_mset (heap h ! 1) (mset (elems h'))"
proof -
  let ?n = "hsize h - 1"
  let ?xs = "(heap h)[1 := heap h ! hsize h]"
  define ys where "ys = percolate_down lt ?n 1 ?xs"
  have perm: "perm_slots ?n ?xs ys"
    unfolding ys_def using assms by (intro percolate_down_perm) auto
  then have len: "length ys = length (heap h)" by (simp add: perm_slots_length)
  have "mset (elems h) = add_mset (heap h ! 1) (mset (elems \<lparr>heap = ys, hsize = ?n\<rparr>))"
    using mset_remove_slot [OF assms(1), of 1] assms(2)
      elems_of_perm [OF perm, of "\<lparr>heap = ys, hsize = ?n\<rparr>"] by (simp add: elems_def)
  moreover have "elems \<lparr>heap = ys[hsize h := dflt], hsize = ?n\<rparr> = elems \<lparr>heap = ys, hsize = ?n\<rparr>"
    using assms(2) take_drop_1_update [of ?n ys ?n dflt]
    by (simp add: elems_def list_update_beyond)
  moreover have "BinaryHeap_delete_min lt dflt h = Inr \<lparr>heap = ys[hsize h := dflt], hsize = ?n\<rparr>"
    using assms by (simp add: BinaryHeap_delete_min_def BinaryHeap_empty_def ys_def Let_def)
  moreover have "BinaryHeap_find_min h = Inr (heap h ! 1)"
    using assms by (simp add: BinaryHeap_find_min_def)
  ultimately show ?thesis using assms len by simp
qed

lemma root_in_elems: "hsize h < length (heap h) \<Longrightarrow> hsize h \<noteq> 0 \<Longrightarrow> heap h ! 1 \<in> set (elems h)"
  by (auto simp: elems_def in_set_conv_nth intro!: exI [of _ 0])

lemma heap_ok_new: "0 < cap \<Longrightarrow> heap_ok A lt (BinaryHeap_new dflt cap)"
  by (simp add: heap_ok_def BinaryHeap_new_def elems_def ord_from_def)

lemma elems_new [simp]: "elems (BinaryHeap_new dflt cap) = []"
  by (simp add: BinaryHeap_new_def elems_def)

text \<open>Neither a cleared heap nor one constructed with capacity 0 has a slot 1 to insert into.\<close>

lemma insert_without_slots_faults:
  "BinaryHeap_insert lt dflt x (BinaryHeap_clear h) = Inl Out_of_bounds"
  "BinaryHeap_insert lt dflt x (BinaryHeap_new dflt 0) = Inl Out_of_bounds"
  by (simp_all add: BinaryHeap_insert_def BinaryHeap_clear_def BinaryHeap_new_def)

interpretation nat_heap: priority_queue UNIV "(<) :: nat \<Rightarrow> nat \<Rightarrow> bool" "heap_ok UNIV (<)"
    "\<lambda>h. mset (elems h)" "BinaryHeap_insert (<) 0" BinaryHeap_find_min "BinaryHeap_delete_min (<) 0"
  by (rule heap_priority_queue [OF weak_order_less])

section \<open>Properties\<close>

text \<open>C30. The contract of the heap: for any \<^verbatim>\<open>operator<\<close> that is a strict weak order on the
  elements, \<^verbatim>\<open>insert\<close> never faults, keeps the heap order and adds exactly the given element;
  on a non-empty heap \<^verbatim>\<open>find_min\<close> returns an element that no other precedes and both
  overloads of \<^verbatim>\<open>delete_min\<close> remove exactly that element and keep the heap order; on an empty
  heap \<^verbatim>\<open>delete_min\<close> terminates the program (a \<^verbatim>\<open>throw\<close> with no exception to rethrow).\<close>

theorem BinaryHeap_contract:
  assumes "weak_order A lt" "heap_ok A lt h"
  shows "(\<forall>x \<in> A. \<exists>h'. BinaryHeap_insert lt dflt x h = Inr h' \<and> heap_ok A lt h'
        \<and> mset (elems h') = add_mset x (mset (elems h)))
    \<and> (if hsize h = 0 then BinaryHeap_delete_min lt dflt h = Inl Terminate
         \<and> BinaryHeap_delete_min_into lt dflt h = Inl Terminate
       else \<exists>m h1 h2. BinaryHeap_find_min h = Inr m
         \<and> BinaryHeap_delete_min lt dflt h = Inr h1 \<and> BinaryHeap_delete_min_into lt dflt h = Inr (m, h2)
         \<and> (\<forall>y \<in> set (elems h). \<not> lt y m)
         \<and> (\<forall>h' \<in> {h1, h2}. heap_ok A lt h' \<and> mset (elems h) = add_mset m (mset (elems h'))))"
proof (cases "hsize h = 0")
  case True
  with weak_order.insert_ok [OF assms] show ?thesis
    by (simp add: BinaryHeap_delete_min_def BinaryHeap_delete_min_into_def BinaryHeap_empty_def)
next
  case False
  obtain m h1 where 1: "BinaryHeap_find_min h = Inr m" "BinaryHeap_delete_min lt dflt h = Inr h1"
    "heap_ok A lt h1" "mset (elems h) = add_mset m (mset (elems h1))" "\<forall>y \<in> set (elems h). \<not> lt y m"
    using weak_order.delete_min_ok [OF assms False, of dflt] by auto
  obtain m' h2 where 2: "BinaryHeap_delete_min_into lt dflt h = Inr (m', h2)" "heap_ok A lt h2"
    "mset (elems h) = add_mset m' (mset (elems h2))"
    using weak_order.delete_min_into_ok [OF assms False, of dflt] by auto
  have "m' = m"
    using 1(1) 2(1) False
    by (auto simp: BinaryHeap_find_min_def BinaryHeap_delete_min_into_def BinaryHeap_empty_def
        Let_def split: if_splits)
  with 1 2 False weak_order.insert_ok [OF assms] show ?thesis by simp
qed

theorem BinaryHeap_contract_witness:
  "let h = \<lparr>heap = [0, 2, 5, 3], hsize = 3\<rparr> :: nat bheap
   in (\<exists>h'. BinaryHeap_insert (<) 0 1 h = Inr h' \<and> mset (elems h') = {#1, 2, 5, 3#})
     \<and> (\<exists>h1. BinaryHeap_find_min h = Inr 2 \<and> BinaryHeap_delete_min (<) 0 h = Inr h1)"
proof -
  have "ord_from (<) 1 3 [0, 2, 5, 3 :: nat]" by code_simp
  then have "heap_ok UNIV (<) (\<lparr>heap = [0, 2, 5, 3], hsize = 3\<rparr> :: nat bheap)"
    by (simp add: heap_ok_def)
  from BinaryHeap_contract [OF weak_order_less this, of 0] show ?thesis
    by (auto simp: elems_def BinaryHeap_find_min_def Let_def numeral_eq_Suc)
qed

text \<open>Inserting any list of elements into a fresh heap of capacity at least 1 and draining it
  returns every element exactly once, in an order that no pair violates: the heap sorts. No
  insertion or removal faults, whatever the reallocations on the way.\<close>

theorem BinaryHeap_sorts:
  assumes "weak_order A lt" "0 < cap" "set xs \<subseteq> A"
  shows "\<exists>h ys. insert_all (BinaryHeap_insert lt dflt) xs (BinaryHeap_new dflt cap) = Inr h
    \<and> drain BinaryHeap_find_min (BinaryHeap_delete_min lt dflt) (length xs) h = Inr ys
    \<and> mset ys = mset xs \<and> sorted_wrt (\<lambda>x y. \<not> lt y x) ys"
  using priority_queue.heap_sort_law
    [OF heap_priority_queue [OF assms(1)] heap_ok_new [OF assms(2)] _ assms(3)]
  by simp

theorem BinaryHeap_sorts_witness:
  "\<exists>h ys. insert_all (BinaryHeap_insert (<) 0) [3, 1, 2 :: nat] (BinaryHeap_new 0 1) = Inr h
    \<and> drain BinaryHeap_find_min (BinaryHeap_delete_min (<) 0) 3 h = Inr ys
    \<and> mset ys = {#1, 2, 3#} \<and> sorted ys"
  using BinaryHeap_sorts [OF weak_order_less, of 1 "[3, 1, 2 :: nat]" 0]
  by (simp add: linorder_not_less add_mset_commute numeral_3_eq_3
      del: drain.simps insert_all.simps)

text \<open>The two sifting loops, which move a hole through the array and store the element once,
  compute the same array as the textbook loops that exchange an element with its parent, or with
  its smaller child, at every step.\<close>

theorem BinaryHeap_hole_loops_are_exchanges:
  assumes "n < length xs" "hole < length xs"
  shows "percolate_up lt x hole xs = sift_up lt hole (xs[hole := x])
    \<and> percolate_down lt n hole xs = sift_down lt n hole xs"
  using assms by (simp add: percolate_up_eq_sift_up percolate_down_eq_sift_down)

theorem BinaryHeap_hole_loops_are_exchanges_witness:
  "percolate_up (<) 1 3 [0, 2, 5, 9 :: nat] = sift_up (<) 3 [0, 2, 5, 1]
    \<and> percolate_down (<) 3 1 [0, 8, 5, 9 :: nat] = sift_down (<) 3 1 [0, 8, 5, 9]"
  using BinaryHeap_hole_loops_are_exchanges [of 3 "[0, 2, 5, 9 :: nat]" 3 "(<)" 1]
    BinaryHeap_hole_loops_are_exchanges [of 3 "[0, 8, 5, 9 :: nat]" 1 "(<)" 1]
  by (simp add: numeral_eq_Suc)

text \<open>Both bulk constructors, the linear-time \<^verbatim>\<open>build\<close> over a vector and the insertions over an
  initializer list, give a heap in order that holds exactly the given elements.\<close>

theorem BinaryHeap_constructors:
  assumes "weak_order A lt" "set items \<subseteq> A"
  shows "heap_ok A lt (BinaryHeap_of_vector lt dflt items)
    \<and> mset (elems (BinaryHeap_of_vector lt dflt items)) = mset items
    \<and> (\<exists>h. BinaryHeap_of_list lt dflt items = Inr h \<and> heap_ok A lt h \<and> mset (elems h) = mset items)"
proof -
  have "length (copy_items items 0 (replicate (length items + 10) dflt)) = length items + 10"
    by (simp add: copy_items_eq)
  then have "heap_ok A lt (BinaryHeap_of_vector lt dflt items)
    \<and> mset (elems (BinaryHeap_of_vector lt dflt items)) = mset items"
    using weak_order.build_ok [OF assms(1), of
        "\<lparr>heap = copy_items items 0 (replicate (length items + 10) dflt), hsize = length items\<rparr>"]
      elems_copied [of items dflt] assms(2)
    by (simp add: BinaryHeap_of_vector_def)
  moreover have "\<exists>h. BinaryHeap_of_list lt dflt items = Inr h \<and> heap_ok A lt h
    \<and> mset (elems h) = mset items"
    using priority_queue.insert_all_law
      [OF heap_priority_queue [OF assms(1)] heap_ok_new [of "length items + 10"] assms(2)]
    by (simp add: BinaryHeap_of_list_def)
  ultimately show ?thesis by blast
qed

theorem BinaryHeap_constructors_witness:
  "heap_ok UNIV (<) (BinaryHeap_of_vector (<) 0 [4, 3, 2, 1 :: nat])"
  using BinaryHeap_constructors [OF weak_order_less, of "[4, 3, 2, 1 :: nat]" 0] by simp

text \<open>C31. \<open>erase_if\<close> removes exactly the first element, in array order, that satisfies the
  predicate, and leaves the heap alone when there is none. The hole is filled with the last
  element, which is only sifted down: the heap order survives exactly when that element does not
  precede the parent of the hole.\<close>

theorem BinaryHeap_erase_if_order:
  assumes "weak_order A lt" "heap_ok A lt h"
  shows "\<exists>h'. BinaryHeap_erase_if lt dflt f h = Inr h' \<and>
    (case find f (elems h) of
       None \<Rightarrow> h' = h
     | Some x \<Rightarrow> mset (elems h) = add_mset x (mset (elems h'))
         \<and> (\<exists>i \<in> {1..hsize h}. heap h ! i = x \<and> i = first_index f (heap h) 1 (hsize h) \<and>
              (heap_ok A lt h' \<longleftrightarrow> \<not> (1 < i \<and> lt (heap h ! hsize h) (heap h ! (i div 2))))))"
  by (rule weak_order.erase_if_cases [OF assms])

text \<open>The witness is a heap on which the order breaks: after erasing 11, 4 stands below 10.\<close>

theorem BinaryHeap_erase_if_order_witness:
  "\<exists>h'. BinaryHeap_erase_if (<) 0 (\<lambda>x. x = 11) \<lparr>heap = [0, 1, 10, 2, 11, 12, 3, 4 :: nat], hsize = 7\<rparr> = Inr h'
     \<and> \<not> heap_ok UNIV (<) h'"
proof -
  let ?h = "\<lparr>heap = [0, 1, 10, 2, 11, 12, 3, 4 :: nat], hsize = 7\<rparr>"
  have "ord_from (<) 1 7 [0, 1, 10, 2, 11, 12, 3, 4 :: nat]" by code_simp
  then have ok: "heap_ok UNIV (<) ?h" by (simp add: heap_ok_def)
  have "find (\<lambda>x. x = 11) (elems ?h) = Some 11"
    "first_index (\<lambda>x. x = 11) (heap ?h) 1 (hsize ?h) = 4" by code_simp+
  with BinaryHeap_erase_if_order [OF weak_order_less ok, of 0 "\<lambda>x. x = 11"] show ?thesis
    by auto
qed

end
