(* ===== verification/Timer_Queue.thy ===== *)
theory Timer_Queue
  imports Binary_Heap Timestamps
begin

text \<open>
  \<^verbatim>\<open>TimerQueue\<close>, the timer calls of \<^verbatim>\<open>EventLoop\<close> and \<^verbatim>\<open>TimerMixin\<close> (\<^verbatim>\<open>src/src/TimerQueue.h\<close>,
  \<^verbatim>\<open>TimerQueue.cpp\<close>, \<^verbatim>\<open>TimerMixin.cpp\<close>, \<^verbatim>\<open>EventLoop.cpp\<close>). A \<^verbatim>\<open>Timer\<close> lives behind shared
  pointers, so timer objects have addresses: \<open>objs\<close> holds the objects that some \<^verbatim>\<open>TimerHolder\<close>
  keeps alive, and a weak pointer is expired when its address is not in \<open>objs\<close>. The heap holds
  weak holders: an id, a snapshot of the timeout, and the weak pointer.

  The clock is the argument \<open>clk\<close>: \<open>clk n\<close> is what the \<open>n\<close>th call of \<^verbatim>\<open>Timestamp::now\<close> returns. A
  user handler is a name; what it does to the timers is the argument \<open>acts\<close>, which may depend on
  everything that has fired so far. \<open>timerfd_sets\<close> lists the values handed to
  \<^verbatim>\<open>timerfd_settime\<close>, in seconds and nanoseconds, and \<open>timerfd_arg\<close> is the last of them. The 64-bit id counter does not wrap (one timer
  per nanosecond lasts for centuries), so ids are natural numbers.
\<close>

section \<open>Timers\<close>

text \<open>
  The handler of a timer is the user's, or the closure \<^verbatim>\<open>EventLoop::runEvery\<close> builds around it,
  with the interval and the weak pointer it captures.
\<close>

datatype 'h timer_handler = Plain 'h | Every timestamp 'h nat

record 'h timer =
  tid :: nat
  ttimeout :: timestamp
  thandler :: "'h timer_handler"

record weak_holder =
  weak_id :: nat
  weak_timeout :: timestamp
  weakTimerPtr :: "nat option"

definition WeakTimerHolder_default :: weak_holder where
  "WeakTimerHolder_default = \<lparr>weak_id = 0, weak_timeout = Timestamp 0 0, weakTimerPtr = None\<rparr>"

definition weak_less :: "weak_holder \<Rightarrow> weak_holder \<Rightarrow> bool" where
  "weak_less l r \<longleftrightarrow>
     Timestamp_less (weak_timeout l) (weak_timeout r) \<and> weak_id l < weak_id r"

section \<open>State\<close>

record 'h tq =
  queue :: "weak_holder bheap"
  timerfd_open :: bool
  timerfd_sets :: "(int \<times> int) list"
  objs :: "nat \<Rightarrow> 'h timer option"
  next_addr :: nat
  timerIds :: nat
  timerHolders :: "nat \<Rightarrow> nat option"
  clock_reads :: nat
  fired :: "(nat \<times> timestamp \<times> 'h) list"

definition TimerQueue_new :: "'h tq" where
  "TimerQueue_new =
     \<lparr>queue = BinaryHeap_new WeakTimerHolder_default 100, timerfd_open = True, timerfd_sets = [],
      objs = (\<lambda>_. None), next_addr = 0, timerIds = 1, timerHolders = (\<lambda>_. None),
      clock_reads = 0, fired = []\<rparr>"

definition make_shared :: "'h timer \<Rightarrow> 'h tq \<Rightarrow> nat \<times> 'h tq" where
  "make_shared t s =
     (next_addr s, s\<lparr>objs := (objs s)(next_addr s \<mapsto> t), next_addr := next_addr s + 1\<rparr>)"

definition getOneValidId :: "'h tq \<Rightarrow> nat \<times> 'h tq" where
  "getOneValidId s = (timerIds s, s\<lparr>timerIds := timerIds s + 1\<rparr>)"

definition Timestamp_now :: "(nat \<Rightarrow> timestamp) \<Rightarrow> 'h tq \<Rightarrow> timestamp \<times> 'h tq" where
  "Timestamp_now clk s = (clk (clock_reads s), s\<lparr>clock_reads := clock_reads s + 1\<rparr>)"

section \<open>Operations of the queue\<close>

definition timerfd_arg :: "'h tq \<Rightarrow> (int \<times> int) option" where
  "timerfd_arg s = (if timerfd_sets s = [] then None else Some (last (timerfd_sets s)))"

definition itimer :: "timestamp \<Rightarrow> int \<times> int" where
  "itimer t = (sec t, usec t * 1000)"

definition updateTimerfd :: "timestamp \<Rightarrow> 'h tq \<Rightarrow> 'h tq" where
  "updateTimerfd t s =
     (if timerfd_open s then s\<lparr>timerfd_sets := timerfd_sets s @ [itimer t]\<rparr> else s)"

definition queue_insert :: "weak_holder \<Rightarrow> 'h tq \<Rightarrow> 'h tq res" where
  "queue_insert w s =
     bind_res (BinaryHeap_insert weak_less WeakTimerHolder_default w (queue s)) (\<lambda>q.
     Inr (s\<lparr>queue := q\<rparr>))"

text \<open>
  The three overloads of \<^verbatim>\<open>insert\<close>: a ready-made timer (returning its holder), a timeout and a
  handler (taking a fresh id), and a shared timer that already exists.
\<close>

definition TimerQueue_insert_timer :: "'h timer \<Rightarrow> 'h tq \<Rightarrow> (nat \<times> 'h tq) res" where
  "TimerQueue_insert_timer t s =
     (if tid t = 0 then Inl (Thrown ''timer id will not be zero'')
      else let s1 = (if BinaryHeap_empty (queue s) then updateTimerfd (ttimeout t) s else s);
               (a, s2) = make_shared t s1;
               w = \<lparr>weak_id = tid t, weak_timeout = ttimeout t, weakTimerPtr = Some a\<rparr>
           in bind_res (queue_insert w s2) (\<lambda>s3. Inr (a, s3)))"

definition TimerQueue_insert :: "timestamp \<Rightarrow> 'h \<Rightarrow> 'h tq \<Rightarrow> (nat \<times> 'h tq) res" where
  "TimerQueue_insert t h s =
     (let (i, s1) = getOneValidId s;
          (a, s2) = make_shared \<lparr>tid = i, ttimeout = t, thandler = Plain h\<rparr> s1;
          w = \<lparr>weak_id = i, weak_timeout = t, weakTimerPtr = Some a\<rparr>;
          s3 = (if BinaryHeap_empty (queue s2) then updateTimerfd t s2 else s2)
      in bind_res (queue_insert w s3) (\<lambda>s4. Inr (a, s4)))"

definition TimerQueue_insert_shared :: "nat \<Rightarrow> 'h tq \<Rightarrow> 'h tq res" where
  "TimerQueue_insert_shared a s =
     (case objs s a of
        None \<Rightarrow> Inl Null_deref
      | Some t \<Rightarrow>
          let w = \<lparr>weak_id = tid t, weak_timeout = ttimeout t, weakTimerPtr = Some a\<rparr>;
              s1 = (if BinaryHeap_empty (queue s) then updateTimerfd (ttimeout t) s else s)
          in queue_insert w s1)"

definition getMinTimestamp :: "'h tq \<Rightarrow> timestamp option res" where
  "getMinTimestamp s =
     (if BinaryHeap_empty (queue s) then Inr None
      else bind_res (BinaryHeap_find_min (queue s)) (\<lambda>w. Inr (Some (weak_timeout w))))"

definition TimerQueue_destroy :: "'h tq \<Rightarrow> 'h tq" where
  "TimerQueue_destroy s = s\<lparr>timerfd_open := False, queue := BinaryHeap_clear (queue s)\<rparr>"

section \<open>The timer calls of the event loop and of the mixin\<close>

definition EventLoop_runAt :: "timestamp \<Rightarrow> 'h \<Rightarrow> 'h tq \<Rightarrow> (nat \<times> 'h tq) res" where
  "EventLoop_runAt t h s = TimerQueue_insert t h s"

definition EventLoop_runAfter ::
    "(nat \<Rightarrow> timestamp) \<Rightarrow> timestamp \<Rightarrow> 'h \<Rightarrow> 'h tq \<Rightarrow> (nat \<times> 'h tq) res" where
  "EventLoop_runAfter clk t h s =
     (let (now, s1) = Timestamp_now clk s in TimerQueue_insert (Timestamp_plus t now) h s1)"

text \<open>
  \<^verbatim>\<open>runEvery\<close> allocates a default timer, then assigns it the timer with the closure; the interval
  itself is its first timeout.
\<close>

definition EventLoop_runEvery :: "timestamp \<Rightarrow> 'h \<Rightarrow> 'h tq \<Rightarrow> (nat \<times> 'h tq) res" where
  "EventLoop_runEvery t h s =
     (let a = next_addr s;
          (i, s1) = getOneValidId s;
          (_, s2) = make_shared \<lparr>tid = i, ttimeout = t, thandler = Every t h a\<rparr> s1
      in bind_res (TimerQueue_insert_shared a s2) (\<lambda>s3. Inr (a, s3)))"

definition TimerMixin_runHelper :: "nat \<Rightarrow> 'h tq \<Rightarrow> (nat \<times> 'h tq) res" where
  "TimerMixin_runHelper a s =
     (case objs s a of
        None \<Rightarrow> Inl Assertion
      | Some t \<Rightarrow> Inr (tid t, s\<lparr>timerHolders := (timerHolders s)(tid t \<mapsto> a)\<rparr>))"

definition TimerMixin_runAt :: "timestamp \<Rightarrow> 'h \<Rightarrow> 'h tq \<Rightarrow> (nat \<times> 'h tq) res" where
  "TimerMixin_runAt t h s = bind_res (EventLoop_runAt t h s) (\<lambda>(a, s). TimerMixin_runHelper a s)"

definition TimerMixin_runAfter ::
    "(nat \<Rightarrow> timestamp) \<Rightarrow> timestamp \<Rightarrow> 'h \<Rightarrow> 'h tq \<Rightarrow> (nat \<times> 'h tq) res" where
  "TimerMixin_runAfter clk t h s =
     bind_res (EventLoop_runAfter clk t h s) (\<lambda>(a, s). TimerMixin_runHelper a s)"

definition TimerMixin_runEvery :: "timestamp \<Rightarrow> 'h \<Rightarrow> 'h tq \<Rightarrow> (nat \<times> 'h tq) res" where
  "TimerMixin_runEvery t h s =
     bind_res (EventLoop_runEvery t h s) (\<lambda>(a, s). TimerMixin_runHelper a s)"

text \<open>
  Erasing a holder drops the last strong reference to its timer. (A timer whose handler is
  running is kept by the loop until the handler returns; nothing looks at it before that.)
\<close>

definition TimerMixin_cancelTimer :: "nat \<Rightarrow> 'h tq \<Rightarrow> 'h tq" where
  "TimerMixin_cancelTimer i s =
     (case timerHolders s i of
        None \<Rightarrow> s
      | Some a \<Rightarrow> s\<lparr>timerHolders := (timerHolders s)(i := None), objs := (objs s)(a := None)\<rparr>)"

definition TimerMixin_cancelAllTimer :: "'h tq \<Rightarrow> 'h tq" where
  "TimerMixin_cancelAllTimer s =
     s\<lparr>timerHolders := (\<lambda>_. None),
       objs := (\<lambda>a. case objs s a of None \<Rightarrow> None
                 | Some t \<Rightarrow> if timerHolders s (tid t) = Some a then None else Some t)\<rparr>"

section \<open>Running what is due\<close>

datatype 'h act = RunAt timestamp 'h | RunAfter timestamp 'h | RunEvery timestamp 'h
  | CancelTimer nat | CancelAllTimer

fun do_act :: "(nat \<Rightarrow> timestamp) \<Rightarrow> 'h act \<Rightarrow> 'h tq \<Rightarrow> 'h tq res" where
  "do_act clk (RunAt t h) s = bind_res (TimerMixin_runAt t h s) (\<lambda>(_, s). Inr s)"
| "do_act clk (RunAfter t h) s = bind_res (TimerMixin_runAfter clk t h s) (\<lambda>(_, s). Inr s)"
| "do_act clk (RunEvery t h) s = bind_res (TimerMixin_runEvery t h s) (\<lambda>(_, s). Inr s)"
| "do_act clk (CancelTimer i) s = Inr (TimerMixin_cancelTimer i s)"
| "do_act clk CancelAllTimer s = Inr (TimerMixin_cancelAllTimer s)"

fun do_acts :: "(nat \<Rightarrow> timestamp) \<Rightarrow> 'h act list \<Rightarrow> 'h tq \<Rightarrow> 'h tq res" where
  "do_acts clk [] s = Inr s"
| "do_acts clk (a # as) s = bind_res (do_act clk a s) (do_acts clk as)"

definition call_user ::
    "(nat \<Rightarrow> timestamp) \<Rightarrow> ('h \<Rightarrow> (nat \<times> timestamp \<times> 'h) list \<Rightarrow> 'h act list) \<Rightarrow>
     weak_holder \<Rightarrow> 'h \<Rightarrow> 'h tq \<Rightarrow> 'h tq res" where
  "call_user clk acts w h s =
     do_acts clk (acts h (fired s)) (s\<lparr>fired := fired s @ [(weak_id w, weak_timeout w, h)]\<rparr>)"

definition runHandler ::
    "(nat \<Rightarrow> timestamp) \<Rightarrow> ('h \<Rightarrow> (nat \<times> timestamp \<times> 'h) list \<Rightarrow> 'h act list) \<Rightarrow>
     weak_holder \<Rightarrow> 'h timer \<Rightarrow> 'h tq \<Rightarrow> 'h tq res" where
  "runHandler clk acts w t s =
     (case thandler t of
        Plain h \<Rightarrow> call_user clk acts w h s
      | Every interval h a \<Rightarrow>
          (case objs s a of
             None \<Rightarrow> Inr s
           | Some t' \<Rightarrow>
               let (now, s1) = Timestamp_now clk s;
                   t'' = t'\<lparr>ttimeout := Timestamp_plus interval now\<rparr>
               in bind_res (TimerQueue_insert_shared a (s1\<lparr>objs := (objs s1)(a \<mapsto> t'')\<rparr>)) (\<lambda>s2.
                  call_user clk acts w h s2)))"

definition expired :: "weak_holder \<Rightarrow> 'h tq \<Rightarrow> 'h timer option" where
  "expired w s = (case weakTimerPtr w of None \<Rightarrow> None | Some a \<Rightarrow> objs s a)"

text \<open>
  One round of the loop of \<^verbatim>\<open>handleTimeoutEvents\<close>: \<open>None\<close> when the loop ends. The log line is left
  out (see \<open>handler_moves_heap\<close>).
\<close>

definition timeout_round ::
    "(nat \<Rightarrow> timestamp) \<Rightarrow> ('h \<Rightarrow> (nat \<times> timestamp \<times> 'h) list \<Rightarrow> 'h act list) \<Rightarrow>
     timestamp \<Rightarrow> 'h tq \<Rightarrow> 'h tq option res" where
  "timeout_round clk acts now s =
     (if BinaryHeap_empty (queue s) then Inr None
      else bind_res (BinaryHeap_find_min (queue s)) (\<lambda>w.
        if Timestamp_less now (weak_timeout w) then Inr None
        else bind_res (case expired w s of None \<Rightarrow> Inr s | Some t \<Rightarrow> runHandler clk acts w t s) (\<lambda>s1.
             bind_res (BinaryHeap_delete_min weak_less WeakTimerHolder_default (queue s1)) (\<lambda>q.
             Inr (Some (s1\<lparr>queue := q\<rparr>))))))"

partial_function (option) timeout_loop ::
    "(nat \<Rightarrow> timestamp) \<Rightarrow> ('h \<Rightarrow> (nat \<times> timestamp \<times> 'h) list \<Rightarrow> 'h act list) \<Rightarrow>
     timestamp \<Rightarrow> 'h tq \<Rightarrow> 'h tq res option" where
  [code]: "timeout_loop clk acts now s =
     (case timeout_round clk acts now s of
        Inl e \<Rightarrow> Some (Inl e)
      | Inr None \<Rightarrow> Some (Inr s)
      | Inr (Some s') \<Rightarrow> timeout_loop clk acts now s')"

definition rearm :: "'h tq \<Rightarrow> 'h tq res" where
  "rearm s =
     (if BinaryHeap_empty (queue s) then Inr s
      else bind_res (BinaryHeap_find_min (queue s)) (\<lambda>w. Inr (updateTimerfd (weak_timeout w) s)))"

definition handleTimeoutEvents ::
    "(nat \<Rightarrow> timestamp) \<Rightarrow> ('h \<Rightarrow> (nat \<times> timestamp \<times> 'h) list \<Rightarrow> 'h act list) \<Rightarrow>
     'h tq \<Rightarrow> 'h tq res option" where
  "handleTimeoutEvents clk acts s =
     (if BinaryHeap_empty (queue s) then Some (Inr s)
      else let (now, s1) = Timestamp_now clk s
           in map_option (\<lambda>r. bind_res r rearm) (timeout_loop clk acts now s1))"

section \<open>The invariant\<close>

text \<open>
  Ids and addresses come from the counters, an object's id is the id of the weak holders that
  refer to it, and the mixin holds every object under its id (so no two objects share one).
\<close>

definition tq_ok :: "'h tq \<Rightarrow> bool" where
  "tq_ok s \<longleftrightarrow>
     hsize (queue s) < length (heap (queue s))
   \<and> (\<forall>w \<in> set (elems (queue s)). weak_id w < timerIds s \<and>
        (\<forall>a. weakTimerPtr w = Some a \<longrightarrow> a < next_addr s \<and> (\<forall>t. objs s a = Some t \<longrightarrow> tid t = weak_id w)))
   \<and> (\<forall>a t. objs s a = Some t \<longrightarrow> a < next_addr s \<and> tid t < timerIds s
        \<and> (\<forall>i h b. thandler t = Every i h b \<longrightarrow> b = a))
   \<and> (\<forall>a t. objs s a = Some t \<longrightarrow> timerHolders s (tid t) = Some a)
   \<and> (\<forall>i a. timerHolders s i = Some a \<longrightarrow> a < next_addr s \<and>
        (\<forall>t. objs s a = Some t \<longrightarrow> tid t = i))"

definition alive :: "nat \<Rightarrow> 'h tq \<Rightarrow> bool" where
  "alive i s \<longleftrightarrow> (\<exists>a t. objs s a = Some t \<and> tid t = i)"

text \<open>
  What any timer call may do to a queue that is being served: new elements with ids that are
  fresh or still alive, the root undisturbed, nothing fired, nothing dead revived.
\<close>

definition evolves :: "'h tq \<Rightarrow> 'h tq \<Rightarrow> bool" where
  "evolves s s' \<longleftrightarrow> tq_ok s' \<and> fired s' = fired s \<and> timerIds s \<le> timerIds s'
   \<and> timerfd_open s' = timerfd_open s
   \<and> (hsize (queue s) \<noteq> 0 \<longrightarrow> hsize (queue s') \<noteq> 0 \<and> heap (queue s') ! 1 = heap (queue s) ! 1
        \<and> timerfd_sets s' = timerfd_sets s)
   \<and> mset (elems (queue s)) \<subseteq># mset (elems (queue s'))
   \<and> (\<forall>i < timerIds s. alive i s' \<longrightarrow> alive i s)"

section \<open>The calls preserve the invariant\<close>

lemma evolves_refl: "tq_ok s \<Longrightarrow> evolves s s"
  by (simp add: evolves_def)

lemma evolves_trans: "evolves r s \<Longrightarrow> evolves s t \<Longrightarrow> evolves r t"
  unfolding evolves_def
  by (elim conjE, intro conjI) (auto intro: subset_mset.order_trans)

lemma weak_less_id: "weak_less l r \<Longrightarrow> weak_id l < weak_id r"
  by (simp add: weak_less_def)

lemma queue_insert_ok:
  assumes "hsize (queue s) < length (heap (queue s))"
    and "hsize (queue s) \<noteq> 0 \<Longrightarrow> weak_id (heap (queue s) ! 1) \<le> weak_id w"
  shows "\<exists>q. queue_insert w s = Inr (s\<lparr>queue := q\<rparr>) \<and> hsize q = Suc (hsize (queue s))
    \<and> hsize q < length (heap q) \<and> mset (elems q) = add_mset w (mset (elems (queue s)))
    \<and> (hsize (queue s) \<noteq> 0 \<longrightarrow> heap q ! 1 = heap (queue s) ! 1)"
proof -
  obtain q where q: "BinaryHeap_insert weak_less WeakTimerHolder_default w (queue s) = Inr q
      \<and> hsize q = Suc (hsize (queue s)) \<and> hsize q < length (heap q)
      \<and> mset (elems q) = add_mset w (mset (elems (queue s)))
      \<and> (0 < hsize (queue s) \<longrightarrow> \<not> weak_less w (heap (queue s) ! 1)
           \<longrightarrow> heap q ! 1 = heap (queue s) ! 1)"
    using insert_elems [OF assms(1), of weak_less WeakTimerHolder_default w] by (rule exE)
  have "\<not> weak_less w (heap (queue s) ! 1)" if "hsize (queue s) \<noteq> 0"
    using assms(2) [OF that] weak_less_id by fastforce
  with q show ?thesis by (auto simp: queue_insert_def)
qed

text \<open>The three mixin calls add a timer with a fresh id; they differ in timeout and closure.\<close>

definition add_timer :: "timestamp \<Rightarrow> 'h timer_handler \<Rightarrow> 'h tq \<Rightarrow> (nat \<times> 'h tq) res" where
  "add_timer t th s =
     (let i = timerIds s; a = next_addr s;
          s1 = s\<lparr>timerIds := i + 1, objs := (objs s)(a \<mapsto> \<lparr>tid = i, ttimeout = t, thandler = th\<rparr>),
                 next_addr := a + 1\<rparr>;
          s2 = (if BinaryHeap_empty (queue s) then updateTimerfd t s1 else s1)
      in bind_res (queue_insert \<lparr>weak_id = i, weak_timeout = t, weakTimerPtr = Some a\<rparr> s2)
           (\<lambda>s3. Inr (i, s3\<lparr>timerHolders := (timerHolders s3)(i \<mapsto> a)\<rparr>)))"

lemma queue_insert_frame:
  "queue_insert w s = Inr s' \<Longrightarrow> objs s' = objs s"
  by (auto simp: queue_insert_def bind_res_Inr_iff)

lemma updateTimerfd_frame [simp]:
  "objs (updateTimerfd t s) = objs s" "queue (updateTimerfd t s) = queue s"
  "timerIds (updateTimerfd t s) = timerIds s" "next_addr (updateTimerfd t s) = next_addr s"
  "timerHolders (updateTimerfd t s) = timerHolders s" "fired (updateTimerfd t s) = fired s"
  "timerfd_open (updateTimerfd t s) = timerfd_open s" "clock_reads (updateTimerfd t s) = clock_reads s"
  by (simp_all add: updateTimerfd_def)

lemma bind_queue_insert_helper:
  assumes "objs s a = Some t"
  shows "bind_res (bind_res (queue_insert w s) (\<lambda>s'. Inr (a, s'))) (\<lambda>(a, s). TimerMixin_runHelper a s)
    = bind_res (queue_insert w s) (\<lambda>s'. Inr (tid t, s'\<lparr>timerHolders := (timerHolders s')(tid t \<mapsto> a)\<rparr>))"
proof (cases "queue_insert w s")
  case (Inl e)
  then show ?thesis by simp
next
  case (Inr s')
  with queue_insert_frame [OF Inr] assms show ?thesis by (simp add: TimerMixin_runHelper_def)
qed

lemma runAt_add: "TimerMixin_runAt t h s = add_timer t (Plain h) s"
  by (simp add: TimerMixin_runAt_def EventLoop_runAt_def TimerQueue_insert_def add_timer_def Let_def
      make_shared_def getOneValidId_def bind_queue_insert_helper)

lemma runAfter_add:
  "TimerMixin_runAfter clk t h s =
     add_timer (Timestamp_plus t (clk (clock_reads s))) (Plain h) (s\<lparr>clock_reads := clock_reads s + 1\<rparr>)"
  by (simp add: TimerMixin_runAfter_def EventLoop_runAfter_def TimerQueue_insert_def add_timer_def
      Let_def make_shared_def getOneValidId_def Timestamp_now_def bind_queue_insert_helper)

lemma runEvery_add:
  "TimerMixin_runEvery t h s = add_timer t (Every t h (next_addr s)) s"
  by (simp add: TimerMixin_runEvery_def EventLoop_runEvery_def TimerQueue_insert_shared_def
      add_timer_def Let_def make_shared_def getOneValidId_def bind_queue_insert_helper)

lemma tq_okD:
  assumes "tq_ok s"
  shows "hsize (queue s) < length (heap (queue s))"
    and "w \<in> set (elems (queue s)) \<Longrightarrow> weak_id w < timerIds s"
    and "w \<in> set (elems (queue s)) \<Longrightarrow> weakTimerPtr w = Some a \<Longrightarrow> a < next_addr s"
    and "w \<in> set (elems (queue s)) \<Longrightarrow> weakTimerPtr w = Some a \<Longrightarrow> objs s a = Some t \<Longrightarrow> tid t = weak_id w"
    and "objs s a = Some t \<Longrightarrow> a < next_addr s"
    and "objs s a = Some t \<Longrightarrow> tid t < timerIds s"
    and "objs s a = Some t \<Longrightarrow> thandler t = Every d h b \<Longrightarrow> b = a"
    and "objs s a = Some t \<Longrightarrow> timerHolders s (tid t) = Some a"
    and "timerHolders s i = Some a \<Longrightarrow> objs s a = Some t \<Longrightarrow> tid t = i"
    and "timerHolders s i = Some a \<Longrightarrow> a < next_addr s"
  using assms unfolding tq_ok_def by blast+

lemma set_elems_insert: "mset xs = add_mset w (mset ys) \<Longrightarrow> set xs = insert w (set ys)"
  by (metis set_mset_add_mset_insert set_mset_mset)

lemma root_id_below:
  "tq_ok s \<Longrightarrow> hsize (queue s) \<noteq> 0 \<Longrightarrow> weak_id (heap (queue s) ! 1) < timerIds s"
  using root_in_elems tq_okD(1,2) by blast

text \<open>The state with a new timer, or with one put back, is in order again.\<close>

lemma tq_ok_added:
  assumes ok: "tq_ok s" and th: "\<forall>d h b. th = Every d h b \<longrightarrow> b = next_addr s"
    and w: "w = \<lparr>weak_id = timerIds s, weak_timeout = t, weakTimerPtr = Some (next_addr s)\<rparr>"
    and q: "hsize (queue s') < length (heap (queue s'))" "mset (elems (queue s')) = add_mset w (mset (elems (queue s)))"
    and s': "objs s' = (objs s)(next_addr s \<mapsto> \<lparr>tid = timerIds s, ttimeout = t, thandler = th\<rparr>)"
      "timerIds s' = timerIds s + 1" "next_addr s' = next_addr s + 1"
      "timerHolders s' = (timerHolders s)(timerIds s \<mapsto> next_addr s)"
  shows "tq_ok s'"
  unfolding tq_ok_def
proof (intro conjI allI impI ballI)
  show "hsize (queue s') < length (heap (queue s'))" by (rule q(1))
next
  fix v assume "v \<in> set (elems (queue s'))"
  then have v: "v = w \<or> v \<in> set (elems (queue s))" using set_elems_insert [OF q(2)] by simp
  then show "weak_id v < timerIds s'" using tq_okD(2) [OF ok, of v] s'(2) w by auto
  fix a assume a: "weakTimerPtr v = Some a"
  then show "a < next_addr s'" using v tq_okD(3) [OF ok, of v a] s'(3) w by auto
  fix u assume "objs s' a = Some u"
  then show "tid u = weak_id v"
    using v a w tq_okD(3,4) [OF ok, of v a] s'(1) by (auto split: if_splits)
next
  fix a u assume u: "objs s' a = Some u"
  then show "a < next_addr s'" "tid u < timerIds s'"
    using tq_okD(5,6) [OF ok, of a u] s' by (auto split: if_splits)
  show "b = a" if "thandler u = Every i h b" for i h b
    using u that th tq_okD(7) [OF ok, of a u] s'(1) by (auto split: if_splits)
next
  fix a u assume "objs s' a = Some u"
  then show "timerHolders s' (tid u) = Some a"
    using tq_okD(6,8) [OF ok, of a u] s'(1,4) by (auto split: if_splits)
next
  fix i a assume i: "timerHolders s' i = Some a"
  then show "a < next_addr s'"
    using tq_okD(10) [OF ok, of i a] s'(3,4) by (auto split: if_splits)
  fix u assume "objs s' a = Some u"
  then show "tid u = i"
    using i tq_okD(9,10) [OF ok, of i a] s'(1,4) by (auto split: if_splits)
qed

lemma tq_ok_put_back:
  assumes ok: "tq_ok s" and t: "objs s a = Some t"
    and w: "w = \<lparr>weak_id = tid t, weak_timeout = d, weakTimerPtr = Some a\<rparr>"
    and q: "hsize (queue s') < length (heap (queue s'))" "mset (elems (queue s')) = add_mset w (mset (elems (queue s)))"
    and s': "objs s' = (objs s)(a \<mapsto> t\<lparr>ttimeout := d\<rparr>)" "timerIds s' = timerIds s" "next_addr s' = next_addr s"
      "timerHolders s' = timerHolders s"
  shows "tq_ok s'"
  unfolding tq_ok_def
proof (intro conjI allI impI ballI)
  show "hsize (queue s') < length (heap (queue s'))" by (rule q(1))
next
  fix v assume "v \<in> set (elems (queue s'))"
  then have v: "v = w \<or> v \<in> set (elems (queue s))" using set_elems_insert [OF q(2)] by simp
  then show "weak_id v < timerIds s'" using tq_okD(2) [OF ok, of v] tq_okD(6) [OF ok t] s'(2) w by auto
  fix b assume b: "weakTimerPtr v = Some b"
  then show "b < next_addr s'"
    using v tq_okD(3) [OF ok, of v b] tq_okD(5) [OF ok t] s'(3) w by auto
  fix u assume "objs s' b = Some u"
  then show "tid u = weak_id v" using v b w t tq_okD(4) [OF ok, of v b] s'(1) by (auto split: if_splits)
next
  fix b u assume "objs s' b = Some u"
  then obtain v where v: "objs s b = Some v" "tid v = tid u" "thandler v = thandler u"
    using t s'(1) by (auto split: if_splits)
  show "b < next_addr s'" "tid u < timerIds s'"
    using v tq_okD(5,6) [OF ok v(1)] s'(2,3) by simp_all
  show "c = b" if "thandler u = Every i h c" for i h c
    using tq_okD(7) [OF ok v(1)] v(3) that by simp
next
  fix b u assume "objs s' b = Some u"
  then show "timerHolders s' (tid u) = Some b"
    using t tq_okD(8) [OF ok, of b] s'(1,4) by (auto split: if_splits)
next
  fix i b assume i: "timerHolders s' i = Some b"
  then show "b < next_addr s'" using tq_okD(10) [OF ok] s'(3,4) by simp
  fix u assume "objs s' b = Some u"
  then show "tid u = i" using i t tq_okD(9) [OF ok, of i b] s'(1,4) by (auto split: if_splits)
qed

lemma add_timer_ok:
  assumes ok: "tq_ok s" and th: "\<forall>d h b. th = Every d h b \<longrightarrow> b = next_addr s"
  shows "\<exists>s'. add_timer t th s = Inr (timerIds s, s') \<and> evolves s s'
    \<and> mset (elems (queue s')) =
        add_mset \<lparr>weak_id = timerIds s, weak_timeout = t, weakTimerPtr = Some (next_addr s)\<rparr>
          (mset (elems (queue s)))
    \<and> objs s' = (objs s)(next_addr s \<mapsto> \<lparr>tid = timerIds s, ttimeout = t, thandler = th\<rparr>)
    \<and> timerHolders s' = (timerHolders s)(timerIds s \<mapsto> next_addr s)
    \<and> (hsize (queue s) = 0 \<longrightarrow> timerfd_open s \<longrightarrow> timerfd_sets s' = timerfd_sets s @ [itimer t])"
proof -
  let ?i = "timerIds s" and ?a = "next_addr s" and ?q = "queue s"
  let ?w = "\<lparr>weak_id = ?i, weak_timeout = t, weakTimerPtr = Some ?a\<rparr>"
  let ?o = "\<lparr>tid = ?i, ttimeout = t, thandler = th\<rparr>"
  define s1 where "s1 = s\<lparr>timerIds := ?i + 1, objs := (objs s)(?a \<mapsto> ?o), next_addr := ?a + 1\<rparr>"
  define s2 where "s2 = (if BinaryHeap_empty ?q then updateTimerfd t s1 else s1)"
  have s2: "queue s2 = ?q" "objs s2 = (objs s)(?a \<mapsto> ?o)" "timerIds s2 = ?i + 1"
    "next_addr s2 = ?a + 1" "timerHolders s2 = timerHolders s" "fired s2 = fired s"
    "timerfd_open s2 = timerfd_open s"
    by (simp_all add: s2_def s1_def)
  have arg: "hsize ?q \<noteq> 0 \<Longrightarrow> timerfd_sets s2 = timerfd_sets s"
    "hsize ?q = 0 \<Longrightarrow> timerfd_open s \<Longrightarrow> timerfd_sets s2 = timerfd_sets s @ [itimer t]"
    by (simp_all add: s2_def s1_def BinaryHeap_empty_def updateTimerfd_def)
  have "hsize ?q \<noteq> 0 \<Longrightarrow> weak_id (heap ?q ! 1) \<le> weak_id ?w"
    using root_id_below [OF ok] by simp
  then obtain q where q: "queue_insert ?w s2 = Inr (s2\<lparr>queue := q\<rparr>)"
    "hsize q = Suc (hsize ?q)" "hsize q < length (heap q)"
    "mset (elems q) = add_mset ?w (mset (elems ?q))" "hsize ?q \<noteq> 0 \<longrightarrow> heap q ! 1 = heap ?q ! 1"
    using queue_insert_ok [of s2 ?w] tq_okD(1) [OF ok] unfolding s2(1) by blast
  define s' where "s' = s2\<lparr>queue := q, timerHolders := (timerHolders s)(?i \<mapsto> ?a)\<rparr>"
  have s': "queue s' = q" "objs s' = (objs s)(?a \<mapsto> ?o)" "timerIds s' = ?i + 1"
    "next_addr s' = ?a + 1" "timerHolders s' = (timerHolders s)(?i \<mapsto> ?a)" "fired s' = fired s"
    "timerfd_open s' = timerfd_open s" "timerfd_sets s' = timerfd_sets s2"
    by (simp_all add: s'_def s2)
  have add: "add_timer t th s = Inr (?i, s')"
    using q(1) unfolding add_timer_def Let_def s1_def [symmetric] s2_def [symmetric]
    by (simp add: s'_def s2)
  have fresh: "objs s ?a = None" using tq_okD(5) [OF ok] by fastforce
  have "tq_ok s'"
    by (rule tq_ok_added [OF ok th HOL.refl]) (use q(3,4) s' in simp_all)
  moreover have "\<forall>i < ?i. alive i s' \<longrightarrow> alive i s"
    using s'(2) by (auto simp: alive_def split: if_splits)
  ultimately have "evolves s s'"
    using q(2,4,5) s' arg(1) by (simp add: evolves_def)
  with add q(4) s'(1,2,5,8) arg(2) show ?thesis by auto
qed

lemma tq_ok_irrelevant [simp]:
  "tq_ok (s\<lparr>clock_reads := n\<rparr>) = tq_ok s" "tq_ok (s\<lparr>fired := l\<rparr>) = tq_ok s"
  "tq_ok (s\<lparr>timerfd_sets := d\<rparr>) = tq_ok s" "tq_ok (updateTimerfd t s) = tq_ok s"
  "alive i (s\<lparr>clock_reads := n\<rparr>) = alive i s" "alive i (s\<lparr>fired := l\<rparr>) = alive i s"
  "alive i (updateTimerfd t s) = alive i s"
  by (simp_all add: tq_ok_def alive_def)

lemma evolves_clock [simp]: "evolves (s\<lparr>clock_reads := n\<rparr>) s' = evolves s s'"
  by (simp add: evolves_def)

lemma drop_objects_ok:
  assumes "tq_ok s" "\<And>a t. objs s' a = Some t \<Longrightarrow> objs s a = Some t"
    and "\<And>i a. timerHolders s' i = Some a \<Longrightarrow> timerHolders s i = Some a"
    and "\<And>a t. objs s' a = Some t \<Longrightarrow> timerHolders s' (tid t) = Some a"
    and "queue s' = queue s" "next_addr s' = next_addr s" "timerIds s' = timerIds s"
    and "fired s' = fired s" "timerfd_open s' = timerfd_open s" "timerfd_sets s' = timerfd_sets s"
  shows "evolves s s'"
proof -
  have "tq_ok s'"
    unfolding tq_ok_def assms(5-7)
  proof (intro conjI allI impI ballI)
    show "tid t = weak_id w" if "w \<in> set (elems (queue s))" "weakTimerPtr w = Some a"
      "objs s' a = Some t" for w a t
      using tq_okD(4) [OF assms(1) that(1,2)] assms(2) [OF that(3)] .
    show "a < next_addr s" "tid t < timerIds s" if "objs s' a = Some t" for a t
      using tq_okD(5,6) [OF assms(1) assms(2) [OF that]] .
    show "b = a" if "objs s' a = Some t" "thandler t = Every i h b" for a t i h b
      using tq_okD(7) [OF assms(1) assms(2) [OF that(1)] that(2)] .
    show "timerHolders s' (tid t) = Some a" if "objs s' a = Some t" for a t
      using assms(4) [OF that] .
    show "tid t = i" if "timerHolders s' i = Some a" "objs s' a = Some t" for i a t
      using tq_okD(9) [OF assms(1) assms(3) [OF that(1)] assms(2) [OF that(2)]] .
    show "a < next_addr s" if "timerHolders s' i = Some a" for i a
      using tq_okD(10) [OF assms(1) assms(3) [OF that]] .
  qed (use tq_okD(1-3) [OF assms(1)] in blast)+
  moreover have "alive i s' \<Longrightarrow> alive i s" for i
    using assms(2) unfolding alive_def by blast
  ultimately show ?thesis using assms(5-10) by (simp add: evolves_def)
qed

lemma cancelTimer_ok:
  assumes "tq_ok s"
  shows "evolves s (TimerMixin_cancelTimer i s)"
proof (cases "timerHolders s i")
  case None
  then show ?thesis using evolves_refl [OF assms] by (simp add: TimerMixin_cancelTimer_def)
next
  case (Some a)
  show ?thesis
  proof (rule drop_objects_ok [OF assms])
    fix b t assume b: "objs (TimerMixin_cancelTimer i s) b = Some t"
    then show t: "objs s b = Some t" using Some by (simp add: TimerMixin_cancelTimer_def split: if_splits)
    have "b \<noteq> a" using b Some by (auto simp: TimerMixin_cancelTimer_def)
    then have "tid t \<noteq> i" using tq_okD(8) [OF assms t] Some by auto
    then show "timerHolders (TimerMixin_cancelTimer i s) (tid t) = Some b"
      using tq_okD(8) [OF assms t] Some by (simp add: TimerMixin_cancelTimer_def)
  qed (use Some in \<open>auto simp: TimerMixin_cancelTimer_def split: if_splits\<close>)
qed

lemma cancelled_dead: "tq_ok s \<Longrightarrow> \<not> alive i (TimerMixin_cancelTimer i s)"
  using tq_okD(8) [of s] by (fastforce simp: alive_def TimerMixin_cancelTimer_def
      split: option.splits if_splits)

lemma cancelAll_no_objs: "tq_ok s \<Longrightarrow> objs (TimerMixin_cancelAllTimer s) = (\<lambda>_. None)"
proof (rule ext)
  fix a assume ok: "tq_ok s"
  show "objs (TimerMixin_cancelAllTimer s) a = None"
  proof (cases "objs s a")
    case (Some t)
    with tq_okD(8) [OF ok] show ?thesis by (simp add: TimerMixin_cancelAllTimer_def)
  qed (simp add: TimerMixin_cancelAllTimer_def)
qed

lemma cancelAllTimer_ok: "tq_ok s \<Longrightarrow> evolves s (TimerMixin_cancelAllTimer s)"
  by (rule drop_objects_ok)
    (simp_all add: cancelAll_no_objs, simp_all add: TimerMixin_cancelAllTimer_def)

lemma do_act_ok:
  assumes "tq_ok s"
  shows "\<exists>s'. do_act clk a s = Inr s' \<and> evolves s s'"
proof (cases a)
  case (RunAt t h)
  with add_timer_ok [OF assms, of "Plain h" t] show ?thesis by (auto simp: runAt_add)
next
  case (RunAfter t h)
  with add_timer_ok [of "s\<lparr>clock_reads := clock_reads s + 1\<rparr>" "Plain h"
      "Timestamp_plus t (clk (clock_reads s))"] assms
  show ?thesis by (auto simp: runAfter_add)
next
  case (RunEvery t h)
  with add_timer_ok [OF assms, of "Every t h (next_addr s)" t] show ?thesis
    by (auto simp: runEvery_add)
qed (simp_all add: cancelTimer_ok cancelAllTimer_ok assms)

lemma evolves_ok: "evolves s s' \<Longrightarrow> tq_ok s'"
  by (simp add: evolves_def)

lemma do_acts_ok: "tq_ok s \<Longrightarrow> \<exists>s'. do_acts clk as s = Inr s' \<and> evolves s s'"
proof (induction as arbitrary: s)
  case Nil
  then show ?case by (simp add: evolves_refl)
next
  case (Cons a as)
  obtain s1 where s1: "do_act clk a s = Inr s1" "evolves s s1"
    using do_act_ok [OF Cons.prems] by blast
  obtain s2 where "do_acts clk as s1 = Inr s2" "evolves s1 s2"
    using Cons.IH [OF evolves_ok [OF s1(2)]] by blast
  with s1 show ?case by (auto intro: evolves_trans)
qed

text \<open>A periodic timer puts itself back, below the root it still is.\<close>

lemma reinsert_ok:
  assumes ok: "tq_ok s" and t: "objs s a = Some t" and id: "tid t = weak_id (heap (queue s) ! 1)"
    and ne: "hsize (queue s) \<noteq> 0"
  shows "\<exists>s'. TimerQueue_insert_shared a (s\<lparr>objs := (objs s)(a \<mapsto> t\<lparr>ttimeout := d\<rparr>)\<rparr>) = Inr s'
    \<and> evolves s s' \<and> objs s' = (objs s)(a \<mapsto> t\<lparr>ttimeout := d\<rparr>)
    \<and> mset (elems (queue s')) = add_mset
         \<lparr>weak_id = tid t, weak_timeout = d, weakTimerPtr = Some a\<rparr> (mset (elems (queue s)))"
proof -
  let ?t = "t\<lparr>ttimeout := d\<rparr>"
  let ?s = "s\<lparr>objs := (objs s)(a \<mapsto> ?t)\<rparr>"
  let ?w = "\<lparr>weak_id = tid t, weak_timeout = d, weakTimerPtr = Some a\<rparr>"
  obtain q where q: "queue_insert ?w ?s = Inr (?s\<lparr>queue := q\<rparr>)"
    "hsize q = Suc (hsize (queue s))" "hsize q < length (heap q)"
    "mset (elems q) = add_mset ?w (mset (elems (queue s)))"
    "heap q ! 1 = heap (queue s) ! 1"
    using queue_insert_ok [of ?s ?w] tq_okD(1) [OF ok] id ne by auto
  define s' where "s' = ?s\<lparr>queue := q\<rparr>"
  have s': "queue s' = q" "objs s' = (objs s)(a \<mapsto> ?t)" "next_addr s' = next_addr s"
    "timerIds s' = timerIds s" "timerHolders s' = timerHolders s" "fired s' = fired s"
    "timerfd_open s' = timerfd_open s" "timerfd_sets s' = timerfd_sets s" "clock_reads s' = clock_reads s"
    by (simp_all add: s'_def)
  have objs: "objs s' b = Some u \<Longrightarrow> \<exists>v. objs s b = Some v \<and> tid v = tid u \<and> thandler v = thandler u"
    for b u using t s'(2) by (auto split: if_splits)
  have "tq_ok s'"
    by (rule tq_ok_put_back [OF ok t HOL.refl]) (use q(3,4) s' in simp_all)
  moreover have "\<forall>i. alive i s' \<longrightarrow> alive i s" using objs unfolding alive_def by metis
  ultimately have "evolves s s'"
    using q s' ne by (simp add: evolves_def)
  moreover have "TimerQueue_insert_shared a ?s = Inr s'"
    using q(1) ne by (simp add: TimerQueue_insert_shared_def BinaryHeap_empty_def s'_def)
  ultimately show ?thesis using q(4) s'(1,2) by blast
qed

section \<open>One round of the loop\<close>

definition root :: "'h tq \<Rightarrow> weak_holder" where
  "root s = heap (queue s) ! 1"

definition user_handler :: "'h timer \<Rightarrow> 'h" where
  "user_handler t = (case thandler t of Plain h \<Rightarrow> h | Every _ h _ \<Rightarrow> h)"

lemma evolves_same:
  "evolves s s' \<Longrightarrow> hsize (queue s) \<noteq> 0 \<Longrightarrow>
     hsize (queue s') \<noteq> 0 \<and> root s' = root s \<and> timerfd_sets s' = timerfd_sets s \<and> timerfd_arg s' = timerfd_arg s"
  by (simp add: evolves_def root_def timerfd_arg_def)

text \<open>\<open>served s h\<close>: the state once the root's user handler \<open>h\<close> is recorded as fired.\<close>

definition served :: "'h tq \<Rightarrow> 'h \<Rightarrow> 'h tq" where
  "served s h = s\<lparr>fired := fired s @ [(weak_id (root s), weak_timeout (root s), h)]\<rparr>"

lemma evolves_served: "evolves s s' \<Longrightarrow> hsize (queue s) \<noteq> 0 \<Longrightarrow> evolves (served s h) (served s' h)"
  unfolding evolves_def served_def root_def by simp

lemma tq_ok_served [simp]: "tq_ok (served s h) = tq_ok s"
  by (simp add: served_def)

lemma runHandler_ok:
  assumes ok: "tq_ok s" and ne: "hsize (queue s) \<noteq> 0"
    and t: "expired (root s) s = Some t"
  shows "\<exists>s'. runHandler clk acts (root s) t s = Inr s' \<and> evolves (served s (user_handler t)) s'"
proof -
  obtain a where a: "weakTimerPtr (root s) = Some a" "objs s a = Some t"
    using t by (auto simp: expired_def split: option.splits)
  have "root s \<in> set (elems (queue s))"
    using root_in_elems [OF tq_okD(1) [OF ok] ne] by (simp add: root_def)
  then have id: "tid t = weak_id (root s)" using tq_okD(4) [OF ok _ a] by blast
  show ?thesis
  proof (cases "thandler t")
    case (Plain h)
    then show ?thesis
      using do_acts_ok [of "served s h" clk "acts h (fired s)"] ok
      by (simp add: runHandler_def call_user_def user_handler_def served_def)
  next
    case (Every d h b)
    then have b: "b = a" using tq_okD(7) [OF ok a(2)] by blast
    let ?s1 = "s\<lparr>clock_reads := clock_reads s + 1\<rparr>"
    let ?t = "t\<lparr>ttimeout := Timestamp_plus d (clk (clock_reads s))\<rparr>"
    obtain s2 where s2: "TimerQueue_insert_shared a (?s1\<lparr>objs := (objs s)(a \<mapsto> ?t)\<rparr>) = Inr s2"
      "evolves s s2"
      using reinsert_ok [of ?s1 a t "Timestamp_plus d (clk (clock_reads s))"] ok a(2) id ne
      by (auto simp: root_def)
    have same: "fired s2 = fired s" "root s2 = root s"
      using s2(2) ne by (simp_all add: evolves_def root_def)
    obtain s3 where s3: "do_acts clk (acts h (fired s2)) (served s2 h) = Inr s3" "evolves (served s2 h) s3"
      using do_acts_ok [of "served s2 h"] evolves_ok [OF s2(2)] by auto
    have "runHandler clk acts (root s) t s = Inr s3"
      using Every b a(2) s2(1) s3(1) same
      by (simp add: runHandler_def Timestamp_now_def call_user_def served_def)
    with evolves_trans [OF evolves_served [OF s2(2) ne] s3(2)] Every show ?thesis
      by (simp add: user_handler_def)
  qed
qed

lemma tq_ok_delete_min:
  assumes "tq_ok s" "hsize q < length (heap q)" "set (elems q) \<subseteq> set (elems (queue s))"
  shows "tq_ok (s\<lparr>queue := q\<rparr>)"
  using assms unfolding tq_ok_def by auto

text \<open>
  A round on a non-empty queue whose root is due removes the root, after running its user handler
  if its timer is alive.
\<close>

lemma timeout_round_ok:
  assumes ok: "tq_ok s" and ne: "hsize (queue s) \<noteq> 0" and due: "\<not> now < weak_timeout (root s)"
  shows "\<exists>s'. timeout_round clk acts now s = Inr (Some s') \<and> tq_ok s' \<and> timerIds s \<le> timerIds s'
    \<and> timerfd_open s' = timerfd_open s \<and> timerfd_sets s' = timerfd_sets s
    \<and> (\<forall>i < timerIds s. alive i s' \<longrightarrow> alive i s)
    \<and> (case expired (root s) s of
         None \<Rightarrow> fired s' = fired s
       | Some t \<Rightarrow> alive (weak_id (root s)) s \<and>
           fired s' = fired s @ [(weak_id (root s), weak_timeout (root s), user_handler t)])
    \<and> mset (elems (queue s)) \<subseteq># add_mset (root s) (mset (elems (queue s')))"
proof -
  obtain s1 where s1: "(case expired (root s) s of None \<Rightarrow> Inr s
      | Some t \<Rightarrow> runHandler clk acts (root s) t s) = Inr s1"
    and ev: "evolves (case expired (root s) s of None \<Rightarrow> s | Some t \<Rightarrow> served s (user_handler t)) s1"
    using runHandler_ok [OF ok ne, of _ clk acts] evolves_refl [OF ok]
    by (cases "expired (root s) s") auto
  have ne1: "hsize (queue s1) \<noteq> 0" "root s1 = root s" "tq_ok s1" "timerIds s \<le> timerIds s1"
    "timerfd_open s1 = timerfd_open s" "timerfd_sets s1 = timerfd_sets s" "mset (elems (queue s)) \<subseteq># mset (elems (queue s1))"
    "\<forall>i < timerIds s. alive i s1 \<longrightarrow> alive i s"
    using ev ne by (auto simp: evolves_def served_def root_def alive_def split: option.splits)
  obtain q where q: "BinaryHeap_delete_min weak_less WeakTimerHolder_default (queue s1) = Inr q"
    "hsize q < length (heap q)" "mset (elems (queue s1)) = add_mset (root s) (mset (elems q))"
    using delete_min_elems [OF tq_okD(1) [OF ne1(3)] ne1(1), of weak_less WeakTimerHolder_default]
      ne1(2) by (auto simp: root_def)
  have find: "BinaryHeap_find_min (queue s) = Inr (root s)"
    using delete_min_elems [OF tq_okD(1) [OF ok] ne] by (auto simp: root_def)
  have "set (elems q) \<subseteq> set (elems (queue s1))" using set_elems_insert [OF q(3)] by blast
  then have "tq_ok (s1\<lparr>queue := q\<rparr>)" using tq_ok_delete_min [OF ne1(3) q(2)] by blast
  moreover have "timeout_round clk acts now s = Inr (Some (s1\<lparr>queue := q\<rparr>))"
    using s1 q(1) find due ne
    by (simp add: timeout_round_def BinaryHeap_empty_def)
  moreover have "alive i (s1\<lparr>queue := q\<rparr>) = alive i s1" for i by (simp add: alive_def)
  moreover have "alive (weak_id (root s)) s" if t: "expired (root s) s = Some t" for t
  proof -
    obtain a where a: "weakTimerPtr (root s) = Some a" "objs s a = Some t"
      using t by (auto simp: expired_def split: option.splits)
    have "root s \<in> set (elems (queue s))"
      using root_in_elems [OF tq_okD(1) [OF ok] ne] by (simp add: root_def)
    with a tq_okD(4) [OF ok] show ?thesis unfolding alive_def by blast
  qed
  moreover have "case expired (root s) s of None \<Rightarrow> fired s1 = fired s
      | Some t \<Rightarrow> fired s1 = fired s @ [(weak_id (root s), weak_timeout (root s), user_handler t)]"
    using ev by (auto simp: evolves_def served_def split: option.splits)
  ultimately show ?thesis
    using ne1 q(3) by (intro exI [of _ "s1\<lparr>queue := q\<rparr>"]) (auto split: option.splits)
qed

section \<open>The loop\<close>

lemma timeout_round_stop:
  assumes "tq_ok s" "hsize (queue s) = 0 \<or> now < weak_timeout (root s)"
  shows "timeout_round clk acts now s = Inr None"
proof (cases "hsize (queue s) = 0")
  case False
  then have "BinaryHeap_find_min (queue s) = Inr (root s)"
    using delete_min_elems [OF tq_okD(1) [OF assms(1)] False] by (auto simp: root_def)
  with False assms(2) show ?thesis by (simp add: timeout_round_def)
qed (simp add: timeout_round_def BinaryHeap_empty_def)

abbreviation due :: "timestamp \<Rightarrow> weak_holder \<Rightarrow> bool" where
  "due now w \<equiv> \<not> now < weak_timeout w"

text \<open>What the loop has done when it returns; it never faults.\<close>

definition loop_post :: "timestamp \<Rightarrow> 'h tq \<Rightarrow> 'h tq \<Rightarrow> bool" where
  "loop_post now s s' \<longleftrightarrow> tq_ok s' \<and> (hsize (queue s') = 0 \<or> now < weak_timeout (root s'))
   \<and> timerIds s \<le> timerIds s' \<and> timerfd_open s' = timerfd_open s \<and> timerfd_sets s' = timerfd_sets s
   \<and> (\<forall>i < timerIds s. alive i s' \<longrightarrow> alive i s)
   \<and> (\<exists>new. fired s' = fired s @ new \<and>
        (\<forall>(i, t, h) \<in> set new. \<not> now < t \<and> (i < timerIds s \<longrightarrow> alive i s)))
   \<and> {#w \<in># mset (elems (queue s)). \<not> due now w#} \<subseteq># mset (elems (queue s'))"

lemma loop_post_step:
  assumes "tq_ok s" "hsize (queue s) \<noteq> 0" "due now (root s)"
    and "timeout_round clk acts now s = Inr (Some s1)" "loop_post now s1 s'"
  shows "loop_post now s s'"
proof -
  obtain s2 where s2: "timeout_round clk acts now s = Inr (Some s2)" "timerIds s \<le> timerIds s2"
    "timerfd_open s2 = timerfd_open s" "timerfd_sets s2 = timerfd_sets s" "\<forall>i < timerIds s. alive i s2 \<longrightarrow> alive i s"
    "case expired (root s) s of
         None \<Rightarrow> fired s2 = fired s
       | Some t \<Rightarrow> alive (weak_id (root s)) s \<and>
           fired s2 = fired s @ [(weak_id (root s), weak_timeout (root s), user_handler t)]"
    "mset (elems (queue s)) \<subseteq># add_mset (root s) (mset (elems (queue s2)))"
    using timeout_round_ok [OF assms(1-3), of clk acts] by blast
  then have [simp]: "s2 = s1" using assms(4) by simp
  obtain new where new: "fired s' = fired s1 @ new"
    "\<forall>(i, t, h) \<in> set new. \<not> now < t \<and> (i < timerIds s1 \<longrightarrow> alive i s1)"
    using assms(5) unfolding loop_post_def by blast
  obtain first where "fired s1 = fired s @ first"
    "\<forall>(i, t, h) \<in> set first. \<not> now < t \<and> (i < timerIds s \<longrightarrow> alive i s)"
    using s2(6) assms(3) by (cases "expired (root s) s") auto
  with new s2(2,5) have "fired s' = fired s @ (first @ new) \<and>
      (\<forall>(i, t, h) \<in> set (first @ new). \<not> now < t \<and> (i < timerIds s \<longrightarrow> alive i s))"
    by (auto dest: less_le_trans)
  moreover have "{#w \<in># mset (elems (queue s)). \<not> due now w#} \<subseteq># {#w \<in># mset (elems (queue s1)). \<not> due now w#}"
    using multiset_filter_mono [OF s2(7), of "\<lambda>w. \<not> due now w"] assms(3) by simp
  then have "{#w \<in># mset (elems (queue s)). \<not> due now w#} \<subseteq># mset (elems (queue s'))"
    using assms(5) unfolding loop_post_def by (meson subset_mset.order_trans)
  ultimately show ?thesis
    using assms(5) s2(2-5) unfolding loop_post_def by (auto intro: exI [of _ "first @ new"])
qed

lemma loop_post_stop:
  "tq_ok s \<Longrightarrow> hsize (queue s) = 0 \<or> now < weak_timeout (root s) \<Longrightarrow> loop_post now s s"
  by (auto simp: loop_post_def)

lemma timeout_loop_post:
  "timeout_loop clk acts now s = Some r \<Longrightarrow> tq_ok s \<Longrightarrow> \<exists>s'. r = Inr s' \<and> loop_post now s s'"
proof (induction rule: timeout_loop.raw_induct [rotated, consumes 1, case_names step])
  case (step loop clk acts now s r)
  note ok = step.prems
  show ?case
  proof (cases "hsize (queue s) = 0 \<or> now < weak_timeout (root s)")
    case True
    with step.hyps timeout_round_stop [OF ok True, of clk acts] loop_post_stop [OF ok True]
    show ?thesis by auto
  next
    case False
    then obtain s1 where s1: "timeout_round clk acts now s = Inr (Some s1)" "tq_ok s1"
      using timeout_round_ok [OF ok, of now clk acts] by auto
    with step.hyps have "loop clk acts now s1 = Some r" by simp
    from step.IH [OF this s1(2)] obtain s' where "r = Inr s'" "loop_post now s1 s'" by blast
    with loop_post_step [OF ok _ _ s1(1)] False show ?thesis by blast
  qed
qed

section \<open>The loop returns when handlers only schedule for later\<close>

text \<open>
  A handler that schedules a timer that is already due keeps the loop going. It ends when every
  timer a handler schedules, and every next round of a periodic timer, is later than the reading
  of the clock the loop works with.
\<close>

definition later :: "(nat \<Rightarrow> timestamp) \<Rightarrow> timestamp \<Rightarrow> timestamp \<Rightarrow> bool" where
  "later clk now d \<longleftrightarrow> (\<forall>n. now < Timestamp_plus d (clk n))"

fun act_later :: "(nat \<Rightarrow> timestamp) \<Rightarrow> timestamp \<Rightarrow> 'h act \<Rightarrow> bool" where
  "act_later clk now (RunAt t h) = (now < t)"
| "act_later clk now (RunAfter t h) = later clk now t"
| "act_later clk now (RunEvery t h) = (now < t \<and> later clk now t)"
| "act_later clk now (CancelTimer i) = True"
| "act_later clk now CancelAllTimer = True"

definition periodic_later :: "(nat \<Rightarrow> timestamp) \<Rightarrow> timestamp \<Rightarrow> 'h tq \<Rightarrow> bool" where
  "periodic_later clk now s \<longleftrightarrow>
     (\<forall>a t d h b. objs s a = Some t \<longrightarrow> thandler t = Every d h b \<longrightarrow> later clk now d)"

definition adds_later :: "(nat \<Rightarrow> timestamp) \<Rightarrow> timestamp \<Rightarrow> 'h tq \<Rightarrow> 'h tq \<Rightarrow> bool" where
  "adds_later clk now s s' \<longleftrightarrow> periodic_later clk now s'
     \<and> {#w \<in># mset (elems (queue s')). due now w#} = {#w \<in># mset (elems (queue s)). due now w#}"

lemma cancel_queue [simp]:
  "queue (TimerMixin_cancelTimer i s) = queue s" "queue (TimerMixin_cancelAllTimer s) = queue s"
  by (simp_all add: TimerMixin_cancelTimer_def TimerMixin_cancelAllTimer_def split: option.split)

lemma periodic_later_drop:
  "periodic_later clk now s \<Longrightarrow> periodic_later clk now (TimerMixin_cancelTimer i s)"
  "periodic_later clk now s \<Longrightarrow> periodic_later clk now (TimerMixin_cancelAllTimer s)"
  unfolding periodic_later_def TimerMixin_cancelTimer_def TimerMixin_cancelAllTimer_def
  by (fastforce split: option.splits if_splits)+

lemma do_act_adds_later:
  assumes "tq_ok s" "periodic_later clk now s" "act_later clk now a" "do_act clk a s = Inr s'"
  shows "adds_later clk now s s'"
proof (cases a)
  case (RunAt t h)
  with add_timer_ok [OF assms(1), of "Plain h" t] assms show ?thesis
    by (auto simp: runAt_add adds_later_def periodic_later_def split: if_splits)
next
  case (RunAfter t h)
  with add_timer_ok [of "s\<lparr>clock_reads := clock_reads s + 1\<rparr>" "Plain h"
      "Timestamp_plus t (clk (clock_reads s))"] assms
  show ?thesis
    by (auto simp: runAfter_add adds_later_def periodic_later_def later_def split: if_splits)
next
  case (RunEvery t h)
  with add_timer_ok [OF assms(1), of "Every t h (next_addr s)" t] assms show ?thesis
    by (auto simp: runEvery_add adds_later_def periodic_later_def split: if_splits)
qed (use assms periodic_later_drop in \<open>auto simp: adds_later_def\<close>)

lemma do_acts_adds_later:
  "tq_ok s \<Longrightarrow> periodic_later clk now s \<Longrightarrow> (\<forall>a \<in> set as. act_later clk now a) \<Longrightarrow>
     do_acts clk as s = Inr s' \<Longrightarrow> adds_later clk now s s'"
proof (induction as arbitrary: s)
  case Nil
  then show ?case by (simp add: adds_later_def)
next
  case (Cons a as)
  obtain s1 where s1: "do_act clk a s = Inr s1" "evolves s s1"
    using do_act_ok [OF Cons.prems(1)] by blast
  have 1: "adds_later clk now s s1" using do_act_adds_later [OF Cons.prems(1,2) _ s1(1)] Cons.prems by simp
  have "adds_later clk now s1 s'"
    using Cons.IH [of s1] Cons.prems s1 1 evolves_ok [OF s1(2)] by (simp add: adds_later_def)
  with 1 show ?case by (simp add: adds_later_def)
qed

lemma runHandler_adds_later:
  assumes ok: "tq_ok s" and ne: "hsize (queue s) \<noteq> 0" and t: "expired (root s) s = Some t"
    and later: "periodic_later clk now s" "\<forall>h l. \<forall>a \<in> set (acts h l). act_later clk now a"
    and run: "runHandler clk acts (root s) t s = Inr s'"
  shows "adds_later clk now s s'"
proof -
  obtain a where a: "weakTimerPtr (root s) = Some a" "objs s a = Some t"
    using t by (auto simp: expired_def split: option.splits)
  have "root s \<in> set (elems (queue s))"
    using root_in_elems [OF tq_okD(1) [OF ok] ne] by (simp add: root_def)
  then have id: "tid t = weak_id (root s)" using tq_okD(4) [OF ok _ a] by blast
  show ?thesis
  proof (cases "thandler t")
    case (Plain h)
    with run have "do_acts clk (acts h (fired s)) (served s h) = Inr s'"
      by (simp add: runHandler_def call_user_def served_def root_def)
    from do_acts_adds_later [OF _ _ _ this] ok later show ?thesis
      by (simp add: adds_later_def served_def periodic_later_def)
  next
    case (Every d h b)
    then have b: "b = a" using tq_okD(7) [OF ok a(2)] by blast
    let ?s1 = "s\<lparr>clock_reads := clock_reads s + 1\<rparr>"
    let ?d = "Timestamp_plus d (clk (clock_reads s))"
    obtain s2 where s2: "TimerQueue_insert_shared a (?s1\<lparr>objs := (objs s)(a \<mapsto> t\<lparr>ttimeout := ?d\<rparr>)\<rparr>) = Inr s2"
      "evolves s s2" "objs s2 = (objs s)(a \<mapsto> t\<lparr>ttimeout := ?d\<rparr>)"
      "mset (elems (queue s2)) = add_mset \<lparr>weak_id = tid t, weak_timeout = ?d, weakTimerPtr = Some a\<rparr>
         (mset (elems (queue s)))"
      using reinsert_ok [of ?s1 a t ?d] ok a(2) id ne by (auto simp: root_def)
    have later_d: "later clk now d" using later(1) a(2) Every unfolding periodic_later_def by blast
    have "periodic_later clk now s2"
      using later(1) a(2) s2(3) unfolding periodic_later_def by (auto split: if_splits)
    then have 1: "adds_later clk now s s2"
      using s2(4) later_d unfolding adds_later_def later_def by simp
    have "fired s2 = fired s" "root s2 = root s"
      using s2(2) ne by (simp_all add: evolves_def root_def)
    then have "do_acts clk (acts h (fired s2)) (served s2 h) = Inr s'"
      using run Every b a(2) s2(1)
      by (simp add: runHandler_def Timestamp_now_def call_user_def served_def)
    from do_acts_adds_later [OF _ _ _ this] evolves_ok [OF s2(2)] 1 later(2)
    have "adds_later clk now s2 s'"
      by (simp add: adds_later_def served_def periodic_later_def)
    with 1 show ?thesis by (simp add: adds_later_def)
  qed
qed

lemma timeout_loop_returns:
  assumes "\<forall>h l. \<forall>a \<in> set (acts h l). act_later clk now a"
  shows "tq_ok s \<Longrightarrow> periodic_later clk now s \<Longrightarrow>
    \<exists>s'. timeout_loop clk acts now s = Some (Inr s')"
proof (induction "size {#w \<in># mset (elems (queue s)). due now w#}" arbitrary: s rule: less_induct)
  case less
  note ok = less.prems(1)
  show ?case
  proof (cases "hsize (queue s) = 0 \<or> now < weak_timeout (root s)")
    case True
    then show ?thesis
      using timeout_round_stop [OF ok True, of clk acts] by (simp add: timeout_loop.simps)
  next
    case False
    then have ne: "hsize (queue s) \<noteq> 0" and due: "due now (root s)" by auto
    obtain s1 where s1: "(case expired (root s) s of None \<Rightarrow> Inr s
        | Some t \<Rightarrow> runHandler clk acts (root s) t s) = Inr s1" "tq_ok s1" "adds_later clk now s s1"
      "hsize (queue s1) \<noteq> 0" "root s1 = root s"
    proof (cases "expired (root s) s")
      case None
      with that [of s] ok ne less.prems(2) show ?thesis by (simp add: adds_later_def)
    next
      case (Some t)
      from runHandler_ok [OF ok ne Some, of clk acts] obtain s1 where
        s1: "runHandler clk acts (root s) t s = Inr s1" "evolves (served s (user_handler t)) s1" by blast
      with that [of s1] Some ne runHandler_adds_later [OF ok ne Some less.prems(2) assms s1(1)]
      show ?thesis by (auto simp: evolves_def served_def root_def)
    qed
    obtain q where q: "BinaryHeap_delete_min weak_less WeakTimerHolder_default (queue s1) = Inr q"
      "hsize q < length (heap q)" "mset (elems (queue s1)) = add_mset (root s) (mset (elems q))"
      using delete_min_elems [OF tq_okD(1) [OF s1(2)] s1(4), of weak_less WeakTimerHolder_default]
        s1(5) by (auto simp: root_def)
    have find: "BinaryHeap_find_min (queue s) = Inr (root s)"
      using delete_min_elems [OF tq_okD(1) [OF ok] ne] by (auto simp: root_def)
    let ?s2 = "s1\<lparr>queue := q\<rparr>"
    have round: "timeout_round clk acts now s = Inr (Some ?s2)"
      using s1(1) q(1) find due ne by (simp add: timeout_round_def BinaryHeap_empty_def)
    have "set (elems q) \<subseteq> set (elems (queue s1))" using set_elems_insert [OF q(3)] by blast
    then have ok2: "tq_ok ?s2" using tq_ok_delete_min [OF s1(2) q(2)] by blast
    have "periodic_later clk now ?s2" using s1(3) by (simp add: adds_later_def periodic_later_def)
    moreover have "{#w \<in># mset (elems (queue s)). due now w#} =
        add_mset (root s) {#w \<in># mset (elems (queue ?s2)). due now w#}"
      using s1(3) q(3) due by (simp add: adds_later_def)
    then have "size {#w \<in># mset (elems (queue ?s2)). due now w#} <
        size {#w \<in># mset (elems (queue s)). due now w#}"
      by simp
    ultimately obtain s' where "timeout_loop clk acts now ?s2 = Some (Inr s')"
      using less.hyps [of ?s2] ok2 by blast
    with round show ?thesis by (simp add: timeout_loop.simps [of clk acts now s])
  qed
qed

section \<open>Reachable states\<close>

definition armed :: "'h tq \<Rightarrow> bool" where
  "armed s \<longleftrightarrow> (timerfd_open s \<longrightarrow> hsize (queue s) \<noteq> 0 \<longrightarrow>
     timerfd_arg s = Some (itimer (weak_timeout (root s))))"

text \<open>A queue in service: timer calls from outside the loop, and timeouts being handled.\<close>

inductive tq_reach ::
    "(nat \<Rightarrow> timestamp) \<Rightarrow> ('h \<Rightarrow> (nat \<times> timestamp \<times> 'h) list \<Rightarrow> 'h act list) \<Rightarrow> 'h tq \<Rightarrow> bool"
  for clk acts where
  start: "tq_reach clk acts TimerQueue_new"
| call: "tq_reach clk acts s \<Longrightarrow> do_act clk a s = Inr s' \<Longrightarrow> tq_reach clk acts s'"
| serve: "tq_reach clk acts s \<Longrightarrow> handleTimeoutEvents clk acts s = Some (Inr s') \<Longrightarrow> tq_reach clk acts s'"

inductive_cases tq_reach_cases: "tq_reach clk acts s"

lemma tq_ok_new: "tq_ok TimerQueue_new"
  by (simp add: tq_ok_def TimerQueue_new_def BinaryHeap_new_def elems_def)

lemma single_root: "tq_ok s \<Longrightarrow> mset (elems (queue s)) = {#w#} \<Longrightarrow> root s = w"
proof -
  assume "tq_ok s" and one: "mset (elems (queue s)) = {#w#}"
  then have len: "hsize (queue s) < length (heap (queue s))" by (simp add: tq_ok_def)
  from one have "elems (queue s) = [w]" by simp
  then have "hsize (queue s) = 1" using length_elems [OF len] by simp
  with root_in_elems [OF len] \<open>elems (queue s) = [w]\<close> show ?thesis by (simp add: root_def)
qed

lemma do_act_empty:
  assumes ok: "tq_ok s" and e: "hsize (queue s) = 0" and run: "do_act clk a s = Inr s'"
  shows "armed s' \<and> (timerfd_open s \<longrightarrow> hsize (queue s') \<noteq> 0 \<longrightarrow>
    timerfd_sets s' = timerfd_sets s @ [itimer (weak_timeout (root s'))])" (is "?P s'")
proof -
  have e': "mset (elems (queue s)) = {#}" using e by (simp add: elems_def)
  have add: "?P s1" if a: "tq_ok s0" "queue s0 = queue s"
    "timerfd_sets s0 = timerfd_sets s" "timerfd_open s0 = timerfd_open s" "add_timer t th s0 = Inr (i, s1)"
    "\<forall>d h b. th = Every d h b \<longrightarrow> b = next_addr s0" for s0 t th i s1
  proof -
    obtain s2 where s2: "add_timer t th s0 = Inr (timerIds s0, s2)" "evolves s0 s2"
      "mset (elems (queue s2)) = add_mset \<lparr>weak_id = timerIds s0, weak_timeout = t,
         weakTimerPtr = Some (next_addr s0)\<rparr> (mset (elems (queue s0)))"
      "hsize (queue s0) = 0 \<longrightarrow> timerfd_open s0 \<longrightarrow> timerfd_sets s2 = timerfd_sets s0 @ [itimer t]"
      using add_timer_ok [OF a(1,6), of t] by (elim exE conjE) (rule that, assumption+)
    then have "s1 = s2" using a(5) by simp
    moreover have "root s2 = \<lparr>weak_id = timerIds s0, weak_timeout = t, weakTimerPtr = Some (next_addr s0)\<rparr>"
      using single_root [OF evolves_ok [OF s2(2)]] s2(3) e' a(2) by simp
    ultimately show ?thesis
      using s2(2,4) e a(2-4) by (simp add: armed_def evolves_def timerfd_arg_def)
  qed
  show ?thesis
  proof (cases a)
    case (RunAt t h)
    with run obtain i where "add_timer t (Plain h) s = Inr (i, s')"
      by (auto simp: runAt_add bind_res_Inr_iff)
    with add [OF ok refl refl refl] show ?thesis by simp
  next
    case (RunAfter t h)
    with run obtain i where "add_timer (Timestamp_plus t (clk (clock_reads s))) (Plain h)
        (s\<lparr>clock_reads := clock_reads s + 1\<rparr>) = Inr (i, s')"
      by (auto simp: runAfter_add bind_res_Inr_iff)
    with add [of "s\<lparr>clock_reads := clock_reads s + 1\<rparr>"] ok show ?thesis by simp
  next
    case (RunEvery t h)
    with run obtain i where "add_timer t (Every t h (next_addr s)) s = Inr (i, s')"
      by (auto simp: runEvery_add bind_res_Inr_iff)
    with add [OF ok refl refl refl] show ?thesis by simp
  qed (use run e in \<open>auto simp: armed_def\<close>)
qed

lemma do_act_armed:
  assumes "tq_ok s" "armed s" "do_act clk a s = Inr s'"
  shows "armed s'"
proof (cases "hsize (queue s) = 0")
  case True
  with do_act_empty assms show ?thesis by blast
next
  case False
  obtain s1 where "do_act clk a s = Inr s1" "evolves s s1" using do_act_ok [OF assms(1)] by blast
  with assms(2,3) False evolves_same [of s s1] show ?thesis by (simp add: armed_def evolves_def)
qed

lemma rearm_ok:
  assumes "tq_ok s"
  shows "\<exists>s'. rearm s = Inr s' \<and> armed s' \<and> tq_ok s' \<and> fired s' = fired s \<and> queue s' = queue s
    \<and> timerIds s' = timerIds s \<and> objs s' = objs s \<and> timerfd_open s' = timerfd_open s
    \<and> (hsize (queue s) \<noteq> 0 \<longrightarrow> timerfd_open s \<longrightarrow>
          timerfd_sets s' = timerfd_sets s @ [itimer (weak_timeout (root s))])"
proof (cases "hsize (queue s) = 0")
  case True
  with assms show ?thesis by (simp add: rearm_def BinaryHeap_empty_def armed_def)
next
  case False
  then have "BinaryHeap_find_min (queue s) = Inr (root s)"
    using delete_min_elems [OF tq_okD(1) [OF assms(1)] False] by (auto simp: root_def)
  with False assms show ?thesis
    by (simp add: rearm_def BinaryHeap_empty_def armed_def) (simp add: updateTimerfd_def root_def timerfd_arg_def)
qed

lemma handle_post:
  assumes ok: "tq_ok s" and run: "handleTimeoutEvents clk acts s = Some r"
  shows "\<exists>s'. r = Inr s' \<and> tq_ok s' \<and> (armed s \<longrightarrow> armed s')
    \<and> (\<exists>new. fired s' = fired s @ new \<and>
        (\<forall>(i, t, h) \<in> set new. due (clk (clock_reads s)) \<lparr>weak_id = i, weak_timeout = t, weakTimerPtr = None\<rparr>
          \<and> (i < timerIds s \<longrightarrow> alive i s)))
    \<and> (hsize (queue s') = 0 \<or> clk (clock_reads s) < weak_timeout (root s'))
    \<and> timerfd_open s' = timerfd_open s
    \<and> (hsize (queue s') \<noteq> 0 \<longrightarrow> timerfd_open s \<longrightarrow>
          timerfd_sets s' = timerfd_sets s @ [itimer (weak_timeout (root s'))])
    \<and> {#w \<in># mset (elems (queue s)). \<not> due (clk (clock_reads s)) w#} \<subseteq># mset (elems (queue s'))"
proof (cases "hsize (queue s) = 0")
  case True
  with run ok show ?thesis
    by (auto simp: handleTimeoutEvents_def BinaryHeap_empty_def elems_def)
next
  case False
  let ?now = "clk (clock_reads s)" and ?s1 = "s\<lparr>clock_reads := clock_reads s + 1\<rparr>"
  from False run obtain r' where r': "timeout_loop clk acts ?now ?s1 = Some r'" "r = bind_res r' rearm"
    by (auto simp: handleTimeoutEvents_def Timestamp_now_def BinaryHeap_empty_def)
  from timeout_loop_post [OF r'(1)] ok obtain s2 where s2: "r' = Inr s2" "loop_post ?now ?s1 s2" by auto
  then have "tq_ok s2" by (simp add: loop_post_def)
  from rearm_ok [OF this] obtain s3 where s3: "rearm s2 = Inr s3" "armed s3" "tq_ok s3"
    "fired s3 = fired s2" "queue s3 = queue s2" "timerfd_open s3 = timerfd_open s2"
    "hsize (queue s2) \<noteq> 0 \<longrightarrow> timerfd_open s2 \<longrightarrow> timerfd_sets s3 = timerfd_sets s2 @ [itimer (weak_timeout (root s2))]"
    by blast
  with r'(2) s2 show ?thesis by (auto simp: loop_post_def root_def)
qed

lemma reach_ok: "tq_reach clk acts s \<Longrightarrow> tq_ok s \<and> armed s"
proof (induction rule: tq_reach.induct)
  case start
  show ?case using tq_ok_new by (simp add: armed_def TimerQueue_new_def BinaryHeap_new_def)
next
  case (call s a s')
  then have ok: "tq_ok s" "armed s" by auto
  obtain s1 where "do_act clk a s = Inr s1" "evolves s s1" using do_act_ok [OF ok(1)] by blast
  with call do_act_armed [OF ok call.hyps(2)] evolves_ok show ?case by auto
next
  case (serve s s')
  with handle_post [of s clk acts] show ?case by auto
qed

section \<open>When the order works\<close>

text \<open>
  The comparison asks for a smaller timeout and a smaller id at once. It orders timers that were
  created in the order of their timeouts, and nothing else.
\<close>

definition comonotone :: "weak_holder set \<Rightarrow> bool" where
  "comonotone A \<longleftrightarrow>
     (\<forall>x \<in> A. \<forall>y \<in> A. weak_id x \<le> weak_id y \<longrightarrow> weak_timeout x \<le> weak_timeout y)"

lemma weak_less_comonotone:
  "comonotone A \<Longrightarrow> x \<in> A \<Longrightarrow> y \<in> A \<Longrightarrow> weak_less x y \<longleftrightarrow> weak_timeout x < weak_timeout y"
  unfolding weak_less_def comonotone_def by (meson Timestamp_less_iff not_le)

lemma weak_order_comonotone: "comonotone A \<Longrightarrow> weak_order A weak_less"
  by (unfold_locales) (auto simp: weak_less_comonotone)

interpretation one_shot: weak_order "{w. \<exists>n. weak_id w = n \<and> weak_timeout w = TV (int n) 0}" weak_less
  by (rule weak_order_comonotone) (auto simp: comonotone_def le_less timestamp_less_iff)

lemma getMin_root:
  "tq_ok s \<Longrightarrow> getMinTimestamp s =
     Inr (if hsize (queue s) = 0 then None else Some (weak_timeout (root s)))"
  using delete_min_elems [of "queue s"] tq_okD(1) [of s]
  by (cases "hsize (queue s) = 0") (auto simp: getMinTimestamp_def BinaryHeap_empty_def root_def)

section \<open>A concrete queue\<close>

text \<open>The queue after \<^verbatim>\<open>runAt\<close> for second 5, on which the properties are exercised.\<close>

definition sample :: "unit tq" where
  "sample = (case do_act (\<lambda>_. TV 7 0) (RunAt (TV 5 0) ()) TimerQueue_new of
     Inr s \<Rightarrow> s | Inl _ \<Rightarrow> TimerQueue_new)"

lemma sample_reach: "tq_reach clk acts sample"
proof -
  obtain s where s: "do_act clk (RunAt (TV 5 0) ()) TimerQueue_new = Inr s"
    using do_act_ok [OF tq_ok_new] by blast
  then have "do_act (\<lambda>_. TV 7 0) (RunAt (TV 5 0) ()) TimerQueue_new = Inr s" by simp
  then have "sample = s" unfolding sample_def by simp
  with tq_reach.call [OF tq_reach.start s] show ?thesis by simp
qed

lemma sample_objs: "objs sample = [0 \<mapsto> \<lparr>tid = 1, ttimeout = TV 5 0, thandler = Plain ()\<rparr>]"
proof -
  obtain s where s: "add_timer (TV 5 0) (Plain ()) TimerQueue_new = Inr (1, s)"
    "objs s = [0 \<mapsto> \<lparr>tid = 1, ttimeout = TV 5 0, thandler = Plain ()\<rparr>]"
    using add_timer_ok [OF tq_ok_new, of "Plain ()" "TV 5 0"] by (auto simp: TimerQueue_new_def)
  then show ?thesis by (simp add: sample_def runAt_add)
qed

section \<open>Properties\<close>



text \<open>A cancelled timer never runs: after \<^verbatim>\<open>cancelTimer(id)\<close>, in any reachable state, handling
  timeouts fires nothing with that id, whatever the other handlers do.\<close>

theorem TimerQueue_cancelled_never_fires:
  assumes "tq_reach clk acts s" "i < timerIds s"
    and "handleTimeoutEvents clk acts (TimerMixin_cancelTimer i s) = Some r"
  shows "\<exists>s' new. r = Inr s' \<and> fired s' = fired s @ new \<and> i \<notin> fst ` set new"
proof -
  let ?c = "TimerMixin_cancelTimer i s"
  have ok: "tq_ok s" using reach_ok [OF assms(1)] by blast
  then have c: "tq_ok ?c" "fired ?c = fired s" "timerIds s \<le> timerIds ?c"
    using cancelTimer_ok [OF ok, of i] by (simp_all add: evolves_def)
  have dead: "\<not> alive i ?c" by (rule cancelled_dead [OF ok])
  from handle_post [OF c(1) assms(3)] obtain s' new where
    "r = Inr s'" "fired s' = fired s @ new" "\<forall>(j, t, h) \<in> set new. j < timerIds ?c \<longrightarrow> alive j ?c"
    using c(2) by fastforce
  then show ?thesis using dead assms(2) c(3) by (intro exI [of _ s'] exI [of _ new]) fastforce
qed

theorem TimerQueue_cancelled_never_fires_witness:
  "\<exists>s' new. handleTimeoutEvents (\<lambda>_. TV 10 0) (\<lambda>_ _. []) (TimerMixin_cancelTimer 1 sample) = Some (Inr s')
    \<and> fired s' = fired sample @ new \<and> 1 \<notin> fst ` set new"
proof -
  have "handleTimeoutEvents (\<lambda>_. TV 10 0) (\<lambda>_ _. []) (TimerMixin_cancelTimer 1 sample) \<noteq> None"
    "1 < timerIds sample" by code_simp+
  then obtain r where
    r: "handleTimeoutEvents (\<lambda>_. TV 10 0) (\<lambda>_ _. []) (TimerMixin_cancelTimer 1 sample) = Some r"
    and i: "1 < timerIds sample" by blast
  from TimerQueue_cancelled_never_fires [OF sample_reach i r] r show ?thesis by blast
qed

text \<open>No reachable state makes a timer call fault, and in every reachable state with timers
  pending the timerfd was last set to exactly the root's timeout: by the insertion into the empty
  queue, or at the end of the last round of handling.\<close>

theorem TimerQueue_armed_for_root:
  assumes "tq_reach clk acts s"
  shows "(\<forall>a. \<exists>s'. do_act clk a s = Inr s' \<and> tq_reach clk acts s')
    \<and> (timerfd_open s \<longrightarrow> hsize (queue s) \<noteq> 0 \<longrightarrow>
         timerfd_arg s = Some (sec (weak_timeout (root s)), usec (weak_timeout (root s)) * 1000))"
proof (intro conjI allI)
  have ok: "tq_ok s" "armed s" using reach_ok [OF assms] by auto
  show "\<exists>s'. do_act clk a s = Inr s' \<and> tq_reach clk acts s'" for a
    using do_act_ok [OF ok(1), of clk a] tq_reach.call [OF assms] by blast
qed (use reach_ok [OF assms] in \<open>simp add: armed_def itimer_def\<close>)

theorem TimerQueue_armed_for_root_witness: "timerfd_arg sample = Some (5, 0)"
proof -
  have "timerfd_open sample" "hsize (queue sample) \<noteq> 0"
    "(sec (weak_timeout (root sample)), usec (weak_timeout (root sample)) * 1000) = (5, 0)"
    by code_simp+
  with TimerQueue_armed_for_root [OF sample_reach [of "\<lambda>_. TV 0 0" "\<lambda>_ _. []"]] show ?thesis by simp
qed

text \<open>C29. No timer call changes the minimum of a queue that is not empty, nor re-arms the timerfd:
  the comparison never moves a later-created timer above an earlier-created one. A timer that is
  due before all others still waits for the root.\<close>

theorem TimerQueue_minimum_never_moves:
  assumes "tq_reach clk acts s" "hsize (queue s) \<noteq> 0" "do_act clk a s = Inr s'"
  shows "getMinTimestamp s' = getMinTimestamp s \<and> timerfd_arg s' = timerfd_arg s"
proof -
  have ok: "tq_ok s" using reach_ok [OF assms(1)] by blast
  obtain s1 where "do_act clk a s = Inr s1" "evolves s s1" using do_act_ok [OF ok] by blast
  with assms(2,3) show ?thesis
    using getMin_root [OF ok] getMin_root [of s'] evolves_same [of s s1] by (simp add: evolves_def)
qed

theorem TimerQueue_minimum_never_moves_witness:
  "\<exists>s. do_act (\<lambda>_. TV 0 0) (RunAt (TV 2 0) ()) sample = Inr s
    \<and> getMinTimestamp s = Inr (Some (TV 5 0)) \<and> timerfd_arg s = Some (5, 0)"
proof -
  have "hsize (queue sample) \<noteq> 0" and s: "getMinTimestamp sample = Inr (Some (TV 5 0))"
    "timerfd_arg sample = Some (5, 0)" by code_simp+
  moreover obtain s' where "do_act (\<lambda>_. TV 0 0) (RunAt (TV 2 0) ()) sample = Inr s'"
    using do_act_ok [OF conjunct1 [OF reach_ok [OF sample_reach]]] by blast
  ultimately show ?thesis
    using TimerQueue_minimum_never_moves [OF sample_reach [of "\<lambda>_. TV 0 0" "\<lambda>_ _. []"]] by metis
qed

text \<open>For timers created in the order of their timeouts the queue is a correct priority queue:
  the comparison is a strict weak order, insertion keeps the heap order, and the minimum is the
  earliest timeout of all.\<close>

theorem TimerQueue_earliest_first:
  assumes "comonotone A" "heap_ok A weak_less (queue s)"
  shows "weak_order A weak_less
    \<and> (\<forall>w \<in> A. \<exists>s'. queue_insert w s = Inr s' \<and> heap_ok A weak_less (queue s'))
    \<and> (hsize (queue s) \<noteq> 0 \<longrightarrow> (\<exists>m. getMinTimestamp s = Inr (Some m)
         \<and> (\<forall>w \<in> set (elems (queue s)). m \<le> weak_timeout w)))"
proof (intro conjI ballI impI)
  have wo: "weak_order A weak_less" by (rule weak_order_comonotone [OF assms(1)])
  then show "weak_order A weak_less" .
  show "\<exists>s'. queue_insert w s = Inr s' \<and> heap_ok A weak_less (queue s')" if "w \<in> A" for w
    using weak_order.insert_ok [OF wo assms(2) that, of WeakTimerHolder_default]
    by (auto simp: queue_insert_def)
  assume ne: "hsize (queue s) \<noteq> 0"
  obtain m q where m: "BinaryHeap_find_min (queue s) = Inr m"
    "mset (elems (queue s)) = add_mset m (mset (elems q))" "\<forall>w \<in> set (elems (queue s)). \<not> weak_less w m"
    using weak_order.delete_min_ok [OF wo assms(2) ne, of WeakTimerHolder_default] by blast
  have sub: "set (elems (queue s)) \<subseteq> A" "m \<in> set (elems (queue s))"
    using assms(2) set_elems_insert [OF m(2)] by (auto simp: heap_ok_def)
  then have "weak_timeout m \<le> weak_timeout w" if "w \<in> set (elems (queue s))" for w
    using m(3) that weak_less_comonotone [OF assms(1), of w m] by (auto simp: not_less)
  with m(1) ne show "\<exists>m. getMinTimestamp s = Inr (Some m)
      \<and> (\<forall>w \<in> set (elems (queue s)). m \<le> weak_timeout w)"
    by (auto simp: getMinTimestamp_def BinaryHeap_empty_def)
qed

theorem TimerQueue_earliest_first_witness:
  "\<exists>m. getMinTimestamp sample = Inr (Some m) \<and> (\<forall>w \<in> set (elems (queue sample)). m \<le> weak_timeout w)"
proof -
  let ?A = "{\<lparr>weak_id = 1, weak_timeout = TV 5 0, weakTimerPtr = Some 0\<rparr>}"
  have "elems (queue sample) = [\<lparr>weak_id = 1, weak_timeout = TV 5 0, weakTimerPtr = Some 0\<rparr>]"
    "hsize (queue sample) = 1" "hsize (queue sample) < length (heap (queue sample))" by code_simp+
  then have "heap_ok ?A weak_less (queue sample)" "hsize (queue sample) \<noteq> 0"
    by (simp_all add: heap_ok_def ord_from_def)
  moreover have "comonotone ?A" by (simp add: comonotone_def)
  ultimately show ?thesis using TimerQueue_earliest_first by blast
qed

text \<open>Handling timeouts returns, with no fault, when the handlers it runs schedule only timers
  that are later than the clock it reads.\<close>

theorem TimerQueue_handling_returns:
  assumes "tq_reach clk acts s" "\<forall>h l. \<forall>a \<in> set (acts h l). act_later clk (clk (clock_reads s)) a"
    and "periodic_later clk (clk (clock_reads s)) s"
  shows "\<exists>s'. handleTimeoutEvents clk acts s = Some (Inr s')"
proof -
  let ?now = "clk (clock_reads s)" and ?s1 = "s\<lparr>clock_reads := clock_reads s + 1\<rparr>"
  have ok: "tq_ok ?s1" using reach_ok [OF assms(1)] by simp
  have "periodic_later clk ?now ?s1" using assms(3) by (simp add: periodic_later_def)
  from timeout_loop_returns [OF assms(2) ok this] obtain s2 where
    s2: "timeout_loop clk acts ?now ?s1 = Some (Inr s2)" by blast
  obtain r where "handleTimeoutEvents clk acts s = Some r"
    using s2 by (cases "BinaryHeap_empty (queue s)")
      (auto simp: handleTimeoutEvents_def Timestamp_now_def)
  moreover from handle_post [OF _ this] reach_ok [OF assms(1)] obtain s' where "r = Inr s'" by blast
  ultimately show ?thesis by blast
qed

theorem TimerQueue_handling_returns_witness:
  "\<exists>s'. handleTimeoutEvents (\<lambda>_. TV 10 0) (\<lambda>_ _. [RunAfter (TV 1 0) ()]) sample = Some (Inr s')"
proof -
  have "periodic_later (\<lambda>_. TV 10 0) (TV 10 0) sample"
    by (auto simp: periodic_later_def sample_objs split: if_splits)
  moreover have "TV 10 0 < Timestamp_plus (TV 1 0) (TV 10 0)" by code_simp
  ultimately show ?thesis
    using TimerQueue_handling_returns [OF sample_reach, of "\<lambda>_ _. [RunAfter (TV 1 0) ()]" "\<lambda>_. TV 10 0"]
    by (auto simp: later_def)
qed

text \<open>What the first timeout of a timer is, on an empty queue: the given time for \<^verbatim>\<open>runAt\<close>, the
  given time after now for \<^verbatim>\<open>runAfter\<close>, and for \<^verbatim>\<open>runEvery\<close> the bare interval taken as an absolute
  time. The call returns a fresh id and sets the timerfd to that time.\<close>

theorem TimerQueue_first_timeout:
  assumes "tq_reach clk acts s" "hsize (queue s) = 0" "timerfd_open s"
  shows "\<exists>s1 s2 s3. TimerMixin_runAt t h s = Inr (timerIds s, s1)
    \<and> TimerMixin_runAfter clk t h s = Inr (timerIds s, s2)
    \<and> TimerMixin_runEvery t h s = Inr (timerIds s, s3)
    \<and> timerfd_arg s1 = Some (sec t, usec t * 1000)
    \<and> timerfd_arg s2 = (let d = Timestamp_plus t (clk (clock_reads s)) in Some (sec d, usec d * 1000))
    \<and> timerfd_arg s3 = Some (sec t, usec t * 1000)"
proof -
  have ok: "tq_ok s" using reach_ok [OF assms(1)] by blast
  have 1: "\<exists>s1. add_timer d th s0 = Inr (timerIds s0, s1) \<and> timerfd_arg s1 = Some (sec d, usec d * 1000)"
    if "tq_ok s0" "hsize (queue s0) = 0" "timerfd_open s0"
      "\<forall>e h b. th = Every e h b \<longrightarrow> b = next_addr s0" for d th s0
    using add_timer_ok [OF that(1,4), of d] that(2,3) by (elim exE conjE) (simp add: timerfd_arg_def itimer_def)
  show ?thesis
    unfolding runAt_add runAfter_add runEvery_add Let_def
    using 1 [of s "Plain h" t] 1 [of "s\<lparr>clock_reads := clock_reads s + 1\<rparr>" "Plain h"]
      1 [of s "Every t h (next_addr s)" t] ok assms(2,3) by auto
qed

theorem TimerQueue_first_timeout_witness:
  "\<exists>s1. TimerMixin_runEvery (TV 3 0) () TimerQueue_new = Inr (1, s1) \<and> timerfd_arg s1 = Some (3, 0)"
  using TimerQueue_first_timeout [OF tq_reach.start, of "TV 3 0" "()" "\<lambda>_. TV 0 0"]
  by (auto simp: TimerQueue_new_def BinaryHeap_new_def)

text \<open>After \<^verbatim>\<open>destroy\<close> the heap has no slots left: the next timer is stored out of bounds.\<close>

lemma insert_after_destroy_faults:
  "TimerQueue_insert t h (TimerQueue_destroy s) = Inl Out_of_bounds"
  by (simp add: TimerQueue_insert_def TimerQueue_destroy_def getOneValidId_def make_shared_def
      Let_def BinaryHeap_empty_def BinaryHeap_clear_def updateTimerfd_def queue_insert_def
      BinaryHeap_insert_def)

text \<open>
  While a handler runs, the loop holds a reference to the root of the vector, through which the log
  line after the handler reads the id (the log line is not part of \<open>timeout_round\<close>). When the
  vector is full, the first timer that a handler adds moves it to a new block.
\<close>

lemma handler_moves_heap:
  assumes "tq_ok s" "hsize (queue s) = length (heap (queue s)) - 1" "hsize (queue s) \<noteq> 0"
    and "expired (root s) s = Some t" "thandler t = Plain h" "acts h (fired s) = [RunAt d h']"
    and "runHandler clk acts (root s) t s = Inr s'"
  shows "length (heap (queue s')) = 2 * length (heap (queue s))"
proof -
  let ?s = "served s h" and ?w = "\<lparr>weak_id = timerIds s, weak_timeout = d, weakTimerPtr = Some (next_addr s)\<rparr>"
  have "do_act clk (RunAt d h') ?s = Inr s'"
    using assms(5-7) by (cases "do_act clk (RunAt d h') ?s")
      (simp_all add: runHandler_def call_user_def served_def root_def)
  then obtain i where "add_timer d (Plain h') ?s = Inr (i, s')" by (auto simp: runAt_add bind_res_Inr_iff)
  then obtain q where q: "BinaryHeap_insert weak_less WeakTimerHolder_default ?w (queue s) = Inr q" "queue s' = q"
    by (auto simp: add_timer_def queue_insert_def bind_res_Inr_iff served_def updateTimerfd_def Let_def
        split: if_splits)
  from insert_length [OF tq_okD(1) [OF assms(1)] q(1)] q(2) assms(2) show ?thesis by simp
qed

end
