(* ===== verification/Timer_Events.thy ===== *)
theory Timer_Events
  imports Timer_Queue
begin

text \<open>
  The timer queue beside its timerfd: the read handler that \<^verbatim>\<open>TimerQueue::start\<close> installs
  (\<^verbatim>\<open>src/src/TimerQueue.cpp\<close>), and what it takes for timers to run. The timerfd is the
  kernel's: created with \<^verbatim>\<open>CLOCK_REALTIME\<close> and \<^verbatim>\<open>TFD_NONBLOCK\<close>, set to absolute times and
  without an interval. What is used of it is what \<^verbatim>\<open>timerfd_settime(2)\<close> documents: a time that is
  not negative and has less than a second of nanoseconds is accepted and forgets an expiration
  that was not read, zero disarms, anything else is refused with \<^verbatim>\<open>EINVAL\<close> and changes nothing
  (\<^verbatim>\<open>updateTimerfd\<close> only logs that); an armed timerfd expires once; a read takes the expirations,
  and fails when there are none.
\<close>

section \<open>The timerfd\<close>

record timerfd =
  tfd_expiry :: "(int \<times> int) option"
  tfd_ready :: bool

definition settable :: "int \<times> int \<Rightarrow> bool" where
  "settable a \<longleftrightarrow> 0 \<le> fst a \<and> 0 \<le> snd a \<and> snd a < 1000000000"

definition timerfd_settime :: "int \<times> int \<Rightarrow> timerfd \<Rightarrow> timerfd" where
  "timerfd_settime a k =
     (if settable a then \<lparr>tfd_expiry = (if a = (0, 0) then None else Some a), tfd_ready = False\<rparr> else k)"

definition timerfd_read :: "timerfd \<Rightarrow> int \<times> timerfd" where
  "timerfd_read k = (if tfd_ready k then (8, k\<lparr>tfd_ready := False\<rparr>) else (-1, k))"

section \<open>The read handler\<close>

text \<open>The loop that reads until a read fails.\<close>

function drain_timerfd :: "timerfd \<Rightarrow> timerfd" where
  "drain_timerfd k = (let (ret, k') = timerfd_read k in if ret \<le> 0 then k' else drain_timerfd k')"
  by pat_completeness auto

termination
  by (relation "measure (\<lambda>k. if tfd_ready k then 1 else 0)") (auto simp: timerfd_read_def split: if_splits)

declare drain_timerfd.simps [simp del]

lemma drain_timerfd_ok: "drain_timerfd k = k\<lparr>tfd_ready := False\<rparr>"
  by (simp add: drain_timerfd.simps [of k] drain_timerfd.simps [of "k\<lparr>tfd_ready := False\<rparr>"] timerfd_read_def)

text \<open>
  A timer queue and its timerfd. The calls that a step of the queue has made to
  \<^verbatim>\<open>timerfd_settime\<close> reach the kernel in their order.
\<close>

record 'h timers =
  tm_queue :: "'h tq"
  tm_fd :: timerfd

definition timers_new :: "'h timers" where
  "timers_new = \<lparr>tm_queue = TimerQueue_new, tm_fd = \<lparr>tfd_expiry = None, tfd_ready = False\<rparr>\<rparr>"

definition new_sets :: "'h tq \<Rightarrow> 'h tq \<Rightarrow> (int \<times> int) list" where
  "new_sets s s' = drop (length (timerfd_sets s)) (timerfd_sets s')"

definition timers_act :: "(nat \<Rightarrow> timestamp) \<Rightarrow> 'h act \<Rightarrow> 'h timers \<Rightarrow> 'h timers res" where
  "timers_act clk a m =
     bind_res (do_act clk a (tm_queue m)) (\<lambda>s.
     Inr (m\<lparr>tm_queue := s, tm_fd := fold timerfd_settime (new_sets (tm_queue m) s) (tm_fd m)\<rparr>))"

definition timer_handleReadEvent ::
    "(nat \<Rightarrow> timestamp) \<Rightarrow> ('h \<Rightarrow> (nat \<times> timestamp \<times> 'h) list \<Rightarrow> 'h act list) \<Rightarrow>
     'h timers \<Rightarrow> 'h timers res option" where
  "timer_handleReadEvent clk acts m =
     (let k = drain_timerfd (tm_fd m) in
      map_option (\<lambda>r. bind_res r (\<lambda>s.
        Inr (m\<lparr>tm_queue := s, tm_fd := fold timerfd_settime (new_sets (tm_queue m) s) k\<rparr>)))
        (handleTimeoutEvents clk acts (tm_queue m)))"

text \<open>
  The queue in service: calls from outside, the timerfd expiring some time after it is armed, and
  the poller calling the handler when there is something to read.
\<close>

inductive timers_step ::
    "(nat \<Rightarrow> timestamp) \<Rightarrow> ('h \<Rightarrow> (nat \<times> timestamp \<times> 'h) list \<Rightarrow> 'h act list) \<Rightarrow>
     'h timers \<Rightarrow> 'h timers \<Rightarrow> bool" for clk acts where
  call: "timers_act clk a m = Inr m' \<Longrightarrow> timers_step clk acts m m'"
| expire: "tfd_expiry (tm_fd m) \<noteq> None \<Longrightarrow>
    timers_step clk acts m (m\<lparr>tm_fd := \<lparr>tfd_expiry = None, tfd_ready = True\<rparr>\<rparr>)"
| event: "tfd_ready (tm_fd m) \<Longrightarrow> timer_handleReadEvent clk acts m = Some (Inr m') \<Longrightarrow>
    timers_step clk acts m m'"

inductive_cases timers_stepE: "timers_step clk acts m m'"

abbreviation timers_reach ::
    "(nat \<Rightarrow> timestamp) \<Rightarrow> ('h \<Rightarrow> (nat \<times> timestamp \<times> 'h) list \<Rightarrow> 'h act list) \<Rightarrow>
     'h timers \<Rightarrow> 'h timers \<Rightarrow> bool" where
  "timers_reach clk acts \<equiv> (timers_step clk acts)\<^sup>*\<^sup>*"

section \<open>The invariant\<close>

text \<open>Pending timers have an alarm: the timerfd is armed for the root, or has something to read.\<close>

definition alarm :: "'h timers \<Rightarrow> bool" where
  "alarm m \<longleftrightarrow> (let a = itimer (weak_timeout (root (tm_queue m))) in
     hsize (queue (tm_queue m)) \<noteq> 0 \<longrightarrow> settable a \<longrightarrow> a \<noteq> (0, 0) \<longrightarrow>
       tfd_ready (tm_fd m) \<or> tfd_expiry (tm_fd m) = Some a)"

definition timers_ok :: "'h timers \<Rightarrow> bool" where
  "timers_ok m \<longleftrightarrow> tq_ok (tm_queue m) \<and> timerfd_open (tm_queue m) \<and> alarm m"

lemma timers_ok_new: "timers_ok timers_new"
  using tq_ok_new by (simp add: timers_ok_def timers_new_def alarm_def TimerQueue_new_def BinaryHeap_new_def)

lemma alarm_set:
  assumes "timerfd_sets s' = timerfd_sets s @ [itimer (weak_timeout (root s'))]"
  shows "alarm (m\<lparr>tm_queue := s', tm_fd := fold timerfd_settime (new_sets s s') k\<rparr>)"
  using assms by (simp add: alarm_def new_sets_def timerfd_settime_def Let_def)

lemma timers_act_ok:
  assumes "timers_ok m"
  shows "\<exists>m'. timers_act clk a m = Inr m' \<and> timers_ok m' \<and> evolves (tm_queue m) (tm_queue m')
    \<and> (hsize (queue (tm_queue m)) \<noteq> 0 \<longrightarrow> tm_fd m' = tm_fd m)"
proof -
  let ?s = "tm_queue m"
  have ok: "tq_ok ?s" "timerfd_open ?s" "alarm m" using assms by (simp_all add: timers_ok_def)
  obtain s' where s': "do_act clk a ?s = Inr s'" "evolves ?s s'" using do_act_ok [OF ok(1)] by blast
  let ?m = "m\<lparr>tm_queue := s', tm_fd := fold timerfd_settime (new_sets ?s s') (tm_fd m)\<rparr>"
  have "alarm ?m \<and> (hsize (queue ?s) \<noteq> 0 \<longrightarrow> tm_fd ?m = tm_fd m)"
  proof (cases "hsize (queue ?s) = 0")
    case True
    with do_act_empty [OF ok(1) True s'(1)] ok(2) alarm_set [where s' = s' and s = ?s and m = m and k = "tm_fd m"] show ?thesis
      by (cases "hsize (queue s') = 0") (simp_all add: alarm_def)
  next
    case False
    with evolves_same [OF s'(2)] ok(3) show ?thesis by (simp add: alarm_def new_sets_def)
  qed
  moreover have "timers_act clk a m = Inr ?m" using s'(1) by (simp add: timers_act_def)
  ultimately show ?thesis using s'(2) ok(2) by (auto simp: timers_ok_def evolves_def)
qed

lemma timer_read_ok:
  assumes "timers_ok m" "timer_handleReadEvent clk acts m = Some r"
  shows "\<exists>m'. r = Inr m' \<and> timers_ok m' \<and> handleTimeoutEvents clk acts (tm_queue m) = Some (Inr (tm_queue m'))"
proof -
  let ?s = "tm_queue m"
  have ok: "tq_ok ?s" "timerfd_open ?s" "alarm m" using assms(1) by (simp_all add: timers_ok_def)
  from assms(2) obtain r' where r': "handleTimeoutEvents clk acts ?s = Some r'"
    by (auto simp: timer_handleReadEvent_def)
  from handle_post [OF ok(1) r'] obtain s' where s': "r' = Inr s'" "tq_ok s'" "timerfd_open s' = timerfd_open ?s"
    "hsize (queue s') \<noteq> 0 \<longrightarrow> timerfd_open ?s \<longrightarrow>
       timerfd_sets s' = timerfd_sets ?s @ [itimer (weak_timeout (root s'))]"
    by (elim exE conjE) (rule that, assumption+)
  let ?m = "m\<lparr>tm_queue := s', tm_fd := fold timerfd_settime (new_sets ?s s') (drain_timerfd (tm_fd m))\<rparr>"
  have "alarm ?m"
  proof (cases "hsize (queue s') = 0")
    case False
    with alarm_set s'(4) ok(2) show ?thesis by blast
  qed (simp add: alarm_def)
  then have "timers_ok ?m" using s' ok(2) by (simp add: timers_ok_def)
  moreover have "r = Inr ?m" using assms(2) r' s'(1) by (simp add: timer_handleReadEvent_def)
  ultimately show ?thesis using r' s'(1) by simp
qed

lemma timers_step_ok: "timers_step clk acts m m' \<Longrightarrow> timers_ok m \<Longrightarrow> timers_ok m'"
proof (erule timers_stepE)
  assume ok: "timers_ok m"
  { fix a assume "timers_act clk a m = Inr m'"
    with timers_act_ok [OF ok, of clk a] show "timers_ok m'" by auto }
  { assume "m' = m\<lparr>tm_fd := \<lparr>tfd_expiry = None, tfd_ready = True\<rparr>\<rparr>"
    with ok show "timers_ok m'" by (simp add: timers_ok_def alarm_def) }
  { assume "timer_handleReadEvent clk acts m = Some (Inr m')"
    from timer_read_ok [OF ok this] show "timers_ok m'" by auto }
qed

lemma timers_reach_ok: "timers_reach clk acts m m' \<Longrightarrow> timers_ok m \<Longrightarrow> timers_ok m'"
  by (induction rule: rtranclp_induct) (auto intro: timers_step_ok)

text \<open>A due root that is alive is the first to run.\<close>

lemma handle_root:
  assumes "tq_ok s" "hsize (queue s) \<noteq> 0" "due (clk (clock_reads s)) (root s)" "expired (root s) s = Some t"
    and "handleTimeoutEvents clk acts s = Some (Inr s')"
  shows "\<exists>new. fired s' = fired s @ (weak_id (root s), weak_timeout (root s), user_handler t) # new"
proof -
  let ?now = "clk (clock_reads s)" and ?s = "s\<lparr>clock_reads := clock_reads s + 1\<rparr>"
  have same: "root ?s = root s" "expired (root ?s) ?s = Some t" using assms(4) by (simp_all add: root_def expired_def cong: option.case_cong)
  obtain s1 where s1: "timeout_round clk acts ?now ?s = Inr (Some s1)" "tq_ok s1"
    "fired s1 = fired s @ [(weak_id (root s), weak_timeout (root s), user_handler t)]"
    using timeout_round_ok [of ?s ?now clk acts] assms(1-3) same by auto
  from assms(2,5) obtain r where r: "timeout_loop clk acts ?now ?s = Some r" "bind_res r rearm = Inr s'"
    by (auto simp: handleTimeoutEvents_def Timestamp_now_def BinaryHeap_empty_def)
  then have "timeout_loop clk acts ?now s1 = Some r" using s1(1) by (simp add: timeout_loop.simps)
  from timeout_loop_post [OF this s1(2)] obtain s2 new where s2: "r = Inr s2" "tq_ok s2" "fired s2 = fired s1 @ new"
    by (auto simp: loop_post_def)
  from rearm_ok [OF s2(2)] r(2) s2(1) have "fired s' = fired s2" by auto
  with s1(3) s2(3) show ?thesis by simp
qed

section \<open>Concrete timers\<close>

text \<open>A timer for second 5 whose timerfd has expired; and one half a second after half a second.\<close>

definition ringing :: "unit timers" where
  "ringing = (case timers_act (\<lambda>_. TV 10 0) (RunAt (TV 5 0) ()) timers_new of
     Inr m \<Rightarrow> m\<lparr>tm_fd := \<lparr>tfd_expiry = None, tfd_ready = True\<rparr>\<rparr> | Inl _ \<Rightarrow> timers_new)"

lemma ringing_reach: "timers_reach (\<lambda>_. TV 10 0) acts timers_new ringing"
proof -
  have "case timers_act (\<lambda>_. TV 10 0) (RunAt (TV 5 0) ()) timers_new of Inr m \<Rightarrow> tfd_expiry (tm_fd m) \<noteq> None | Inl _ \<Rightarrow> False"
    by code_simp
  then obtain m where m: "timers_act (\<lambda>_. TV 10 0) (RunAt (TV 5 0) ()) timers_new = Inr m" "tfd_expiry (tm_fd m) \<noteq> None"
    by (auto split: sum.splits)
  then have "ringing = m\<lparr>tm_fd := \<lparr>tfd_expiry = None, tfd_ready = True\<rparr>\<rparr>" by (simp add: ringing_def)
  then show ?thesis using timers_step.call [OF m(1)] timers_step.expire [OF m(2)]
    by (metis converse_rtranclp_into_rtranclp r_into_rtranclp)
qed

definition unnormalised :: "unit timers" where
  "unnormalised = (case timers_act (\<lambda>_. TV 1 500000) (RunAfter (TV 0 500000) ()) timers_new of
     Inr m \<Rightarrow> m | Inl _ \<Rightarrow> timers_new)"

section \<open>Properties\<close>



text \<open>One unusable time stops a queue for good. When a timer is put into an empty queue for a time
  that \<^verbatim>\<open>timerfd_settime\<close> refuses or takes for "disarm", no handler ever runs again: the timer stays
  the root, and no later timer re-arms the timerfd. The sum that \<^verbatim>\<open>runAfter\<close> computes is such a
  time when the microseconds add up to exactly one second.\<close>

definition stalled :: "'h timers \<Rightarrow> bool" where
  "stalled m \<longleftrightarrow> timers_ok m \<and> hsize (queue (tm_queue m)) \<noteq> 0 \<and> tfd_expiry (tm_fd m) = None \<and> \<not> tfd_ready (tm_fd m)"

lemma stalled_step:
  assumes "timers_step clk acts m m'" "stalled m"
  shows "stalled m' \<and> fired (tm_queue m') = fired (tm_queue m)"
  using assms(1)
proof cases
  case (call a)
  have ok: "timers_ok m" "hsize (queue (tm_queue m)) \<noteq> 0" using assms(2) by (simp_all add: stalled_def)
  from timers_act_ok [OF ok(1), of clk a] call ok(2)
  have m': "timers_ok m'" "evolves (tm_queue m) (tm_queue m')" "tm_fd m' = tm_fd m" by simp_all
  have "fired (tm_queue m') = fired (tm_queue m)" using m'(2) by (simp add: evolves_def)
  with m' evolves_same [OF m'(2) ok(2)] assms(2) show ?thesis by (simp add: stalled_def)
qed (use assms(2) in \<open>simp_all add: stalled_def\<close>)

lemma stalled_reach:
  "timers_reach clk acts m m' \<Longrightarrow> stalled m \<Longrightarrow> stalled m' \<and> fired (tm_queue m') = fired (tm_queue m)"
  by (induction rule: rtranclp_induct) (auto dest: stalled_step)

theorem unusable_time_stalls:
  assumes "timers_reach clk acts timers_new m0" "hsize (queue (tm_queue m0)) = 0"
    and "tfd_expiry (tm_fd m0) = None" "\<not> tfd_ready (tm_fd m0)"
    and "timers_act clk a m0 = Inr m" "hsize (queue (tm_queue m)) \<noteq> 0"
    and "itimer (weak_timeout (root (tm_queue m))) = (0, 0) \<or> \<not> settable (itimer (weak_timeout (root (tm_queue m))))"
    and "timers_reach clk acts m m'"
  shows "fired (tm_queue m') = fired (tm_queue m0)"
proof -
  have ok: "timers_ok m0" using timers_reach_ok [OF assms(1) timers_ok_new] .
  then have tq: "tq_ok (tm_queue m0)" "timerfd_open (tm_queue m0)" by (simp_all add: timers_ok_def)
  from assms(5) obtain s where s: "do_act clk a (tm_queue m0) = Inr s"
    "m = m0\<lparr>tm_queue := s, tm_fd := fold timerfd_settime (new_sets (tm_queue m0) s) (tm_fd m0)\<rparr>"
    by (auto simp: timers_act_def bind_res_Inr_iff)
  have "timerfd_sets s = timerfd_sets (tm_queue m0) @ [itimer (weak_timeout (root s))]"
    using do_act_empty [OF tq(1) assms(2) s(1)] tq(2) assms(6) s(2) by simp
  then have fd: "tm_fd m = timerfd_settime (itimer (weak_timeout (root s))) (tm_fd m0)"
    using s(2) by (simp add: new_sets_def)
  have "tfd_expiry (tm_fd m) = None" "\<not> tfd_ready (tm_fd m)"
    using assms(3,4,7) s(2) unfolding fd by (auto simp: timerfd_settime_def)
  with timers_act_ok [OF ok, of clk a] assms(5,6) have "stalled m" "fired (tm_queue m) = fired (tm_queue m0)"
    by (auto simp: stalled_def evolves_def)
  with stalled_reach [OF assms(8)] show ?thesis by simp
qed

theorem unusable_time_stalls_witness:
  "timers_act (\<lambda>_. TV 1 500000) (RunAfter (TV 0 500000) ()) timers_new = Inr unnormalised
    \<and> (\<exists>m. timers_act (\<lambda>_. TV 1 500000) (RunAfter (TV 3 0) ()) unnormalised = Inr m \<and> fired (tm_queue m) = [])"
proof -
  let ?clk = "\<lambda>_. TV 1 500000"
  obtain m where m: "timers_act ?clk (RunAfter (TV 0 500000) ()) timers_new = Inr m" "timers_ok m"
    using timers_act_ok [OF timers_ok_new] by blast
  then have u: "timers_act ?clk (RunAfter (TV 0 500000) ()) timers_new = Inr unnormalised" "timers_ok unnormalised"
    by (simp_all add: unnormalised_def)
  from timers_act_ok [OF u(2)] obtain m' where m': "timers_act ?clk (RunAfter (TV 3 0) ()) unnormalised = Inr m'" by blast
  have root: "hsize (queue (tm_queue unnormalised)) \<noteq> 0"
    "\<not> settable (itimer (weak_timeout (root (tm_queue unnormalised))))" by code_simp+
  have "timers_reach ?clk (\<lambda>_ _. []) unnormalised m'" using timers_step.call [OF m'] by blast
  moreover have "hsize (queue (tm_queue timers_new)) = 0" "tfd_expiry (tm_fd timers_new) = None"
    "\<not> tfd_ready (tm_fd timers_new)" "fired (tm_queue timers_new) = []"
    by (simp_all add: timers_new_def TimerQueue_new_def BinaryHeap_new_def)
  ultimately have "fired (tm_queue m') = []"
    using unusable_time_stalls [OF rtranclp.rtrancl_refl _ _ _ u(1) root(1)] root(2) by metis
  with u(1) m' show ?thesis by blast
qed

end
