(* ===== verification/Poller_Base.thy ===== *)
theory Poller_Base
  imports Interfaces
begin

text \<open>
  \<^verbatim>\<open>Channel\<close> and the base class \<^verbatim>\<open>Poller\<close> (\<^verbatim>\<open>src/src/Channel.h\<close>, \<^verbatim>\<open>Channel.cpp\<close>, \<^verbatim>\<open>Poller.h\<close>,
  \<^verbatim>\<open>Poller.cpp\<close>). Channels are objects with an address; a poller maps descriptors to addresses
  and keeps three queues of handlers. What a callback or handler does to the poller is an
  argument \<open>beh\<close> of the model: a list of poller calls, which may depend on everything run before
  (\<open>plog\<close>). The virtual methods are a table of functions, one table per concrete poller.
\<close>

section \<open>Channels\<close>

record channel =
  chan_fd :: int
  readable :: bool
  writable :: bool
  old_readable :: bool
  old_writable :: bool
  has_read :: bool
  has_writ :: bool
  has_erro :: bool

definition Channel_new :: "int \<Rightarrow> channel res" where
  "Channel_new fd =
     bind_res (check (fd \<ge> 0) Assertion) (\<lambda>_.
     Inr \<lparr>chan_fd = fd, readable = False, writable = False, old_readable = False,
          old_writable = False, has_read = False, has_writ = False, has_erro = False\<rparr>)"

definition enableRead :: "bool \<Rightarrow> channel \<Rightarrow> channel" where
  "enableRead flag c = c\<lparr>readable := flag\<rparr>"

definition enableWrit :: "bool \<Rightarrow> channel \<Rightarrow> channel" where
  "enableWrit flag c = c\<lparr>writable := flag\<rparr>"

definition isEventChanged :: "channel \<Rightarrow> bool" where
  "isEventChanged c \<longleftrightarrow> old_readable c \<noteq> readable c \<or> old_writable c \<noteq> writable c"

definition changeEvent :: "channel \<Rightarrow> channel" where
  "changeEvent c = c\<lparr>old_writable := writable c, old_readable := readable c\<rparr>"

definition set_fd :: "int \<Rightarrow> channel \<Rightarrow> channel res" where
  "set_fd fd c = bind_res (check (fd \<noteq> 0) Assertion) (\<lambda>_. Inr (c\<lparr>chan_fd := fd\<rparr>))"

datatype kind = ReadEvent | WritEvent | ErroEvent

fun has_callback :: "kind \<Rightarrow> channel \<Rightarrow> bool" where
  "has_callback ReadEvent c = has_read c"
| "has_callback WritEvent c = has_writ c"
| "has_callback ErroEvent c = has_erro c"

text \<open>What can run: a callback of the channel at an address, or a queued handler.\<close>

datatype 'h src = Callback nat kind | Handler 'h

section \<open>The poller\<close>

datatype hqueue = NextTick | NextLoop | AfterLoop

record 'h poller =
  chans :: "nat \<Rightarrow> channel"
  channels :: "nat option list"
  nextTickHandlers :: "'h list"
  nextLoopHandlers :: "'h list"
  afterLoopHandlers :: "'h list"
  plog :: "'h src list"

definition Poller_getChannel :: "int \<Rightarrow> ('h, 'x) poller_scheme \<Rightarrow> nat option res" where
  "Poller_getChannel fd s =
     (if 0 \<le> fd \<and> fd < int (length (channels s)) then Inr (channels s ! nat fd)
      else Inl Out_of_bounds)"

definition Poller_setChannel ::
    "int \<Rightarrow> nat option \<Rightarrow> ('h, 'x) poller_scheme \<Rightarrow> ('h, 'x) poller_scheme res" where
  "Poller_setChannel fd p s =
     (if 0 \<le> fd \<and> fd < int (length (channels s)) then Inr (s\<lparr>channels := (channels s)[nat fd := p]\<rparr>)
      else Inl Out_of_bounds)"

fun pending :: "hqueue \<Rightarrow> ('h, 'x) poller_scheme \<Rightarrow> 'h list" where
  "pending NextTick s = nextTickHandlers s"
| "pending NextLoop s = nextLoopHandlers s"
| "pending AfterLoop s = afterLoopHandlers s"

fun set_pending :: "hqueue \<Rightarrow> 'h list \<Rightarrow> ('h, 'x) poller_scheme \<Rightarrow> ('h, 'x) poller_scheme" where
  "set_pending NextTick hs s = s\<lparr>nextTickHandlers := hs\<rparr>"
| "set_pending NextLoop hs s = s\<lparr>nextLoopHandlers := hs\<rparr>"
| "set_pending AfterLoop hs s = s\<lparr>afterLoopHandlers := hs\<rparr>"

definition push_handler :: "hqueue \<Rightarrow> 'h \<Rightarrow> ('h, 'x) poller_scheme \<Rightarrow> ('h, 'x) poller_scheme" where
  "push_handler q h s = set_pending q (pending q s @ [h]) s"

section \<open>Virtual methods and the calls a callback makes\<close>

record 's vtable =
  addChanel :: "nat \<Rightarrow> 's \<Rightarrow> 's res"
  updateChanel :: "nat \<Rightarrow> bool \<Rightarrow> bool \<Rightarrow> 's \<Rightarrow> 's res"
  removeChanel :: "nat \<Rightarrow> 's \<Rightarrow> 's res"

datatype 'h pcall = AddChannel nat | UpdateChannel nat | RemoveChannel nat
  | EnableRead nat bool | EnableWrit nat bool | Push hqueue 'h

fun do_call ::
    "('h, 'x) poller_scheme vtable \<Rightarrow> 'h pcall \<Rightarrow> ('h, 'x) poller_scheme \<Rightarrow> ('h, 'x) poller_scheme res"
where
  "do_call V (AddChannel p) s = addChanel V p s"
| "do_call V (UpdateChannel p) s =
     updateChanel V p (readable (chans s p)) (writable (chans s p)) s"
| "do_call V (RemoveChannel p) s = removeChanel V p s"
| "do_call V (EnableRead p b) s = Inr (s\<lparr>chans := (chans s)(p := enableRead b (chans s p))\<rparr>)"
| "do_call V (EnableWrit p b) s = Inr (s\<lparr>chans := (chans s)(p := enableWrit b (chans s p))\<rparr>)"
| "do_call V (Push q h) s = Inr (push_handler q h s)"

fun do_calls ::
    "('h, 'x) poller_scheme vtable \<Rightarrow> 'h pcall list \<Rightarrow> ('h, 'x) poller_scheme \<Rightarrow> ('h, 'x) poller_scheme res"
where
  "do_calls V [] s = Inr s"
| "do_calls V (c # cs) s = bind_res (do_call V c s) (do_calls V cs)"

type_synonym 'h behaviour = "'h src \<Rightarrow> 'h src list \<Rightarrow> 'h pcall list"

definition run_src ::
    "('h, 'x) poller_scheme vtable \<Rightarrow> 'h behaviour \<Rightarrow> 'h src \<Rightarrow> ('h, 'x) poller_scheme \<Rightarrow>
     ('h, 'x) poller_scheme res" where
  "run_src V beh x s = do_calls V (beh x (plog s)) (s\<lparr>plog := plog s @ [x]\<rparr>)"

text \<open>An unset callback only logs a message.\<close>

definition Channel_handle ::
    "('h, 'x) poller_scheme vtable \<Rightarrow> 'h behaviour \<Rightarrow> kind \<Rightarrow> nat \<Rightarrow> ('h, 'x) poller_scheme \<Rightarrow>
     ('h, 'x) poller_scheme res" where
  "Channel_handle V beh k p s =
     (if has_callback k (chans s p)
      then run_src V beh (Callback p k) s else Inr s)"

text \<open>
  A range-based loop over a \<^verbatim>\<open>std::list\<close> also visits the elements appended while it runs; the
  list is cleared when the end is reached.
\<close>

partial_function (option) run_handlers_from ::
    "('h, 'x) poller_scheme vtable \<Rightarrow> 'h behaviour \<Rightarrow> hqueue \<Rightarrow> nat \<Rightarrow> ('h, 'x) poller_scheme \<Rightarrow>
     ('h, 'x) poller_scheme res option" where
  [code]: "run_handlers_from V beh q i s =
     (if i < length (pending q s)
      then case run_src V beh (Handler (pending q s ! i)) s of
             Inl e \<Rightarrow> Some (Inl e)
           | Inr s' \<Rightarrow> run_handlers_from V beh q (i + 1) s'
      else Some (Inr (set_pending q [] s)))"

definition run_handlers ::
    "('h, 'x) poller_scheme vtable \<Rightarrow> 'h behaviour \<Rightarrow> hqueue \<Rightarrow> ('h, 'x) poller_scheme \<Rightarrow>
     ('h, 'x) poller_scheme res option" where
  "run_handlers V beh q s =
     (if pending q s = [] then Some (Inr s) else run_handlers_from V beh q 0 s)"

section \<open>Queued handlers\<close>

fun pushed :: "hqueue \<Rightarrow> 'h pcall list \<Rightarrow> 'h list" where
  "pushed q [] = []"
| "pushed q (Push q' h # cs) = (if q' = q then h # pushed q cs else pushed q cs)"
| "pushed q (_ # cs) = pushed q cs"

lemma pending_set_pending [simp]:
  "pending q (set_pending q' hs s) = (if q = q' then hs else pending q s)"
  "plog (set_pending q' hs s) = plog s" "channels (set_pending q' hs s) = channels s"
  "chans (set_pending q' hs s) = chans s"
  by (cases q; cases q'; simp)+

lemma pending_unrelated [simp]:
  "pending q (s\<lparr>plog := l\<rparr>) = pending q s" "pending q (s\<lparr>chans := c\<rparr>) = pending q s"
  "pending q (s\<lparr>channels := d\<rparr>) = pending q s"
  by (cases q; simp)+

text \<open>What the base class expects of the virtual methods: they leave the handlers alone.\<close>

locale poller_methods =
  fixes V :: "('h, 'x) poller_scheme vtable"
  assumes add_frame: "addChanel V p s = Inr s' \<Longrightarrow>
      plog s' = plog s \<and> pending q s' = pending q s \<and> chans s' = chans s"
    and update_frame: "updateChanel V p r w s = Inr s' \<Longrightarrow>
      plog s' = plog s \<and> pending q s' = pending q s \<and> chans s' = chans s"
    and remove_frame: "removeChanel V p s = Inr s' \<Longrightarrow>
      plog s' = plog s \<and> pending q s' = pending q s \<and> chans s' = chans s"
begin

lemma do_call_frame:
  "do_call V c s = Inr s' \<Longrightarrow> plog s' = plog s \<and> pending q s' = pending q s @ pushed q [c]"
  by (cases c) (auto dest: add_frame [where q = q] update_frame [where q = q] remove_frame [where q = q]
      simp: push_handler_def)

lemma do_calls_frame:
  "do_calls V cs s = Inr s' \<Longrightarrow> plog s' = plog s \<and> pending q s' = pending q s @ pushed q cs"
proof (induction cs arbitrary: s)
  case Nil
  then show ?case by simp
next
  case (Cons c cs)
  then obtain s1 where s1: "do_call V c s = Inr s1" "do_calls V cs s1 = Inr s'"
    by (auto simp: bind_res_Inr_iff)
  have "pushed q (c # cs) = pushed q [c] @ pushed q cs" by (cases c) auto
  with do_call_frame [OF s1(1)] Cons.IH [OF s1(2)] show ?case by simp
qed

lemma run_src_frame:
  "run_src V beh x s = Inr s' \<Longrightarrow>
     plog s' = plog s @ [x] \<and> pending q s' = pending q s @ pushed q (beh x (plog s))"
  unfolding run_src_def by (drule do_calls_frame [where q = q]) simp

lemma run_handlers_from_fifo:
  "run_handlers_from V' beh q i s = Some r \<Longrightarrow> V' = V \<Longrightarrow> r = Inr s' \<Longrightarrow> i \<le> length (pending q s) \<Longrightarrow>
     \<exists>more. plog s' = plog s @ map Handler (drop i (pending q s) @ more) \<and> pending q s' = []"
proof (induction rule: run_handlers_from.raw_induct [rotated, consumes 1, case_names step])
  case (step loop V' beh q i s r)
  show ?case
  proof (cases "i < length (pending q s)")
    case False
    with step.hyps step.prems have "s' = set_pending q [] s" by simp
    with False step.prems show ?thesis by simp
  next
    case True
    with step.hyps step.prems obtain s1 where
      s1: "run_src V beh (Handler (pending q s ! i)) s = Inr s1" "loop V' beh q (i + 1) s1 = Some r"
      by (auto split: sum.splits)
    note fr = run_src_frame [OF s1(1), of q]
    from step.IH [OF s1(2)] step.prems fr True obtain more where
      more: "plog s' = plog s1 @ map Handler (drop (i + 1) (pending q s1) @ more)" "pending q s' = []"
      by auto
    have "drop (i + 1) (pending q s1) =
        drop (i + 1) (pending q s) @ pushed q (beh (Handler (pending q s ! i)) (plog s))"
      using fr True by simp
    moreover have "drop i (pending q s) = pending q s ! i # drop (i + 1) (pending q s)"
      using True by (simp add: Cons_nth_drop_Suc)
    ultimately show ?thesis
      using more fr
      by (intro exI [of _ "pushed q (beh (Handler (pending q s ! i)) (plog s)) @ more"]) simp
  qed
qed

lemma run_handlers_from_quiet:
  assumes "\<forall>x l. pushed q (beh x l) = []"
  shows "\<exists>r. run_handlers_from V beh q i s = Some r \<and>
    (\<forall>s'. r = Inr s' \<longrightarrow> plog s' = plog s @ map Handler (drop i (pending q s)))"
proof (induction "length (pending q s) - i" arbitrary: i s)
  case 0
  then have "\<not> i < length (pending q s)" by simp
  then show ?case by (simp add: run_handlers_from.simps)
next
  case (Suc k)
  then have i: "i < length (pending q s)" by simp
  show ?case
  proof (cases "run_src V beh (Handler (pending q s ! i)) s")
    case (Inl e)
    with i show ?thesis by (simp add: run_handlers_from.simps)
  next
    case (Inr s1)
    note fr = run_src_frame [OF Inr, of q]
    with assms have same: "pending q s1 = pending q s" by simp
    then have "k = length (pending q s1) - (i + 1)" using Suc.hyps(2) by simp
    from Suc.hyps(1) [OF this] same obtain r where
      r: "run_handlers_from V beh q (i + 1) s1 = Some r"
      "\<forall>s'. r = Inr s' \<longrightarrow> plog s' = plog s1 @ map Handler (drop (i + 1) (pending q s))" by auto
    moreover have "drop i (pending q s) = pending q s ! i # drop (i + 1) (pending q s)"
      using i by (simp add: Cons_nth_drop_Suc)
    ultimately show ?thesis using i Inr fr by (simp add: run_handlers_from.simps [of V beh q i s])
  qed
qed

lemma run_handlers_from_starved:
  "run_handlers_from V' beh q i s = Some r \<Longrightarrow> V' = V \<Longrightarrow>
     (\<forall>h l. beh (Handler h) l = [Push q h]) \<Longrightarrow> i < length (pending q s) \<Longrightarrow> False"
proof (induction rule: run_handlers_from.raw_induct [rotated, consumes 1, case_names step])
  case (step loop V' beh q i s r)
  then obtain s1 where
    s1: "run_src V beh (Handler (pending q s ! i)) s = Inr s1" "loop V' beh q (i + 1) s1 = Some r"
    by (simp add: run_src_def)
  have "i + 1 < length (pending q s1)"
    using run_src_frame [OF s1(1), of q] step.prems by simp
  with step.IH [OF s1(2)] step.prems show ?case by blast
qed

end

section \<open>The registry every poller implements\<close>

text \<open>
  What clients see of a poller: which channel is registered for a descriptor, and for which of the
  two events. \<open>spec_call\<close> is the effect of a legal call on the channels and on that map, \<open>None\<close> if
  the call is not legal: adding a descriptor that is taken or beyond the limit, updating or
  removing a channel that is not the registered one.
\<close>

type_synonym registry = "int \<Rightarrow> (nat \<times> bool \<times> bool) option"

fun spec_call ::
    "int \<Rightarrow> 'h pcall \<Rightarrow> (nat \<Rightarrow> channel) \<times> registry \<Rightarrow> ((nat \<Rightarrow> channel) \<times> registry) option" where
  "spec_call lim (AddChannel p) (ch, r) =
     (let c = ch p; fd = chan_fd c in
      if 0 \<le> fd \<and> fd < lim \<and> r fd = None
      then Some (ch, r(fd \<mapsto> (p, readable c, writable c))) else None)"
| "spec_call lim (UpdateChannel p) (ch, r) =
     (let c = ch p; fd = chan_fd c in
      case r fd of
        None \<Rightarrow> None
      | Some (p', _) \<Rightarrow>
          if p' = p then Some (ch, r(fd \<mapsto> (p, readable c, writable c))) else None)"
| "spec_call lim (RemoveChannel p) (ch, r) =
     (let fd = chan_fd (ch p) in
      case r fd of
        None \<Rightarrow> None
      | Some (p', _) \<Rightarrow> if p' = p then Some (ch, r(fd := None)) else None)"
| "spec_call lim (EnableRead p b) (ch, r) = Some (ch(p := enableRead b (ch p)), r)"
| "spec_call lim (EnableWrit p b) (ch, r) = Some (ch(p := enableWrit b (ch p)), r)"
| "spec_call lim (Push q h) (ch, r) = Some (ch, r)"

fun spec_calls ::
    "int \<Rightarrow> 'h pcall list \<Rightarrow> (nat \<Rightarrow> channel) \<times> registry \<Rightarrow> ((nat \<Rightarrow> channel) \<times> registry) option" where
  "spec_calls lim [] a = Some a"
| "spec_calls lim (c # cs) a =
     (case spec_call lim c a of None \<Rightarrow> None | Some a' \<Rightarrow> spec_calls lim cs a')"

locale poller_registry = poller_methods V for V :: "('h, 'x) poller_scheme vtable" +
  fixes lim :: int
    and ok :: "('h, 'x) poller_scheme \<Rightarrow> bool"
    and reg :: "('h, 'x) poller_scheme \<Rightarrow> registry"
  assumes add_law: "ok s \<Longrightarrow> chan_fd (chans s p) = fd \<Longrightarrow> 0 \<le> fd \<Longrightarrow> fd < lim \<Longrightarrow> reg s fd = None \<Longrightarrow>
      \<exists>s'. addChanel V p s = Inr s' \<and> ok s'
        \<and> reg s' = (reg s)(fd \<mapsto> (p, readable (chans s p), writable (chans s p)))"
    and update_law: "ok s \<Longrightarrow> chan_fd (chans s p) = fd \<Longrightarrow> reg s fd = Some (p, b) \<Longrightarrow>
      \<exists>s'. updateChanel V p r w s = Inr s' \<and> ok s' \<and> reg s' = (reg s)(fd \<mapsto> (p, r, w))"
    and remove_law: "ok s \<Longrightarrow> chan_fd (chans s p) = fd \<Longrightarrow> reg s fd = Some (p, b) \<Longrightarrow>
      \<exists>s'. removeChanel V p s = Inr s' \<and> ok s' \<and> reg s' = (reg s)(fd := None)"
    and frame_law: "ok s \<Longrightarrow> ok (s\<lparr>chans := c\<rparr>) \<and> reg (s\<lparr>chans := c\<rparr>) = reg s"
      "ok s \<Longrightarrow> ok (set_pending q hs s) \<and> reg (set_pending q hs s) = reg s"
begin

lemma do_call_refines:
  assumes "ok s" "spec_call lim c (chans s, reg s) = Some a"
  shows "\<exists>s'. do_call V c s = Inr s' \<and> ok s' \<and> (chans s', reg s') = a"
proof (cases c)
  case (AddChannel p)
  with assms(2) have l: "0 \<le> chan_fd (chans s p)" "chan_fd (chans s p) < lim" "reg s (chan_fd (chans s p)) = None"
    by (auto simp: Let_def split: if_splits)
  from add_law [OF assms(1) refl l] obtain s' where s': "addChanel V p s = Inr s'" "ok s'"
    "reg s' = (reg s)(chan_fd (chans s p) \<mapsto> (p, readable (chans s p), writable (chans s p)))" by blast
  with AddChannel assms(2) l add_frame [OF s'(1)] show ?thesis by (simp add: Let_def)
next
  case (UpdateChannel p)
  with assms(2) obtain b where l: "reg s (chan_fd (chans s p)) = Some (p, b)"
    by (auto simp: Let_def split: if_splits option.splits)
  from update_law [OF assms(1) refl l] obtain s' where
    s': "updateChanel V p (readable (chans s p)) (writable (chans s p)) s = Inr s'" "ok s'"
    "reg s' = (reg s)(chan_fd (chans s p) \<mapsto> (p, readable (chans s p), writable (chans s p)))" by blast
  with UpdateChannel assms(2) l update_frame [OF s'(1)] show ?thesis by (simp add: Let_def)
next
  case (RemoveChannel p)
  with assms(2) obtain b where l: "reg s (chan_fd (chans s p)) = Some (p, b)"
    by (auto simp: Let_def split: if_splits option.splits)
  from remove_law [OF assms(1) refl l] obtain s' where s': "removeChanel V p s = Inr s'" "ok s'"
    "reg s' = (reg s)(chan_fd (chans s p) := None)" by blast
  with RemoveChannel assms(2) l remove_frame [OF s'(1)] show ?thesis by (simp add: Let_def)
qed (use assms frame_law in \<open>auto simp: push_handler_def\<close>)

lemma do_calls_refines:
  "ok s \<Longrightarrow> spec_calls lim cs (chans s, reg s) = Some a \<Longrightarrow>
     \<exists>s'. do_calls V cs s = Inr s' \<and> ok s' \<and> (chans s', reg s') = a"
proof (induction cs arbitrary: s)
  case Nil
  then show ?case by simp
next
  case (Cons c cs)
  then obtain a1 where a1: "spec_call lim c (chans s, reg s) = Some a1" "spec_calls lim cs a1 = Some a"
    by (auto split: option.splits)
  from do_call_refines [OF Cons.prems(1) a1(1)] obtain s1 where
    s1: "do_call V c s = Inr s1" "ok s1" "(chans s1, reg s1) = a1" by blast
  with Cons.IH [OF s1(2)] a1(2) show ?case by simp
qed

end

end
