(* ===== verification/Pollers.thy ===== *)
theory Pollers
  imports Poller_Base Timestamps
begin

text \<open>
  The pollers \<^verbatim>\<open>PollerSelect\<close>, \<^verbatim>\<open>PollerPoll\<close>, \<^verbatim>\<open>PollerEpoll\<close> and \<^verbatim>\<open>PollerKevent\<close>
  (\<^verbatim>\<open>src/src/Poller*.cpp\<close>). The answer of the kernel to \<^verbatim>\<open>select\<close>, \<^verbatim>\<open>poll\<close>, \<^verbatim>\<open>epoll_wait\<close> and
  \<^verbatim>\<open>kevent\<close> is an argument of \<^verbatim>\<open>loop_once\<close>. The interest list behind an epoll descriptor is part
  of the state, with the documented behaviour of \<^verbatim>\<open>epoll_ctl\<close>: adding a registered descriptor
  and changing or deleting an unregistered one fail; \<open>fd_ok\<close> says which descriptors the kernel
  accepts at all.
\<close>

section \<open>select\<close>

text \<open>
  The constructor leaves the three descriptor sets as the memory holds them; \<open>junk\<close> is that
  content.
\<close>

record 'h select = "'h poller" +
  rset :: "nat \<Rightarrow> bool"
  wset :: "nat \<Rightarrow> bool"
  eset :: "nat \<Rightarrow> bool"
  maxfd :: int

definition FD_SETSIZE :: int where
  "FD_SETSIZE = 1024"

definition PollerSelect_new ::
    "nat \<Rightarrow> (nat \<Rightarrow> channel) \<Rightarrow> (nat \<Rightarrow> bool) \<Rightarrow> (nat \<Rightarrow> bool) \<Rightarrow> (nat \<Rightarrow> bool) \<Rightarrow> 'h select" where
  "PollerSelect_new open_max ch junk_r junk_w junk_e =
     \<lparr>chans = ch, channels = replicate open_max None, nextTickHandlers = [], nextLoopHandlers = [],
      afterLoopHandlers = [], plog = [], rset = junk_r, wset = junk_w, eset = junk_e, maxfd = -1\<rparr>"

definition PollerSelect_addChanel :: "nat \<Rightarrow> 'h select \<Rightarrow> 'h select res" where
  "PollerSelect_addChanel p s =
     (let c = chans s p; fd = chan_fd c in
      if fd < 0 then Inl Assertion
      else if fd \<ge> FD_SETSIZE then Inl (Thrown ''fd >= 1024'')
      else bind_res (Poller_setChannel fd (Some p) (s\<lparr>maxfd := (if fd \<ge> maxfd s then fd + 1 else maxfd s)\<rparr>))
        (\<lambda>s. Inr (s\<lparr>rset := (if readable c then (rset s)(nat fd := True) else rset s),
                     wset := (if writable c then (wset s)(nat fd := True) else wset s),
                     eset := (eset s)(nat fd := True)\<rparr>)))"

definition PollerSelect_updateChanel :: "nat \<Rightarrow> bool \<Rightarrow> bool \<Rightarrow> 'h select \<Rightarrow> 'h select res" where
  "PollerSelect_updateChanel p r w s =
     (let fd = chan_fd (chans s p) in
      if fd < 0 then Inl Assertion
      else if fd \<ge> FD_SETSIZE then Inl Out_of_bounds
      else Inr (s\<lparr>rset := (rset s)(nat fd := r), wset := (wset s)(nat fd := w)\<rparr>))"

text \<open>The loop \<^verbatim>\<open>while (--maxfd_)\<close>.\<close>

fun shrink_maxfd :: "nat \<Rightarrow> (nat \<Rightarrow> bool) \<Rightarrow> nat" where
  "shrink_maxfd 0 isset = 0"
| "shrink_maxfd (Suc m) isset = (if m = 0 \<or> isset m then m else shrink_maxfd m isset)"

definition PollerSelect_removeChanel :: "nat \<Rightarrow> 'h select \<Rightarrow> 'h select res" where
  "PollerSelect_removeChanel p s =
     (let fd = chan_fd (chans s p) in
      if fd < 0 then Inl Assertion
      else if fd \<ge> FD_SETSIZE then Inl Out_of_bounds
      else bind_res (Poller_setChannel fd None
          (s\<lparr>rset := (rset s)(nat fd := False), wset := (wset s)(nat fd := False),
             eset := (eset s)(nat fd := False)\<rparr>)) (\<lambda>s.
        if fd = maxfd s \<and> 0 < fd
        then Inr (s\<lparr>maxfd := int (shrink_maxfd (nat (maxfd s)) (\<lambda>m. rset s m \<or> wset s m \<or> eset s m))\<rparr>)
        else if fd = maxfd s then Inl Out_of_bounds
        else Inr s))"

definition select_vtable :: "'h select vtable" where
  "select_vtable = \<lparr>addChanel = PollerSelect_addChanel, updateChanel = PollerSelect_updateChanel,
     removeChanel = PollerSelect_removeChanel\<rparr>"

text \<open>The timeout handed to \<^verbatim>\<open>select\<close>: none, zero when it has passed, or the time left.\<close>

definition select_timeout :: "timestamp option \<Rightarrow> timestamp \<Rightarrow> (int \<times> int) option" where
  "select_timeout ts now =
     (case ts of None \<Rightarrow> None
      | Some t \<Rightarrow> if Timestamp_less t now then Some (0, 0)
                  else let inter = Timestamp_minus t now in Some (sec inter, usec inter))"

record select_answer =
  nready :: int
  r_ready :: "nat \<Rightarrow> bool"
  w_ready :: "nat \<Rightarrow> bool"
  e_ready :: "nat \<Rightarrow> bool"

text \<open>The body of the loop for one descriptor; it returns whether \<^verbatim>\<open>nready\<close> is decremented.\<close>

definition select_body ::
    "'h behaviour \<Rightarrow> select_answer \<Rightarrow> nat \<Rightarrow> 'h select \<Rightarrow> (bool \<times> 'h select) res" where
  "select_body beh a fd s =
     bind_res (Poller_getChannel (int fd) s) (\<lambda>c.
     case c of None \<Rightarrow> Inr (False, s)
     | Some p \<Rightarrow>
         if e_ready a fd
         then bind_res (Channel_handle select_vtable beh ErroEvent p s) (\<lambda>s. Inr (False, s))
         else
           bind_res (if r_ready a fd then Channel_handle select_vtable beh ReadEvent p s else Inr s) (\<lambda>s1.
           if w_ready a fd
           then bind_res (Poller_getChannel (int fd) s1) (\<lambda>c.
                case c of None \<Rightarrow> Inr (r_ready a fd, s1)
                | Some p \<Rightarrow> bind_res (Channel_handle select_vtable beh WritEvent p s1) (\<lambda>s2. Inr (True, s2)))
           else Inr (r_ready a fd, s1)))"

partial_function (option) select_loop ::
    "'h behaviour \<Rightarrow> select_answer \<Rightarrow> nat \<Rightarrow> int \<Rightarrow> 'h select \<Rightarrow> 'h select res option" where
  [code]: "select_loop beh a fd n s =
     (if int fd < maxfd s \<and> n > 0
      then case select_body beh a fd s of
             Inl e \<Rightarrow> Some (Inl e)
           | Inr (flag, s1) \<Rightarrow>
               (case run_handlers select_vtable beh NextTick s1 of
                  None \<Rightarrow> None
                | Some (Inl e) \<Rightarrow> Some (Inl e)
                | Some (Inr s2) \<Rightarrow> select_loop beh a (fd + 1) (if flag then n - 1 else n) s2)
      else Some (Inr s))"

definition PollerSelect_loop_once ::
    "'h behaviour \<Rightarrow> select_answer \<Rightarrow> 'h select \<Rightarrow> 'h select res option" where
  "PollerSelect_loop_once beh a s =
     bind_run (run_handlers select_vtable beh NextLoop s) (\<lambda>s1.
     bind_run (select_loop beh a 0 (nready a) s1) (\<lambda>s2.
     run_handlers select_vtable beh AfterLoop s2))"

section \<open>poll\<close>

record revents =
  rerr :: bool
  rrdhup :: bool
  rin :: bool
  rout :: bool

record pollfd =
  pfd :: int
  pin :: bool
  pout :: bool
  prevents :: revents

definition no_revents :: revents where
  "no_revents = \<lparr>rerr = False, rrdhup = False, rin = False, rout = False\<rparr>"

definition pollfd_zero :: pollfd where
  "pollfd_zero = \<lparr>pfd = 0, pin = False, pout = False, prevents = no_revents\<rparr>"

record 'h ppoll = "'h poller" +
  pollfds :: "pollfd list"

definition PollerPoll_new :: "nat \<Rightarrow> (nat \<Rightarrow> channel) \<Rightarrow> 'h ppoll" where
  "PollerPoll_new open_max ch =
     \<lparr>chans = ch, channels = replicate open_max None, nextTickHandlers = [], nextLoopHandlers = [],
      afterLoopHandlers = [], plog = [], pollfds = replicate 48 pollfd_zero\<rparr>"

definition resize :: "nat \<Rightarrow> 'a \<Rightarrow> 'a list \<Rightarrow> 'a list" where
  "resize n x xs = take n xs @ replicate (n - length xs) x"

text \<open>
  \<^verbatim>\<open>pollfd1\<close> is a local whose \<^verbatim>\<open>revents\<close> is never set: \<open>junk\<close> is what the stack holds there.
\<close>

definition PollerPoll_addChanel :: "revents \<Rightarrow> nat \<Rightarrow> 'h ppoll \<Rightarrow> 'h ppoll res" where
  "PollerPoll_addChanel junk p s =
     (let c = chans s p; fd = chan_fd c in
      if fd < 0 then Inl Assertion
      else let pollfd1 = \<lparr>pfd = fd, pin = readable c, pout = writable c, prevents = junk\<rparr>;
               fds = (if length (pollfds s) \<le> nat fd
                      then resize (nat fd * 2 + 1) pollfd_zero (pollfds s) else pollfds s)
           in Poller_setChannel fd (Some p) (s\<lparr>pollfds := fds[nat fd := pollfd1]\<rparr>))"

definition PollerPoll_updateChanel :: "nat \<Rightarrow> bool \<Rightarrow> bool \<Rightarrow> 'h ppoll \<Rightarrow> 'h ppoll res" where
  "PollerPoll_updateChanel p r w s =
     (let fd = chan_fd (chans s p) in
      if fd < 0 then Inl Assertion
      else if nat fd < length (pollfds s)
      then Inr (s\<lparr>pollfds := (pollfds s)[nat fd := (pollfds s ! nat fd)\<lparr>pin := r, pout := w\<rparr>]\<rparr>)
      else Inl Out_of_bounds)"

definition PollerPoll_removeChanel :: "nat \<Rightarrow> 'h ppoll \<Rightarrow> 'h ppoll res" where
  "PollerPoll_removeChanel p s =
     (let fd = chan_fd (chans s p) in
      if fd < 0 then Inl Assertion
      else bind_res (Poller_setChannel fd None s) (\<lambda>s.
        if nat fd < length (pollfds s)
        then Inr (s\<lparr>pollfds := (pollfds s)[nat fd := (pollfds s ! nat fd)\<lparr>pfd := -1\<rparr>]\<rparr>)
        else Inl Out_of_bounds))"

definition poll_vtable :: "revents \<Rightarrow> 'h ppoll vtable" where
  "poll_vtable junk = \<lparr>addChanel = PollerPoll_addChanel junk, updateChanel = PollerPoll_updateChanel,
     removeChanel = PollerPoll_removeChanel\<rparr>"

text \<open>The timeout of \<^verbatim>\<open>poll\<close> in milliseconds, through the casts of the source.\<close>

definition poll_timeout :: "timestamp option \<Rightarrow> timestamp \<Rightarrow> int" where
  "poll_timeout ts now =
     (case ts of None \<Rightarrow> -1
      | Some t \<Rightarrow> if Timestamp_less t now then 0
                  else sint (ucast (toMillSec (Timestamp_minus t now)) :: 32 word))"

definition poll_body ::
    "revents \<Rightarrow> 'h behaviour \<Rightarrow> nat \<Rightarrow> 'h ppoll \<Rightarrow> (bool \<times> 'h ppoll) res" where
  "poll_body junk beh i s =
     (let fd = pfd (pollfds s ! i); rev = prevents (pollfds s ! i) in
      if fd < 0 then Inr (False, s)
      else bind_res (Poller_getChannel fd s) (\<lambda>c.
        case c of None \<Rightarrow> Inr (False, s)
        | Some p \<Rightarrow>
            if rerr rev \<or> rrdhup rev
            then bind_res (Channel_handle (poll_vtable junk) beh ErroEvent p s) (\<lambda>s. Inr (False, s))
            else
              bind_res (if rin rev then Channel_handle (poll_vtable junk) beh ReadEvent p s else Inr s) (\<lambda>s1.
              if rout rev
              then bind_res (Poller_getChannel fd s1) (\<lambda>c.
                   case c of None \<Rightarrow> Inr (rin rev, s1)
                   | Some p \<Rightarrow> bind_res (Channel_handle (poll_vtable junk) beh WritEvent p s1)
                       (\<lambda>s2. Inr (True, s2)))
              else Inr (rin rev, s1))))"

partial_function (option) poll_loop ::
    "revents \<Rightarrow> 'h behaviour \<Rightarrow> nat \<Rightarrow> int \<Rightarrow> 'h ppoll \<Rightarrow> 'h ppoll res option" where
  [code]: "poll_loop junk beh i n s =
     (if i < length (pollfds s) \<and> n > 0
      then case poll_body junk beh i s of
             Inl e \<Rightarrow> Some (Inl e)
           | Inr (flag, s1) \<Rightarrow>
               (case run_handlers (poll_vtable junk) beh NextTick s1 of
                  None \<Rightarrow> None
                | Some (Inl e) \<Rightarrow> Some (Inl e)
                | Some (Inr s2) \<Rightarrow> poll_loop junk beh (i + 1) (if flag then n - 1 else n) s2)
      else Some (Inr s))"

definition PollerPoll_loop_once ::
    "revents \<Rightarrow> 'h behaviour \<Rightarrow> int \<Rightarrow> (nat \<Rightarrow> revents) \<Rightarrow> 'h ppoll \<Rightarrow> 'h ppoll res option" where
  "PollerPoll_loop_once junk beh n answer s =
     bind_run (run_handlers (poll_vtable junk) beh NextLoop s) (\<lambda>s1.
     bind_run (poll_loop junk beh 0 n
       (s1\<lparr>pollfds := map (\<lambda>(i, f). f\<lparr>prevents := answer i\<rparr>) (enumerate 0 (pollfds s1))\<rparr>)) (\<lambda>s2.
     run_handlers (poll_vtable junk) beh AfterLoop s2))"

section \<open>epoll\<close>

record 'h epoll = "'h poller" +
  eventsSize :: "64 word"
  events_len :: nat
  interest :: "int \<Rightarrow> (bool \<times> bool) option"

definition PollerEpoll_new :: "nat \<Rightarrow> (nat \<Rightarrow> channel) \<Rightarrow> 'h epoll" where
  "PollerEpoll_new open_max ch =
     \<lparr>chans = ch, channels = replicate open_max None, nextTickHandlers = [], nextLoopHandlers = [],
      afterLoopHandlers = [], plog = [], eventsSize = 0, events_len = 48, interest = (\<lambda>_. None)\<rparr>"

definition PollerEpoll_addChanel :: "(int \<Rightarrow> bool) \<Rightarrow> nat \<Rightarrow> 'h epoll \<Rightarrow> 'h epoll res" where
  "PollerEpoll_addChanel fd_ok p s =
     (let c = chans s p; fd = chan_fd c in
      if fd < 0 then Inl Assertion
      else if \<not> fd_ok fd \<or> interest s fd \<noteq> None then Inl (Thrown ''epoll_ctl'')
      else bind_res (Poller_setChannel fd (Some p)
             (s\<lparr>interest := (interest s)(fd \<mapsto> (readable c, writable c))\<rparr>))
           (\<lambda>s. Inr (s\<lparr>eventsSize := eventsSize s + 1\<rparr>)))"

definition PollerEpoll_updateChanel :: "nat \<Rightarrow> bool \<Rightarrow> bool \<Rightarrow> 'h epoll \<Rightarrow> 'h epoll res" where
  "PollerEpoll_updateChanel p r w s =
     (let fd = chan_fd (chans s p) in
      if fd < 0 then Inl Assertion
      else if interest s fd = None then Inl (Thrown ''epoll_ctl'')
      else Inr (s\<lparr>interest := (interest s)(fd \<mapsto> (r, w))\<rparr>))"

definition PollerEpoll_removeChanel :: "nat \<Rightarrow> 'h epoll \<Rightarrow> 'h epoll res" where
  "PollerEpoll_removeChanel p s =
     (let fd = chan_fd (chans s p) in
      if fd < 0 then Inl Assertion
      else bind_res (Poller_setChannel fd None s) (\<lambda>s.
        let s = s\<lparr>eventsSize := eventsSize s - 1\<rparr> in
        if interest s fd = None then Inl (Thrown ''epoll_ctl'')
        else Inr (s\<lparr>interest := (interest s)(fd := None)\<rparr>)))"

definition epoll_vtable :: "(int \<Rightarrow> bool) \<Rightarrow> 'h epoll vtable" where
  "epoll_vtable fd_ok = \<lparr>addChanel = PollerEpoll_addChanel fd_ok,
     updateChanel = PollerEpoll_updateChanel, removeChanel = PollerEpoll_removeChanel\<rparr>"

record epoll_event =
  efd :: int
  erdhup :: bool
  eerr :: bool
  ehup :: bool
  ein :: bool
  eout :: bool

text \<open>The callback an event selects, if any: one at most.\<close>

definition epoll_kind :: "epoll_event \<Rightarrow> kind option" where
  "epoll_kind e =
     (if erdhup e \<or> eerr e then Some ErroEvent
      else if ein e then Some ReadEvent
      else if eout e then Some WritEvent
      else None)"

definition epoll_body ::
    "(int \<Rightarrow> bool) \<Rightarrow> 'h behaviour \<Rightarrow> epoll_event \<Rightarrow> 'h epoll \<Rightarrow> 'h epoll res" where
  "epoll_body fd_ok beh e s =
     bind_res (Poller_getChannel (efd e) s) (\<lambda>c.
     case c of None \<Rightarrow> Inr s
     | Some p \<Rightarrow>
         (case epoll_kind e of None \<Rightarrow> Inr s
          | Some k \<Rightarrow> Channel_handle (epoll_vtable fd_ok) beh k p s))"

fun epoll_dispatch ::
    "(int \<Rightarrow> bool) \<Rightarrow> 'h behaviour \<Rightarrow> epoll_event list \<Rightarrow> 'h epoll \<Rightarrow> 'h epoll res option" where
  "epoll_dispatch fd_ok beh [] s = Some (Inr s)"
| "epoll_dispatch fd_ok beh (e # es) s =
     bind_run (Some (epoll_body fd_ok beh e s)) (\<lambda>s1.
     bind_run (run_handlers (epoll_vtable fd_ok) beh NextTick s1) (\<lambda>s2.
     epoll_dispatch fd_ok beh es s2))"

definition PollerEpoll_loop_once ::
    "(int \<Rightarrow> bool) \<Rightarrow> 'h behaviour \<Rightarrow> epoll_event list \<Rightarrow> 'h epoll \<Rightarrow> 'h epoll res option" where
  "PollerEpoll_loop_once fd_ok beh es s =
     bind_run (run_handlers (epoll_vtable fd_ok) beh NextLoop s) (\<lambda>s1.
     bind_run (epoll_dispatch fd_ok beh es s1) (\<lambda>s2.
     bind_run (run_handlers (epoll_vtable fd_ok) beh AfterLoop s2) (\<lambda>s3.
     Some (Inr (if unat (eventsSize s3) > events_len s3
                then s3\<lparr>events_len := unat (eventsSize s3 * 2)\<rparr> else s3)))))"

section \<open>kqueue\<close>

text \<open>
  Changes are collected and handed to the kernel in batches; \<open>submitted\<close> is the list of batches.
\<close>

datatype filter_kind = EVFILT_READ | EVFILT_WRITE
datatype change_flag = EV_ADD_ENABLE | EV_DELETE

record kchange =
  ident :: int
  kfilter :: filter_kind
  kflag :: change_flag

record 'h kqueue = "'h poller" +
  keventsSize :: int
  kevents_len :: int
  changes :: "kchange list"
  submitted :: "kchange list list"

definition PollerKevent_new :: "nat \<Rightarrow> (nat \<Rightarrow> channel) \<Rightarrow> 'h kqueue" where
  "PollerKevent_new open_max ch =
     \<lparr>chans = ch, channels = replicate open_max None, nextTickHandlers = [], nextLoopHandlers = [],
      afterLoopHandlers = [], plog = [], keventsSize = 0, kevents_len = 48, changes = [],
      submitted = []\<rparr>"

definition EV_SET :: "int \<Rightarrow> filter_kind \<Rightarrow> change_flag \<Rightarrow> kchange" where
  "EV_SET fd f fl = \<lparr>ident = fd, kfilter = f, kflag = fl\<rparr>"

definition registered :: "('h, 'x) poller_scheme \<Rightarrow> int \<Rightarrow> bool" where
  "registered s fd \<longleftrightarrow> (\<exists>p. Poller_getChannel fd s = Inr (Some p))"

text \<open>
  \<^verbatim>\<open>updateKevents\<close>: the inner loop takes a maximal run of changes whose channel is registered, the
  outer one steps over the change that ended it.
\<close>

function update_batches :: "(int \<Rightarrow> bool) \<Rightarrow> kchange list \<Rightarrow> kchange list list" where
  "update_batches live [] = []"
| "update_batches live (c # cs) =
     (let run = takeWhile (live \<circ> ident) (c # cs);
          rest = dropWhile (live \<circ> ident) (c # cs)
      in (if run = [] then [] else [run]) @ update_batches live (drop 1 rest))"
  by pat_completeness auto
termination
  by (relation "measure (\<lambda>(live, cs). length cs)")
    (auto simp: less_Suc_eq_le intro: le_trans [OF diff_le_self] length_dropWhile_le)

definition updateKevents :: "'h kqueue \<Rightarrow> 'h kqueue" where
  "updateKevents s =
     s\<lparr>submitted := submitted s @ update_batches (registered s) (changes s), changes := []\<rparr>"

definition PollerKevent_addChanel :: "nat \<Rightarrow> 'h kqueue \<Rightarrow> 'h kqueue res" where
  "PollerKevent_addChanel p s =
     (let c = chans s p; fd = chan_fd c in
      if fd < 0 then Inl Assertion
      else let new = (if readable c then [EV_SET fd EVFILT_READ EV_ADD_ENABLE] else [])
                   @ (if writable c then [EV_SET fd EVFILT_WRITE EV_ADD_ENABLE] else [])
           in bind_res (Poller_setChannel fd (Some p)
                (s\<lparr>changes := changes s @ new, keventsSize := keventsSize s + 1\<rparr>)) (\<lambda>s.
              Inr (updateKevents s)))"

definition PollerKevent_updateChanel :: "nat \<Rightarrow> bool \<Rightarrow> bool \<Rightarrow> 'h kqueue \<Rightarrow> 'h kqueue res" where
  "PollerKevent_updateChanel p r w s =
     (let fd = chan_fd (chans s p) in
      if fd < 0 then Inl Assertion
      else Inr (s\<lparr>changes := changes s @
             [EV_SET fd EVFILT_READ (if r then EV_ADD_ENABLE else EV_DELETE),
              EV_SET fd EVFILT_WRITE (if w then EV_ADD_ENABLE else EV_DELETE)]\<rparr>))"

definition PollerKevent_removeChanel :: "nat \<Rightarrow> 'h kqueue \<Rightarrow> 'h kqueue res" where
  "PollerKevent_removeChanel p s =
     (let fd = chan_fd (chans s p) in
      if fd < 0 then Inl Assertion
      else Poller_setChannel fd None
        (s\<lparr>changes := changes s @ [EV_SET fd EVFILT_READ EV_DELETE, EV_SET fd EVFILT_WRITE EV_DELETE],
           keventsSize := keventsSize s - 1\<rparr>))"

definition kqueue_vtable :: "'h kqueue vtable" where
  "kqueue_vtable = \<lparr>addChanel = PollerKevent_addChanel, updateChanel = PollerKevent_updateChanel,
     removeChanel = PollerKevent_removeChanel\<rparr>"

definition kevent_timeout :: "timestamp option \<Rightarrow> timestamp \<Rightarrow> (int \<times> int) option" where
  "kevent_timeout ts now =
     (case ts of None \<Rightarrow> None
      | Some t \<Rightarrow> if Timestamp_less now t
                  then let inter = Timestamp_minus t now in Some (sec inter, usec inter * 1000)
                  else Some (0, 0))"

record kevent =
  kident :: int
  kev_filter :: filter_kind
  kerror :: bool

definition kevent_body :: "'h behaviour \<Rightarrow> kevent \<Rightarrow> 'h kqueue \<Rightarrow> 'h kqueue res" where
  "kevent_body beh e s =
     bind_res (Poller_getChannel (kident e) s) (\<lambda>c.
     case c of None \<Rightarrow> Inr s
     | Some p \<Rightarrow>
         if kerror e then Channel_handle kqueue_vtable beh ErroEvent p s
         else (case kev_filter e of
                 EVFILT_READ \<Rightarrow> Channel_handle kqueue_vtable beh ReadEvent p s
               | EVFILT_WRITE \<Rightarrow> Channel_handle kqueue_vtable beh WritEvent p s))"

fun kevent_dispatch :: "'h behaviour \<Rightarrow> kevent list \<Rightarrow> 'h kqueue \<Rightarrow> 'h kqueue res option" where
  "kevent_dispatch beh [] s = Some (Inr s)"
| "kevent_dispatch beh (e # es) s =
     bind_run (Some (kevent_body beh e s)) (\<lambda>s1.
     bind_run (run_handlers kqueue_vtable beh NextTick s1) (\<lambda>s2.
     kevent_dispatch beh es s2))"

definition PollerKevent_loop_once :: "'h behaviour \<Rightarrow> kevent list \<Rightarrow> 'h kqueue \<Rightarrow> 'h kqueue res option" where
  "PollerKevent_loop_once beh es s =
     bind_run (run_handlers kqueue_vtable beh NextLoop s) (\<lambda>s1.
     bind_run (kevent_dispatch beh es s1) (\<lambda>s2.
     bind_run (run_handlers kqueue_vtable beh AfterLoop s2) (\<lambda>s3.
     let s4 = updateKevents s3 in
     Some (Inr (if keventsSize s4 > kevents_len s4
                then s4\<lparr>kevents_len := keventsSize s4 * 2 + 1\<rparr> else s4)))))"

section \<open>The methods leave handlers and channels alone\<close>

lemma setChannel_Inr_iff [res_simps]:
  "Poller_setChannel fd c s = Inr s' \<longleftrightarrow>
     0 \<le> fd \<and> fd < int (length (channels s)) \<and> s' = s\<lparr>channels := (channels s)[nat fd := c]\<rparr>"
  by (auto simp: Poller_setChannel_def)

lemma getChannel_Inr_iff [res_simps]:
  "Poller_getChannel fd s = Inr c \<longleftrightarrow>
     0 \<le> fd \<and> fd < int (length (channels s)) \<and> c = channels s ! nat fd"
  by (auto simp: Poller_getChannel_def)

lemma pending_select [simp]:
  "pending q (s\<lparr>rset := a, wset := b, eset := c\<rparr>) = pending q s"
  "pending q (s\<lparr>rset := a, wset := b\<rparr>) = pending q s"
  "pending q (s\<lparr>maxfd := n\<rparr>) = pending q s"
  by (cases q; simp)+

lemma pending_poll [simp]: "pending q (s\<lparr>pollfds := f\<rparr>) = pending q s"
  by (cases q; simp)

lemma pending_epoll [simp]:
  "pending q (s\<lparr>interest := i\<rparr>) = pending q s" "pending q (s\<lparr>eventsSize := n\<rparr>) = pending q s"
  "pending q (s\<lparr>interest := i, eventsSize := n\<rparr>) = pending q s"
  "pending q (s\<lparr>eventsSize := n, interest := i\<rparr>) = pending q s"
  by (cases q; simp)+

lemma pending_kqueue [simp]:
  "pending q (s\<lparr>changes := i\<rparr>) = pending q s"
  "pending q (s\<lparr>changes := i, keventsSize := n\<rparr>) = pending q s"
  "pending q (s\<lparr>keventsSize := n\<rparr>) = pending q s"
  "pending q (updateKevents s) = pending q s"
  "plog (updateKevents s) = plog s" "chans (updateKevents s) = chans s"
  "channels (updateKevents s) = channels s"
  by (cases q; simp add: updateKevents_def)+

lemmas select_defs = select_vtable_def PollerSelect_addChanel_def PollerSelect_updateChanel_def
  PollerSelect_removeChanel_def Let_def

lemmas poll_defs = poll_vtable_def PollerPoll_addChanel_def PollerPoll_updateChanel_def
  PollerPoll_removeChanel_def Let_def

lemmas epoll_defs = epoll_vtable_def PollerEpoll_addChanel_def PollerEpoll_updateChanel_def
  PollerEpoll_removeChanel_def Let_def

lemmas kqueue_defs = kqueue_vtable_def PollerKevent_addChanel_def PollerKevent_updateChanel_def
  PollerKevent_removeChanel_def Let_def

interpretation select: poller_methods select_vtable
  by unfold_locales
    (auto simp: select_defs bind_res_Inr_iff setChannel_Inr_iff split: if_splits)

interpretation poll: poller_methods "poll_vtable junk" for junk
  by unfold_locales
    (auto simp: poll_defs bind_res_Inr_iff setChannel_Inr_iff split: if_splits)

interpretation epoll: poller_methods "epoll_vtable fd_ok" for fd_ok
  by unfold_locales
    (auto simp: epoll_defs bind_res_Inr_iff setChannel_Inr_iff split: if_splits)

interpretation kqueue: poller_methods kqueue_vtable
  by unfold_locales
    (auto simp: kqueue_defs bind_res_Inr_iff setChannel_Inr_iff split: if_splits)

section \<open>The registry\<close>

definition reg_of :: "(int \<Rightarrow> bool \<times> bool) \<Rightarrow> ('h, 'x) poller_scheme \<Rightarrow> registry" where
  "reg_of f s fd =
     (if 0 \<le> fd \<and> fd < int (length (channels s))
      then map_option (\<lambda>p. (p, f fd)) (channels s ! nat fd) else None)"

lemma reg_of_update:
  "0 \<le> fd \<Longrightarrow> fd < int (length (channels s)) \<Longrightarrow> channels s' = (channels s)[nat fd := c] \<Longrightarrow>
     (\<And>g. g \<noteq> fd \<Longrightarrow> 0 \<le> g \<Longrightarrow> nat g \<noteq> nat fd \<Longrightarrow> g < int (length (channels s)) \<Longrightarrow>
        channels s ! nat g \<noteq> None \<Longrightarrow> f' g = f g) \<Longrightarrow>
     reg_of f' s' = (reg_of f s)(fd := map_option (\<lambda>p. (p, f' fd)) c)"
proof (rule ext)
  fix g assume a: "0 \<le> fd" "fd < int (length (channels s))" "channels s' = (channels s)[nat fd := c]"
    and f: "\<And>g. g \<noteq> fd \<Longrightarrow> 0 \<le> g \<Longrightarrow> nat g \<noteq> nat fd \<Longrightarrow> g < int (length (channels s)) \<Longrightarrow>
        channels s ! nat g \<noteq> None \<Longrightarrow> f' g = f g"
  show "reg_of f' s' g = ((reg_of f s)(fd := map_option (\<lambda>p. (p, f' fd)) c)) g"
  proof (cases "g = fd \<or> g < 0 \<or> int (length (channels s)) \<le> g")
    case True
    with a show ?thesis by (auto simp: reg_of_def)
  next
    case False
    then have n: "nat g \<noteq> nat fd" using a(1) by auto
    with False a f [of g] show ?thesis
      by (cases "channels s ! nat g") (auto simp: reg_of_def)
  qed
qed

lemma reg_of_same:
  assumes "0 \<le> fd" "fd < int (length (channels s))" "channels s ! nat fd = Some p"
    and "channels s' = channels s"
    and "\<And>g. g \<noteq> fd \<Longrightarrow> 0 \<le> g \<Longrightarrow> nat g \<noteq> nat fd \<Longrightarrow> g < int (length (channels s)) \<Longrightarrow>
        channels s ! nat g \<noteq> None \<Longrightarrow> f' g = f g"
  shows "reg_of f' s' = (reg_of f s)(fd \<mapsto> (p, f' fd))"
proof -
  have "channels s' = (channels s)[nat fd := Some p]"
    using assms(3,4) by (metis list_update_id)
  from reg_of_update [OF assms(1,2) this assms(5)] show ?thesis by simp
qed

definition select_flags :: "'h select \<Rightarrow> int \<Rightarrow> bool \<times> bool" where
  "select_flags s fd = (rset s (nat fd), wset s (nat fd))"

definition select_ok :: "int \<Rightarrow> 'h select \<Rightarrow> bool" where
  "select_ok lim s \<longleftrightarrow> lim \<le> FD_SETSIZE \<and> lim \<le> int (length (channels s)) \<and> maxfd s \<le> FD_SETSIZE \<and>
     (\<forall>i < length (channels s). case channels s ! i of
        None \<Rightarrow> \<not> rset s i \<and> \<not> wset s i \<and> \<not> eset s i
      | Some p \<Rightarrow> int i < maxfd s \<and> eset s i)"

definition poll_flags :: "'h ppoll \<Rightarrow> int \<Rightarrow> bool \<times> bool" where
  "poll_flags s fd = (pin (pollfds s ! nat fd), pout (pollfds s ! nat fd))"

definition poll_ok :: "int \<Rightarrow> 'h ppoll \<Rightarrow> bool" where
  "poll_ok lim s \<longleftrightarrow> lim \<le> int (length (channels s)) \<and>
     (\<forall>i < length (channels s). channels s ! i \<noteq> None \<longrightarrow>
        i < length (pollfds s) \<and> pfd (pollfds s ! i) = int i)"

definition count_registered :: "nat option list \<Rightarrow> nat" where
  "count_registered cs = sum_list (map (\<lambda>c. if c = None then 0 else 1) cs)"

definition epoll_ok :: "(int \<Rightarrow> bool) \<Rightarrow> int \<Rightarrow> 'h epoll \<Rightarrow> bool" where
  "epoll_ok fd_ok lim s \<longleftrightarrow> lim \<le> int (length (channels s)) \<and> (\<forall>fd. 0 \<le> fd \<longrightarrow> fd < lim \<longrightarrow> fd_ok fd) \<and>
     (\<forall>fd. interest s fd \<noteq> None \<longleftrightarrow>
        0 \<le> fd \<and> fd < int (length (channels s)) \<and> channels s ! nat fd \<noteq> None) \<and>
     eventsSize s = word_of_nat (count_registered (channels s))"

lemma count_registered_update:
  "i < length cs \<Longrightarrow> cs ! i = None \<Longrightarrow> count_registered (cs[i := Some p]) = count_registered cs + 1"
  "i < length cs \<Longrightarrow> cs ! i = Some p \<Longrightarrow> count_registered (cs[i := None]) = count_registered cs - 1"
  "i < length cs \<Longrightarrow> cs ! i = Some p \<Longrightarrow> 0 < count_registered cs"
proof -
  show "i < length cs \<Longrightarrow> cs ! i = None \<Longrightarrow> count_registered (cs[i := Some p]) = count_registered cs + 1"
    by (simp add: count_registered_def map_update sum_list_update)
  show "i < length cs \<Longrightarrow> cs ! i = Some p \<Longrightarrow> count_registered (cs[i := None]) = count_registered cs - 1"
    by (simp add: count_registered_def map_update sum_list_update)
  assume "i < length cs" "cs ! i = Some p"
  then have "Some p \<in> set cs" by (metis nth_mem)
  then show "0 < count_registered cs"
    unfolding count_registered_def by (induction cs) auto
qed

lemma set_pending_ext [simp]:
  "rset (set_pending q hs s) = rset s" "wset (set_pending q hs s) = wset s"
  "eset (set_pending q hs s) = eset s" "maxfd (set_pending q hs s) = maxfd s"
  "pollfds (set_pending q hs t) = pollfds t"
  "interest (set_pending q hs u) = interest u" "eventsSize (set_pending q hs u) = eventsSize u"
  by (cases q; simp)+

definition epoll_flags :: "'h epoll \<Rightarrow> int \<Rightarrow> bool \<times> bool" where
  "epoll_flags s fd = (case interest s fd of None \<Rightarrow> (False, False) | Some b \<Rightarrow> b)"

lemma reg_of_SomeD:
  "reg_of f s fd = Some (p, b) \<Longrightarrow>
     0 \<le> fd \<and> fd < int (length (channels s)) \<and> channels s ! nat fd = Some p"
  by (auto simp: reg_of_def split: if_splits option.splits)

lemma reg_of_NoneD:
  "reg_of f s fd = None \<Longrightarrow> 0 \<le> fd \<Longrightarrow> fd < int (length (channels s)) \<Longrightarrow> channels s ! nat fd = None"
  by (simp add: reg_of_def)

lemma select_adds:
  fixes s :: "'h select" and p fd
  assumes ok: "select_ok lim s" and fd: "chan_fd (chans s p) = fd" "0 \<le> fd" "fd < lim"
    and free: "reg_of (select_flags s) s fd = None"
  shows "\<exists>s'. addChanel select_vtable p s = Inr s' \<and> select_ok lim s'
      \<and> reg_of (select_flags s') s' = (reg_of (select_flags s) s)(fd \<mapsto> (p, readable (chans s p), writable (chans s p)))"
proof -
  have len: "fd < int (length (channels s))" "fd < FD_SETSIZE"
    using ok fd by (auto simp: select_ok_def)
  have none: "channels s ! nat fd = None" using reg_of_NoneD [OF free fd(2) len(1)] .
  then have clear: "\<not> rset s (nat fd) \<and> \<not> wset s (nat fd)"
    using ok len(1) fd(2) unfolding select_ok_def by (auto dest!: spec [of _ "nat fd"])
  let ?c = "chans s p"
  obtain s' where s': "addChanel select_vtable p s = Inr s'"
    "channels s' = (channels s)[nat fd := Some p]"
    "rset s' = (if readable ?c then (rset s)(nat fd := True) else rset s)"
    "wset s' = (if writable ?c then (wset s)(nat fd := True) else wset s)"
    "eset s' = (eset s)(nat fd := True)" "maxfd s' = (if fd \<ge> maxfd s then fd + 1 else maxfd s)"
    using fd len by (auto simp: select_defs Poller_setChannel_def)
  moreover have "select_ok lim s'"
    using ok len fd s' by (auto simp: select_ok_def nth_list_update split: option.splits)
  moreover have "reg_of (select_flags s') s' = (reg_of (select_flags s) s)(fd :=
      map_option (\<lambda>p. (p, select_flags s' fd)) (Some p))"
    using fd len s' by (intro reg_of_update) (auto simp: select_flags_def)
  moreover have "select_flags s' fd = (readable ?c, writable ?c)"
    using clear s'(3,4) by (simp add: select_flags_def)
  ultimately show ?thesis
    by auto
qed

lemma select_updates:
  fixes s :: "'h select" and p fd b r w
  assumes ok: "select_ok lim s" and fd: "chan_fd (chans s p) = fd"
    and reg: "reg_of (select_flags s) s fd = Some (p, b)"
  shows "\<exists>s'. updateChanel select_vtable p r w s = Inr s' \<and> select_ok lim s'
      \<and> reg_of (select_flags s') s' = (reg_of (select_flags s) s)(fd \<mapsto> (p, r, w))"
proof -
  note r = reg_of_SomeD [OF reg]
  have max: "fd < maxfd s" "fd < FD_SETSIZE"
    using ok r unfolding select_ok_def by (auto dest!: spec [of _ "nat fd"])
  let ?u = "s\<lparr>rset := (rset s)(nat fd := r), wset := (wset s)(nat fd := w)\<rparr>"
  have "select_ok lim ?u" using ok r by (auto simp: select_ok_def split: option.splits)
  moreover have "reg_of (select_flags ?u) ?u = (reg_of (select_flags s) s)(fd \<mapsto> (p, select_flags ?u fd))"
    using r by (intro reg_of_same) (auto simp: select_flags_def)
  ultimately show ?thesis
    using fd r max by (auto simp: select_defs select_flags_def)
qed

lemma select_removes:
  fixes s :: "'h select" and p fd b
  assumes ok: "select_ok lim s" and fd: "chan_fd (chans s p) = fd"
    and reg: "reg_of (select_flags s) s fd = Some (p, b)"
  shows "\<exists>s'. removeChanel select_vtable p s = Inr s' \<and> select_ok lim s'
      \<and> reg_of (select_flags s') s' = (reg_of (select_flags s) s)(fd := None)"
proof -
  note r = reg_of_SomeD [OF reg]
  have max: "fd < maxfd s" "fd < FD_SETSIZE"
    using ok r unfolding select_ok_def by (auto dest!: spec [of _ "nat fd"])
  obtain s' where s': "removeChanel select_vtable p s = Inr s'"
    "channels s' = (channels s)[nat fd := None]" "rset s' = (rset s)(nat fd := False)"
    "wset s' = (wset s)(nat fd := False)" "eset s' = (eset s)(nat fd := False)" "maxfd s' = maxfd s"
    using fd r max by (auto simp: select_defs Poller_setChannel_def)
  moreover have "select_ok lim s'"
    using ok r s' by (auto simp: select_ok_def nth_list_update split: option.splits)
  moreover have "reg_of (select_flags s') s' = (reg_of (select_flags s) s)(fd :=
      map_option (\<lambda>p. (p, select_flags s' fd)) None)"
    using r s' by (intro reg_of_update) (auto simp: select_flags_def)
  ultimately show ?thesis
    by auto
qed

interpretation select_reg: poller_registry select_vtable lim "select_ok lim"
    "\<lambda>s. reg_of (select_flags s) s" for lim
  by unfold_locales
    (rule select_adds select_updates select_removes; assumption
      | simp_all add: select_ok_def reg_of_def select_flags_def fun_eq_iff cong: option.case_cong)+

lemma poll_adds:
  fixes s :: "'h ppoll" and p fd
  assumes ok: "poll_ok lim s" and fd: "chan_fd (chans s p) = fd" "0 \<le> fd" "fd < lim"
  shows "\<exists>s'. addChanel (poll_vtable junk) p s = Inr s' \<and> poll_ok lim s'
      \<and> reg_of (poll_flags s') s' = (reg_of (poll_flags s) s)(fd \<mapsto> (p, readable (chans s p), writable (chans s p)))"
proof -
  have len: "fd < int (length (channels s))" using ok fd by (auto simp: poll_ok_def)
  let ?c = "chans s p"
  let ?fds = "if length (pollfds s) \<le> nat fd
     then resize (nat fd * 2 + 1) pollfd_zero (pollfds s) else pollfds s"
  have fds: "nat fd < length ?fds" "\<And>i. i < length (pollfds s) \<Longrightarrow> i < length ?fds \<and> ?fds ! i = pollfds s ! i"
    by (auto simp: resize_def nth_append)
  obtain s' where s': "addChanel (poll_vtable junk) p s = Inr s'"
    "channels s' = (channels s)[nat fd := Some p]"
    "pollfds s' = ?fds[nat fd := \<lparr>pfd = fd, pin = readable ?c, pout = writable ?c, prevents = junk\<rparr>]"
    using fd len by (auto simp: poll_defs Poller_setChannel_def)
  have "poll_ok lim s'"
    unfolding poll_ok_def
  proof (intro conjI allI impI)
    show "lim \<le> int (length (channels s'))" using ok s'(2) by (simp add: poll_ok_def)
    fix i assume i: "i < length (channels s')" "channels s' ! i \<noteq> None"
    show "i < length (pollfds s')" "pfd (pollfds s' ! i) = int i"
      using i ok s' fds fd by (auto simp: poll_ok_def nth_list_update split: if_splits)
  qed
  moreover have "reg_of (poll_flags s') s' = (reg_of (poll_flags s) s)(fd :=
      map_option (\<lambda>p. (p, poll_flags s' fd)) (Some p))"
    using fd(2) len s'(2)
  proof (intro reg_of_update)
    fix g assume g: "g \<noteq> fd" "0 \<le> g" "nat g \<noteq> nat fd" "g < int (length (channels s))"
      "channels s ! nat g \<noteq> None"
    then have "nat g < length (pollfds s)" using ok by (auto simp: poll_ok_def)
    then show "poll_flags s' g = poll_flags s g" using fds s'(3) g by (simp add: poll_flags_def)
  qed
  moreover have "poll_flags s' fd = (readable ?c, writable ?c)"
    using s'(3) fds(1) by (simp add: poll_flags_def)
  ultimately show ?thesis
    using s'(1) by auto
qed

lemma poll_updates:
  fixes s :: "'h ppoll" and p fd b r w
  assumes ok: "poll_ok lim s" and fd: "chan_fd (chans s p) = fd"
    and reg: "reg_of (poll_flags s) s fd = Some (p, b)"
  shows "\<exists>s'. updateChanel (poll_vtable junk) p r w s = Inr s' \<and> poll_ok lim s'
      \<and> reg_of (poll_flags s') s' = (reg_of (poll_flags s) s)(fd \<mapsto> (p, r, w))"
proof -
  note r = reg_of_SomeD [OF reg]
  have len: "nat fd < length (pollfds s)" using ok r by (auto simp: poll_ok_def)
  let ?u = "s\<lparr>pollfds := (pollfds s)[nat fd := (pollfds s ! nat fd)\<lparr>pin := r, pout := w\<rparr>]\<rparr>"
  have "poll_ok lim ?u" using ok len by (auto simp: poll_ok_def nth_list_update)
  moreover have "reg_of (poll_flags ?u) ?u = (reg_of (poll_flags s) s)(fd \<mapsto> (p, poll_flags ?u fd))"
    using r by (intro reg_of_same) (auto simp: poll_flags_def)
  ultimately show ?thesis
    using fd r len by (auto simp: poll_defs poll_flags_def)
qed

lemma poll_removes:
  fixes s :: "'h ppoll" and p fd b
  assumes ok: "poll_ok lim s" and fd: "chan_fd (chans s p) = fd"
    and reg: "reg_of (poll_flags s) s fd = Some (p, b)"
  shows "\<exists>s'. removeChanel (poll_vtable junk) p s = Inr s' \<and> poll_ok lim s'
      \<and> reg_of (poll_flags s') s' = (reg_of (poll_flags s) s)(fd := None)"
proof -
  note r = reg_of_SomeD [OF reg]
  have len: "nat fd < length (pollfds s)" using ok r by (auto simp: poll_ok_def)
  obtain s' where s': "removeChanel (poll_vtable junk) p s = Inr s'"
    "channels s' = (channels s)[nat fd := None]"
    "pollfds s' = (pollfds s)[nat fd := (pollfds s ! nat fd)\<lparr>pfd := -1\<rparr>]"
    using fd r len by (auto simp: poll_defs Poller_setChannel_def)
  moreover have "poll_ok lim s'"
    using ok s' len r by (auto simp: poll_ok_def nth_list_update split: if_splits)
  moreover have "reg_of (poll_flags s') s' = (reg_of (poll_flags s) s)(fd :=
      map_option (\<lambda>p. (p, poll_flags s' fd)) None)"
    using r s' by (intro reg_of_update) (auto simp: poll_flags_def nth_list_update)
  ultimately show ?thesis
    by auto
qed

interpretation poll_reg: poller_registry "poll_vtable junk" lim "poll_ok lim"
    "\<lambda>s. reg_of (poll_flags s) s" for junk lim
  by unfold_locales
    (rule poll_adds poll_updates poll_removes; assumption
      | auto simp: poll_ok_def reg_of_def poll_flags_def fun_eq_iff)+

lemma epoll_adds:
  fixes s :: "'h epoll" and p fd
  assumes ok: "epoll_ok fd_ok lim s" and fd: "chan_fd (chans s p) = fd" "0 \<le> fd" "fd < lim"
    and free: "reg_of (epoll_flags s) s fd = None"
  shows "\<exists>s'. addChanel (epoll_vtable fd_ok) p s = Inr s' \<and> epoll_ok fd_ok lim s'
      \<and> reg_of (epoll_flags s') s' = (reg_of (epoll_flags s) s)(fd \<mapsto> (p, readable (chans s p), writable (chans s p)))"
proof -
  have len: "fd < int (length (channels s))" "fd_ok fd" using ok fd by (auto simp: epoll_ok_def)
  have none: "channels s ! nat fd = None" using reg_of_NoneD [OF free fd(2) len(1)] .
  then have unint: "interest s fd = None" using ok unfolding epoll_ok_def by blast
  let ?c = "chans s p"
  obtain s' where s': "addChanel (epoll_vtable fd_ok) p s = Inr s'"
    "channels s' = (channels s)[nat fd := Some p]"
    "interest s' = (interest s)(fd \<mapsto> (readable ?c, writable ?c))" "eventsSize s' = eventsSize s + 1"
    using fd len unint by (auto simp: epoll_defs Poller_setChannel_def)
  moreover have "epoll_ok fd_ok lim s'"
    using ok len fd none s'
    by (auto simp: epoll_ok_def nth_list_update count_registered_update nat_eq_iff)
  moreover have "reg_of (epoll_flags s') s' = (reg_of (epoll_flags s) s)(fd :=
      map_option (\<lambda>p. (p, epoll_flags s' fd)) (Some p))"
    using fd len s' by (intro reg_of_update) (auto simp: epoll_flags_def)
  ultimately show ?thesis
    by (auto simp: epoll_flags_def)
qed

lemma epoll_updates:
  fixes s :: "'h epoll" and p fd b r w
  assumes ok: "epoll_ok fd_ok lim s" and fd: "chan_fd (chans s p) = fd"
    and reg: "reg_of (epoll_flags s) s fd = Some (p, b)"
  shows "\<exists>s'. updateChanel (epoll_vtable fd_ok) p r w s = Inr s' \<and> epoll_ok fd_ok lim s'
      \<and> reg_of (epoll_flags s') s' = (reg_of (epoll_flags s) s)(fd \<mapsto> (p, r, w))"
proof -
  note r = reg_of_SomeD [OF reg]
  have int: "interest s fd \<noteq> None" using ok r unfolding epoll_ok_def by blast
  let ?u = "s\<lparr>interest := (interest s)(fd \<mapsto> (r, w))\<rparr>"
  have "epoll_ok fd_ok lim ?u" using ok r int by (auto simp: epoll_ok_def)
  moreover have "reg_of (epoll_flags ?u) ?u = (reg_of (epoll_flags s) s)(fd \<mapsto> (p, epoll_flags ?u fd))"
    using r by (intro reg_of_same) (auto simp: epoll_flags_def)
  ultimately show ?thesis
    using fd r int by (auto simp: epoll_defs epoll_flags_def)
qed

lemma epoll_removes:
  fixes s :: "'h epoll" and p fd b
  assumes ok: "epoll_ok fd_ok lim s" and fd: "chan_fd (chans s p) = fd"
    and reg: "reg_of (epoll_flags s) s fd = Some (p, b)"
  shows "\<exists>s'. removeChanel (epoll_vtable fd_ok) p s = Inr s' \<and> epoll_ok fd_ok lim s'
      \<and> reg_of (epoll_flags s') s' = (reg_of (epoll_flags s) s)(fd := None)"
proof -
  note r = reg_of_SomeD [OF reg]
  have int: "interest s fd \<noteq> None" using ok r unfolding epoll_ok_def by blast
  obtain s' where s': "removeChanel (epoll_vtable fd_ok) p s = Inr s'"
    "channels s' = (channels s)[nat fd := None]" "interest s' = (interest s)(fd := None)"
    "eventsSize s' = eventsSize s - 1"
    using fd r int by (auto simp: epoll_defs Poller_setChannel_def)
  moreover have "word_of_nat (count_registered (channels s) - 1) =
      (word_of_nat (count_registered (channels s)) :: 64 word) - 1"
    using count_registered_update(3) [of "nat fd" "channels s" p] r
    by (auto simp: of_nat_diff Suc_le_eq)
  then have "epoll_ok fd_ok lim s'"
    using ok r s' count_registered_update(2) [of "nat fd" "channels s" p]
    by (auto simp: epoll_ok_def nth_list_update nat_eq_iff)
  moreover have "reg_of (epoll_flags s') s' = (reg_of (epoll_flags s) s)(fd :=
      map_option (\<lambda>p. (p, epoll_flags s' fd)) None)"
    using r s' by (intro reg_of_update) (auto simp: epoll_flags_def)
  ultimately show ?thesis
    by auto
qed

interpretation epoll_reg: poller_registry "epoll_vtable fd_ok" lim "epoll_ok fd_ok lim"
    "\<lambda>s. reg_of (epoll_flags s) s" for fd_ok lim
  by unfold_locales
    (rule epoll_adds epoll_updates epoll_removes; assumption
      | auto simp: epoll_ok_def reg_of_def epoll_flags_def fun_eq_iff)+

section \<open>Dispatch\<close>

definition expected_callback :: "('h, 'x) poller_scheme \<Rightarrow> epoll_event \<Rightarrow> 'h src list" where
  "expected_callback s e =
     (case (channels s ! nat (efd e), epoll_kind e) of
        (Some p, Some k) \<Rightarrow>
          (if has_callback k (chans s p) then [Callback p k] else [])
      | _ \<Rightarrow> [])"

lemma expected_callback_plog [simp]: "expected_callback (s\<lparr>plog := l\<rparr>) = expected_callback s"
  by (rule ext) (simp add: expected_callback_def cong: option.case_cong)

lemma run_handlers_none [simp]: "pending q s = [] \<Longrightarrow> run_handlers V beh q s = Some (Inr s)"
  by (simp add: run_handlers_def)

lemma epoll_body_quiet:
  assumes "0 \<le> efd e" "efd e < int (length (channels s))"
  shows "epoll_body fd_ok (\<lambda>_ _. []) e s = Inr (s\<lparr>plog := plog s @ expected_callback s e\<rparr>)"
  using assms
  by (auto simp: epoll_body_def Poller_getChannel_def expected_callback_def Channel_handle_def
      run_src_def split: option.splits)

lemma epoll_dispatch_quiet:
  "nextTickHandlers s = [] \<Longrightarrow> \<forall>e \<in> set es. 0 \<le> efd e \<and> efd e < int (length (channels s)) \<Longrightarrow>
     epoll_dispatch fd_ok (\<lambda>_ _. []) es s =
       Some (Inr (s\<lparr>plog := plog s @ concat (map (expected_callback s) es)\<rparr>))"
proof (induction es arbitrary: s)
  case Nil
  then show ?case by simp
next
  case (Cons e es)
  then show ?case by (simp add: epoll_body_quiet)
qed

text \<open>A channel that is not registered, and that nothing registers, is out of reach.\<close>

definition unreachable :: "nat \<Rightarrow> 'h epoll \<Rightarrow> bool" where
  "unreachable p s \<longleftrightarrow> Some p \<notin> set (channels s)"

lemma set_update_member: "x \<in> set (xs[i := c]) \<Longrightarrow> x = c \<or> x \<in> set xs"
  using set_update_subset_insert [of xs i c] by auto

lemma epoll_call_unreachable:
  "do_call (epoll_vtable fd_ok) c s = Inr s' \<Longrightarrow> c \<noteq> AddChannel p \<Longrightarrow> unreachable p s \<Longrightarrow> unreachable p s'"
  unfolding unreachable_def
  by (cases c)
    (auto simp: epoll_defs bind_res_Inr_iff setChannel_Inr_iff push_handler_def
      dest!: set_update_member split: if_splits)

lemma epoll_calls_unreachable:
  "do_calls (epoll_vtable fd_ok) cs s = Inr s' \<Longrightarrow> AddChannel p \<notin> set cs \<Longrightarrow> unreachable p s \<Longrightarrow>
     unreachable p s'"
proof (induction cs arbitrary: s)
  case Nil
  then show ?case by simp
next
  case (Cons c cs)
  then obtain s1 where "do_call (epoll_vtable fd_ok) c s = Inr s1" "do_calls (epoll_vtable fd_ok) cs s1 = Inr s'"
    by (auto simp: bind_res_Inr_iff)
  with Cons epoll_call_unreachable [of fd_ok c s s1 p] show ?case by auto
qed

definition spared :: "nat \<Rightarrow> 'h epoll \<Rightarrow> 'h epoll \<Rightarrow> bool" where
  "spared p s s' \<longleftrightarrow> (\<exists>new. plog s' = plog s @ new \<and> (\<forall>k. Callback p k \<notin> set new)) \<and> unreachable p s'"

lemma spared_refl: "unreachable p s \<Longrightarrow> spared p s s"
  by (simp add: spared_def)

lemma spared_trans: "spared p r s \<Longrightarrow> spared p s t \<Longrightarrow> spared p r t"
  unfolding spared_def by fastforce

lemma run_src_spared:
  assumes "run_src (epoll_vtable fd_ok) beh x s = Inr s'" "\<forall>x l. AddChannel p \<notin> set (beh x l)"
    and "unreachable p s" "\<forall>k. x \<noteq> Callback p k"
  shows "spared p s s'"
proof -
  have "unreachable p (s\<lparr>plog := plog s @ [x]\<rparr>)" using assms(3) by (simp add: unreachable_def)
  with assms(1,2) have "unreachable p s'"
    unfolding run_src_def using epoll_calls_unreachable by blast
  moreover have "plog s' = plog s @ [x]" using epoll.run_src_frame [OF assms(1)] by blast
  ultimately show ?thesis using assms(4) by (auto simp: spared_def)
qed

lemma run_handlers_from_spared:
  "run_handlers_from V beh q i s = Some r \<Longrightarrow> V = epoll_vtable fd_ok \<Longrightarrow> r = Inr s' \<Longrightarrow>
     \<forall>x l. AddChannel p \<notin> set (beh x l) \<Longrightarrow> unreachable p s \<Longrightarrow> spared p s s'"
proof (induction rule: run_handlers_from.raw_induct [rotated, consumes 1, case_names step])
  case (step loop V beh q i s r)
  show ?case
  proof (cases "i < length (pending q s)")
    case True
    with step.hyps step.prems obtain s1 where
      s1: "run_src V beh (Handler (pending q s ! i)) s = Inr s1" "loop V beh q (i + 1) s1 = Some r"
      by (auto split: sum.splits)
    have 1: "spared p s s1" using run_src_spared [of fd_ok beh _ s s1 p] s1(1) step.prems by simp
    then have "unreachable p s1" by (simp add: spared_def)
    from step.IH [OF s1(2) step.prems(1-3) this] show ?thesis by (rule spared_trans [OF 1])
  next
    case False
    with step.hyps step.prems have "s' = set_pending q [] s" by simp
    with step.prems(4) show ?thesis by (simp add: spared_def unreachable_def)
  qed
qed

lemma run_handlers_spared:
  "run_handlers (epoll_vtable fd_ok) beh q s = Some (Inr s') \<Longrightarrow>
     \<forall>x l. AddChannel p \<notin> set (beh x l) \<Longrightarrow> unreachable p s \<Longrightarrow> spared p s s'"
  using run_handlers_from_spared [OF _ refl refl]
  by (auto simp: run_handlers_def intro: spared_refl split: if_splits)

lemma epoll_body_spared:
  assumes "epoll_body fd_ok beh e s = Inr s'" "\<forall>x l. AddChannel p \<notin> set (beh x l)" "unreachable p s"
  shows "spared p s s'"
proof -
  obtain c where c: "0 \<le> efd e" "efd e < int (length (channels s))" "c = channels s ! nat (efd e)"
    "(case c of None \<Rightarrow> Inr s
      | Some p \<Rightarrow> (case epoll_kind e of None \<Rightarrow> Inr s
          | Some k \<Rightarrow> Channel_handle (epoll_vtable fd_ok) beh k p s)) = Inr s'"
    using assms(1) by (auto simp: epoll_body_def bind_res_Inr_iff getChannel_Inr_iff)
  have "c \<in> set (channels s)" using c(1-3) by auto
  then have "c \<noteq> Some p" using assms(3) by (auto simp: unreachable_def)
  then show ?thesis
    using c(4) run_src_spared [OF _ assms(2,3)] spared_refl [OF assms(3)]
    by (auto simp: Channel_handle_def split: option.splits if_splits)
qed

lemma epoll_dispatch_spared:
  "epoll_dispatch fd_ok beh es s = Some (Inr s') \<Longrightarrow>
     \<forall>x l. AddChannel p \<notin> set (beh x l) \<Longrightarrow> unreachable p s \<Longrightarrow> spared p s s'"
proof (induction es arbitrary: s)
  case Nil
  then show ?case by (simp add: spared_refl)
next
  case (Cons e es)
  then obtain s1 s2 where s: "epoll_body fd_ok beh e s = Inr s1"
    "run_handlers (epoll_vtable fd_ok) beh NextTick s1 = Some (Inr s2)"
    "epoll_dispatch fd_ok beh es s2 = Some (Inr s')"
    by (auto simp: bind_run_Inr_iff)
  have 1: "spared p s s1" by (rule epoll_body_spared [OF s(1) Cons.prems(2,3)])
  then have 2: "spared p s1 s2"
    using run_handlers_spared [OF s(2) Cons.prems(2)] by (simp add: spared_def)
  then have "spared p s2 s'" using Cons.IH [OF s(3) Cons.prems(2)] by (simp add: spared_def)
  with 1 2 show ?case by (blast intro: spared_trans)
qed

section \<open>kqueue batches\<close>

lemma filter_takeWhile_id: "filter P (takeWhile P xs) = takeWhile P xs"
  by (induction xs) auto

lemma filter_dropWhile_drop: "filter P (dropWhile P xs) = filter P (drop 1 (dropWhile P xs))"
  by (induction xs) auto

lemma update_batches_concat: "concat (update_batches live cs) = filter (live \<circ> ident) cs"
proof (induction live cs rule: update_batches.induct)
  case (1 live)
  then show ?case by simp
next
  case (2 live c cs)
  let ?xs = "c # cs"
  let ?P = "live \<circ> ident"
  have "filter ?P ?xs = filter ?P (takeWhile ?P ?xs @ dropWhile ?P ?xs)"
    by (simp only: takeWhile_dropWhile_id)
  also have "\<dots> = filter ?P (takeWhile ?P ?xs) @ filter ?P (dropWhile ?P ?xs)"
    by (rule filter_append)
  also have "filter ?P (takeWhile ?P ?xs) = takeWhile ?P ?xs"
    by (rule filter_takeWhile_id)
  finally have "filter ?P ?xs = takeWhile ?P ?xs @ filter ?P (dropWhile ?P ?xs)" .
  moreover have "filter ?P (dropWhile ?P ?xs) = filter ?P (drop 1 (dropWhile ?P ?xs))"
    by (rule filter_dropWhile_drop)
  moreover have "concat (update_batches live ?xs) =
      takeWhile ?P ?xs @ concat (update_batches live (drop 1 (dropWhile ?P ?xs)))"
    by (simp only: update_batches.simps Let_def concat_append)
      (simp del: takeWhile.simps dropWhile.simps)
  ultimately show ?case using 2 [OF refl refl] by (simp only:)
qed

lemma update_batches_nonempty: "[] \<notin> set (update_batches live cs)"
proof (induction live cs rule: update_batches.induct)
  case (2 live c cs)
  then show ?case by (simp only: update_batches.simps Let_def) (auto split: if_splits)
qed simp

section \<open>select and descriptors at the edge\<close>

text \<open>
  Two channels at \<open>n\<close> and \<open>n + 1\<close>; the first is registered, the second only constructed, and then
  destroyed.
\<close>

definition edge_channels :: "nat \<Rightarrow> nat \<Rightarrow> channel" where
  "edge_channels n p =
     \<lparr>chan_fd = int (n + p), readable = True, writable = False, old_readable = False,
      old_writable = False, has_read = True, has_writ = True, has_erro = True\<rparr>"

definition edge_select :: "nat \<Rightarrow> 'h select" where
  "edge_select n =
     (PollerSelect_new 1024 (edge_channels n) (\<lambda>_. False) (\<lambda>_. False) (\<lambda>_. False))
       \<lparr>channels := (replicate 1024 None)[n := Some 0], rset := (\<lambda>i. i = n),
        wset := (\<lambda>_. False), eset := (\<lambda>i. i = n), maxfd := int n\<rparr>"

lemma edge_select_reached:
  assumes "0 < n" "n < 1023"
  shows "do_calls select_vtable [AddChannel 0, RemoveChannel 1]
     (PollerSelect_new 1024 (edge_channels n) (\<lambda>_. False) (\<lambda>_. False) (\<lambda>_. False)) = Inr (edge_select n)"
proof -
  have "shrink_maxfd (Suc n) (\<lambda>m. m = n) = n" using assms by simp
  moreover have "nat (int n + 1) = Suc n" "nat (1 + int n) = Suc n" by simp_all
  moreover have "(replicate 1024 None)[n := Some 0, Suc n := None] = (replicate 1024 (None :: nat option))[n := Some 0]"
  proof -
    have "(replicate 1024 (None :: nat option))[n := Some 0] ! Suc n = None" using assms by simp
    then show ?thesis by (metis list_update_id)
  qed
  ultimately show ?thesis
    using assms
    by (simp add: select_defs edge_select_def edge_channels_def PollerSelect_new_def Poller_setChannel_def
        FD_SETSIZE_def fun_upd_def)
qed

lemma edge_select_silent:
  fixes beh :: "'h behaviour"
  shows "n \<le> 1023 \<Longrightarrow> select_loop beh a fd k (edge_select n) = Some (Inr (edge_select n))"
proof (induction "n - fd" arbitrary: fd)
  case 0
  then show ?case by (simp add: select_loop.simps edge_select_def)
next
  case (Suc d)
  then have fd: "fd < n" by simp
  then have "Poller_getChannel (int fd) (edge_select n :: 'h select) = Inr None"
    using Suc.prems by (simp add: Poller_getChannel_def edge_select_def)
  then have "select_body beh a fd (edge_select n) = Inr (False, edge_select n)"
    by (simp add: select_body_def)
  moreover have "pending NextTick (edge_select n :: 'h select) = []" by (simp add: edge_select_def PollerSelect_new_def)
  moreover have "select_loop beh a (fd + 1) k (edge_select n) = Some (Inr (edge_select n))"
    using Suc.hyps(1) [of "fd + 1"] Suc.hyps(2) Suc.prems by simp
  ultimately show ?case by (simp add: select_loop.simps [of beh a fd])
qed

section \<open>Properties\<close>

lemma new_ok:
  assumes "lim \<le> FD_SETSIZE" "lim \<le> int n" "\<forall>fd. 0 \<le> fd \<longrightarrow> fd < lim \<longrightarrow> fd_ok fd"
  shows "select_ok lim (PollerSelect_new n ch (\<lambda>_. False) (\<lambda>_. False) (\<lambda>_. False))"
    and "poll_ok lim (PollerPoll_new n ch)" and "epoll_ok fd_ok lim (PollerEpoll_new n ch)"
    and "reg_of f (PollerSelect_new n ch r w e) = (\<lambda>_. None)"
    and "reg_of f (PollerPoll_new n ch) = (\<lambda>_. None)" and "reg_of f (PollerEpoll_new n ch) = (\<lambda>_. None)"
  using assms
  by (auto simp: select_ok_def poll_ok_def epoll_ok_def PollerSelect_new_def PollerPoll_new_def
      PollerEpoll_new_def reg_of_def FD_SETSIZE_def count_registered_def sum_list_replicate fun_eq_iff)

lemma chans_new [simp]:
  "chans (PollerSelect_new n ch r w e) = ch" "chans (PollerPoll_new n ch) = ch"
  "chans (PollerEpoll_new n ch) = ch"
  by (simp_all add: PollerSelect_new_def PollerPoll_new_def PollerEpoll_new_def)

text \<open>C4. The select, poll and epoll pollers implement one and the same registry: for every legal
  sequence of calls (register, update, remove, toggle the channel's two flags, queue a handler) on
  a fresh poller, all three succeed and end with exactly the channels and the two event flags per
  descriptor that the abstract map prescribes. For select this assumes the descriptor sets
  start out empty, which the constructor does not ensure, and descriptors below
  \<^verbatim>\<open>FD_SETSIZE\<close>.\<close>

theorem Pollers_implement_registry:
  assumes "spec_calls lim cs (ch, \<lambda>_. None) = Some (ch', r')"
    and "lim \<le> FD_SETSIZE" "lim \<le> int open_max" "\<forall>fd. 0 \<le> fd \<longrightarrow> fd < lim \<longrightarrow> fd_ok fd"
  shows "(\<exists>s. do_calls select_vtable cs (PollerSelect_new open_max ch (\<lambda>_. False) (\<lambda>_. False) (\<lambda>_. False)) = Inr s
        \<and> chans s = ch' \<and> reg_of (select_flags s) s = r')
    \<and> (\<exists>s. do_calls (poll_vtable junk) cs (PollerPoll_new open_max ch) = Inr s
        \<and> chans s = ch' \<and> reg_of (poll_flags s) s = r')
    \<and> (\<exists>s. do_calls (epoll_vtable fd_ok) cs (PollerEpoll_new open_max ch) = Inr s
        \<and> chans s = ch' \<and> reg_of (epoll_flags s) s = r')"
proof -
  note ok = new_ok [OF assms(2-4)]
  show ?thesis
    using select_reg.do_calls_refines [where cs = cs and a = "(ch', r')", OF ok(1)]
      poll_reg.do_calls_refines [where cs = cs and junk = junk and a = "(ch', r')", OF ok(2)]
      epoll_reg.do_calls_refines [where cs = cs and a = "(ch', r')", OF ok(3)] assms(1)
    by (intro conjI) (simp add: ok(4-6); blast)+
qed

theorem Pollers_implement_registry_witness:
  "\<exists>s. do_calls (epoll_vtable (\<lambda>_. True)) [AddChannel 0, EnableWrit 0 True, UpdateChannel 0]
     (PollerEpoll_new 16 (edge_channels 5) :: unit epoll) = Inr s
     \<and> reg_of (epoll_flags s) s = [5 \<mapsto> (0, True, True)]"
proof -
  have "spec_calls 16 [AddChannel 0, EnableWrit 0 True, UpdateChannel 0 :: unit pcall] (edge_channels 5, \<lambda>_. None) =
      Some ((edge_channels 5)(0 := enableWrit True (edge_channels 5 0)), [5 \<mapsto> (0, True, True)])"
    by (simp add: edge_channels_def enableWrit_def Let_def)
  from Pollers_implement_registry [OF this, of 16 "\<lambda>_. True"] show ?thesis
    by (auto simp: FD_SETSIZE_def)
qed

text \<open>Queued handlers run in the order they were queued and the queue is empty afterwards; the
  handlers that are queued while the pass is running run in the same pass, after the others,
  although \<^verbatim>\<open>nextLoop\<close> and \<^verbatim>\<open>nextTick\<close> are documented to run in the next one. When handlers queue
  nothing of the kind being run, the pass returns and runs exactly the handlers that were there.\<close>

theorem Poller_handlers_in_order:
  "(\<forall>s'. run_handlers (epoll_vtable fd_ok) beh q s = Some (Inr s') \<longrightarrow>
      pending q s' = [] \<and> (\<exists>more. plog s' = plog s @ map Handler (pending q s @ more)))
   \<and> ((\<forall>x l. pushed q (beh x l) = []) \<longrightarrow>
      (\<exists>r. run_handlers (epoll_vtable fd_ok) beh q s = Some r \<and>
         (\<forall>s'. r = Inr s' \<longrightarrow> plog s' = plog s @ map Handler (pending q s))))"
proof (intro conjI allI impI)
  fix s' assume run: "run_handlers (epoll_vtable fd_ok) beh q s = Some (Inr s')"
  have "\<exists>more. plog s' = plog s @ map Handler (pending q s @ more) \<and> pending q s' = []"
  proof (cases "pending q s = []")
    case True
    with run show ?thesis by simp
  next
    case False
    with run have "run_handlers_from (epoll_vtable fd_ok) beh q 0 s = Some (Inr s')"
      by (simp add: run_handlers_def)
    from epoll.run_handlers_from_fifo [OF this refl refl] show ?thesis by simp
  qed
  then show "pending q s' = []" "\<exists>more. plog s' = plog s @ map Handler (pending q s @ more)" by auto
next
  assume "\<forall>x l. pushed q (beh x l) = []"
  from epoll.run_handlers_from_quiet [OF this, of fd_ok 0 s]
  show "\<exists>r. run_handlers (epoll_vtable fd_ok) beh q s = Some r \<and>
      (\<forall>s'. r = Inr s' \<longrightarrow> plog s' = plog s @ map Handler (pending q s))"
    by (cases "pending q s = []") (simp_all add: run_handlers_def)
qed

text \<open>The witness queues a second handler from the first: both run in the pass.\<close>

theorem Poller_handlers_in_order_witness:
  "\<exists>more s'. run_handlers (epoll_vtable (\<lambda>_. True))
      (\<lambda>x _. if x = Handler (0 :: nat) then [Push NextLoop 1] else []) NextLoop
      ((PollerEpoll_new 2 (edge_channels 0))\<lparr>nextLoopHandlers := [0]\<rparr>) = Some (Inr s')
    \<and> plog s' = map Handler ([0] @ more) \<and> more = [1]"
proof -
  let ?beh = "\<lambda>x _. if x = Handler (0 :: nat) then [Push NextLoop 1] else []"
  let ?s = "(PollerEpoll_new 2 (edge_channels 0))\<lparr>nextLoopHandlers := [0 :: nat]\<rparr>"
  have "(case run_handlers (epoll_vtable (\<lambda>_. True)) ?beh NextLoop ?s of
      Some (Inr s') \<Rightarrow> plog s' = [Handler 0, Handler 1] | _ \<Rightarrow> False)" by code_simp
  then obtain s' where s': "run_handlers (epoll_vtable (\<lambda>_. True)) ?beh NextLoop ?s = Some (Inr s')"
    "plog s' = [Handler 0, Handler 1]" by (auto split: option.splits sum.splits)
  have "plog ?s = []" "pending NextLoop ?s = [0]" by (simp_all add: PollerEpoll_new_def)
  with Poller_handlers_in_order [of "\<lambda>_. True" ?beh NextLoop ?s] s' show ?thesis by auto
qed

text \<open>A handler that queues itself again with the same call keeps the pass from ever ending: the
  poller does not get to its next round, and no event is served any more.\<close>

theorem Poller_handlers_starve:
  assumes "\<forall>h l. beh (Handler h) l = [Push q h]" "pending q s \<noteq> []"
  shows "run_handlers (epoll_vtable fd_ok) beh q s = None"
proof (rule ccontr)
  assume "run_handlers (epoll_vtable fd_ok) beh q s \<noteq> None"
  then obtain r where "run_handlers_from (epoll_vtable fd_ok) beh q 0 s = Some r"
    using assms(2) by (auto simp: run_handlers_def)
  from epoll.run_handlers_from_starved [OF this refl assms(1)] assms(2) show False by simp
qed

theorem Poller_handlers_starve_witness:
  "run_handlers (epoll_vtable (\<lambda>_. True)) (\<lambda>x _. case x of Handler h \<Rightarrow> [Push NextLoop h] | _ \<Rightarrow> []) NextLoop
     ((PollerEpoll_new 2 (edge_channels 0))\<lparr>nextLoopHandlers := [()]\<rparr>) = None"
  by (rule Poller_handlers_starve) simp_all

text \<open>With callbacks that leave the poller alone, one round of epoll runs for each reported event,
  in the order of the report, at most one callback: none if the descriptor has no channel, the
  error callback for a hang-up of the peer or an error, else the read callback if there is
  input, else the write callback.\<close>

theorem PollerEpoll_dispatch_order:
  assumes "pending NextTick s = []" "pending NextLoop s = []" "pending AfterLoop s = []"
    and "\<forall>e \<in> set es. 0 \<le> efd e \<and> efd e < int (length (channels s))"
  shows "\<exists>s'. PollerEpoll_loop_once fd_ok (\<lambda>_ _. []) es s = Some (Inr s')
    \<and> plog s' = plog s @ concat (map (expected_callback s) es)"
  using assms epoll_dispatch_quiet [of s es fd_ok]
  by (simp add: PollerEpoll_loop_once_def bind_run_def)

theorem PollerEpoll_dispatch_order_witness:
  "\<exists>s'. PollerEpoll_loop_once (\<lambda>_. True) (\<lambda>_ _. [])
      [\<lparr>efd = 1, erdhup = False, eerr = False, ehup = False, ein = True, eout = True\<rparr>]
      ((PollerEpoll_new 2 (edge_channels 1) :: unit epoll)\<lparr>channels := [None, Some 0]\<rparr>) = Some (Inr s')
    \<and> plog s' = [Callback 0 ReadEvent]"
  using PollerEpoll_dispatch_order [of "(PollerEpoll_new 2 (edge_channels 1) :: unit epoll)\<lparr>channels := [None, Some 0]\<rparr>"
      "[\<lparr>efd = 1, erdhup = False, eerr = False, ehup = False, ein = True, eout = True\<rparr>]" "\<lambda>_. True"]
  by (simp add: PollerEpoll_new_def expected_callback_def epoll_kind_def edge_channels_def)



text \<open>The select poller goes blind: when a channel on descriptor \<open>n + 1\<close> is destroyed that was
  never added, just after descriptor \<open>n\<close> became the highest one registered, the destructor's
  removal sets \<^verbatim>\<open>maxfd_\<close> to \<open>n\<close> instead of \<open>n + 1\<close>. The channel on \<open>n\<close> is still registered, but no
  round of the loop ever calls it back, whatever \<^verbatim>\<open>select\<close> answers.\<close>

theorem PollerSelect_goes_blind:
  assumes "0 < n" "n < 1023"
  shows "\<exists>s. do_calls select_vtable [AddChannel 0, RemoveChannel 1]
        (PollerSelect_new 1024 (edge_channels n) (\<lambda>_. False) (\<lambda>_. False) (\<lambda>_. False)) = Inr s
    \<and> reg_of (select_flags s) s (int n) = Some (0, True, False) \<and> maxfd s = int n
    \<and> (\<forall>beh a. PollerSelect_loop_once beh a s = Some (Inr s))"
proof (intro exI conjI allI)
  show "do_calls select_vtable [AddChannel 0, RemoveChannel 1]
        (PollerSelect_new 1024 (edge_channels n) (\<lambda>_. False) (\<lambda>_. False) (\<lambda>_. False)) = Inr (edge_select n)"
    by (rule edge_select_reached [OF assms])
  show "reg_of (select_flags (edge_select n)) (edge_select n) (int n) = Some (0, True, False)"
    using assms by (simp add: reg_of_def edge_select_def select_flags_def)
  show "maxfd (edge_select n) = int n" by (simp add: edge_select_def)
  have idle: "pending q (edge_select n) = []" for q
    by (cases q) (simp_all add: edge_select_def PollerSelect_new_def)
  show "PollerSelect_loop_once beh a (edge_select n) = Some (Inr (edge_select n))" for beh a
    using assms by (simp add: PollerSelect_loop_once_def idle edge_select_silent)
qed

theorem PollerSelect_goes_blind_witness:
  "\<exists>s :: unit select. maxfd s = 5 \<and> (\<forall>beh a. PollerSelect_loop_once beh a s = Some (Inr s))"
  using PollerSelect_goes_blind [of 5] by auto

text \<open>A flush of the kqueue poller hands to the kernel exactly the pending changes whose
  descriptor has a channel, in order, in batches that are never empty. The deletions that the
  removal of a channel queues are therefore never among them: by the time of the flush the
  channel is gone.\<close>

theorem PollerKevent_flush:
  "concat (submitted (updateKevents s)) =
     concat (submitted s) @ filter (registered s \<circ> ident) (changes s)
   \<and> changes (updateKevents s) = []
   \<and> (PollerKevent_removeChanel p s = Inr s' \<longrightarrow>
        (\<exists>kept. concat (submitted (updateKevents s')) = concat (submitted s) @ kept \<and>
           set kept \<subseteq> set (changes s) \<and> (\<forall>c \<in> set kept. ident c \<noteq> chan_fd (chans s p))))"
proof (intro conjI impI)
  show "concat (submitted (updateKevents s)) =
     concat (submitted s) @ filter (registered s \<circ> ident) (changes s)"
    by (simp add: updateKevents_def update_batches_concat)
  show "changes (updateKevents s) = []" by (simp add: updateKevents_def)
  assume "PollerKevent_removeChanel p s = Inr s'"
  then have s': "submitted s' = submitted s" "\<not> registered s' (chan_fd (chans s p))"
    "changes s' = changes s @ [EV_SET (chan_fd (chans s p)) EVFILT_READ EV_DELETE,
       EV_SET (chan_fd (chans s p)) EVFILT_WRITE EV_DELETE]"
    by (auto simp: kqueue_defs setChannel_Inr_iff registered_def Poller_getChannel_def split: if_splits)
  then show "\<exists>kept. concat (submitted (updateKevents s')) = concat (submitted s) @ kept \<and>
      set kept \<subseteq> set (changes s) \<and> (\<forall>c \<in> set kept. ident c \<noteq> chan_fd (chans s p))"
    by (intro exI [of _ "filter (registered s' \<circ> ident) (changes s')"])
      (auto simp: updateKevents_def update_batches_concat EV_SET_def)
qed

theorem PollerKevent_flush_witness:
  "\<exists>s' kept. PollerKevent_removeChanel 0 ((PollerKevent_new 4 (edge_channels 1) :: unit kqueue)\<lparr>channels := [None, Some 0, None, None]\<rparr>) = Inr s'
    \<and> concat (submitted (updateKevents s')) = kept \<and> (\<forall>c \<in> set kept. ident c \<noteq> 1)"
proof -
  let ?s = "(PollerKevent_new 4 (edge_channels 1) :: unit kqueue)\<lparr>channels := [None, Some 0, None, None]\<rparr>"
  obtain s' where s': "PollerKevent_removeChanel 0 ?s = Inr s'"
    by (simp add: kqueue_defs Poller_setChannel_def edge_channels_def PollerKevent_new_def)
  have "chan_fd (chans ?s 0) = 1" "submitted ?s = []" by (simp_all add: edge_channels_def PollerKevent_new_def)
  with PollerKevent_flush [of ?s 0 s'] s' show ?thesis by auto
qed

text \<open>Removing a channel that was never added to the epoll poller, as the destructor of every channel
  does, throws.\<close>

lemma epoll_remove_unregistered_throws:
  "chan_fd (ch p) = 3 \<Longrightarrow>
     PollerEpoll_removeChanel p (PollerEpoll_new 16 ch) = Inl (Thrown ''epoll_ctl'')"
  by (simp add: PollerEpoll_removeChanel_def PollerEpoll_new_def Poller_setChannel_def)

text \<open>
  Events are matched to channels by their descriptor alone. When a callback closes a connection, and
  another one of the same round registers a new one that got the same descriptor, an event that was
  reported for the old one is taken for the new one's: here a hang-up, which ends it.
\<close>

theorem PollerEpoll_stale_event:
  fixes s :: "'h epoll"
  assumes "pending NextTick s = []" "pending NextLoop s = []" "pending AfterLoop s = []"
    and "f0 < length (channels s)" "f1 < length (channels s)" "f2 < length (channels s)" "distinct [f0, f1, f2]"
    and "channels s ! f0 = Some 0" "channels s ! f1 = Some 1" "channels s ! f2 = Some 2"
    and "chan_fd (chans s 2) = int f2" "chan_fd (chans s 3) = int f2" "interest s (int f2) \<noteq> None" "fd_ok (int f2)"
    and "has_read (chans s 0)" "has_read (chans s 1)" "has_erro (chans s 3)" "plog s = []"
    and "beh = (\<lambda>x _. if x = Callback 1 ReadEvent then [RemoveChannel 2] else if x = Callback 0 ReadEvent then [AddChannel 3] else [])"
  shows "\<exists>s'. PollerEpoll_loop_once fd_ok beh
      [\<lparr>efd = int f1, erdhup = False, eerr = False, ehup = False, ein = True, eout = False\<rparr>,
       \<lparr>efd = int f0, erdhup = False, eerr = False, ehup = False, ein = True, eout = False\<rparr>,
       \<lparr>efd = int f2, erdhup = True, eerr = False, ehup = True, ein = False, eout = False\<rparr>] s = Some (Inr s')
    \<and> plog s' = [Callback 1 ReadEvent, Callback 0 ReadEvent, Callback 3 ErroEvent]"
  using assms
  by (simp add: PollerEpoll_loop_once_def epoll_body_def Poller_getChannel_def epoll_kind_def Channel_handle_def run_src_def
      epoll_defs Poller_setChannel_def)

theorem PollerEpoll_stale_event_witness:
  "\<exists>(s :: unit epoll) s'. PollerEpoll_loop_once (\<lambda>_. True)
      (\<lambda>x _. if x = Callback 1 ReadEvent then [RemoveChannel 2] else if x = Callback 0 ReadEvent then [AddChannel 3] else [])
      [\<lparr>efd = 6, erdhup = False, eerr = False, ehup = False, ein = True, eout = False\<rparr>,
       \<lparr>efd = 5, erdhup = False, eerr = False, ehup = False, ein = True, eout = False\<rparr>,
       \<lparr>efd = 7, erdhup = True, eerr = False, ehup = True, ein = False, eout = False\<rparr>] s = Some (Inr s')
     \<and> Callback 3 ErroEvent \<in> set (plog s')"
proof -
  let ?s = "(PollerEpoll_new 8 (\<lambda>p. (edge_channels 5 p)\<lparr>chan_fd := if p = 3 then 7 else int (5 + p)\<rparr>) :: unit epoll)
      \<lparr>channels := [None, None, None, None, None, Some 0, Some 1, Some 2], interest := (\<lambda>_. Some (True, False))\<rparr>"
  let ?beh = "\<lambda>x (_ :: unit src list). if x = Callback 1 ReadEvent then [RemoveChannel 2]
      else if x = Callback 0 ReadEvent then [AddChannel 3] else []"
  have "\<exists>s'. PollerEpoll_loop_once (\<lambda>_. True) ?beh
      [\<lparr>efd = int 6, erdhup = False, eerr = False, ehup = False, ein = True, eout = False\<rparr>,
       \<lparr>efd = int 5, erdhup = False, eerr = False, ehup = False, ein = True, eout = False\<rparr>,
       \<lparr>efd = int 7, erdhup = True, eerr = False, ehup = True, ein = False, eout = False\<rparr>] ?s = Some (Inr s')
     \<and> plog s' = [Callback 1 ReadEvent, Callback 0 ReadEvent, Callback 3 ErroEvent]"
    by (rule PollerEpoll_stale_event) (simp_all add: PollerEpoll_new_def edge_channels_def)
  then show ?thesis by fastforce
qed

end
