(* ===== verification/Connections.thy ===== *)
theory Connections
  imports Buffers
begin

text \<open>
  \<^verbatim>\<open>Connection\<close> (\<^verbatim>\<open>src/src/Connection.h\<close>, \<^verbatim>\<open>Connection.cpp\<close>): the read buffer, the queue of
  write tasks, and the three event handlers. The answers of the kernel to \<^verbatim>\<open>readv\<close>, \<^verbatim>\<open>writev\<close> and
  \<^verbatim>\<open>sendfile\<close> are arguments; once the listed answers run out, further calls would block. What the
  user's callbacks do to the connection is the argument \<open>beh\<close>: a list of calls, which may depend on
  everything run before.

  The record also keeps three ghost fields that no operation reads: \<open>wire\<close>, what the kernel has
  taken, \<open>queued\<close>, everything ever handed to a send call, and \<open>promised\<close>, the handlers handed
  over with it.
\<close>

section \<open>State\<close>

text \<open>A byte on the wire comes from a buffer, or from a descriptor at an offset.\<close>

datatype item = Byte cell | FileByte nat int

record 'h io_task =
  fp :: "nat option"
  foffset :: int
  flen :: int
  tbuffer :: "buf option"
  thandler :: "'h option"

datatype 'h cev = Ran 'h | ReadCb | ErroCb

record 'h conn =
  destroyed :: bool
  read_on :: bool
  write_on :: bool
  readBuf :: buf
  writTasks :: "'h io_task list"
  has_readcb :: bool
  has_errocb :: bool
  cevents :: "'h cev list"
  wire :: "item list"
  queued :: "item list"
  promised :: "'h list"

definition Connection_new :: "bool \<Rightarrow> bool \<Rightarrow> 'h conn res" where
  "Connection_new rcb ecb =
     bind_res (Buffer_alloc 1024) (\<lambda>b.
     Inr \<lparr>destroyed = False, read_on = False, write_on = False, readBuf = b, writTasks = [],
          has_readcb = rcb, has_errocb = ecb, cevents = [], wire = [], queued = [], promised = []\<rparr>)"

text \<open>The copy constructor of a task leaves the handler behind.\<close>

definition io_task_copy :: "'h io_task \<Rightarrow> 'h io_task" where
  "io_task_copy t = t\<lparr>thandler := None\<rparr>"

definition Connection_onRead :: "bool \<Rightarrow> 'h conn \<Rightarrow> 'h conn" where
  "Connection_onRead cb c = c\<lparr>has_readcb := cb\<rparr>"

definition Connection_onErro :: "bool \<Rightarrow> 'h conn \<Rightarrow> 'h conn" where
  "Connection_onErro cb c = c\<lparr>has_errocb := cb\<rparr>"

text \<open>What a task stands for on the wire.\<close>

fun file_items :: "nat \<Rightarrow> int \<Rightarrow> nat \<Rightarrow> item list" where
  "file_items f off 0 = []"
| "file_items f off (Suc n) = FileByte f off # file_items f (off + 1) n"

definition task_items :: "'h io_task \<Rightarrow> item list" where
  "task_items t =
     (case fp t of
        Some f \<Rightarrow> file_items f (foffset t) (nat (flen t))
      | None \<Rightarrow> (case tbuffer t of None \<Rightarrow> [] | Some b \<Rightarrow> map Byte (content b)))"

section \<open>Sending\<close>

text \<open>Both event switches go through the channel, which \<^verbatim>\<open>destroy\<close> resets.\<close>

definition Connection_init1 :: "'h conn \<Rightarrow> 'h conn res" where
  "Connection_init1 c = (if destroyed c then Inl Null_deref else Inr (c\<lparr>read_on := True\<rparr>))"

definition Connection_enableRead :: "bool \<Rightarrow> 'h conn \<Rightarrow> 'h conn res" where
  "Connection_enableRead flag c =
     (if destroyed c then Inl Null_deref else Inr (c\<lparr>read_on := flag\<rparr>))"

definition Connection_enableWrit :: "bool \<Rightarrow> 'h conn \<Rightarrow> 'h conn res" where
  "Connection_enableWrit flag c =
     (if destroyed c then Inl Null_deref else Inr (c\<lparr>write_on := flag\<rparr>))"

definition Connection_destroy :: "'h conn \<Rightarrow> 'h conn" where
  "Connection_destroy c =
     (if destroyed c then c
      else c\<lparr>destroyed := True, writTasks := [], has_errocb := False, has_readcb := False\<rparr>)"

definition push_task :: "'h io_task \<Rightarrow> 'h conn \<Rightarrow> 'h conn res" where
  "push_task t c =
     Connection_enableWrit True
       (c\<lparr>writTasks := writTasks c @ [t], queued := queued c @ task_items t,
          promised := promised c @ (case thandler t of None \<Rightarrow> [] | Some h \<Rightarrow> [h])\<rparr>)"

definition buffer_task :: "buf \<Rightarrow> 'h option \<Rightarrow> 'h io_task" where
  "buffer_task b h = \<lparr>fp = None, foffset = 0, flen = 0, tbuffer = Some b, thandler = h\<rparr>"

definition Connection_send_bytes :: "cell list \<Rightarrow> int \<Rightarrow> 'h option \<Rightarrow> 'h conn \<Rightarrow> 'h conn res" where
  "Connection_send_bytes base len h c =
     bind_res (Buffer_of_bytes base len) (\<lambda>b. push_task (buffer_task b h) c)"

text \<open>
  \<^verbatim>\<open>send(Buffer &)\<close> exchanges the argument with a fresh buffer of the same capacity, the second
  component of the result; \<^verbatim>\<open>send(Buffer &&)\<close> leaves a default buffer behind.
\<close>

definition Connection_send_buffer :: "buf \<Rightarrow> 'h option \<Rightarrow> 'h conn \<Rightarrow> (buf \<times> 'h conn) res" where
  "Connection_send_buffer b h c =
     bind_res (Buffer_capacity b) (\<lambda>cap.
     bind_res (Buffer_alloc cap) (\<lambda>fresh.
     let (b1, b2) = Buffer_swap fresh b in
     bind_res (push_task (buffer_task b1 h) c) (\<lambda>c. Inr (b2, c))))"

definition Connection_send_move :: "buf \<Rightarrow> 'h option \<Rightarrow> 'h conn \<Rightarrow> (buf \<times> 'h conn) res" where
  "Connection_send_move b h c =
     (let (b1, b2) = Buffer_move_ctor b in
      bind_res (push_task (buffer_task b1 h) c) (\<lambda>c. Inr (b2, c)))"

definition Connection_send_cstr :: "string \<Rightarrow> 'h option \<Rightarrow> 'h conn \<Rightarrow> 'h conn res" where
  "Connection_send_cstr s h c =
     (let bs = takeWhile (\<lambda>x. x \<noteq> CHR 0x00) s
      in Connection_send_bytes (map Some bs) (int (length bs)) h c)"

definition Connection_send_string :: "string \<Rightarrow> 'h option \<Rightarrow> 'h conn \<Rightarrow> 'h conn res" where
  "Connection_send_string s h c =
     (if s = [] then Inr c else Connection_send_bytes (map Some s) (int (length s)) h c)"

definition Connection_sendFile :: "nat \<Rightarrow> int \<Rightarrow> int \<Rightarrow> 'h option \<Rightarrow> 'h conn \<Rightarrow> 'h conn res" where
  "Connection_sendFile f off len h c =
     push_task \<lparr>fp = Some f, foffset = off, flen = len, tbuffer = None, thandler = h\<rparr> c"

section \<open>What callbacks may do\<close>

datatype 'h ccall = SendBytes "cell list" "'h option" | SendString string "'h option"
  | SendCstr string "'h option" | SendFile nat int int "'h option"
  | SendRead "'h option" | MoveRead "'h option" | Consume int
  | EnableRead bool | EnableWrit bool | Destroy

fun do_ccall :: "'h ccall \<Rightarrow> 'h conn \<Rightarrow> 'h conn res" where
  "do_ccall (SendBytes bs h) c = Connection_send_bytes bs (int (length bs)) h c"
| "do_ccall (SendString s h) c = Connection_send_string s h c"
| "do_ccall (SendCstr s h) c = Connection_send_cstr s h c"
| "do_ccall (SendFile f off len h) c = Connection_sendFile f off len h c"
| "do_ccall (SendRead h) c =
     bind_res (Connection_send_buffer (readBuf c) h c) (\<lambda>(b, c). Inr (c\<lparr>readBuf := b\<rparr>))"
| "do_ccall (MoveRead h) c =
     bind_res (Connection_send_move (readBuf c) h c) (\<lambda>(b, c). Inr (c\<lparr>readBuf := b\<rparr>))"
| "do_ccall (Consume n) c = bind_res (Buffer_retrieve n (readBuf c)) (\<lambda>b. Inr (c\<lparr>readBuf := b\<rparr>))"
| "do_ccall (EnableRead f) c = Connection_enableRead f c"
| "do_ccall (EnableWrit f) c = Connection_enableWrit f c"
| "do_ccall Destroy c = Inr (Connection_destroy c)"

fun do_ccalls :: "'h ccall list \<Rightarrow> 'h conn \<Rightarrow> 'h conn res" where
  "do_ccalls [] c = Inr c"
| "do_ccalls (x # xs) c = bind_res (do_ccall x c) (do_ccalls xs)"

type_synonym 'h cbehaviour = "'h cev \<Rightarrow> 'h cev list \<Rightarrow> 'h ccall list"

definition run_cev :: "'h cbehaviour \<Rightarrow> 'h cev \<Rightarrow> 'h conn \<Rightarrow> 'h conn res" where
  "run_cev beh e c = do_ccalls (beh e (cevents c)) (c\<lparr>cevents := cevents c @ [e]\<rparr>)"

definition run_handler :: "'h cbehaviour \<Rightarrow> 'h option \<Rightarrow> 'h conn \<Rightarrow> 'h conn res" where
  "run_handler beh h c = (case h of None \<Rightarrow> Inr c | Some h \<Rightarrow> run_cev beh (Ran h) c)"

section \<open>Events\<close>

definition Connection_handleErroEvent :: "'h cbehaviour \<Rightarrow> 'h conn \<Rightarrow> 'h conn res" where
  "Connection_handleErroEvent beh c =
     bind_res (if has_errocb c then run_cev beh ErroCb c else Inr c) (\<lambda>c. Inr (Connection_destroy c))"

text \<open>
  \<open>Data ds\<close>: the bytes waiting in the socket; \<^verbatim>\<open>readv\<close> puts as many as fit into the free end of the
  buffer and then into the 16384 bytes of \<^verbatim>\<open>extraBuffer\<close>.
\<close>

datatype read_answer = Data "char list" | Eof | ReadAgain | ReadError

definition readv_takes :: "int \<Rightarrow> char list \<Rightarrow> cell list" where
  "readv_takes avail ds = map Some (take (nat avail + 16384) ds)"

definition fill_readBuf :: "int \<Rightarrow> int \<Rightarrow> cell list \<Rightarrow> buf \<Rightarrow> buf res" where
  "fill_readBuf w avail bs b =
     bind_res (put_storage w (take (nat avail) bs) b) (\<lambda>b.
     if int (length bs) > avail
     then bind_res (Buffer_append_n avail b) (\<lambda>b.
          Buffer_append_bytes (drop (nat avail) bs) (int (length bs) - avail) b)
     else Buffer_append_n (int (length bs)) b)"

definition Connection_handleReadEvent :: "'h cbehaviour \<Rightarrow> read_answer \<Rightarrow> 'h conn \<Rightarrow> 'h conn res" where
  "Connection_handleReadEvent beh a c =
     bind_res (Buffer_wdata (readBuf c)) (\<lambda>w.
     bind_res (Buffer_availbleSize (readBuf c)) (\<lambda>avail.
     if destroyed c then Inl Null_deref
     else case a of
       Data ds \<Rightarrow>
         if ds = [] then Connection_handleErroEvent beh c
         else bind_res (fill_readBuf w avail (readv_takes avail ds) (readBuf c)) (\<lambda>b.
              let c = c\<lparr>readBuf := b\<rparr>
              in if has_readcb c then run_cev beh ReadCb c else Inr c)
     | Eof \<Rightarrow> Connection_handleErroEvent beh c
     | ReadError \<Rightarrow> Connection_handleErroEvent beh c
     | ReadAgain \<Rightarrow> Inr c))"

text \<open>The iovecs of one \<^verbatim>\<open>writev\<close>: the buffers up to the first file.\<close>

fun gather :: "'h io_task list \<Rightarrow> item list res" where
  "gather [] = Inr []"
| "gather (t # ts) =
     (case (fp t, tbuffer t) of
        (None, Some b) \<Rightarrow>
          bind_res (Buffer_data b) (\<lambda>_. bind_res (Buffer_size b) (\<lambda>_.
          bind_res (gather ts) (\<lambda>is. Inr (map Byte (content b) @ is))))
      | _ \<Rightarrow> Inr [])"

text \<open>
  The inner loop, which accounts for the \<open>n\<close> bytes that \<^verbatim>\<open>writev\<close> took; the flag of the result is
  set when the event handler returns from inside it.
\<close>

partial_function (option) consume ::
    "'h cbehaviour \<Rightarrow> int \<Rightarrow> 'h conn \<Rightarrow> (bool \<times> 'h conn) res option" where
  [code]: "consume beh n c =
     (if n > 0 then
        (case writTasks c of
           [] \<Rightarrow> Some (Inl Empty_container)
         | t # ts \<Rightarrow>
             (case tbuffer t of
                None \<Rightarrow> Some (Inl Null_deref)
              | Some b \<Rightarrow>
                  (case Buffer_size b of
                     Inl e \<Rightarrow> Some (Inl e)
                   | Inr sz \<Rightarrow>
                       if sz \<le> n then
                         (case run_handler beh (thandler t) c of
                            Inl e \<Rightarrow> Some (Inl e)
                          | Inr c1 \<Rightarrow>
                              if thandler t \<noteq> None \<and> destroyed c1 then Some (Inr (True, c1))
                              else if writTasks c1 = [] then Some (Inl Empty_container)
                              else consume beh (n - sz) (c1\<lparr>writTasks := tl (writTasks c1)\<rparr>))
                       else
                         (case Buffer_retrieve n b of
                            Inl e \<Rightarrow> Some (Inl e)
                          | Inr b' \<Rightarrow> Some (Inr (True, c\<lparr>writTasks := t\<lparr>tbuffer := Some b'\<rparr> # ts\<rparr>))))))
      else Some (Inr (False, c)))"

text \<open>
  \<open>Room n\<close>: the kernel has room for \<open>n\<close> bytes and takes that many of what it is offered, all of it if
  it is less; the call returns how many it took.
\<close>

datatype write_answer = Room int | WouldBlock | WriteError

text \<open>
  One round of the outer loop with the kernel's answer to its system call; the flag of the result
  is set when the event handler returns.
\<close>

definition writ_round ::
    "'h cbehaviour \<Rightarrow> write_answer \<Rightarrow> 'h conn \<Rightarrow> (bool \<times> 'h conn) res option" where
  "writ_round beh a c =
     (case writTasks c of
        [] \<Rightarrow> Some (Inr (True, c))
      | t # ts \<Rightarrow>
          if destroyed c then Some (Inl Null_deref)
          else
          (case fp t of
             Some f \<Rightarrow>
               (case a of
                  WouldBlock \<Rightarrow> Some (Inr (True, c))
                | WriteError \<Rightarrow> Some (bind_res (Connection_handleErroEvent beh c) (\<lambda>c. Inr (True, c)))
                | Room r \<Rightarrow>
                    let n = min r (flen t) in
                    if n \<le> 0 then Some (bind_res (Connection_handleErroEvent beh c) (\<lambda>c. Inr (True, c)))
                    else let c = c\<lparr>wire := wire c @ file_items f (foffset t) (nat n)\<rparr> in
                      if n = flen t then
                        Some (bind_res (run_handler beh (thandler t) c) (\<lambda>c1.
                          if writTasks c1 = [] then Inl Empty_container
                          else Inr (False, c1\<lparr>writTasks := tl (writTasks c1)\<rparr>)))
                      else Some (Inr (True, c\<lparr>writTasks :=
                             t\<lparr>flen := flen t - n, foffset := foffset t + n\<rparr> # ts\<rparr>)))
           | None \<Rightarrow>
               bind_run (Some (gather (writTasks c))) (\<lambda>is.
               case a of
                  WouldBlock \<Rightarrow> Some (Inr (True, c))
                | WriteError \<Rightarrow> Some (bind_res (Connection_handleErroEvent beh c) (\<lambda>c. Inr (True, c)))
                | Room r \<Rightarrow>
                    let n = min r (int (length is)) in
                    if n \<le> 0 then Some (bind_res (Connection_handleErroEvent beh c) (\<lambda>c. Inr (True, c)))
                    else consume beh n (c\<lparr>wire := wire c @ take (nat n) is\<rparr>))))"

fun writ_loop :: "'h cbehaviour \<Rightarrow> write_answer list \<Rightarrow> 'h conn \<Rightarrow> 'h conn res option" where
  "writ_loop beh [] c = bind_run (writ_round beh WouldBlock c) (\<lambda>(_, c). Some (Inr c))"
| "writ_loop beh (a # as) c =
     bind_run (writ_round beh a c) (\<lambda>(ret, c). if ret then Some (Inr c) else writ_loop beh as c)"

text \<open>
  The \<^verbatim>\<open>DeferCaller\<close> at the top is a temporary: it runs before the loop, not when the function
  returns.
\<close>

definition Connection_handleWritEvent ::
    "'h cbehaviour \<Rightarrow> write_answer list \<Rightarrow> 'h conn \<Rightarrow> 'h conn res option" where
  "Connection_handleWritEvent beh as c =
     bind_run (Some (if destroyed c then Inr c
                     else if writTasks c = [] then Connection_enableWrit False c else Inr c))
       (writ_loop beh as)"

section \<open>Blocking calls\<close>

definition Connection_sync_read :: "read_answer \<Rightarrow> 'h conn \<Rightarrow> buf res" where
  "Connection_sync_read a c =
     bind_res (Buffer_alloc 4096) (\<lambda>ret.
     if destroyed c then Inl Null_deref
     else bind_res (Buffer_data ret) (\<lambda>d. bind_res (Buffer_capacity ret) (\<lambda>cap.
     case a of
       Data ds \<Rightarrow>
         let bs = map Some (take (nat cap) ds)
         in if bs = [] then Inr ret
            else bind_res (put_storage d bs ret) (Buffer_append_n (int (length bs)))
     | _ \<Rightarrow> Inr ret)))"

fun sync_send_loop :: "write_answer list \<Rightarrow> cell list \<Rightarrow> buf \<Rightarrow> (cell list \<times> buf) res" where
  "sync_send_loop [] out b = Inr (out, b)"
| "sync_send_loop (a # as) out b =
     (if Buffer_empty b then Inr (out, b)
      else bind_res (Buffer_data b) (\<lambda>d. bind_res (Buffer_size b) (\<lambda>n.
        case a of
          Room r \<Rightarrow>
            let k = min r n in
            if k > 0 then
              bind_res (Buffer_retrieve k b) (\<lambda>b'. sync_send_loop as (out @ take (nat k) (content b)) b')
            else Inr (out, b)
        | _ \<Rightarrow> Inr (out, b))))"

definition Connection_sync_send :: "write_answer list \<Rightarrow> buf \<Rightarrow> 'h conn \<Rightarrow> (cell list \<times> buf) res" where
  "Connection_sync_send as b c = (if destroyed c then Inl Null_deref else sync_send_loop as [] b)"

section \<open>The invariant\<close>

definition task_handlers :: "'h io_task \<Rightarrow> 'h list" where
  "task_handlers t = (case thandler t of None \<Rightarrow> [] | Some h \<Rightarrow> [h])"

definition task_ok :: "'h io_task \<Rightarrow> bool" where
  "task_ok t \<longleftrightarrow> (fp t = None \<longrightarrow> (\<exists>b. tbuffer t = Some b \<and> buf_ok b))"

fun ran_of :: "'h cev list \<Rightarrow> 'h list" where
  "ran_of [] = []"
| "ran_of (Ran h # es) = h # ran_of es"
| "ran_of (_ # es) = ran_of es"

lemma ran_of_append [simp]: "ran_of (xs @ ys) = ran_of xs @ ran_of ys"
  by (induction xs rule: ran_of.induct) auto

abbreviation items_of :: "'h io_task list \<Rightarrow> item list" where
  "items_of ts \<equiv> concat (map task_items ts)"

abbreviation handlers_of :: "'h io_task list \<Rightarrow> 'h list" where
  "handlers_of ts \<equiv> concat (map task_handlers ts)"

text \<open>
  While the connection lives, what the kernel has taken followed by what the tasks stand for is
  exactly what was handed to the send calls, and the handlers that ran followed by those of the
  tasks are the handlers handed over. After \<^verbatim>\<open>destroy\<close> both are cut off.
\<close>

definition conn_ok :: "'h conn \<Rightarrow> bool" where
  "conn_ok c \<longleftrightarrow> buf_ok (readBuf c) \<and> (\<forall>t \<in> set (writTasks c). task_ok t)
     \<and> (if destroyed c
        then writTasks c = [] \<and> (\<exists>rest. queued c = wire c @ rest)
          \<and> (\<exists>rest. promised c = ran_of (cevents c) @ rest)
        else queued c = wire c @ items_of (writTasks c)
          \<and> promised c = ran_of (cevents c) @ handlers_of (writTasks c))"

text \<open>What a list of calls does to a connection, whatever they are.\<close>

definition grew :: "'h conn \<Rightarrow> 'h conn \<Rightarrow> bool" where
  "grew c c' \<longleftrightarrow> wire c' = wire c \<and> cevents c' = cevents c \<and> (destroyed c \<longrightarrow> destroyed c')
     \<and> buf_ok (readBuf c')
     \<and> (\<exists>new q p. queued c' = queued c @ q \<and> promised c' = promised c @ p \<and>
          (if destroyed c' then writTasks c' = []
           else writTasks c' = writTasks c @ new \<and> q = items_of new \<and> p = handlers_of new
             \<and> (\<forall>t \<in> set new. task_ok t)))"

lemma grew_refl: "buf_ok (readBuf c) \<Longrightarrow> (destroyed c \<longrightarrow> writTasks c = []) \<Longrightarrow> grew c c"
  by (auto simp: grew_def)

lemma grew_trans:
  assumes "grew c d" "grew d e"
  shows "grew c e"
proof -
  obtain n1 q1 p1 where 1: "queued d = queued c @ q1" "promised d = promised c @ p1"
    "if destroyed d then writTasks d = []
     else writTasks d = writTasks c @ n1 \<and> q1 = items_of n1 \<and> p1 = handlers_of n1
       \<and> (\<forall>t \<in> set n1. task_ok t)"
    using assms(1) unfolding grew_def by blast
  obtain n2 q2 p2 where 2: "queued e = queued d @ q2" "promised e = promised d @ p2"
    "if destroyed e then writTasks e = []
     else writTasks e = writTasks d @ n2 \<and> q2 = items_of n2 \<and> p2 = handlers_of n2
       \<and> (\<forall>t \<in> set n2. task_ok t)"
    using assms(2) unfolding grew_def by blast
  have "destroyed d \<longrightarrow> destroyed e" using assms(2) by (simp add: grew_def)
  then have all: "queued e = queued c @ (q1 @ q2) \<and> promised e = promised c @ (p1 @ p2) \<and>
      (if destroyed e then writTasks e = []
       else writTasks e = writTasks c @ (n1 @ n2) \<and> q1 @ q2 = items_of (n1 @ n2)
         \<and> p1 @ p2 = handlers_of (n1 @ n2) \<and> (\<forall>t \<in> set (n1 @ n2). task_ok t))"
    using 1 2 by (auto split: if_splits)
  have "wire e = wire c \<and> cevents e = cevents c \<and> (destroyed c \<longrightarrow> destroyed e) \<and> buf_ok (readBuf e)"
    using assms by (simp add: grew_def)
  then show ?thesis
    unfolding grew_def
    by (intro conjI exI [of _ "n1 @ n2"] exI [of _ "q1 @ q2"] exI [of _ "p1 @ p2"]) (use all in auto)
qed

lemma push_task_grew:
  assumes "push_task t c = Inr c'" "task_ok t" "buf_ok (readBuf c)"
  shows "grew c c'"
proof -
  have "\<not> destroyed c" and c': "c' = c\<lparr>writTasks := writTasks c @ [t], queued := queued c @ task_items t,
      promised := promised c @ task_handlers t, write_on := True\<rparr>"
    using assms(1) by (auto simp: push_task_def Connection_enableWrit_def task_handlers_def split: if_splits)
  then show ?thesis
    unfolding grew_def using assms(2,3)
    by (auto intro!: exI [of _ "[t]"])
qed

lemma send_bytes_grew:
  assumes "Connection_send_bytes bs len h c = Inr c'" "buf_ok (readBuf c)"
  shows "grew c c'"
proof -
  obtain b where b: "Buffer_of_bytes bs len = Inr b" "push_task (buffer_task b h) c = Inr c'"
    using assms(1) by (auto simp: Connection_send_bytes_def bind_res_Inr_iff)
  have "0 \<le> len" "len \<le> int (length bs)"
    using b(1) by (auto simp: Buffer_of_bytes_def bind_res_Inr_iff new_block_def read_range_def split: if_splits)
  then have "buf_ok b" using b(1) Buffer_of_bytes_ok [of len bs] by auto
  then have "task_ok (buffer_task b h)" by (simp add: task_ok_def buffer_task_def)
  with push_task_grew [OF b(2)] assms(2) show ?thesis by blast
qed

lemma readBuf_grew:
  "grew c c1 \<Longrightarrow> c' = c1\<lparr>readBuf := b\<rparr> \<Longrightarrow> buf_ok b \<Longrightarrow> grew c c'"
  by (cases "destroyed c1") (simp_all add: grew_def)

lemma do_ccall_grew:
  assumes "do_ccall x c = Inr c'" "buf_ok (readBuf c)" "destroyed c \<longrightarrow> writTasks c = []"
  shows "grew c c'"
proof (cases x)
  case (SendBytes bs h)
  with assms send_bytes_grew show ?thesis by auto
next
  case (SendString s h)
  with assms send_bytes_grew [of "map Some s" "int (length s)" h c c'] grew_refl [of c] show ?thesis
    by (auto simp: Connection_send_string_def split: if_splits)
next
  case (SendCstr s h)
  with assms send_bytes_grew show ?thesis by (auto simp: Connection_send_cstr_def Let_def)
next
  case (SendFile f off len h)
  with assms(1) have
    "push_task \<lparr>fp = Some f, foffset = off, flen = len, tbuffer = None, thandler = h\<rparr> c = Inr c'"
    by (simp add: Connection_sendFile_def)
  from push_task_grew [OF this _ assms(2)] show ?thesis by (simp add: task_ok_def)
next
  case (SendRead h)
  with assms(1) obtain cap fresh c1 where b: "Buffer_capacity (readBuf c) = Inr cap"
    "Buffer_alloc cap = Inr fresh" "push_task (buffer_task (readBuf c) h) c = Inr c1"
    "c' = c1\<lparr>readBuf := fresh\<rparr>"
    by (auto simp: Connection_send_buffer_def Buffer_swap_def bind_res_Inr_iff)
  have "0 \<le> cap" using b(1) by (auto simp: Buffer_capacity_def bind_res_Inr_iff check_Inr_iff)
  then have "buf_ok fresh" using b(2) by (auto simp: Buffer_alloc_ok)
  then show ?thesis
    using readBuf_grew [OF push_task_grew [OF b(3) _ assms(2)] b(4)] assms(2)
    by (simp add: task_ok_def buffer_task_def)
next
  case (MoveRead h)
  with assms(1) obtain b1 b2 c1 where b: "Buffer_move_ctor (readBuf c) = (b1, b2)"
    "push_task (buffer_task b1 h) c = Inr c1" "c' = c1\<lparr>readBuf := b2\<rparr>"
    by (auto simp: Connection_send_move_def bind_res_Inr_iff split: prod.splits)
  have "b1 = readBuf c" "b2 = Buffer_default"
    using b(1) by (auto simp: Buffer_move_ctor_def Buffer_swap_def)
  then show ?thesis
    using readBuf_grew [OF push_task_grew [OF b(2) _ assms(2)] b(3)] assms(2)
    by (simp add: task_ok_def buffer_task_def)
next
  case (Consume n)
  with assms(1) obtain b where b: "Buffer_retrieve n (readBuf c) = Inr b" "c' = c\<lparr>readBuf := b\<rparr>"
    by (auto simp: bind_res_Inr_iff)
  have "0 \<le> n" using b(1) by (auto simp: Buffer_retrieve_def bind_res_Inr_iff check_Inr_iff)
  from Buffer_retrieve_ok [OF assms(2) this] b(1) have "buf_ok b" by auto
  from readBuf_grew [OF grew_refl [OF assms(2,3)] b(2) this] show ?thesis .
next
  case (EnableRead f)
  with assms grew_refl [OF assms(2,3)] show ?thesis
    by (auto simp: Connection_enableRead_def grew_def split: if_splits)
next
  case (EnableWrit f)
  with assms grew_refl [OF assms(2,3)] show ?thesis
    by (auto simp: Connection_enableWrit_def grew_def split: if_splits)
next
  case Destroy
  with assms show ?thesis by (auto simp: Connection_destroy_def grew_def)
qed

lemma grew_facts:
  "grew c c' \<Longrightarrow> buf_ok (readBuf c')" "grew c c' \<Longrightarrow> destroyed c' \<Longrightarrow> writTasks c' = []"
  by (auto simp: grew_def)

lemma do_ccalls_grew:
  "do_ccalls xs c = Inr c' \<Longrightarrow> buf_ok (readBuf c) \<Longrightarrow> (destroyed c \<longrightarrow> writTasks c = []) \<Longrightarrow> grew c c'"
proof (induction xs arbitrary: c)
  case Nil
  then show ?case by (simp add: grew_refl)
next
  case (Cons x xs)
  then obtain c1 where c1: "do_ccall x c = Inr c1" "do_ccalls xs c1 = Inr c'"
    by (auto simp: bind_res_Inr_iff)
  have 1: "grew c c1" using do_ccall_grew [OF c1(1)] Cons.prems by blast
  with Cons.IH [OF c1(2)] grew_facts show ?case by (blast intro: grew_trans)
qed

text \<open>The state while \<open>n\<close> bytes already on the wire are still to be accounted for.\<close>

fun lead :: "'h io_task list \<Rightarrow> item list" where
  "lead [] = []"
| "lead (t # ts) = (if fp t = None then task_items t @ lead ts else [])"

definition mid :: "nat \<Rightarrow> 'h conn \<Rightarrow> bool" where
  "mid n c \<longleftrightarrow> \<not> destroyed c \<and> buf_ok (readBuf c) \<and> (\<forall>t \<in> set (writTasks c). task_ok t)
     \<and> n \<le> length (lead (writTasks c))
     \<and> queued c = wire c @ drop n (items_of (writTasks c))
     \<and> promised c = ran_of (cevents c) @ handlers_of (writTasks c)"

lemma lead_length: "length (lead ts) \<le> length (items_of ts)"
  by (induction ts) auto

lemma lead_append: "n \<le> length (lead ts) \<Longrightarrow> n \<le> length (lead (ts @ us))"
proof -
  have "length (lead ts) \<le> length (lead (ts @ us))" by (induction ts) auto
  then show "n \<le> length (lead ts) \<Longrightarrow> ?thesis" by simp
qed

lemma mid_0: "mid 0 c \<Longrightarrow> conn_ok c"
  by (simp add: mid_def conn_ok_def)

lemma conn_ok_mid_0: "conn_ok c \<Longrightarrow> \<not> destroyed c \<Longrightarrow> mid 0 c"
  by (simp add: mid_def conn_ok_def)

text \<open>Running the front task's handler and dropping the task.\<close>

lemma run_handler_front:
  assumes "run_handler beh (thandler t) c = Inr c1" "writTasks c = t # ts" "\<not> destroyed c"
    "buf_ok (readBuf c)" "promised c = ran_of (cevents c) @ handlers_of (t # ts)"
    "queued c = wire c @ rest"
  shows "if destroyed c1 then conn_ok c1 \<and> writTasks c1 = []
    else \<exists>new. writTasks c1 = t # ts @ new \<and> wire c1 = wire c \<and> buf_ok (readBuf c1)
      \<and> queued c1 = queued c @ items_of new \<and> (\<forall>t \<in> set new. task_ok t)
      \<and> promised c1 = ran_of (cevents c1) @ handlers_of (ts @ new)"
proof (cases "thandler t")
  case None
  with assms show ?thesis
    by (auto simp: run_handler_def task_handlers_def intro!: exI [of _ "[]"])
next
  case (Some h)
  let ?c = "c\<lparr>cevents := cevents c @ [Ran h]\<rparr>"
  have "do_ccalls (beh (Ran h) (cevents c)) ?c = Inr c1"
    using assms(1) Some by (simp add: run_handler_def run_cev_def)
  then have g: "grew ?c c1" using do_ccalls_grew [of _ ?c c1] assms(3,4) by auto
  then obtain new q p where n: "queued c1 = queued c @ q" "promised c1 = promised c @ p"
    "if destroyed c1 then writTasks c1 = []
     else writTasks c1 = writTasks c @ new \<and> q = items_of new \<and> p = handlers_of new
       \<and> (\<forall>t \<in> set new. task_ok t)"
    and w: "wire c1 = wire c" "cevents c1 = cevents c @ [Ran h]" "buf_ok (readBuf c1)"
    by (cases "destroyed c1") (auto simp: grew_def)
  have pr: "promised c = ran_of (cevents c) @ h # handlers_of ts"
    using assms(5) Some by (simp add: task_handlers_def)
  show ?thesis
  proof (cases "destroyed c1")
    case True
    with n w pr assms(6) show ?thesis by (auto simp: conn_ok_def)
  next
    case False
    with n w pr assms(2) show ?thesis by (auto intro!: exI [of _ new])
  qed
qed

text \<open>The front task of such a state is a buffer; it is written completely, or in part.\<close>

lemma mid_front:
  assumes "mid n c" "0 < n"
  shows "\<exists>t ts b. writTasks c = t # ts \<and> fp t = None \<and> tbuffer t = Some b \<and> buf_ok b \<and> task_items t = map Byte (content b)"
proof -
  obtain t ts where ts: "writTasks c = t # ts" using assms by (cases "writTasks c") (auto simp: mid_def)
  have fp: "fp t = None" using assms ts by (auto simp: mid_def split: if_splits)
  then obtain b where "tbuffer t = Some b" "buf_ok b" using assms(1) ts by (auto simp: mid_def task_ok_def)
  with ts fp show ?thesis by (auto simp: task_items_def)
qed

lemma mid_whole:
  assumes "mid n c" "writTasks c = t # ts" "fp t = None" "length (task_items t) \<le> n" "run_handler beh (thandler t) c = Inr c1"
  shows "if destroyed c1 then conn_ok c1 else mid (n - length (task_items t)) (c1\<lparr>writTasks := tl (writTasks c1)\<rparr>)"
proof -
  have c: "\<not> destroyed c" "buf_ok (readBuf c)" "promised c = ran_of (cevents c) @ handlers_of (t # ts)"
    "queued c = wire c @ drop n (items_of (writTasks c))"
    using assms(1,2) by (simp_all add: mid_def)
  note front = run_handler_front [OF assms(5,2) c]
  show ?thesis
  proof (cases "destroyed c1")
    case True
    with front show ?thesis by simp
  next
    case False
    with front obtain new where new: "writTasks c1 = t # ts @ new" "wire c1 = wire c" "buf_ok (readBuf c1)"
      "queued c1 = queued c @ items_of new" "\<forall>t \<in> set new. task_ok t"
      "promised c1 = ran_of (cevents c1) @ handlers_of (ts @ new)" by auto
    let ?k = "n - length (task_items t)"
    have kl: "?k \<le> length (lead ts)" using assms(1-3) by (simp add: mid_def le_diff_conv add.commute)
    then have "?k \<le> length (items_of ts)" using lead_length [of ts] by simp
    then show ?thesis
      using new False assms(1,2,4) kl lead_append [OF kl, of new] by (auto simp: mid_def)
  qed
qed

lemma mid_part:
  assumes "mid n c" "writTasks c = t # ts" "fp t = None" "tbuffer t = Some b" "buf_ok b'" "content b' = drop n (content b)"
    "n \<le> length (content b)"
  shows "conn_ok (c\<lparr>writTasks := t\<lparr>tbuffer := Some b'\<rparr> # ts\<rparr>)"
  using assms by (auto simp: conn_ok_def mid_def task_ok_def task_items_def task_handlers_def drop_map)

lemma consume_ok:
  "consume beh n c = Some r \<Longrightarrow> r = Inr (ret, c') \<Longrightarrow> mid (nat n) c \<Longrightarrow> conn_ok c'"
proof (induction rule: consume.raw_induct [rotated, consumes 1, case_names step])
  case (step loop beh n c r)
  show ?case
  proof (cases "n > 0")
    case False
    with step show ?thesis using mid_0 by simp
  next
    case True
    obtain t ts b where t: "writTasks c = t # ts" "fp t = None" "tbuffer t = Some b" "buf_ok b"
      "task_items t = map Byte (content b)"
      using mid_front [OF step.prems(2)] True by auto
    have size: "Buffer_size b = Inr (int (length (content b)))" using t(4) by (simp add: Buffer_size_ok)
    show ?thesis
    proof (cases "int (length (content b)) \<le> n")
      case fits: True
      with True step.hyps step.prems(1) t size obtain c1 where
        c1: "run_handler beh (thandler t) c = Inr c1"
        and rest: "if thandler t \<noteq> None \<and> destroyed c1 then c' = c1
          else loop beh (n - int (length (content b))) (c1\<lparr>writTasks := tl (writTasks c1)\<rparr>) = Some r"
        by (auto split: sum.splits if_splits)
      have len: "length (task_items t) \<le> nat n" using fits t(5) by simp
      note whole = mid_whole [OF step.prems(2) t(1,2) len c1]
      have "thandler t = None \<Longrightarrow> c1 = c" "\<not> destroyed c"
        using c1 step.prems(2) by (simp_all add: run_handler_def mid_def)
      moreover have "nat (n - int (length (content b))) = nat n - length (task_items t)" using t(5) by (simp add: nat_diff_distrib)
      ultimately show ?thesis
        using whole rest step.IH [of beh "n - int (length (content b))" _ r] step.prems(1) by (auto split: if_splits)
    next
      case False
      with True step.hyps step.prems(1) t size obtain b' where
        b': "Buffer_retrieve n b = Inr b'" "c' = c\<lparr>writTasks := t\<lparr>tbuffer := Some b'\<rparr> # ts\<rparr>"
        by (auto split: sum.splits)
      then have "buf_ok b'" "content b' = drop (nat n) (content b)"
        using Buffer_retrieve_ok [of b n] t(4) True by auto
      with mid_part [OF step.prems(2) t(1-3)] False b'(2) show ?thesis by simp
    qed
  qed
qed

lemma grew_conn_ok:
  assumes "grew c c'" "conn_ok c"
  shows "conn_ok c'"
proof (cases "destroyed c'")
  case True
  with assms show ?thesis
    by (cases "destroyed c") (auto simp: grew_def conn_ok_def)
next
  case False
  with assms have "\<not> destroyed c" by (auto simp: grew_def)
  with False assms show ?thesis by (auto simp: grew_def conn_ok_def)
qed

lemma conn_ok_event: "conn_ok c \<Longrightarrow> (\<forall>h. e \<noteq> Ran h) \<Longrightarrow> conn_ok (c\<lparr>cevents := cevents c @ [e]\<rparr>)"
  by (cases e) (auto simp: conn_ok_def)

lemma run_cev_ok:
  assumes "run_cev beh e c = Inr c'" "conn_ok c" "\<forall>h. e \<noteq> Ran h"
  shows "conn_ok c'"
proof -
  let ?c = "c\<lparr>cevents := cevents c @ [e]\<rparr>"
  have ok: "conn_ok ?c" by (rule conn_ok_event [OF assms(2,3)])
  then have "grew ?c c'"
    using do_ccalls_grew [of _ ?c c'] assms(1) by (auto simp: run_cev_def conn_ok_def split: if_splits)
  from grew_conn_ok [OF this ok] show ?thesis .
qed

lemma conn_ok_destroy: "conn_ok c \<Longrightarrow> conn_ok (Connection_destroy c)"
  by (cases "destroyed c") (auto simp: Connection_destroy_def conn_ok_def)

lemma handleErro_ok:
  "Connection_handleErroEvent beh c = Inr c' \<Longrightarrow> conn_ok c \<Longrightarrow> conn_ok c' \<and> destroyed c'"
proof -
  assume run: "Connection_handleErroEvent beh c = Inr c'" and ok: "conn_ok c"
  then obtain d where d: "(if has_errocb c then run_cev beh ErroCb c else Inr c) = Inr d"
    "c' = Connection_destroy d"
    by (auto simp: Connection_handleErroEvent_def bind_res_Inr_iff)
  then have "conn_ok d" using run_cev_ok ok by (auto split: if_splits)
  with d(2) conn_ok_destroy [of d] show ?thesis by (simp add: Connection_destroy_def)
qed

lemma gather_lead:
  "gather ts = Inr is \<Longrightarrow> \<forall>t \<in> set ts. task_ok t \<Longrightarrow> is = lead ts"
proof (induction ts arbitrary: "is")
  case (Cons t ts)
  then show ?case
    by (auto simp: task_ok_def task_items_def bind_res_Inr_iff split: option.splits)
qed simp

lemma items_of_lead: "\<exists>rest. items_of ts = lead ts @ rest"
proof (induction ts)
  case Nil
  show ?case by simp
next
  case (Cons t ts)
  then obtain rest where "items_of ts = lead ts @ rest" by blast
  then show ?case by (cases "fp t") simp_all
qed

lemma take_lead: "n \<le> length (lead ts) \<Longrightarrow> take n (lead ts) @ drop n (items_of ts) = items_of ts"
proof -
  obtain rest where "items_of ts = lead ts @ rest" using items_of_lead by blast
  moreover have "take n (lead ts) @ drop n (lead ts) @ rest = lead ts @ rest"
    by (metis append_assoc append_take_drop_id)
  ultimately show "n \<le> length (lead ts) \<Longrightarrow> ?thesis" by simp
qed

lemma file_items_split:
  "n \<le> m \<Longrightarrow> file_items f off m = file_items f off n @ file_items f (off + int n) (m - n)"
proof (induction n arbitrary: off m)
  case (Suc n)
  then obtain k where k: "m = Suc k" "n \<le> k" by (cases m) auto
  have "off + int (Suc n) = off + 1 + int n" by simp
  with k Suc.IH [OF k(2), of "off + 1"] show ?case by (simp only: file_items.simps diff_Suc_Suc append_Cons)
qed simp

text \<open>The three ways in which a round writes: a whole file, a part of one, or buffers.\<close>

lemma whole_file_ok:
  assumes "conn_ok c" "\<not> destroyed c" "writTasks c = t # ts" "writTasks c1 \<noteq> []"
    "run_handler beh (thandler t) (c\<lparr>wire := wire c @ task_items t\<rparr>) = Inr c1"
  shows "conn_ok (c1\<lparr>writTasks := tl (writTasks c1)\<rparr>)"
proof -
  let ?c = "c\<lparr>wire := wire c @ task_items t\<rparr>"
  have c: "writTasks ?c = t # ts" "\<not> destroyed ?c" "buf_ok (readBuf ?c)"
    "promised ?c = ran_of (cevents ?c) @ handlers_of (t # ts)" "queued ?c = wire ?c @ items_of ts"
    using assms(1-3) by (simp_all add: conn_ok_def)
  note front = run_handler_front [OF assms(5) c]
  show ?thesis
  proof (cases "destroyed c1")
    case True
    with front assms(4) show ?thesis by simp
  next
    case False
    with front obtain new where "writTasks c1 = t # ts @ new" "wire c1 = wire ?c" "buf_ok (readBuf c1)"
      "queued c1 = queued ?c @ items_of new" "\<forall>t \<in> set new. task_ok t"
      "promised c1 = ran_of (cevents c1) @ handlers_of (ts @ new)" by auto
    with False c assms(1,3) show ?thesis by (auto simp: conn_ok_def)
  qed
qed

lemma part_of_file_ok:
  assumes "conn_ok c" "\<not> destroyed c" "writTasks c = t # ts" "fp t = Some f" "0 < n" "n < flen t"
  shows "conn_ok (c\<lparr>wire := wire c @ file_items f (foffset t) (nat n),
    writTasks := t\<lparr>flen := flen t - n, foffset := foffset t + n\<rparr> # ts\<rparr>)"
proof -
  have "nat n \<le> nat (flen t)" "int (nat n) = n" "nat (flen t) - nat n = nat (flen t - n)"
    using assms(5,6) by linarith+
  then have "file_items f (foffset t) (nat (flen t)) =
      file_items f (foffset t) (nat n) @ file_items f (foffset t + n) (nat (flen t - n))"
    using file_items_split [of "nat n" "nat (flen t)" f "foffset t"] by metis
  then show ?thesis
    using assms(1-4) by (auto simp: conn_ok_def task_items_def task_handlers_def task_ok_def)
qed

lemma buffers_ok:
  assumes "conn_ok c" "\<not> destroyed c" "gather (writTasks c) = Inr is" "n \<le> int (length is)"
    "consume beh n (c\<lparr>wire := wire c @ take (nat n) is\<rparr>) = Some (Inr (ret, c'))"
  shows "conn_ok c'"
proof -
  have lead: "is = lead (writTasks c)" using gather_lead [OF assms(3)] assms(1) by (simp add: conn_ok_def)
  then have le: "nat n \<le> length (lead (writTasks c))" using assms(4) by simp
  have "mid (nat n) (c\<lparr>wire := wire c @ take (nat n) is\<rparr>)"
    using assms(1,2) le take_lead [OF le] lead by (simp add: mid_def conn_ok_def)
  with consume_ok [OF assms(5) refl] show ?thesis by simp
qed

lemma writ_round_ok:
  assumes "writ_round beh a c = Some (Inr (ret, c'))" "conn_ok c"
  shows "conn_ok c'"
proof (cases "writTasks c")
  case Nil
  with assms show ?thesis by (simp add: writ_round_def)
next
  case (Cons t ts)
  have alive: "\<not> destroyed c" using Cons assms(2) by (auto simp: conn_ok_def)
  have erro: "conn_ok c'" if "bind_res (Connection_handleErroEvent beh c) (\<lambda>c. Inr (True, c)) = Inr (ret, c')"
    using that handleErro_ok [OF _ assms(2)] by (auto simp: bind_res_Inr_iff)
  show ?thesis
  proof (cases "fp t")
    case (Some f)
    have items: "task_items t = file_items f (foffset t) (nat (flen t))" using Some by (simp add: task_items_def)
    from assms Cons Some alive items show ?thesis
      by (auto simp: writ_round_def Let_def bind_res_Inr_iff min_def not_le split: write_answer.splits if_splits
          dest!: handleErro_ok [OF _ assms(2)] intro!: whole_file_ok [OF assms(2) alive Cons] part_of_file_ok [OF assms(2) alive Cons Some])
  next
    case None
    obtain "is" where g: "gather (writTasks c) = Inr is"
      using assms(1) Cons None alive by (cases "gather (writTasks c)") (auto simp: writ_round_def)
    show ?thesis
    proof (cases a)
      case (Room r)
      show ?thesis
      proof (cases "min r (int (length is)) \<le> 0")
        case True
        with assms(1) Cons None Room alive g erro show ?thesis by (simp add: writ_round_def Let_def)
      next
        case False
        with assms(1) Cons None Room alive g show ?thesis
          by (intro buffers_ok [OF assms(2) alive g, of "min r (int (length is))" beh ret]) (simp_all add: writ_round_def Let_def)
      qed
    qed (use assms Cons None alive g erro in \<open>simp_all add: writ_round_def\<close>)
  qed
qed

lemma writ_loop_ok:
  "writ_loop beh as c = Some (Inr c') \<Longrightarrow> conn_ok c \<Longrightarrow> conn_ok c'"
  by (induction "as" arbitrary: c)
    (auto simp: bind_run_Inr_iff dest!: writ_round_ok split: if_splits)

lemma conn_ok_flags [simp]:
  "conn_ok (c\<lparr>write_on := x\<rparr>) = conn_ok c" "conn_ok (c\<lparr>read_on := x\<rparr>) = conn_ok c"
  by (simp_all add: conn_ok_def)

lemma handleWritEvent_ok:
  assumes "Connection_handleWritEvent beh as c = Some (Inr c')" "conn_ok c"
  shows "conn_ok c'"
  using assms
  by (auto simp: Connection_handleWritEvent_def bind_run_Inr_iff Connection_enableWrit_def
      dest!: writ_loop_ok split: if_splits)

text \<open>A read appends the bytes of both iovecs, whichever of them they end up in.\<close>

lemma fill_readBuf_ok:
  assumes "buf_ok b" "bufptr b \<noteq> None" "bs \<noteq> []"
  shows "\<exists>b'. fill_readBuf (rightIndex b) (capacity b - rightIndex b) bs b = Inr b' \<and> buf_ok b'
    \<and> content b' = content b @ bs"
  using assms(1)
proof (cases rule: buf_ok_cases)
  case null
  with assms(2) show ?thesis by simp
next
  case (block xs l r)
  define k where "k = min (length bs) (length xs - r)"
  let ?ys = "take r xs @ take k bs @ drop (r + k) xs"
  have k: "r + k \<le> length xs" "k \<le> length bs" using block by (auto simp: k_def)
  have tk: "take (nat (int (length xs) - int r)) bs = take k bs"
    using block by (auto simp: k_def min_def)
  have put: "put_storage (int r) (take k bs) b = Inr (buf_of ?ys l r)"
    using put_storage_buf_of [of r "take k bs" xs l r] block k by (simp add: min_absorb2)
  have app: "\<exists>b'. Buffer_append_n (int k) (buf_of ?ys l r) = Inr b' \<and> buf_ok b' \<and>
      content b' = take (r - l) (drop l xs) @ take k bs"
    using Buffer_append_n_ok [of "buf_of ?ys l r" "int k"] block k
    by (simp add: min_absorb2 take_drop)
  show ?thesis
  proof (cases "int (length bs) > capacity b - rightIndex b")
    case True
    then have keq: "int k = int (length xs) - int r" "k = length xs - r" using block by (auto simp: k_def)
    obtain b1 where b1: "Buffer_append_n (int k) (buf_of ?ys l r) = Inr b1" "buf_ok b1"
      "content b1 = take (r - l) (drop l xs) @ take k bs" using app by blast
    have "0 < int (length bs) - int k" using True block keq by simp
    then obtain b2 where "Buffer_append_bytes (drop k bs) (int (length bs) - int k) b1 = Inr b2" "buf_ok b2"
      "content b2 = content b1 @ drop k bs"
      using Buffer_append_bytes_ok [OF b1(2), of "int (length bs) - int k" "drop k bs"] k
      by (auto simp: nat_int_diff)
    with b1 put True block keq tk show ?thesis
      by (simp add: fill_readBuf_def)
  next
    case False
    then have "k = length bs" using block by (auto simp: k_def)
    with app put False block tk show ?thesis by (auto simp: fill_readBuf_def)
  qed
qed

lemma wdata_Inr: "Buffer_wdata b = Inr w \<Longrightarrow> w = rightIndex b \<and> bufptr b \<noteq> None"
  by (auto simp: Buffer_wdata_def bind_res_Inr_iff)

lemma avail_Inr: "Buffer_availbleSize b = Inr n \<Longrightarrow> n = capacity b - rightIndex b"
  by (auto simp: Buffer_availbleSize_def bind_res_Inr_iff)

lemma handleRead_ok:
  assumes "Connection_handleReadEvent beh a c = Inr c'" "conn_ok c"
  shows "conn_ok c'"
proof -
  obtain w n where w: "Buffer_wdata (readBuf c) = Inr w" "Buffer_availbleSize (readBuf c) = Inr n"
    using assms(1) by (auto simp: Connection_handleReadEvent_def bind_res_Inr_iff)
  then have wn: "w = rightIndex (readBuf c)" "bufptr (readBuf c) \<noteq> None"
    "n = capacity (readBuf c) - rightIndex (readBuf c)"
    using wdata_Inr avail_Inr by auto
  have ok: "buf_ok (readBuf c)" using assms(2) by (simp add: conn_ok_def)
  show ?thesis
  proof (cases "\<exists>ds. a = Data ds \<and> ds \<noteq> []")
    case False
    with assms w handleErro_ok [of beh c] show ?thesis
      by (cases a) (auto simp: Connection_handleReadEvent_def split: if_splits)
  next
    case True
    then obtain ds where ds: "a = Data ds" "ds \<noteq> []" by blast
    then have "readv_takes n ds \<noteq> []" by (simp add: readv_takes_def)
    then obtain b where b: "fill_readBuf w n (readv_takes n ds) (readBuf c) = Inr b" "buf_ok b"
      using fill_readBuf_ok [OF ok wn(2)] wn by blast
    have ok': "conn_ok (c\<lparr>readBuf := b\<rparr>)" using assms(2) b by (simp add: conn_ok_def)
    with assms(1) w b ds run_cev_ok [of beh ReadCb "c\<lparr>readBuf := b\<rparr>" c'] show ?thesis
      by (auto simp: Connection_handleReadEvent_def Let_def split: if_splits)
  qed
qed

lemma conn_ok_new: "Connection_new r e = Inr (c :: 'h conn) \<Longrightarrow> conn_ok c"
  by (auto simp: Connection_new_def Buffer_alloc_ok conn_ok_def bind_res_Inr_iff)

lemma do_ccalls_ok: "do_ccalls xs c = Inr c' \<Longrightarrow> conn_ok c \<Longrightarrow> conn_ok c'"
proof -
  assume run: "do_ccalls xs c = Inr c'" and ok: "conn_ok c"
  then have "grew c c'" using do_ccalls_grew [OF run] by (auto simp: conn_ok_def split: if_splits)
  from grew_conn_ok [OF this ok] show ?thesis .
qed

section \<open>Reachable connections\<close>

text \<open>
  A connection starts fresh; then, in any order, the owner makes calls on it and its channel
  reports events, with whatever the kernel answers and whatever the callbacks do.
\<close>

inductive conn_reach :: "'h conn \<Rightarrow> bool" where
  New: "Connection_new r e = Inr c \<Longrightarrow> conn_reach c"
| Init: "conn_reach c \<Longrightarrow> Connection_init1 c = Inr c' \<Longrightarrow> conn_reach c'"
| Calls: "conn_reach c \<Longrightarrow> do_ccalls xs c = Inr c' \<Longrightarrow> conn_reach c'"
| Read: "conn_reach c \<Longrightarrow> Connection_handleReadEvent beh a c = Inr c' \<Longrightarrow> conn_reach c'"
| Writ: "conn_reach c \<Longrightarrow> Connection_handleWritEvent beh as c = Some (Inr c') \<Longrightarrow> conn_reach c'"
| OnRead: "conn_reach c \<Longrightarrow> conn_reach (Connection_onRead cb c)"
| OnErro: "conn_reach c \<Longrightarrow> conn_reach (Connection_onErro cb c)"
| Erro: "conn_reach c \<Longrightarrow> Connection_handleErroEvent beh c = Inr c' \<Longrightarrow> conn_reach c'"

lemma conn_reach_ok: "conn_reach c \<Longrightarrow> conn_ok c"
proof (induction rule: conn_reach.induct)
  case (Init c c')
  then show ?case by (auto simp: Connection_init1_def split: if_splits)
next
  case (OnRead c cb)
  then show ?case by (simp add: Connection_onRead_def conn_ok_def)
next
  case (OnErro c cb)
  then show ?case by (simp add: Connection_onErro_def conn_ok_def)
qed (auto dest: conn_ok_new do_ccalls_ok handleRead_ok handleWritEvent_ok handleErro_ok)

section \<open>Handlers that leave the connection alone\<close>

definition quiet :: "'h cbehaviour \<Rightarrow> bool" where
  "quiet beh \<longleftrightarrow> (\<forall>e es. beh e es = [])"

lemma quiet_handler:
  "quiet beh \<Longrightarrow> run_handler beh (thandler t) c = Inr (c\<lparr>cevents := cevents c @ map Ran (task_handlers t)\<rparr>)"
  by (cases "thandler t") (simp_all add: run_handler_def run_cev_def quiet_def task_handlers_def)

definition buffer_ready :: "'h io_task \<Rightarrow> bool" where
  "buffer_ready t \<longleftrightarrow> fp t = None \<and> (\<exists>b. tbuffer t = Some b \<and> buf_ok b \<and> content b \<noteq> [])"

definition task_ready :: "'h io_task \<Rightarrow> bool" where
  "task_ready t \<longleftrightarrow> (case fp t of None \<Rightarrow> buffer_ready t | Some f \<Rightarrow> 0 < flen t)"

lemma length_file_items [simp]: "length (file_items f off n) = n"
  by (induction n arbitrary: off) simp_all

lemma consume_all:
  assumes "quiet beh" "\<forall>t \<in> set us. buffer_ready t" "\<not> destroyed c" "writTasks c = us @ vs"
  shows "consume beh (int (length (items_of us))) c =
    Some (Inr (False, c\<lparr>writTasks := vs, cevents := cevents c @ map Ran (handlers_of us)\<rparr>))"
  using assms(2-4)
proof (induction us arbitrary: c)
  case Nil
  then show ?case by (subst consume.simps) simp
next
  case (Cons t us)
  then obtain b where b: "fp t = None" "tbuffer t = Some b" "buf_ok b" "content b \<noteq> []"
    by (auto simp: buffer_ready_def)
  let ?c1 = "c\<lparr>cevents := cevents c @ map Ran (task_handlers t)\<rparr>"
  have items: "length (task_items t) = length (content b)" using b by (simp add: task_items_def)
  have IH: "consume beh (int (length (items_of us))) (?c1\<lparr>writTasks := us @ vs\<rparr>) =
      Some (Inr (False, c\<lparr>writTasks := vs, cevents := cevents c @ map Ran (handlers_of (t # us))\<rparr>))"
    using Cons.IH [of "?c1\<lparr>writTasks := us @ vs\<rparr>"] Cons.prems by simp
  have "0 < int (length (content b)) + int (length (items_of us))"
    using b(4) by (intro add_pos_nonneg) simp_all
  then show ?case
    using IH Cons.prems items b
    by (subst consume.simps) (simp add: Buffer_size_ok quiet_handler [OF assms(1)])
qed

lemma gather_ready:
  "\<forall>t \<in> set us. buffer_ready t \<Longrightarrow> vs = [] \<or> fp (hd vs) \<noteq> None \<Longrightarrow>
     gather (us @ vs) = Inr (items_of us)"
proof (induction us)
  case Nil
  then show ?case by (cases vs) (auto split: option.splits)
next
  case (Cons t us)
  then show ?case
    by (auto simp: buffer_ready_def task_items_def Buffer_size_ok Buffer_data_ok)
qed

lemma writ_round_all:
  assumes "quiet beh" "\<forall>t \<in> set (writTasks c). task_ready t" "\<not> destroyed c" "writTasks c = t # ts"
    "int (length (items_of (writTasks c))) \<le> r"
  shows "\<exists>us vs. writTasks c = us @ vs \<and> us \<noteq> [] \<and>
    writ_round beh (Room r) c = Some (Inr (False, c\<lparr>writTasks := vs,
      wire := wire c @ items_of us, cevents := cevents c @ map Ran (handlers_of us)\<rparr>))"
proof (cases "fp t")
  case (Some f)
  then have "0 < flen t" "task_items t = file_items f (foffset t) (nat (flen t))"
    using assms(2,4) by (auto simp: task_ready_def task_items_def)
  moreover from this have "min r (flen t) = flen t" using assms(4,5) by simp
  ultimately show ?thesis
    using assms(3,4) Some
    by (intro exI [of _ "[t]"] exI [of _ ts]) (simp add: writ_round_def quiet_handler [OF assms(1)])
next
  case None
  let ?us = "takeWhile (\<lambda>t. fp t = None) (writTasks c)"
  let ?vs = "dropWhile (\<lambda>t. fp t = None) (writTasks c)"
  have split: "writTasks c = ?us @ ?vs" by simp
  have ready: "\<forall>t \<in> set ?us. buffer_ready t"
    using assms(2) by (auto simp: task_ready_def dest!: set_takeWhileD)
  have g: "gather (writTasks c) = Inr (items_of ?us)"
    using gather_ready [OF ready, of ?vs] hd_dropWhile [of "\<lambda>t. fp t = None" "writTasks c"]
    by (cases "?vs = []") (simp_all add: takeWhile_eq_all_conv [THEN iffD2])
  have t: "t \<in> set ?us" using assms(4) None by simp
  then have "buffer_ready t" using ready by blast
  then have "task_items t \<noteq> []" by (auto simp: buffer_ready_def task_items_def)
  define sent where "sent = items_of ?us"
  have nonempty: "sent \<noteq> []" using \<open>task_items t \<noteq> []\<close> t unfolding sent_def by auto
  have "length (items_of (writTasks c)) = length sent + length (items_of ?vs)"
    unfolding sent_def by (metis concat_append length_append map_append split)
  then have min: "min r (int (length sent)) = int (length sent)"
    using assms(5) by simp
  let ?c = "c\<lparr>wire := wire c @ sent\<rparr>"
  have "writ_round beh (Room r) c = consume beh (int (length sent)) ?c"
    using assms(3,4) None g [folded sent_def] min nonempty by (simp add: writ_round_def Let_def)
  also have "\<dots> = Some (Inr (False, ?c\<lparr>writTasks := ?vs,
      cevents := cevents ?c @ map Ran (handlers_of ?us)\<rparr>))"
    unfolding sent_def by (rule consume_all [OF assms(1) ready]) (use assms(3) in simp_all)
  finally show ?thesis
    using split t unfolding sent_def by (intro exI [of _ ?us] exI [of _ ?vs]) auto
qed

lemma writ_loop_all:
  assumes "quiet beh"
  shows "\<forall>t \<in> set (writTasks c). task_ready t \<Longrightarrow> \<not> destroyed c \<Longrightarrow>
     int (length (items_of (writTasks c))) \<le> r \<Longrightarrow> length (writTasks c) \<le> k \<Longrightarrow>
     writ_loop beh (replicate k (Room r)) c = Some (Inr (c\<lparr>writTasks := [],
       wire := wire c @ items_of (writTasks c),
       cevents := cevents c @ map Ran (handlers_of (writTasks c))\<rparr>))"
proof (induction k arbitrary: c)
  case 0
  then show ?case by (simp add: writ_round_def)
next
  case (Suc k)
  show ?case
  proof (cases "writTasks c")
    case Nil
    then show ?thesis by (simp add: writ_round_def)
  next
    case (Cons t ts)
    obtain us vs where uv: "writTasks c = us @ vs" "us \<noteq> []"
      "writ_round beh (Room r) c = Some (Inr (False, c\<lparr>writTasks := vs,
        wire := wire c @ items_of us, cevents := cevents c @ map Ran (handlers_of us)\<rparr>))"
      using writ_round_all [OF assms Suc.prems(1,2) Cons Suc.prems(3)] by (elim exE conjE)
    let ?c = "c\<lparr>writTasks := vs, wire := wire c @ items_of us,
      cevents := cevents c @ map Ran (handlers_of us)\<rparr>"
    have "length vs \<le> k" using uv(1,2) Suc.prems(4) by (cases us) auto
    then have "writ_loop beh (replicate k (Room r)) ?c = Some (Inr (?c\<lparr>writTasks := [],
       wire := wire ?c @ items_of (writTasks ?c),
       cevents := cevents ?c @ map Ran (handlers_of (writTasks ?c))\<rparr>))"
      using Suc.prems uv(1) by (intro Suc.IH) auto
    then show ?thesis using uv(1,3) by simp
  qed
qed

section \<open>Properties\<close>

text \<open>A connection with a short message in its queue, for the witnesses.\<close>

definition nothing :: "nat cbehaviour" where
  "nothing = (\<lambda>_ _. [])"

definition hello :: "nat conn" where
  "hello = \<lparr>destroyed = False, read_on = True, write_on = True, readBuf = buf_of [None, None] 0 0,
     writTasks = [buffer_task (buf_of (map Some ''hello'') 0 5) (Some 7)], has_readcb = True,
     has_errocb = True, cevents = [], wire = [], queued = map Byte (map Some ''hello''), promised = [7]\<rparr>"

lemma quiet_nothing: "quiet nothing"
  by (simp add: quiet_def nothing_def)

lemma hello_ready:
  "\<not> destroyed hello" "\<forall>t \<in> set (writTasks hello). task_ready t"
  "items_of (writTasks hello) = map Byte (map Some ''hello'')" "conn_ok hello"
  by (auto simp: hello_def task_ready_def buffer_ready_def buffer_task_def task_items_def conn_ok_def
      task_ok_def task_handlers_def)

text \<open>C5. The stream of a connection. In every state that a connection can reach, while it lives,
  the bytes the kernel has taken followed by what is still queued are exactly the bytes handed to
  the send calls, in order, and the completion handlers that ran followed by those still queued are
  exactly the handlers handed over; after \<^verbatim>\<open>destroy\<close> the bytes and the handlers are prefixes.\<close>

theorem Connection_stream:
  assumes "conn_reach c"
  shows "if destroyed c
    then writTasks c = [] \<and> take (length (wire c)) (queued c) = wire c
      \<and> take (length (ran_of (cevents c))) (promised c) = ran_of (cevents c)
    else queued c = wire c @ concat (map task_items (writTasks c))
      \<and> promised c = ran_of (cevents c) @ concat (map task_handlers (writTasks c))"
  using conn_reach_ok [OF assms] by (auto simp: conn_ok_def)

definition sent_hello :: "nat conn res option" where
  "sent_hello =
     bind_run (Some (bind_res (Connection_new True True) (\<lambda>c.
       do_ccalls [SendString ''hello'' (Some 7), SendString ''bye'' None] c)))
       (Connection_handleWritEvent nothing [Room 6])"

lemma sent_hello_reach: "sent_hello = Some (Inr c) \<Longrightarrow> conn_reach c"
  by (auto simp: sent_hello_def bind_run_Inr_iff bind_res_Inr_iff
      simp del: do_ccalls.simps intro: conn_reach.Writ [OF conn_reach.Calls [OF conn_reach.New]])

lemma Connection_stream_witness:
  "\<exists>c. sent_hello = Some (Inr c) \<and> \<not> destroyed c
    \<and> queued c = wire c @ concat (map task_items (writTasks c))"
proof -
  have "case sent_hello of Some (Inr c) \<Rightarrow> \<not> destroyed c \<and> wire c = map (Byte \<circ> Some) ''hellob'' | _ \<Rightarrow> False"
    by code_simp
  then obtain c where c: "sent_hello = Some (Inr c)" "\<not> destroyed c"
    by (auto split: option.splits sum.splits)
  with Connection_stream [OF sent_hello_reach [OF c(1)]] show ?thesis by auto
qed



text \<open>Reading. A read event on a live connection appends to the read buffer exactly the bytes
  that \<^verbatim>\<open>readv\<close> delivered, in both iovecs, and then calls the read callback once; the end of the
  stream and an error call the error callback and destroy the connection. A connection whose read
  buffer was given away with \<^verbatim>\<open>send(std::move(buffer))\<close> fails the assertion in \<^verbatim>\<open>wdata\<close>.\<close>

theorem Connection_read_event:
  assumes "conn_ok c" "\<not> destroyed c"
  shows "if bufptr (readBuf c) = None
    then Connection_handleReadEvent beh a c = Inl Assertion
    else case a of
      Data ds \<Rightarrow> ds = [] \<or> (\<exists>b. buf_ok b
        \<and> content b = content (readBuf c)
            @ map Some (take (nat (capacity (readBuf c) - rightIndex (readBuf c)) + 16384) ds)
        \<and> Connection_handleReadEvent beh a c =
            (if has_readcb c then run_cev beh ReadCb (c\<lparr>readBuf := b\<rparr>) else Inr (c\<lparr>readBuf := b\<rparr>)))
    | ReadAgain \<Rightarrow> Connection_handleReadEvent beh a c = Inr c
    | _ \<Rightarrow> Connection_handleReadEvent beh a c = Connection_handleErroEvent beh c"
proof (cases "bufptr (readBuf c) = None")
  case True
  then show ?thesis by (simp add: Connection_handleReadEvent_def Buffer_wdata_def)
next
  case False
  have ok: "buf_ok (readBuf c)" using assms(1) by (simp add: conn_ok_def)
  let ?n = "capacity (readBuf c) - rightIndex (readBuf c)"
  have w: "Buffer_wdata (readBuf c) = Inr (rightIndex (readBuf c))"
    "Buffer_availbleSize (readBuf c) = Inr ?n"
    using False ok by (simp_all add: Buffer_wdata_def Buffer_availbleSize_def buf_ok_def)
  show ?thesis
  proof (cases a)
    case (Data ds)
    show ?thesis
    proof (cases "ds = []")
      case nonempty: False
      then have "readv_takes ?n ds \<noteq> []" by (simp add: readv_takes_def)
      from fill_readBuf_ok [OF ok False this] obtain b where b:
        "fill_readBuf (rightIndex (readBuf c)) ?n (readv_takes ?n ds) (readBuf c) = Inr b" "buf_ok b"
        "content b = content (readBuf c) @ readv_takes ?n ds" by (elim exE conjE)
      then show ?thesis
        using False w assms(2) Data nonempty
        by (auto simp: Connection_handleReadEvent_def readv_takes_def Let_def intro!: exI [of _ b])
    qed (simp add: Data False)
  qed (use False w assms(2) in \<open>simp_all add: Connection_handleReadEvent_def del: not_None_eq\<close>)
qed

lemma Connection_read_event_witness:
  "\<exists>b. content b = map Some ''abc''
     \<and> Connection_handleReadEvent nothing (Data ''abc'') hello = run_cev nothing ReadCb (hello\<lparr>readBuf := b\<rparr>)"
  using Connection_read_event [of hello nothing "Data ''abc''"] hello_ready
  by (auto simp: hello_def)

lemma gather_empty_buffers:
  "\<forall>t \<in> set (takeWhile (\<lambda>t. fp t = None) us).
     \<exists>b. tbuffer t = Some b \<and> bufptr b \<noteq> None \<and> leftIndex b = 0 \<and> rightIndex b = 0 \<Longrightarrow>
   gather us = Inr []"
  by (induction us)
    (auto simp: Buffer_data_def Buffer_size_def content_def split: option.splits if_splits)

text \<open>C28. Error paths of the write event. A queue whose buffers up to the first file are all empty
  makes \<^verbatim>\<open>writev\<close> return 0, which is handled as an error: the error callback runs and the
  connection is destroyed although nothing is wrong with the socket. A completion handler of
  \<^verbatim>\<open>sendFile\<close> that destroys the connection leaves \<^verbatim>\<open>pop_front\<close> on an empty deque. Every send on a
  destroyed connection uses the channel that \<^verbatim>\<open>destroy\<close> reset.\<close>

theorem Connection_write_errors:
  assumes "\<not> destroyed c" "writTasks c = t # ts"
  shows "(fp t = None \<and> (\<forall>t \<in> set (takeWhile (\<lambda>t. fp t = None) (writTasks c)).
        \<exists>b. tbuffer t = Some b \<and> bufptr b \<noteq> None \<and> leftIndex b = 0 \<and> rightIndex b = 0) \<longrightarrow>
      Connection_handleWritEvent beh (Room r # as) c = Some (Connection_handleErroEvent beh c))
    \<and> (fp t = Some f \<and> thandler t = Some h \<and> 0 < flen t \<and> flen t \<le> r
        \<and> beh (Ran h) (cevents c) = [Destroy] \<longrightarrow>
      Connection_handleWritEvent beh (Room r # as) c = Some (Inl Empty_container))
    \<and> Connection_sendFile f off len g (Connection_destroy c) = Inl Null_deref"
proof (intro conjI impI; (elim conjE)?)
  have run: "Connection_handleWritEvent beh (Room r # as) c = writ_loop beh (Room r # as) c"
    using assms by (simp add: Connection_handleWritEvent_def)
  show "Connection_handleWritEvent beh (Room r # as) c = Some (Connection_handleErroEvent beh c)"
    if "fp t = None" and e: "\<forall>t \<in> set (takeWhile (\<lambda>t. fp t = None) (writTasks c)).
        \<exists>b. tbuffer t = Some b \<and> bufptr b \<noteq> None \<and> leftIndex b = 0 \<and> rightIndex b = 0"
    using gather_empty_buffers [OF e] run assms that(1)
    by (cases "Connection_handleErroEvent beh c") (simp_all add: writ_round_def Let_def)
  show "Connection_handleWritEvent beh (Room r # as) c = Some (Inl Empty_container)"
    if "fp t = Some f" "thandler t = Some h" "0 < flen t" "flen t \<le> r" "beh (Ran h) (cevents c) = [Destroy]"
    using run assms that
    by (simp add: writ_round_def Let_def min_absorb2 run_handler_def run_cev_def Connection_destroy_def)
  show "Connection_sendFile f off len g (Connection_destroy c) = Inl Null_deref"
    using assms(1) by (simp add: Connection_sendFile_def push_task_def Connection_enableWrit_def
        Connection_destroy_def)
qed

lemma Connection_write_errors_witness:
  "Connection_handleWritEvent (\<lambda>_ _. [Destroy]) [Room 9]
     (hello\<lparr>writTasks := [\<lparr>fp = Some 3, foffset = 0, flen = 4, tbuffer = None, thandler = Some 1\<rparr>]\<rparr>)
     = Some (Inl Empty_container)"
  using Connection_write_errors [of "hello\<lparr>writTasks :=
      [\<lparr>fp = Some 3, foffset = 0, flen = 4, tbuffer = None, thandler = Some 1\<rparr>]\<rparr>" _ "[]"
      "\<lambda>_ _. [Destroy]" 9 "[]" 3 1 0 0 None]
  by (simp add: hello_def)

end
