(* ===== verification/Numbers.thy ===== *)
theory Numbers
  imports Prelude
begin

text \<open>
  C strings and decimal text: \<^verbatim>\<open>std::to_string\<close> and \<^verbatim>\<open>std::stoi\<close>, which the HTTP code, \<^verbatim>\<open>Endpoint\<close> and the
  examples rely on.
\<close>

section \<open>C strings\<close>

text \<open>What a function that takes a \<^verbatim>\<open>const char *\<close> sees of an array: the characters before the first NUL.\<close>

definition c_string :: "string \<Rightarrow> string" where
  "c_string s = takeWhile (\<lambda>c. c \<noteq> CHR 0x00) s"

section \<open>Decimal numbers\<close>

definition digit_char :: "nat \<Rightarrow> char" where
  "digit_char n = char_of (48 + n)"

definition is_digit :: "char \<Rightarrow> bool" where
  "is_digit c \<longleftrightarrow> 48 \<le> (of_char c :: nat) \<and> of_char c \<le> (57 :: nat)"

fun nat_string :: "nat \<Rightarrow> string" where
  "nat_string n = (if n < 10 then [digit_char n] else nat_string (n div 10) @ [digit_char (n mod 10)])"

declare nat_string.simps [simp del]

definition to_string :: "int \<Rightarrow> string" where
  "to_string i = (if i < 0 then CHR ''-'' # nat_string (nat (- i)) else nat_string (nat i))"

definition digits_value :: "string \<Rightarrow> nat" where
  "digits_value = foldl (\<lambda>n c. 10 * n + (of_char c - 48)) 0"

definition isspace :: "char \<Rightarrow> bool" where
  "isspace c \<longleftrightarrow> c \<in> {CHR '' '', CHR 0x09, CHR 0x0A, CHR 0x0B, CHR 0x0C, CHR 0x0D}"

text \<open>\<^verbatim>\<open>std::stoi\<close>: leading white space, an optional sign, digits; what follows is ignored.\<close>

definition stoi :: "string \<Rightarrow> int res" where
  "stoi s =
     (let s = dropWhile isspace s;
          (neg, s) = (case s of c # cs \<Rightarrow> if c = CHR ''-'' then (True, cs)
                                       else if c = CHR ''+'' then (False, cs) else (False, s)
                      | [] \<Rightarrow> (False, s));
          ds = takeWhile is_digit s;
          v = (if neg then - int (digits_value ds) else int (digits_value ds))
      in if ds = [] then Inl (Thrown ''std::invalid_argument'')
         else if v < - (2 ^ 31) \<or> v > 2 ^ 31 - 1 then Inl (Thrown ''std::out_of_range'')
         else Inr v)"

text \<open>
  \<^verbatim>\<open>atoi\<close>, which reads a \<^verbatim>\<open>long\<close> and cuts it: no digits are 0, and what does not fit into a \<^verbatim>\<open>long\<close> is its
  nearest value.
\<close>

definition atoi :: "string \<Rightarrow> int" where
  "atoi s =
     (let s = dropWhile isspace (c_string s);
          (neg, s) = (case s of c # cs \<Rightarrow> if c = CHR ''-'' then (True, cs)
                                       else if c = CHR ''+'' then (False, cs) else (False, s)
                      | [] \<Rightarrow> (False, s));
          n = int (digits_value (takeWhile is_digit s));
          v = (if neg then max (- n) (- (2 ^ 63)) else min n (2 ^ 63 - 1))
      in sint (word_of_int v :: 32 word))"

lemma of_char_digit: "n < 10 \<Longrightarrow> of_char (digit_char n) = 48 + n"
  by (simp add: digit_char_def of_char_of take_bit_eq_mod)

lemma is_digit_digit_char [simp]: "n < 10 \<Longrightarrow> is_digit (digit_char n)"
  by (simp add: is_digit_def of_char_digit)

lemma nat_string_digits: "c \<in> set (nat_string n) \<Longrightarrow> is_digit c"
proof (induction n rule: nat_string.induct)
  case (1 n)
  then show ?case by (subst (asm) nat_string.simps) (auto split: if_splits)
qed

lemma nat_string_nonempty [simp]: "nat_string n \<noteq> []"
  by (subst nat_string.simps) simp

lemma digits_value_snoc: "digits_value (ds @ [c]) = 10 * digits_value ds + (of_char c - 48)"
  by (simp add: digits_value_def)

lemma digits_value_nat_string [simp]: "digits_value (nat_string n) = n"
proof (induction n rule: nat_string.induct)
  case (1 n)
  show ?case
  proof (cases "n < 10")
    case True
    then show ?thesis by (simp add: nat_string.simps [of n] digits_value_def of_char_digit)
  next
    case False
    then show ?thesis
      using 1 by (simp add: nat_string.simps [of n] digits_value_snoc of_char_digit)
  qed
qed

lemma digit_not_space: "is_digit c \<Longrightarrow> \<not> isspace c \<and> c \<noteq> CHR ''-'' \<and> c \<noteq> CHR ''+''"
  by (auto simp: is_digit_def isspace_def)

lemma stoi_nat_string:
  assumes "n < 2 ^ 31"
  shows "stoi (nat_string n) = Inr (int n)"
proof -
  obtain c cs where c: "nat_string n = c # cs" by (cases "nat_string n") auto
  then have "is_digit c" using nat_string_digits [of c n] by simp
  then have "dropWhile isspace (nat_string n) = nat_string n" "c \<noteq> CHR ''-''" "c \<noteq> CHR ''+''"
    using c digit_not_space by simp_all
  moreover have "takeWhile is_digit (nat_string n) = nat_string n"
    using nat_string_digits by (simp add: takeWhile_eq_all_conv)
  moreover have "digits_value (c # cs) = n" using digits_value_nat_string [of n] c by simp
  ultimately show ?thesis
    using assms c by (simp add: stoi_def Let_def)
qed

lemma stoi_neg_string:
  assumes "n \<le> 2 ^ 31" "0 < n"
  shows "stoi (to_string (- int n)) = Inr (- int n)"
proof -
  have tw: "takeWhile is_digit (nat_string n) = nat_string n"
    using nat_string_digits by (simp add: takeWhile_eq_all_conv)
  show ?thesis
    using assms by (simp add: stoi_def to_string_def Let_def isspace_def tw)
qed

end
