(* ===== verification/Http_Text.thy ===== *)
theory Http_Text
  imports Buffers Numbers
begin

text \<open>
  The parts of \<^verbatim>\<open>src/src/http/HttpDef.h\<close> and \<^verbatim>\<open>HttpDef.cpp\<close> that requests and replies share: the
  tables, decimal numbers, the \<^verbatim>\<open>toString\<close> functions and \<^verbatim>\<open>getMimeType\<close>, and the pointer-level
  primitives of the parsers. A \<^verbatim>\<open>const char *\<close> is an offset into the block that holds the input, so
  reads before \<^verbatim>\<open>begin\<close> or past \<^verbatim>\<open>end\<close> are what they are in the source: reads of neighbouring bytes,
  or of memory outside the block.
\<close>

section \<open>Tables\<close>

datatype http_method = INVALID_METHOD | GET | POST | OPTIONS | HEAD

definition methods :: "(string \<times> http_method) list" where
  "methods = [(''GET'', GET), (''POST'', POST), (''HEAD'', HEAD), (''OPTIONS'', OPTIONS)]"

definition methods_string :: "(http_method \<times> string) list" where
  "methods_string = [(GET, ''GET''), (POST, ''POST''), (HEAD, ''HEAD''), (OPTIONS, ''OPTIONS'')]"

definition file_mime :: "(string \<times> string) list" where
  "file_mime =
    [(''.html'', ''text/html''),
     (''.xml'', ''text/xml''),
     (''.xhtml'', ''application/xhtml+xml''),
     (''.txt'', ''text/plain''),
     (''.rtf'', ''application/rtf''),
     (''.pdf'', ''application/pdf''),
     (''.word'', ''application/msword''),
     (''.png'', ''image/png''),
     (''.gif'', ''image/gif''),
     (''.jpg'', ''image/jpeg''),
     (''.jpeg'', ''image/jpeg''),
     (''.au'', ''audio/basic''),
     (''.mpeg'', ''video/mpeg''),
     (''.mpg'', ''video/mpeg''),
     (''.avi'', ''video/x-msvideo''),
     (''.gz'', ''application/x-gzip''),
     (''.tar'', ''application/x-tar''),
     (''.css'', ''text/css''),
     (''.cgi'', ''text/html''),
     ('''', ''text/plain'')]"

definition status_string :: "(int \<times> string) list" where
  "status_string =
    [(200, ''Ok''),
     (201, ''Created''),
     (202, ''Accepted''),
     (204, ''No Content''),
     (300, ''Multiple Choices''),
     (301, ''Moved Permanently''),
     (302, ''Moved Temporarily''),
     (304, ''Not Modified''),
     (400, ''Bad RequestParser''),
     (401, ''Unauthorized''),
     (403, ''Forbidden''),
     (404, ''Not Found''),
     (500, ''Internal Server Error''),
     (501, ''Not Implemented''),
     (502, ''Bad Gateway''),
     (503, ''Service Unavailable'')]"

definition status_number :: "(int \<times> string) list" where
  "status_number =
    [(200, ''200''),
     (201, ''201''),
     (202, ''202''),
     (204, ''204''),
     (300, ''300''),
     (301, ''301''),
     (302, ''302''),
     (304, ''304''),
     (400, ''400''),
     (401, ''401''),
     (403, ''403''),
     (404, ''404''),
     (500, ''500''),
     (501, ''501''),
     (502, ''502''),
     (503, ''503'')]"

text \<open>\<^verbatim>\<open>operator[]\<close> of \<^verbatim>\<open>std::unordered_map\<close> gives a fresh empty string for a missing key.\<close>

definition dict_at :: "('k \<times> string) list \<Rightarrow> 'k \<Rightarrow> string" where
  "dict_at d k = (case map_of d k of None \<Rightarrow> [] | Some v \<Rightarrow> v)"

section \<open>Pointers into the input\<close>

type_synonym mem = "cell list"

text \<open>Reading one byte; a byte that was never written is no byte to read either.\<close>

definition char_at :: "mem \<Rightarrow> int \<Rightarrow> char res" where
  "char_at m p =
     (if 0 \<le> p \<and> p < int (length m)
      then (case m ! nat p of Some c \<Rightarrow> Inr c | None \<Rightarrow> Inl Out_of_bounds) else Inl Out_of_bounds)"

text \<open>\<^verbatim>\<open>std::find(begin, end, c)\<close>: the first match, or \<open>end\<close>; a range that ends before it begins is
  undefined behaviour.\<close>

definition find_char :: "mem \<Rightarrow> int \<Rightarrow> int \<Rightarrow> char \<Rightarrow> int res" where
  "find_char m b e c =
     bind_res (read_range m b (e - b)) (\<lambda>bs.
     Inr (b + int (length (takeWhile (\<lambda>x. x \<noteq> Some c) bs))))"

text \<open>\<^verbatim>\<open>std::string(begin, end)\<close>: the constructor throws when the distance is negative.\<close>

definition string_of :: "mem \<Rightarrow> int \<Rightarrow> int \<Rightarrow> string res" where
  "string_of m b e =
     (if e < b then Inl (Thrown ''std::length_error'')
      else bind_res (read_range m b (e - b)) (\<lambda>bs.
           if None \<in> set bs then Inl Out_of_bounds else Inr (map the bs)))"

text \<open>The loops \<^verbatim>\<open>while (std::isspace(*left)) left--\<close> and \<^verbatim>\<open>while (std::isspace(*right)) right++\<close>:
  nothing but a byte that is no space stops them.\<close>

function skip_left :: "mem \<Rightarrow> int \<Rightarrow> int res" where
  "skip_left m p = bind_res (char_at m p) (\<lambda>c. if isspace c then skip_left m (p - 1) else Inr p)"
  by pat_completeness auto
termination
  by (relation "measure (\<lambda>(m, p). nat (p + 1))") (auto simp: char_at_def split: if_splits)

function skip_right :: "mem \<Rightarrow> int \<Rightarrow> int res" where
  "skip_right m p = bind_res (char_at m p) (\<lambda>c. if isspace c then skip_right m (p + 1) else Inr p)"
  by pat_completeness auto
termination
  by (relation "measure (\<lambda>(m, p). nat (int (length m) - p))") (auto simp: char_at_def split: if_splits)

declare skip_left.simps [simp del] skip_right.simps [simp del]

text \<open>The end of a line whose newline is at \<open>finish\<close>: \<^verbatim>\<open>*(finish - 1) == '\r' ? finish - 1 : finish\<close>.\<close>

definition line_end :: "mem \<Rightarrow> int \<Rightarrow> int res" where
  "line_end m finish =
     bind_res (char_at m (finish - 1)) (\<lambda>c. Inr (if c = CHR 0x0D then finish - 1 else finish))"

text \<open>\<open>reads m p xs\<close>: the text \<open>xs\<close> stands at position \<open>p\<close> of the block.\<close>

definition reads :: "mem \<Rightarrow> int \<Rightarrow> string \<Rightarrow> bool" where
  "reads m p xs \<longleftrightarrow> 0 \<le> p \<and> p + int (length xs) \<le> int (length m)
     \<and> take (length xs) (drop (nat p) m) = map Some xs"

lemma reads_append: "reads m p (xs @ ys) \<longleftrightarrow> reads m p xs \<and> reads m (p + int (length xs)) ys"
proof (cases "0 \<le> p")
  case True
  then have "nat (p + int (length xs)) = nat p + length xs" by simp
  then have "drop (nat (p + int (length xs))) m = drop (length xs) (drop (nat p) m)"
    by (simp add: add.commute)
  moreover have "take (length xs + length ys) (drop (nat p) m) =
      take (length xs) (drop (nat p) m) @ take (length ys) (drop (length xs) (drop (nat p) m))"
    by (rule take_add)
  moreover have "length (take (length xs) (drop (nat p) m)) = length (map Some xs)"
    if "p + int (length xs) \<le> int (length m)"
    using that True by simp
  ultimately show ?thesis
    using True by (auto simp: reads_def append_eq_append_conv simp del: take_append)
qed (simp add: reads_def)

lemma reads_Cons: "reads m p (c # xs) \<longleftrightarrow> reads m p [c] \<and> reads m (p + 1) xs"
  using reads_append [of m p "[c]" xs] by simp

lemma reads_here: "p = int (length pre) \<Longrightarrow> reads (pre @ map Some xs @ post) p xs"
  by (simp add: reads_def)

lemma reads_length: "reads m p xs \<Longrightarrow> 0 \<le> p \<and> p + int (length xs) \<le> int (length m)"
  by (simp add: reads_def)

lemma char_at_reads: "reads m p [c] \<Longrightarrow> char_at m p = Inr c"
  by (cases "drop (nat p) m") (auto simp: reads_def char_at_def nth_via_drop)

lemma char_at_last: "reads m p xs \<Longrightarrow> xs \<noteq> [] \<Longrightarrow> char_at m (p + int (length xs) - 1) = Inr (last xs)"
  using reads_append [of m p "butlast xs" "[last xs]"]
  by (auto intro!: char_at_reads simp: algebra_simps of_nat_diff Suc_le_eq)

lemma string_of_reads: "reads m b xs \<Longrightarrow> e = b + int (length xs) \<Longrightarrow> string_of m b e = Inr xs"
  by (auto simp: reads_def string_of_def read_range_def)

lemma find_char_reads:
  assumes "reads m b (xs @ [c])" "c \<notin> set xs" "b + int (length xs) < e" "e \<le> int (length m)"
  shows "find_char m b e c = Inr (b + int (length xs))"
proof -
  define bs where "bs = take (nat (e - b)) (drop (nat b) m)"
  have "take (length xs + 1) bs = map Some (xs @ [c])"
    using assms(1,3) by (simp add: bs_def reads_def min_def del: map_append)
  then obtain zs where "bs = map Some xs @ Some c # zs"
    by (metis append.assoc append_Cons append_Nil append_take_drop_id list.simps(8,9) map_append)
  moreover have "takeWhile (\<lambda>x. x \<noteq> Some c) (map Some xs @ Some c # zs) = map Some xs"
    using assms(2) by (subst takeWhile_append2) auto
  ultimately show ?thesis
    using assms by (simp add: find_char_def read_range_def reads_def flip: bs_def)
qed

lemma find_char_absent:
  assumes "reads m b xs" "c \<notin> set xs" "e = b + int (length xs)"
  shows "find_char m b e c = Inr e"
proof -
  have len: "length (takeWhile (\<lambda>x. x \<noteq> Some c) (map Some xs)) = length xs"
    using assms(2) by (induction xs) auto
  show ?thesis
    using assms(1,3) len by (simp add: find_char_def read_range_def reads_def)
qed

lemma find_char_invalid: "e < b \<Longrightarrow> find_char m b e c = Inl Out_of_bounds"
  by (simp add: find_char_def read_range_def)

lemma find_char_bounds: "find_char m b e c = Inr f \<Longrightarrow> 0 \<le> b \<and> b \<le> f \<and> f \<le> e \<and> e \<le> int (length m)"
proof -
  assume "find_char m b e c = Inr f"
  then obtain bs where bs: "read_range m b (e - b) = Inr bs"
    "f = b + int (length (takeWhile (\<lambda>x. x \<noteq> Some c) bs))"
    by (auto simp: find_char_def bind_res_Inr_iff)
  then have "0 \<le> b \<and> b \<le> e \<and> e \<le> int (length m) \<and> int (length bs) = e - b"
    by (auto simp: read_range_def split: if_splits)
  moreover have "length (takeWhile (\<lambda>x. x \<noteq> Some c) bs) \<le> length bs" by (rule length_takeWhile_le)
  ultimately show ?thesis using bs(2) by simp
qed

section \<open>Header lines\<close>

text \<open>
  \<^verbatim>\<open>ParseHeader\<close>, the same in both parsers. \<^verbatim>\<open>std::find\<close> never answers \<^verbatim>\<open>nullptr\<close>, so the branch for
  a missing colon is never taken.
\<close>

definition parse_header_line :: "mem \<Rightarrow> int \<Rightarrow> int \<Rightarrow> (string \<times> string) res" where
  "parse_header_line m b e =
     bind_res (check (b \<le> e) Assertion) (\<lambda>_.
     bind_res (find_char m b e CHR '':'') (\<lambda>mid.
     bind_res (skip_left m (mid - 1)) (\<lambda>left.
     bind_res (skip_right m (mid + 1)) (\<lambda>right.
     bind_res (string_of m b (left + 1)) (\<lambda>key.
     bind_res (string_of m right e) (\<lambda>value. Inr (key, value)))))))"

definition good_key :: "string \<Rightarrow> bool" where
  "good_key k \<longleftrightarrow> k \<noteq> [] \<and> CHR '':'' \<notin> set k \<and> CHR 0x0A \<notin> set k \<and> \<not> isspace (last k)"

definition good_value :: "string \<Rightarrow> bool" where
  "good_value v \<longleftrightarrow> v \<noteq> [] \<and> CHR 0x0A \<notin> set v \<and> \<not> isspace (hd v)"

lemma skip_left_stop: "char_at m p = Inr c \<Longrightarrow> \<not> isspace c \<Longrightarrow> skip_left m p = Inr p"
  by (subst skip_left.simps) simp

lemma skip_right_stop: "char_at m p = Inr c \<Longrightarrow> \<not> isspace c \<Longrightarrow> skip_right m p = Inr p"
  by (subst skip_right.simps) simp

lemma skip_right_step: "char_at m p = Inr c \<Longrightarrow> isspace c \<Longrightarrow> skip_right m p = skip_right m (p + 1)"
  by (subst skip_right.simps) simp

lemma parse_header_line_ok:
  assumes "reads m b (k @ '': '' @ v)" "good_key k" "good_value v"
    "e = b + int (length (k @ '': '' @ v))"
  shows "parse_header_line m b e = Inr (k, v)"
proof -
  let ?mid = "b + int (length k)"
  have "reads m b (k @ [CHR '':''] @ [CHR '' ''] @ v)" using assms(1) by simp
  then have "reads m b k \<and> reads m ?mid [CHR '':''] \<and> reads m (?mid + 1) [CHR '' '']
      \<and> reads m (?mid + 1 + 1) v"
    by (simp only: reads_append) simp
  then have r: "reads m b k" "reads m ?mid [CHR '':'']" "reads m (?mid + 1) [CHR '' '']" "reads m (?mid + 2) v"
    by (simp_all add: add.assoc)
  have find: "find_char m b e CHR '':'' = Inr ?mid"
    using assms(2,4) r reads_length [OF assms(1)]
    by (intro find_char_reads) (auto simp: reads_append good_key_def)
  have left: "skip_left m (?mid - 1) = Inr (?mid - 1)"
    using char_at_last [OF r(1)] assms(2) by (auto simp: good_key_def intro: skip_left_stop)
  have "reads m (?mid + 2) [hd v]"
    using r(4) assms(3) reads_append [of m "?mid + 2" "[hd v]" "tl v"] by (simp add: good_value_def)
  then have "skip_right m (?mid + 2) = Inr (?mid + 2)"
    using assms(3) char_at_reads by (auto simp: good_value_def intro: skip_right_stop)
  then have right: "skip_right m (?mid + 1) = Inr (?mid + 2)"
    using skip_right_step [OF char_at_reads [OF r(3)]] by (simp add: isspace_def add.assoc)
  have "string_of m b ?mid = Inr k" "string_of m (?mid + 2) e = Inr v"
    using r assms(4) by (auto intro: string_of_reads)
  with find left right show ?thesis
    using assms(4) by (simp add: parse_header_line_def)
qed

text \<open>A line without a colon, or with nothing but white space behind it, takes \<open>right\<close> past the end
  of the line.\<close>

lemma skip_right_Inr: "skip_right m p = Inr q \<Longrightarrow> p \<le> q \<and> (\<exists>c. char_at m q = Inr c \<and> \<not> isspace c)"
proof (induction m p rule: skip_right.induct)
  case (1 m p)
  show ?case
  proof (cases "char_at m p")
    case (Inl e)
    with "1.prems" show ?thesis by (subst (asm) skip_right.simps) simp
  next
    case (Inr c)
    show ?thesis
    proof (cases "isspace c")
      case True
      then have "skip_right m (p + 1) = Inr q" using skip_right_step [OF Inr True] "1.prems" by simp
      from "1.IH" [OF Inr True this] show ?thesis by auto
    next
      case False
      with Inr "1.prems" show ?thesis by (subst (asm) skip_right.simps) simp
    qed
  qed
qed

definition no_value :: "string \<Rightarrow> bool" where
  "no_value line \<longleftrightarrow>
     CHR '':'' \<notin> set line \<or> (\<forall>c \<in> set (tl (dropWhile (\<lambda>c. c \<noteq> CHR '':'') line)). isspace c)"

lemma parse_header_line_no_value:
  assumes "reads m b (line @ [c])" "isspace c" "no_value line" "e = b + int (length line)"
  shows "\<exists>f. parse_header_line m b e = Inl f"
proof (cases "parse_header_line m b e")
  case (Inr kv)
  obtain mid right where
    mid: "find_char m b e CHR '':'' = Inr mid" and right: "skip_right m (mid + 1) = Inr right"
    and str: "\<exists>v. string_of m right e = Inr v"
    using Inr by (auto simp: parse_header_line_def bind_res_Inr_iff)
  from str have le: "right \<le> e" by (auto simp: string_of_def split: if_splits)
  have q: "mid + 1 \<le> right" "\<exists>c. char_at m right = Inr c \<and> \<not> isspace c"
    using skip_right_Inr [OF right] by auto
  show ?thesis
  proof (cases "CHR '':'' \<in> set line")
    case False
    then have "mid = e" using find_char_absent [of m b line "CHR '':''" e] assms mid
      by (simp add: reads_append)
    with q le show ?thesis by simp
  next
    case True
    then obtain k vs where kv: "line = k @ CHR '':'' # vs" "CHR '':'' \<notin> set k"
      using split_list_first by metis
    have "dropWhile (\<lambda>c. c \<noteq> CHR '':'') line = dropWhile (\<lambda>c. c \<noteq> CHR '':'') (CHR '':'' # vs)"
      unfolding kv(1) by (rule dropWhile_append2) (use kv(2) in blast)
    then have "dropWhile (\<lambda>c. c \<noteq> CHR '':'') line = CHR '':'' # vs" by simp
    then have sp: "\<forall>c \<in> set (vs @ [c]). isspace c" using assms(2,3) True by (simp add: no_value_def)
    have "reads m b ((k @ [CHR '':'']) @ (vs @ [c]))" using assms(1) kv by simp
    then have "reads m b (k @ [CHR '':'']) \<and> reads m (b + int (length (k @ [CHR '':'']))) (vs @ [c])"
      by (rule reads_append [THEN iffD1])
    then have r: "reads m b (k @ [CHR '':''])" "reads m (b + int (length k) + 1) (vs @ [c])"
      by (simp_all add: ac_simps)
    have mid': "mid = b + int (length k)"
      using find_char_reads [OF r(1) kv(2)] mid assms(4) kv(1) reads_length [OF assms(1)] by simp
    define i where "i = nat (right - mid - 1)"
    have i: "i < length (vs @ [c])" "right = mid + 1 + int i"
      using q(1) le mid' assms(4) kv(1) by (auto simp: i_def)
    have "vs @ [c] = take i (vs @ [c]) @ (vs @ [c]) ! i # drop (Suc i) (vs @ [c])"
      using i(1) by (rule id_take_nth_drop)
    then have "reads m (mid + 1) (take i (vs @ [c]) @ [(vs @ [c]) ! i] @ drop (Suc i) (vs @ [c]))"
      using r(2) mid' by simp
    moreover have "length (take i (vs @ [c])) = i" using i(1) by simp
    ultimately have "reads m right [(vs @ [c]) ! i]"
      unfolding reads_append i(2) by (simp only:)
    then have "char_at m right = Inr ((vs @ [c]) ! i)" by (rule char_at_reads)
    moreover have "isspace ((vs @ [c]) ! i)" using sp i(1) nth_mem by blast
    ultimately show ?thesis using q(2) by simp
  qed
qed blast

section \<open>Text of requests and replies\<close>

text \<open>
  The headers are a map; \<^verbatim>\<open>toString\<close> lists them in the order of the hash table, which is the
  argument \<open>keys\<close>.
\<close>

type_synonym headers = "string \<rightharpoonup> string"

definition crlf :: string where
  "crlf = [CHR 0x0D, CHR 0x0A]"

definition header_line :: "headers \<Rightarrow> string \<Rightarrow> string" where
  "header_line hs k = k @ '': '' @ (case hs k of None \<Rightarrow> [] | Some v \<Rightarrow> v) @ crlf"

definition lists_keys :: "string list \<Rightarrow> headers \<Rightarrow> bool" where
  "lists_keys keys hs \<longleftrightarrow> distinct keys \<and> set keys = dom hs"

definition buffer_text :: "buf \<Rightarrow> string res" where
  "buffer_text b =
     (if Buffer_empty b then Inr []
      else bind_res (Buffer_data b) (\<lambda>d. bind_res (Buffer_size b) (\<lambda>n. string_of (storage b) d (d + n))))"

definition getMimeType :: "string \<Rightarrow> string" where
  "getMimeType uri =
     (if CHR ''.'' \<notin> set uri then ''text/plain''
      else case map_of file_mime (CHR ''.'' # rev (takeWhile (\<lambda>c. c \<noteq> CHR ''.'') (rev uri))) of
             None \<Rightarrow> ''text/plain'' | Some t \<Rightarrow> t)"

section \<open>Lines of a message\<close>

lemma line_end_cr: "char_at m (f - 1) = Inr (CHR 0x0D) \<Longrightarrow> line_end m f = Inr (f - 1)"
  by (simp add: line_end_def)

text \<open>A line that ends in CR LF.\<close>

lemma find_crlf:
  assumes "reads m b (line @ crlf)" "CHR 0x0A \<notin> set line" "b + int (length line) + 1 < e"
    "e \<le> int (length m)"
  shows "find_char m b e CHR 0x0A = Inr (b + int (length line) + 1)"
    and "line_end m (b + int (length line) + 1) = Inr (b + int (length line))"
proof -
  have "reads m b ((line @ [CHR 0x0D]) @ [CHR 0x0A])" using assms(1) by (simp add: crlf_def)
  from find_char_reads [OF this] assms(2-4)
  show "find_char m b e CHR 0x0A = Inr (b + int (length line) + 1)" by (simp add: add.assoc)
  have "reads m b (line @ [CHR 0x0D] @ [CHR 0x0A])" using assms(1) by (simp add: crlf_def)
  then have "reads m (b + int (length line)) [CHR 0x0D]" unfolding reads_append by simp
  from char_at_reads [OF this]
  show "line_end m (b + int (length line) + 1) = Inr (b + int (length line))"
    using line_end_cr [of m "b + int (length line) + 1"] by simp
qed

text \<open>One header line, as both parsers take it.\<close>

lemma header_line_step:
  assumes "reads m b (header_line hs k)" "good_key k" "hs k = Some v" "good_value v"
    "b + int (length (header_line hs k)) \<le> e" "e \<le> int (length m)"
  defines "f \<equiv> b + int (length (header_line hs k)) - 1"
  shows "find_char m b e CHR 0x0A = Inr f" "line_end m f = Inr (f - 1)"
    "parse_header_line m b (f - 1) = Inr (k, v)" "b + 1 < f"
proof -
  define line where "line = k @ '': '' @ v"
  have hl: "header_line hs k = line @ crlf" using assms(3) by (simp add: header_line_def line_def)
  have nl: "CHR 0x0A \<notin> set line" "2 < length line"
    using assms(2,4) by (auto simp: line_def good_key_def good_value_def Suc_le_eq)
  have f: "f = b + int (length line) + 1" by (simp add: f_def hl crlf_def)
  have "b + int (length line) + 1 < e" using assms(5) by (simp add: hl crlf_def)
  from find_crlf [OF _ nl(1) this assms(6)] assms(1) show "find_char m b e CHR 0x0A = Inr f"
    "line_end m f = Inr (f - 1)" by (simp_all add: hl f)
  have "reads m b line" using assms(1) by (simp add: hl reads_append)
  then show "parse_header_line m b (f - 1) = Inr (k, v)"
    using parse_header_line_ok [OF _ assms(2,4), of m b] f by (simp add: line_def ac_simps)
  show "b + 1 < f" using nl(2) by (simp add: f)
qed

definition put_headers :: "headers \<Rightarrow> string list \<Rightarrow> headers \<Rightarrow> headers" where
  "put_headers hs keys h = foldl (\<lambda>h k. h(k \<mapsto> the (hs k))) h keys"

lemma put_headers_simps [simp]:
  "put_headers hs [] h = h"
  "put_headers hs (k # keys) h = put_headers hs keys (h(k \<mapsto> the (hs k)))"
  by (simp_all add: put_headers_def)

lemma put_headers_dom:
  "put_headers hs keys h = (\<lambda>k. if k \<in> set keys then Some (the (hs k)) else h k)"
  unfolding put_headers_def by (induction keys arbitrary: h) (auto simp: fun_eq_iff)

lemma put_headers_all: "set keys = dom hs \<Longrightarrow> put_headers hs keys Map.empty = hs"
  by (auto simp: put_headers_dom fun_eq_iff dom_def)

text \<open>A word that ends at a blank.\<close>

lemma find_blank:
  assumes "reads m b (w @ '' '')" "CHR '' '' \<notin> set w" "b + int (length w) < e" "e \<le> int (length m)"
  shows "find_char m b e CHR '' '' = Inr (b + int (length w))"
  using assms by (intro find_char_reads)

lemma reads_content:
  assumes "buf_ok b" "content b = map Some s"
  shows "reads (storage b) (leftIndex b) s"
proof -
  have len: "int (length s) = rightIndex b - leftIndex b"
    using length_content [OF assms(1)] assms(2) by simp
  then have "length s = nat (rightIndex b - leftIndex b)" by simp
  then show ?thesis using assms len by (simp add: reads_def content_def buf_ok_def)
qed

lemma buffer_text_ok:
  assumes "buf_ok b" "content b = map Some body"
  shows "buffer_text b = Inr body"
proof (cases "content b = []")
  case True
  then have "leftIndex b = rightIndex b" using assms(1) by (simp add: content_Nil_iff)
  with True assms(2) show ?thesis by (simp add: buffer_text_def Buffer_empty_def)
next
  case False
  then have "\<not> Buffer_empty b" by (auto simp: Buffer_empty_def content_def)
  then show ?thesis
    using assms False reads_content [OF assms]
    by (simp add: buffer_text_def Buffer_data_ok Buffer_size_ok string_of_reads)
qed

end
