(* ===== verification/Http_Request.thy ===== *)
theory Http_Request
  imports Http_Text
begin

text \<open>
  \<^verbatim>\<open>Request\<close> and \<^verbatim>\<open>RequestParser\<close> of \<^verbatim>\<open>src/src/http/HttpDef.h\<close> and \<^verbatim>\<open>HttpDef.cpp\<close>: printing a request
  and the incremental parser, whose \<^verbatim>\<open>switch\<close> falls through from one part of the request to the next.
\<close>

section \<open>Requests\<close>

datatype request_progress = ParsingMethod | ParsingURI | ParsingVersion | ParsingHeaders | Good
  | InvalidMethod | InvalidURI | InvalidVersion | InvalidHeader

record request =
  req_method :: http_method
  req_uri :: string
  req_query :: string
  req_headers :: headers
  req_body :: buf

record request_parser = request +
  req_progress :: request_progress
  req_bytes :: int
  http_version_major :: int
  http_version_minor :: int

definition RequestParser_new :: request_parser where
  "RequestParser_new =
     \<lparr>req_method = INVALID_METHOD, req_uri = [], req_query = [], req_headers = Map.empty,
      req_body = Buffer_default, req_progress = ParsingMethod, req_bytes = 0,
      http_version_major = 0, http_version_minor = 0\<rparr>"

definition RequestParser_clear :: "request_parser \<Rightarrow> request_parser" where
  "RequestParser_clear r = r\<lparr>req_progress := ParsingMethod, req_bytes := 0, req_method := INVALID_METHOD,
     req_uri := [], req_query := [], http_version_major := 0, http_version_minor := 0,
     req_headers := Map.empty\<rparr>"

definition RequestParser_isError :: "request_parser \<Rightarrow> bool" where
  "RequestParser_isError r \<longleftrightarrow>
     req_progress r \<in> {InvalidMethod, InvalidURI, InvalidVersion, InvalidHeader}"

definition RequestParser_isGood :: "request_parser \<Rightarrow> bool" where
  "RequestParser_isGood r \<longleftrightarrow> req_progress r = Good"

definition Request_toString :: "string list \<Rightarrow> 'a request_scheme \<Rightarrow> string res" where
  "Request_toString keys r =
     bind_res (buffer_text (req_body r)) (\<lambda>body.
     Inr (dict_at methods_string (req_method r) @ '' '' @ req_uri r
       @ (if req_query r \<noteq> [] then ''?'' @ req_query r else [])
       @ '' HTTP/1.1'' @ crlf
       @ concat (map (header_line (req_headers r)) keys) @ crlf @ body))"

section \<open>Parsing\<close>

text \<open>\<^verbatim>\<open>parse_hex\<close> always reads two bytes and takes whatever they are for digits.\<close>

definition hex_digit :: "char \<Rightarrow> int" where
  "hex_digit c =
     (if is_digit c then of_char c - 48
      else of_char (c) - of_char (CHR ''a'') + 10 + (if (of_char c :: int) div 32 mod 2 = 0 then 32 else 0))"

definition parse_hex :: "mem \<Rightarrow> int \<Rightarrow> char res" where
  "parse_hex m p =
     bind_res (char_at m p) (\<lambda>c1. bind_res (char_at m (p + 1)) (\<lambda>c2.
     Inr (char_of ((hex_digit c1 * 16 + hex_digit c2) mod 256))))"

text \<open>
  The copying loop of \<^verbatim>\<open>ParseURI\<close>: \<open>temp\<close> is what has been stored, \<open>qi\<close> the \<^verbatim>\<open>query_index\<close>. The
  allocation of \<^verbatim>\<open>temp\<close> is taken to succeed.
\<close>

function uri_loop :: "mem \<Rightarrow> int \<Rightarrow> int \<Rightarrow> int \<Rightarrow> string \<Rightarrow> int \<Rightarrow> (string \<times> int) res" where
  "uri_loop m src n i temp qi =
     (if i < n then
        bind_res (char_at m (src + i)) (\<lambda>c.
        bind_res (if c = CHR ''%'' then parse_hex m (src + i + 1) else Inr c) (\<lambda>x.
        let i' = (if c = CHR ''%'' then i + 2 else i) + 1
        in if x = CHR ''?'' then uri_loop m src n i' (temp @ [CHR 0x00]) (int (length temp))
           else uri_loop m src n i' (temp @ [x]) qi))
      else Inr (temp, qi))"
  by pat_completeness auto
termination
  by (relation "measure (\<lambda>(m, src, n, i, temp, qi). nat (n - i))") auto

declare uri_loop.simps [simp del]

definition RequestParser_ParseURI :: "mem \<Rightarrow> int \<Rightarrow> int \<Rightarrow> request_parser \<Rightarrow> request_parser res" where
  "RequestParser_ParseURI m b e r =
     bind_res (check (b \<le> e) Assertion) (\<lambda>_.
     bind_res (uri_loop m b (e - b) 0 [] (- 1)) (\<lambda>(temp, qi).
     let r = (if qi \<noteq> - 1 then r\<lparr>req_query := c_string (drop (nat (qi + 1)) temp)\<rparr> else r)
     in Inr (r\<lparr>req_uri := c_string temp, req_progress := ParsingVersion\<rparr>)))"

definition RequestParser_ParseMethod :: "mem \<Rightarrow> int \<Rightarrow> int \<Rightarrow> request_parser \<Rightarrow> request_parser res" where
  "RequestParser_ParseMethod m b e r =
     bind_res (check (b \<le> e) Assertion) (\<lambda>_.
     bind_res (string_of m b e) (\<lambda>s.
     case map_of methods s of
       None \<Rightarrow> Inr (r\<lparr>req_progress := InvalidMethod\<rparr>)
     | Some k \<Rightarrow> Inr (r\<lparr>req_method := k, req_progress := ParsingURI\<rparr>)))"

definition RequestParser_ParseHttpVersion :: "mem \<Rightarrow> int \<Rightarrow> int \<Rightarrow> request_parser \<Rightarrow> request_parser res" where
  "RequestParser_ParseHttpVersion m b e r =
     bind_res (check (b \<le> e) Assertion) (\<lambda>_.
     if e - b \<noteq> 8 then Inr (r\<lparr>req_progress := InvalidVersion\<rparr>)
     else bind_res (string_of m b e) (\<lambda>s.
       if s = ''HTTP/1.1'' then
         Inr (r\<lparr>http_version_major := 1, http_version_minor := 1, req_progress := ParsingHeaders\<rparr>)
       else if s = ''HTTP/1.0'' then
         Inr (r\<lparr>http_version_major := 1, http_version_minor := 0, req_progress := ParsingHeaders\<rparr>)
       else Inr (r\<lparr>req_progress := InvalidVersion\<rparr>)))"

definition RequestParser_ParseHeader :: "mem \<Rightarrow> int \<Rightarrow> int \<Rightarrow> request_parser \<Rightarrow> request_parser res" where
  "RequestParser_ParseHeader m b e r =
     bind_res (parse_header_line m b e) (\<lambda>(k, v). Inr (r\<lparr>req_headers := (req_headers r)(k \<mapsto> v)\<rparr>))"

text \<open>The cases of the \<^verbatim>\<open>switch\<close>, each continuing with the next.\<close>

function request_headers :: "mem \<Rightarrow> int \<Rightarrow> int \<Rightarrow> request_parser \<Rightarrow> request_parser res" where
  "request_headers m b e r =
     (if b = e then Inr r
      else bind_res (find_char m b e CHR 0x0A) (\<lambda>f.
        if b = f \<or> b + 1 = f then Inr (r\<lparr>req_progress := Good, req_bytes := req_bytes r + (f + 1 - b)\<rparr>)
        else bind_res (line_end m f) (\<lambda>le.
             bind_res (RequestParser_ParseHeader m b le r) (\<lambda>r.
             request_headers m (f + 1) e (r\<lparr>req_bytes := req_bytes r + (f + 1 - b)\<rparr>)))))"
  by pat_completeness auto
termination
  by (relation "measure (\<lambda>(m, b, e, r). nat (e - b))") (auto dest!: find_char_bounds)

declare request_headers.simps [simp del]

definition request_version :: "mem \<Rightarrow> int \<Rightarrow> int \<Rightarrow> request_parser \<Rightarrow> request_parser res" where
  "request_version m b e r =
     bind_res (find_char m b e CHR 0x0A) (\<lambda>f.
     bind_res (line_end m f) (\<lambda>le.
     bind_res (RequestParser_ParseHttpVersion m b le r) (\<lambda>r.
     if req_progress r = InvalidVersion then Inr r
     else request_headers m (f + 1) e (r\<lparr>req_bytes := req_bytes r + (f + 1 - b)\<rparr>))))"

definition request_uri :: "mem \<Rightarrow> int \<Rightarrow> int \<Rightarrow> request_parser \<Rightarrow> request_parser res" where
  "request_uri m b e r =
     bind_res (find_char m b e CHR '' '') (\<lambda>f.
     bind_res (RequestParser_ParseURI m b f r) (\<lambda>r.
     request_version m (f + 1) e (r\<lparr>req_bytes := req_bytes r + (f + 1 - b)\<rparr>)))"

definition request_method :: "mem \<Rightarrow> int \<Rightarrow> int \<Rightarrow> request_parser \<Rightarrow> request_parser res" where
  "request_method m b e r =
     bind_res (find_char m b e CHR '' '') (\<lambda>f.
     bind_res (RequestParser_ParseMethod m b f r) (\<lambda>r.
     if req_progress r = InvalidMethod then Inr r
     else request_uri m (f + 1) e (r\<lparr>req_bytes := req_bytes r + (f + 1 - b)\<rparr>)))"

definition RequestParser_parse :: "mem \<Rightarrow> int \<Rightarrow> int \<Rightarrow> request_parser \<Rightarrow> request_parser res" where
  "RequestParser_parse m b e r =
     (case req_progress r of
        ParsingMethod \<Rightarrow> request_method m b e r
      | ParsingURI \<Rightarrow> request_uri m b e r
      | ParsingVersion \<Rightarrow> request_version m b e r
      | ParsingHeaders \<Rightarrow> request_headers m b e r
      | _ \<Rightarrow> Inr r)"

section \<open>The parts of a request\<close>

lemma request_headers_line:
  assumes "reads m b (header_line hs k)" "good_key k" "hs k = Some v" "good_value v"
    "b + int (length (header_line hs k)) \<le> e" "e \<le> int (length m)"
  shows "request_headers m b e r = request_headers m (b + int (length (header_line hs k))) e
    (r\<lparr>req_headers := (req_headers r)(k \<mapsto> v), req_bytes := req_bytes r + int (length (header_line hs k))\<rparr>)"
  using header_line_step [OF assms] assms(5)
  by (subst request_headers.simps) (simp add: RequestParser_ParseHeader_def)

lemma request_headers_end:
  assumes "reads m b crlf" "b + 2 \<le> e" "e \<le> int (length m)"
  shows "request_headers m b e r = Inr (r\<lparr>req_progress := Good, req_bytes := req_bytes r + 2\<rparr>)"
proof -
  have "find_char m b e CHR 0x0A = Inr (b + 1)"
    using find_crlf(1) [of m b "[]" e] assms by simp
  then show ?thesis using assms(2) by (subst request_headers.simps) simp
qed

lemma request_headers_ok:
  assumes "\<forall>k \<in> set keys. good_key k \<and> (\<exists>v. hs k = Some v \<and> good_value v)"
    "reads m b (concat (map (header_line hs) keys) @ crlf)"
    "b + int (length (concat (map (header_line hs) keys))) + 2 \<le> e" "e \<le> int (length m)"
  shows "request_headers m b e r = Inr (r\<lparr>req_headers := put_headers hs keys (req_headers r),
    req_progress := Good, req_bytes := req_bytes r + int (length (concat (map (header_line hs) keys))) + 2\<rparr>)"
  using assms(1-3)
proof (induction keys arbitrary: b r)
  case Nil
  then show ?case using request_headers_end [of m b e r] assms(4) by simp
next
  case (Cons k keys)
  let ?n = "int (length (header_line hs k))"
  obtain v where v: "hs k = Some v" "good_value v" "good_key k" using Cons.prems(1) by auto
  have r: "reads m b (header_line hs k)" "reads m (b + ?n) (concat (map (header_line hs) keys) @ crlf)"
    using Cons.prems(2) by (simp_all add: reads_append add.assoc)
  show ?case
    using Cons.IH [OF _ r(2), of "r\<lparr>req_headers := (req_headers r)(k \<mapsto> v), req_bytes := req_bytes r + ?n\<rparr>"]
      request_headers_line [OF r(1) v(3,1,2), of e r] Cons.prems assms(4) v
    by (simp add: add.assoc fun_upd_def)
qed

lemma request_version_ok:
  assumes "reads m b (''HTTP/1.1'' @ crlf)" "b + 10 \<le> e" "e \<le> int (length m)"
  shows "request_version m b e r = request_headers m (b + 10) e
    (r\<lparr>http_version_major := 1, http_version_minor := 1, req_progress := ParsingHeaders,
       req_bytes := req_bytes r + 10\<rparr>)"
proof -
  have "find_char m b e CHR 0x0A = Inr (b + 9)" "line_end m (b + 9) = Inr (b + 8)"
    using find_crlf [OF assms(1), of e] assms(2,3) by (simp_all add: ac_simps)
  moreover have "string_of m b (b + 8) = Inr ''HTTP/1.1''"
    using assms(1) [unfolded reads_append] by (intro string_of_reads) simp_all
  ultimately show ?thesis
    by (simp add: request_version_def RequestParser_ParseHttpVersion_def add.commute)
qed

section \<open>The target of a request\<close>

text \<open>What \<^verbatim>\<open>ParseURI\<close> computes: percent-decoding, and a split of the decoded text.\<close>

fun url_decode :: "string \<Rightarrow> string" where
  "url_decode [] = []"
| "url_decode (c # cs) =
     (if c = CHR ''%'' then
        (case cs of x # y # zs \<Rightarrow> char_of ((hex_digit x * 16 + hex_digit y) mod 256) # url_decode zs
         | _ \<Rightarrow> [])
      else c # url_decode cs)"

fun escapes_complete :: "string \<Rightarrow> bool" where
  "escapes_complete [] = True"
| "escapes_complete (c # cs) =
     (if c = CHR ''%'' then (case cs of x # y # zs \<Rightarrow> escapes_complete zs | _ \<Rightarrow> False)
      else escapes_complete cs)"

definition after_last_query :: "string \<Rightarrow> string" where
  "after_last_query d = rev (takeWhile (\<lambda>c. c \<noteq> CHR ''?'') (rev d))"

definition blank_query :: "char \<Rightarrow> char" where
  "blank_query c = (if c = CHR ''?'' then CHR 0x00 else c)"

fun last_query :: "int \<Rightarrow> int \<Rightarrow> string \<Rightarrow> int" where
  "last_query j qi [] = qi"
| "last_query j qi (c # cs) = last_query (j + 1) (if c = CHR ''?'' then j else qi) cs"

lemma uri_loop_ok:
  "reads m (src + i) s \<Longrightarrow> n = i + int (length s) \<Longrightarrow> escapes_complete s \<Longrightarrow>
   uri_loop m src n i temp qi = Inr (temp @ map blank_query (url_decode s),
     last_query (int (length temp)) qi (url_decode s))"
proof (induction s arbitrary: i temp qi rule: url_decode.induct)
  case 1
  then show ?case by (simp add: uri_loop.simps)
next
  case (2 c cs)
  have lt: "i < n" using "2.prems"(2) by simp
  have r: "char_at m (src + i) = Inr c" "reads m (src + i + 1) cs"
    using "2.prems"(1) reads_Cons [of m "src + i" c cs] by (auto intro: char_at_reads)
  show ?case
  proof (cases "c = CHR ''%''")
    case True
    then obtain x y zs where cs: "cs = x # y # zs" "escapes_complete zs"
      using "2.prems"(3) by (auto split: list.splits)
    have rd: "char_at m (src + i + 1) = Inr x" "char_at m (src + i + 1 + 1) = Inr y"
      "reads m (src + (i + 2 + 1)) zs"
      using r(2) cs reads_Cons [of m "src + i + 1" x "y # zs"] reads_Cons [of m "src + i + 1 + 1" y zs]
      by (auto intro: char_at_reads simp: ac_simps)
    define xc :: char where "xc = char_of ((hex_digit x * 16 + hex_digit y) mod 256)"
    have dec: "url_decode (c # cs) = xc # url_decode zs" using True cs by (simp add: xc_def)
    have hex: "parse_hex m (src + i + 1) = Inr xc" using rd by (simp add: parse_hex_def xc_def)
    have "uri_loop m src n (i + 2 + 1) (temp @ [blank_query xc])
        (if xc = CHR ''?'' then int (length temp) else qi) =
      Inr ((temp @ [blank_query xc]) @ map blank_query (url_decode zs),
        last_query (int (length (temp @ [blank_query xc]))) (if xc = CHR ''?'' then int (length temp) else qi)
          (url_decode zs))"
      using True cs "2.prems"(2) rd(3) by (intro "2.IH"(1)) simp_all
    then show ?thesis
      unfolding dec using True lt r(1) hex
      by (subst uri_loop.simps) (cases "xc = CHR ''?''"; simp add: Let_def blank_query_def add.commute)
  next
    case False
    have "reads m (src + (i + 1)) cs" using r(2) by (simp add: add.assoc)
    then have "uri_loop m src n (i + 1) (temp @ [blank_query c])
        (if c = CHR ''?'' then int (length temp) else qi) =
      Inr ((temp @ [blank_query c]) @ map blank_query (url_decode cs),
        last_query (int (length (temp @ [blank_query c]))) (if c = CHR ''?'' then int (length temp) else qi)
          (url_decode cs))"
      using False "2.prems"(2,3) by (intro "2.IH"(2)) simp_all
    then show ?thesis
      using False lt r(1)
      by (subst uri_loop.simps) (cases "c = CHR ''?''"; simp add: Let_def blank_query_def add.commute)
  qed
qed

lemma last_query_snoc: "last_query j qi (d @ [c]) = (if c = CHR ''?'' then j + int (length d) else last_query j qi d)"
  by (induction d arbitrary: j qi) simp_all

lemma last_query_index:
  "last_query 0 (- 1) d =
     (if CHR ''?'' \<in> set d then int (length d) - 1 - int (length (after_last_query d)) else - 1)"
  by (induction d rule: rev_induct) (auto simp: last_query_snoc after_last_query_def)

lemma after_last_query_split:
  "CHR ''?'' \<in> set d \<Longrightarrow> \<exists>front. d = front @ CHR ''?'' # after_last_query d"
proof (induction d rule: rev_induct)
  case (snoc c d)
  then show ?case by (cases "c = CHR ''?''") (auto simp: after_last_query_def)
qed simp

lemma after_last_query_no: "CHR ''?'' \<notin> set (after_last_query d)"
  by (auto simp: after_last_query_def dest: set_takeWhileD)

lemma map_blank_query: "CHR ''?'' \<notin> set xs \<Longrightarrow> map blank_query xs = xs"
  by (induction xs) (auto simp: blank_query_def)

lemma c_string_blank:
  "c_string (map blank_query d) = takeWhile (\<lambda>c. c \<noteq> CHR 0x00 \<and> c \<noteq> CHR ''?'') d"
  by (induction d) (auto simp: c_string_def blank_query_def)

definition set_target :: "string \<Rightarrow> request_parser \<Rightarrow> request_parser" where
  "set_target d r =
     (if CHR ''?'' \<in> set d then r\<lparr>req_query := c_string (after_last_query d)\<rparr> else r)
       \<lparr>req_uri := takeWhile (\<lambda>c. c \<noteq> CHR 0x00 \<and> c \<noteq> CHR ''?'') d, req_progress := ParsingVersion\<rparr>"

lemma ParseURI_ok:
  assumes "reads m b s" "escapes_complete s"
  shows "RequestParser_ParseURI m b (b + int (length s)) r = Inr (set_target (url_decode s) r)"
proof -
  let ?d = "url_decode s"
  have loop: "uri_loop m b (int (length s)) 0 [] (- 1) = Inr (map blank_query ?d, last_query 0 (- 1) ?d)"
    using uri_loop_ok [of m b 0 s "int (length s)" "[]" "- 1"] assms by simp
  have "drop (nat (last_query 0 (- 1) ?d + 1)) (map blank_query ?d) = after_last_query ?d"
    and "last_query 0 (- 1) ?d \<noteq> - 1"
    if q: "CHR ''?'' \<in> set ?d"
  proof -
    obtain front where front: "?d = front @ CHR ''?'' # after_last_query ?d"
      using after_last_query_split [OF q] by blast
    then have "length ?d = length front + 1 + length (after_last_query ?d)"
      by (metis One_nat_def add.right_neutral add_Suc_right add_Suc_shift length_append list.size(4))
    then have "nat (last_query 0 (- 1) ?d + 1) = Suc (length front)"
      using q by (simp add: last_query_index)
    moreover have "map blank_query ?d = (map blank_query front @ [CHR 0x00]) @ map blank_query (after_last_query ?d)"
      by (subst front) (simp add: blank_query_def)
    ultimately show "drop (nat (last_query 0 (- 1) ?d + 1)) (map blank_query ?d) = after_last_query ?d"
      by (simp add: map_blank_query [OF after_last_query_no])
    show "last_query 0 (- 1) ?d \<noteq> - 1"
      using q \<open>length ?d = length front + 1 + length (after_last_query ?d)\<close> by (simp add: last_query_index)
  qed
  then show ?thesis
    using loop last_query_index [of ?d]
    by (cases "CHR ''?'' \<in> set ?d") (simp_all add: RequestParser_ParseURI_def set_target_def c_string_blank)
qed

section \<open>Whole requests\<close>

text \<open>Texts that percent-decoding and the split leave as they are.\<close>

definition plain :: "string \<Rightarrow> bool" where
  "plain s \<longleftrightarrow> set s \<inter> {CHR '' '', CHR ''%'', CHR ''?'', CHR 0x00} = {}"

definition target :: "string \<Rightarrow> string \<Rightarrow> string" where
  "target uri query = uri @ (if query \<noteq> [] then ''?'' @ query else [])"

lemma plain_decode: "CHR ''%'' \<notin> set s \<Longrightarrow> url_decode s = s \<and> escapes_complete s"
  by (induction s) auto

lemma after_last_query_append:
  "CHR ''?'' \<notin> set q \<Longrightarrow> after_last_query (u @ CHR ''?'' # q) = q"
proof -
  assume "CHR ''?'' \<notin> set q"
  then have "takeWhile (\<lambda>c. c \<noteq> CHR ''?'') (rev q @ CHR ''?'' # rev u) = rev q"
    by (subst takeWhile_append2) auto
  then show ?thesis by (simp add: after_last_query_def)
qed

lemma set_target_plain:
  assumes "plain uri" "plain query"
  shows "set_target (target uri query) r =
    (if query = [] then r else r\<lparr>req_query := query\<rparr>)\<lparr>req_uri := uri, req_progress := ParsingVersion\<rparr>"
proof -
  have u: "takeWhile (\<lambda>c. c \<noteq> CHR 0x00 \<and> c \<noteq> CHR ''?'') (uri @ rest) = uri @ takeWhile (\<lambda>c. c \<noteq> CHR 0x00 \<and> c \<noteq> CHR ''?'') rest"
    for rest using assms(1) by (subst takeWhile_append2) (auto simp: plain_def)
  have q: "c_string query = query"
    using assms(2) by (auto simp: c_string_def plain_def takeWhile_eq_all_conv)
  have "CHR ''?'' \<notin> set query" "CHR ''?'' \<notin> set uri" using assms by (auto simp: plain_def)
  then show ?thesis
    using u [of "[]"] u [of "CHR ''?'' # query"] q after_last_query_append [of query uri]
    by (auto simp: set_target_def target_def)
qed

lemma request_method_ok:
  assumes "reads m b (w @ '' '')" "map_of methods w = Some k" "CHR '' '' \<notin> set w"
    "b + int (length w) < e" "e \<le> int (length m)"
  shows "request_method m b e r = request_uri m (b + int (length w) + 1) e
    (r\<lparr>req_method := k, req_progress := ParsingURI, req_bytes := req_bytes r + int (length w) + 1\<rparr>)"
proof -
  have "string_of m b (b + int (length w)) = Inr w"
    using assms(1) by (intro string_of_reads) (simp_all add: reads_append)
  then show ?thesis
    using find_blank [OF assms(1,3-5)] assms(2)
    by (simp add: request_method_def RequestParser_ParseMethod_def add.assoc)
qed

lemma request_uri_ok:
  assumes "reads m b (s @ '' '')" "CHR '' '' \<notin> set s" "escapes_complete s"
    "b + int (length s) < e" "e \<le> int (length m)"
  shows "request_uri m b e r = request_version m (b + int (length s) + 1) e
    (set_target (url_decode s) r \<lparr>req_bytes := req_bytes r + int (length s) + 1\<rparr>)"
proof -
  have "reads m b s" using assms(1) by (simp add: reads_append)
  from ParseURI_ok [OF this assms(3), of r] show ?thesis
    using find_blank [OF assms(1,2,4,5)]
    by (simp add: request_uri_def set_target_def add.assoc)
qed

lemma dict_at_methods: "k \<noteq> INVALID_METHOD \<Longrightarrow>
  map_of methods (dict_at methods_string k) = Some k \<and> CHR '' '' \<notin> set (dict_at methods_string k)"
  by (cases k) (auto simp: dict_at_def methods_string_def methods_def)

text \<open>What the parser is left with after a request.\<close>

definition parsed :: "'a request_scheme \<Rightarrow> nat \<Rightarrow> request_parser \<Rightarrow> request_parser" where
  "parsed q n p = p\<lparr>req_method := req_method q, req_uri := req_uri q, req_query := req_query q,
     req_headers := req_headers q, req_progress := Good, req_bytes := int n,
     http_version_major := 1, http_version_minor := 1\<rparr>"

definition printable :: "string list \<Rightarrow> 'a request_scheme \<Rightarrow> bool" where
  "printable keys q \<longleftrightarrow> req_method q \<noteq> INVALID_METHOD \<and> plain (req_uri q) \<and> plain (req_query q)
     \<and> lists_keys keys (req_headers q)
     \<and> (\<forall>k v. req_headers q k = Some v \<longrightarrow> good_key k \<and> good_value v)"

text \<open>The request line, and the parser behind it.\<close>

definition request_line :: "'a request_scheme \<Rightarrow> string" where
  "request_line q = (dict_at methods_string (req_method q) @ '' '') @ (target (req_uri q) (req_query q) @ '' '')
     @ ''HTTP/1.1'' @ crlf"

definition in_headers :: "'a request_scheme \<Rightarrow> request_parser \<Rightarrow> request_parser" where
  "in_headers q p = (RequestParser_clear p)\<lparr>req_method := req_method q, req_query := req_query q,
     req_uri := req_uri q, http_version_major := 1, http_version_minor := 1,
     req_progress := ParsingHeaders, req_bytes := int (length (request_line q))\<rparr>"

lemma Request_toString_lines:
  "Request_toString keys q = Inr text \<Longrightarrow> buffer_text (req_body q) = Inr body \<Longrightarrow>
     text = request_line q @ (concat (map (header_line (req_headers q)) keys) @ crlf) @ body"
  by (simp add: Request_toString_def request_line_def target_def)

lemma parse_request_line:
  assumes "printable keys q" "reads m b (request_line q)" "b + int (length (request_line q)) \<le> e" "e \<le> int (length m)"
  shows "RequestParser_parse m b e (RequestParser_clear p) =
    request_headers m (b + int (length (request_line q))) e (in_headers q p)"
proof -
  let ?w = "dict_at methods_string (req_method q)" and ?t = "target (req_uri q) (req_query q)"
  have plain: "plain (req_uri q)" "plain (req_query q)" "req_method q \<noteq> INVALID_METHOD"
    using assms(1) by (simp_all add: printable_def)
  define b1 where "b1 = b + int (length ?w) + 1"
  define b2 where "b2 = b1 + int (length ?t) + 1"
  have len: "int (length (request_line q)) = int (length ?w) + int (length ?t) + 12"
    by (simp add: request_line_def crlf_def)
  have "reads m b (?w @ '' '') \<and> reads m (b + int (length (?w @ '' ''))) (?t @ '' '')
      \<and> reads m (b + int (length (?w @ '' '')) + int (length (?t @ '' ''))) (''HTTP/1.1'' @ crlf)"
    using assms(2) unfolding request_line_def by (simp only: reads_append)
  moreover have "b + int (length (?w @ '' '')) = b1" "b1 + int (length (?t @ '' '')) = b2"
    by (simp_all add: b1_def b2_def)
  ultimately have "reads m b (?w @ '' '') \<and> reads m b1 (?t @ '' '') \<and> reads m b2 (''HTTP/1.1'' @ crlf)" by metis
  then have r: "reads m b (?w @ '' '')" "reads m b1 (?t @ '' '')" "reads m b2 (''HTTP/1.1'' @ crlf)" by blast+
  have nt: "CHR '' '' \<notin> set ?t" "CHR ''%'' \<notin> set ?t"
    using plain(1,2) by (auto simp: target_def plain_def)
  define p1 where "p1 = (RequestParser_clear p)\<lparr>req_method := req_method q, req_progress := ParsingURI,
    req_bytes := int (length ?w) + 1\<rparr>"
  define p2 where "p2 = p1\<lparr>req_query := req_query q, req_uri := req_uri q, req_progress := ParsingVersion,
    req_bytes := int (length ?w) + int (length ?t) + 2\<rparr>"
  have 1: "request_method m b e (RequestParser_clear p) = request_uri m b1 e p1"
    using request_method_ok [OF r(1), of "req_method q" e "RequestParser_clear p"]
      dict_at_methods [OF plain(3)] assms(3,4) len
    by (simp add: b1_def p1_def RequestParser_clear_def)
  have st: "set_target ?t p1 \<lparr>req_bytes := int (length ?w) + int (length ?t) + 2\<rparr> = p2"
    by (cases p; cases "req_query q = []")
      (use plain(2) in \<open>simp_all add: set_target_plain plain(1) p1_def p2_def RequestParser_clear_def\<close>)
  have 2: "request_uri m b1 e p1 = request_version m b2 e p2"
    using request_uri_ok [OF r(2) nt(1), of e p1] plain_decode [OF nt(2)] assms(3,4) len
      st [symmetric]
    by (simp add: b1_def b2_def p1_def ac_simps)
  have "request_version m b2 e p2 = request_headers m (b2 + 10) e
    (p2\<lparr>http_version_major := 1, http_version_minor := 1, req_progress := ParsingHeaders,
       req_bytes := req_bytes p2 + 10\<rparr>)"
    using request_version_ok [OF r(3)] assms(3,4) len by (simp add: b1_def b2_def)
  with 1 2 len show ?thesis
    by (simp add: RequestParser_parse_def in_headers_def p1_def p2_def b1_def b2_def RequestParser_clear_def ac_simps)
qed

lemma printable_keys:
  assumes "printable keys q"
  shows "\<forall>k \<in> set keys. good_key k \<and> (\<exists>v. req_headers q k = Some v \<and> good_value v)"
    "set keys = dom (req_headers q)"
  using assms by (auto simp: printable_def lists_keys_def)

lemma parse_printed:
  assumes "printable keys q" "Request_toString keys q = Inr text" "buffer_text (req_body q) = Inr body"
    "reads m b text" "b + int (length text) \<le> e" "e \<le> int (length m)"
  shows "RequestParser_parse m b e (RequestParser_clear p) =
    Inr (parsed q (length text - length body) (RequestParser_clear p))"
proof -
  let ?hs = "concat (map (header_line (req_headers q)) keys)" and ?b = "b + int (length (request_line q))"
  note tx = Request_toString_lines [OF assms(2,3)]
  have r: "reads m b (request_line q)" "reads m ?b (?hs @ crlf)"
    using assms(4) unfolding tx by (simp_all only: reads_append)
  have len: "int (length text) = int (length (request_line q)) + int (length ?hs) + 2 + int (length body)"
    unfolding tx by (simp add: crlf_def)
  have "?b + int (length ?hs) + 2 \<le> e" using assms(5) len by simp
  from request_headers_ok [OF printable_keys(1) [OF assms(1)] r(2) this assms(6)]
    parse_request_line [OF assms(1) r(1) _ assms(6)] show ?thesis
    using put_headers_all [OF printable_keys(2) [OF assms(1)]] len assms(5)
    by (simp add: parsed_def in_headers_def RequestParser_clear_def)
qed

text \<open>C22. Round trip of requests. The text that \<^verbatim>\<open>Request::toString\<close> prints, anywhere in the buffer and
  whatever follows it, is parsed from a cleared parser into \<^verbatim>\<open>Good\<close> with the same method, uri, query
  and headers, and \<^verbatim>\<open>bytes_\<close> counts everything but the body. This holds in whatever order the hash
  table lists the headers, for targets without blanks, percent signs, question marks and NULs,
  names that are not empty, hold no colon and do not end in white space, and values that are not
  empty and do not begin with white space.\<close>

theorem RequestParser_roundtrip:
  assumes "printable keys q" "Request_toString keys q = Inr text" "buffer_text (req_body q) = Inr body"
  shows "RequestParser_parse (pre @ map Some (text @ rest) @ post) (int (length pre))
      (int (length pre + length text + length rest)) (RequestParser_clear p) =
    Inr ((RequestParser_clear p)\<lparr>req_method := req_method q, req_uri := req_uri q,
      req_query := req_query q, req_headers := req_headers q, req_progress := Good,
      req_bytes := int (length text - length body), http_version_major := 1, http_version_minor := 1\<rparr>)"
proof -
  let ?m = "pre @ map Some (text @ rest) @ post"
  have "reads ?m (int (length pre)) text"
    using reads_here [of "int (length pre)" pre "text" "map Some rest @ post"] by simp
  from parse_printed [OF assms this] show ?thesis by (simp add: parsed_def)
qed

definition sample_request :: request_parser where
  "sample_request = RequestParser_new\<lparr>req_method := GET, req_uri := ''/a.txt'', req_query := ''x=1'',
     req_headers := [''Host'' \<mapsto> ''h:80'']\<rparr>"

lemma RequestParser_roundtrip_witness:
  "\<exists>text. Request_toString [''Host''] sample_request = Inr text \<and>
     (\<exists>r. RequestParser_parse (map Some text) 0 (int (length text)) (RequestParser_clear RequestParser_new) = Inr r
        \<and> req_uri r = ''/a.txt'' \<and> req_headers r ''Host'' = Some ''h:80'')"
proof -
  have prt: "printable [''Host''] sample_request"
    by (simp add: printable_def sample_request_def RequestParser_new_def plain_def lists_keys_def
        good_key_def good_value_def isspace_def)
  have bt: "buffer_text (req_body sample_request) = Inr []"
    by (simp add: sample_request_def RequestParser_new_def buffer_text_def Buffer_empty_def)
  obtain s where tx: "Request_toString [''Host''] sample_request = Inr s"
    using bt by (simp add: Request_toString_def)
  show ?thesis
    using RequestParser_roundtrip [OF prt tx bt, of "[]" "[]" "[]" RequestParser_new] tx
    by (simp add: sample_request_def RequestParser_new_def)
qed



section \<open>Every outcome of the parser\<close>

text \<open>
  Between two calls the parser is never inside the request line, and once it has left it the method
  and the version are valid ones.
\<close>

definition parser_wf :: "request_parser \<Rightarrow> bool" where
  "parser_wf r \<longleftrightarrow> req_progress r \<notin> {ParsingURI, ParsingVersion}
     \<and> (req_progress r \<in> {ParsingHeaders, Good} \<longrightarrow>
          req_method r \<noteq> INVALID_METHOD \<and> http_version_major r = 1 \<and> http_version_minor r \<in> {0, 1})
     \<and> set (req_uri r) \<inter> {CHR 0x00, CHR ''?''} = {} \<and> set (req_query r) \<inter> {CHR 0x00, CHR ''?''} = {}"

definition line_ok :: "request_parser \<Rightarrow> bool" where
  "line_ok r \<longleftrightarrow> set (req_uri r) \<inter> {CHR 0x00, CHR ''?''} = {} \<and> set (req_query r) \<inter> {CHR 0x00, CHR ''?''} = {}"

lemma ParseHeader_Inr:
  "RequestParser_ParseHeader m b e r = Inr r' \<Longrightarrow> \<exists>h. r' = r\<lparr>req_headers := h\<rparr>"
  by (auto simp: RequestParser_ParseHeader_def bind_res_Inr_iff)

lemma request_headers_wf:
  "request_headers m b e r = Inr r' \<Longrightarrow> b \<le> e \<Longrightarrow> parser_wf r \<Longrightarrow> req_progress r = ParsingHeaders \<Longrightarrow>
   parser_wf r' \<and> req_bytes r \<le> req_bytes r' \<and> req_bytes r' \<le> req_bytes r + (e - b) + 1
     \<and> (req_progress r' = ParsingHeaders \<longrightarrow> req_bytes r' = req_bytes r + (e - b))"
proof (induction m b e r arbitrary: r' rule: request_headers.induct)
  case (1 m b e r)
  show ?case
  proof (cases "b = e")
    case True
    with "1.prems" show ?thesis by (subst (asm) request_headers.simps) simp
  next
    case False
    then obtain f where f: "find_char m b e CHR 0x0A = Inr f"
      using "1.prems"(1) by (subst (asm) request_headers.simps) (auto simp: bind_res_Inr_iff)
    note fb = find_char_bounds [OF f]
    show ?thesis
    proof (cases "b = f \<or> b + 1 = f")
      case True
      then have "r' = r\<lparr>req_progress := Good, req_bytes := req_bytes r + (f + 1 - b)\<rparr>"
        using "1.prems"(1) False f by (subst (asm) request_headers.simps) simp
      with "1.prems" fb show ?thesis by (simp add: parser_wf_def)
    next
      case next_line: False
      then obtain le r1 where r1: "line_end m f = Inr le" "RequestParser_ParseHeader m b le r = Inr r1"
        "request_headers m (f + 1) e (r1\<lparr>req_bytes := req_bytes r1 + (f + 1 - b)\<rparr>) = Inr r'"
        using "1.prems"(1) False f by (subst (asm) request_headers.simps) (auto simp: bind_res_Inr_iff)
      obtain h where h: "r1 = r\<lparr>req_headers := h\<rparr>" using ParseHeader_Inr [OF r1(2)] by blast
      have "f + 1 \<le> e"
      proof (rule ccontr)
        assume "\<not> f + 1 \<le> e"
        then have "find_char m (f + 1) e CHR 0x0A = Inl Out_of_bounds" "f + 1 \<noteq> e"
          by (simp_all add: find_char_invalid)
        with r1(3) show False by (subst (asm) request_headers.simps) simp
      qed
      from "1.IH" [OF False f next_line r1(1,2,3) this] h "1.prems"(3,4) fb show ?thesis
        by (auto simp: parser_wf_def)
    qed
  qed
qed

lemma request_version_wf:
  assumes "request_version m b e r = Inr r'" "line_ok r" "req_method r \<noteq> INVALID_METHOD"
  shows "parser_wf r' \<and> req_bytes r \<le> req_bytes r' \<and> req_bytes r' \<le> req_bytes r + (e - b) + 1"
proof -
  obtain f le r1 where f: "find_char m b e CHR 0x0A = Inr f" "line_end m f = Inr le"
    "RequestParser_ParseHttpVersion m b le r = Inr r1"
    "if req_progress r1 = InvalidVersion then r' = r1
     else request_headers m (f + 1) e (r1\<lparr>req_bytes := req_bytes r1 + (f + 1 - b)\<rparr>) = Inr r'"
    using assms(1) by (fastforce simp: request_version_def bind_res_Inr_iff split: if_splits)
  note fb = find_char_bounds [OF f(1)]
  from f(3) consider "r1 = r\<lparr>req_progress := InvalidVersion\<rparr>"
    | v where "v = 0 \<or> v = 1"
        "r1 = r\<lparr>http_version_major := 1, http_version_minor := v, req_progress := ParsingHeaders\<rparr>"
    by (auto simp: RequestParser_ParseHttpVersion_def bind_res_Inr_iff split: if_splits)
  then show ?thesis
  proof cases
    case 1
    with f(4) assms(2) fb show ?thesis by (simp add: parser_wf_def line_ok_def)
  next
    case 2
    let ?r = "r1\<lparr>req_bytes := req_bytes r1 + (f + 1 - b)\<rparr>"
    have run: "request_headers m (f + 1) e ?r = Inr r'" using f(4) 2 by simp
    have wf: "parser_wf ?r" "req_progress ?r = ParsingHeaders"
      using 2 assms(2,3) by (auto simp: parser_wf_def line_ok_def)
    show ?thesis
    proof (cases "f + 1 \<le> e")
      case True
      from request_headers_wf [OF run this wf] 2 fb show ?thesis by simp
    next
      case False
      with run find_char_invalid [of e "f + 1" m] show ?thesis
        by (subst (asm) request_headers.simps) simp
    qed
  qed
qed

lemma c_string_free: "CHR 0x00 \<notin> set (c_string s)"
  by (auto simp: c_string_def dest: set_takeWhileD)

lemma c_string_subset: "set (c_string s) \<subseteq> set s"
  by (auto simp: c_string_def dest: set_takeWhileD)

lemma uri_loop_no_query:
  "uri_loop m src n i temp qi = Inr (t, q) \<Longrightarrow> CHR ''?'' \<notin> set temp \<Longrightarrow> CHR ''?'' \<notin> set t"
proof (induction m src n i temp qi arbitrary: t q rule: uri_loop.induct)
  case (1 m src n i temp qi)
  show ?case
  proof (cases "i < n")
    case False
    with "1.prems" show ?thesis by (subst (asm) uri_loop.simps) simp
  next
    case True
    let ?i = "\<lambda>c. (if c = CHR ''%'' then i + 2 else i) + 1"
    let ?x = "\<lambda>c. if c = CHR ''%'' then parse_hex m (src + i + 1) else Inr c"
    obtain c where c1: "char_at m (src + i) = Inr c"
      using "1.prems"(1) \<open>i < n\<close> by (cases "char_at m (src + i)") (simp_all add: uri_loop.simps [of m src n i])
    obtain x where c2: "?x c = Inr x"
      using "1.prems"(1) \<open>i < n\<close> c1 by (cases "?x c") (simp_all only: uri_loop.simps [of m src n i] if_True bind_res_simps, simp)
    note c = c1 c2
    have "uri_loop m src n i temp qi =
        (if x = CHR ''?'' then uri_loop m src n (?i c) (temp @ [CHR 0x00]) (int (length temp))
         else uri_loop m src n (?i c) (temp @ [x]) qi)"
      using \<open>i < n\<close> c by (subst uri_loop.simps) (simp only: if_True bind_res_simps Let_def)
    then have rest: "if x = CHR ''?'' then uri_loop m src n (?i c) (temp @ [CHR 0x00]) (int (length temp)) = Inr (t, q)
        else uri_loop m src n (?i c) (temp @ [x]) qi = Inr (t, q)"
      using "1.prems"(1) by simp
    show ?thesis
    proof (cases "x = CHR ''?''")
      case True
      from "1.IH"(1) [OF \<open>i < n\<close> c refl this, of t q] True rest "1.prems"(2) show ?thesis by simp
    next
      case False
      from "1.IH"(2) [OF \<open>i < n\<close> c refl False, of t q] False rest "1.prems"(2) show ?thesis by simp
    qed
  qed
qed

lemma ParseURI_Inr:
  assumes "RequestParser_ParseURI m b e r = Inr r'" "line_ok r"
  shows "line_ok r' \<and> req_bytes r' = req_bytes r \<and> req_method r' = req_method r"
proof -
  obtain t q where t: "uri_loop m b (e - b) 0 [] (- 1) = Inr (t, q)"
    "r' = (if q \<noteq> - 1 then r\<lparr>req_query := c_string (drop (nat (q + 1)) t)\<rparr> else r)
      \<lparr>req_uri := c_string t, req_progress := ParsingVersion\<rparr>"
    using assms(1) by (auto simp: RequestParser_ParseURI_def bind_res_Inr_iff Let_def)
  have "CHR ''?'' \<notin> set t" using uri_loop_no_query [OF t(1)] by simp
  then have "CHR ''?'' \<notin> set (c_string t)" "CHR ''?'' \<notin> set (c_string (drop (nat (q + 1)) t))"
    using c_string_subset by (blast dest: in_set_dropD)+
  then show ?thesis
    using t(2) assms(2) c_string_free by (auto simp: line_ok_def)
qed

text \<open>C24. Well-formedness of the parser. Whatever the input, if a call of \<^verbatim>\<open>parse\<close> returns, the parser
  is between lines (at the method, at the headers, \<^verbatim>\<open>Good\<close> or in an error state); past the request
  line the method is a known one and the version 1.0 or 1.1; uri and query hold no NUL and no
  question mark; and \<^verbatim>\<open>bytes_\<close> has grown by at most one more than the input has bytes.\<close>

theorem RequestParser_parse_wf:
  assumes "RequestParser_parse m b e r = Inr r'" "parser_wf r" "b \<le> e"
  shows "parser_wf r' \<and> req_bytes r \<le> req_bytes r' \<and> req_bytes r' \<le> req_bytes r + (e - b) + 1"
proof (cases "req_progress r")
  case ParsingMethod
  then obtain f r1 where f: "find_char m b e CHR '' '' = Inr f" "RequestParser_ParseMethod m b f r = Inr r1"
    "if req_progress r1 = InvalidMethod then r' = r1
     else request_uri m (f + 1) e (r1\<lparr>req_bytes := req_bytes r1 + (f + 1 - b)\<rparr>) = Inr r'"
    using assms(1) by (fastforce simp: RequestParser_parse_def request_method_def bind_res_Inr_iff split: if_splits)
  have ok: "line_ok r" using assms(2) by (simp add: parser_wf_def line_ok_def)
  note fb = find_char_bounds [OF f(1)]
  from f(2) consider "r1 = r\<lparr>req_progress := InvalidMethod\<rparr>"
    | k where "k \<noteq> INVALID_METHOD" "r1 = r\<lparr>req_method := k, req_progress := ParsingURI\<rparr>"
    by (auto simp: RequestParser_ParseMethod_def bind_res_Inr_iff methods_def split: if_splits)
  then show ?thesis
  proof cases
    case 1
    with f(3) ok fb show ?thesis by (simp add: parser_wf_def line_ok_def)
  next
    case 2
    then obtain g r2 where g: "find_char m (f + 1) e CHR '' '' = Inr g"
      "RequestParser_ParseURI m (f + 1) g (r1\<lparr>req_bytes := req_bytes r1 + (f + 1 - b)\<rparr>) = Inr r2"
      "request_version m (g + 1) e (r2\<lparr>req_bytes := req_bytes r2 + (g + 1 - (f + 1))\<rparr>) = Inr r'"
      using f(3) by (auto simp: request_uri_def bind_res_Inr_iff)
    have "line_ok (r1\<lparr>req_bytes := req_bytes r1 + (f + 1 - b)\<rparr>)" using ok 2 by (simp add: line_ok_def)
    from ParseURI_Inr [OF g(2) this] 2 have r2: "line_ok r2" "req_bytes r2 = req_bytes r + (f + 1 - b)"
      "req_method r2 \<noteq> INVALID_METHOD" by auto
    have "parser_wf r' \<and> req_bytes r2 + (g + 1 - (f + 1)) \<le> req_bytes r' \<and>
        req_bytes r' \<le> req_bytes r2 + (g + 1 - (f + 1)) + (e - (g + 1)) + 1"
      using request_version_wf [OF g(3)] r2 by (simp add: line_ok_def)
    with r2(2) fb find_char_bounds [OF g(1)] show ?thesis by simp
  qed
next
  case ParsingHeaders
  then show ?thesis
    using request_headers_wf [of m b e r r'] assms by (simp add: RequestParser_parse_def)
qed (use assms in \<open>simp_all add: RequestParser_parse_def parser_wf_def\<close>)

lemma RequestParser_parse_wf_witness:
  "case RequestParser_parse (map Some ''GET / HTTP/1.0\<newline>\<newline>'') 0 16 RequestParser_new of
     Inr r \<Rightarrow> parser_wf r | _ \<Rightarrow> False"
proof -
  have "case RequestParser_parse (map Some ''GET / HTTP/1.0\<newline>\<newline>'') 0 16 RequestParser_new of
     Inr r \<Rightarrow> req_progress r = Good | _ \<Rightarrow> False" by code_simp
  moreover have "parser_wf RequestParser_new" by (simp add: parser_wf_def RequestParser_new_def)
  ultimately show ?thesis
    using RequestParser_parse_wf [of "map Some ''GET / HTTP/1.0\<newline>\<newline>''" 0 16 RequestParser_new]
    by (auto split: sum.splits)
qed

section \<open>Incomplete and malformed requests\<close>

lemma request_headers_past_end: "e < b \<Longrightarrow> request_headers m b e r = Inl Out_of_bounds"
  by (subst request_headers.simps) (simp add: find_char_invalid)

text \<open>Requests that arrive in pieces. \<^verbatim>\<open>std::find\<close> answers \<^verbatim>\<open>end\<close> and not \<^verbatim>\<open>nullptr\<close>, so the parser
  never waits for the rest of a line. A piece of a header line of two bytes or more makes it run past
  the end of the input; a single byte is taken for the blank line, with one byte too many counted; a
  piece of a method name is an invalid method; a whole method name without the blank behind it runs
  past the end.\<close>

theorem RequestParser_incomplete_input:
  fixes pre post :: mem
  assumes "CHR 0x0A \<notin> set s" "CHR '' '' \<notin> set s"
  defines "m \<equiv> pre @ map Some s @ post" and "b \<equiv> int (length pre)" and "e \<equiv> int (length pre + length s)"
  shows "(req_progress r = ParsingHeaders \<longrightarrow>
      (length s \<ge> 2 \<longrightarrow> (\<exists>f. RequestParser_parse m b e r = Inl f))
      \<and> (length s = 1 \<longrightarrow>
          RequestParser_parse m b e r = Inr (r\<lparr>req_progress := Good, req_bytes := req_bytes r + 2\<rparr>)))
    \<and> (req_progress r = ParsingMethod \<longrightarrow>
      RequestParser_parse m b e r =
        (if map_of methods s = None then Inr (r\<lparr>req_progress := InvalidMethod\<rparr>) else Inl Out_of_bounds))"
proof (intro conjI impI)
  have s: "reads m b s" "e = b + int (length s)" by (simp_all add: m_def b_def e_def reads_here)
  have nl: "find_char m b e CHR 0x0A = Inr e" by (rule find_char_absent [OF s(1) assms(1) s(2)])
  have bl: "find_char m b e CHR '' '' = Inr e" by (rule find_char_absent [OF s(1) assms(2) s(2)])
  show "\<exists>f. RequestParser_parse m b e r = Inl f" if ph: "req_progress r = ParsingHeaders" and two: "2 \<le> length s"
  proof (cases "RequestParser_parse m b e r")
    case (Inr r')
    then have "request_headers m b e r = Inr r'" using ph by (simp add: RequestParser_parse_def)
    moreover have ne: "b \<noteq> e" "b + 1 \<noteq> e" using two s(2) by auto
    ultimately obtain r1 where "request_headers m (e + 1) e (r1\<lparr>req_bytes := req_bytes r1 + (e + 1 - b)\<rparr>) = Inr r'"
      using ne nl by (auto simp: request_headers.simps [of m b e r] bind_res_Inr_iff)
    then show ?thesis by (simp add: request_headers_past_end)
  qed blast
  show "RequestParser_parse m b e r = Inr (r\<lparr>req_progress := Good, req_bytes := req_bytes r + 2\<rparr>)"
    if "req_progress r = ParsingHeaders" "length s = 1"
    using that nl s(2) by (simp add: RequestParser_parse_def) (subst request_headers.simps, simp)
  have str: "string_of m b e = Inr s" by (rule string_of_reads [OF s])
  have uri: "request_uri m (e + 1) e r1 = Inl Out_of_bounds" for r1
    by (simp add: request_uri_def find_char_invalid)
  show "RequestParser_parse m b e r =
      (if map_of methods s = None then Inr (r\<lparr>req_progress := InvalidMethod\<rparr>) else Inl Out_of_bounds)"
    if "req_progress r = ParsingMethod"
    using that bl str s(2) uri
    by (auto simp: RequestParser_parse_def request_method_def RequestParser_ParseMethod_def split: option.splits)
qed

lemma RequestParser_incomplete_input_witness:
  "RequestParser_parse (map Some ''GE'') 0 2 RequestParser_new = Inr (RequestParser_new\<lparr>req_progress := InvalidMethod\<rparr>)
   \<and> RequestParser_parse (map Some ''GET'') 0 3 RequestParser_new = Inl Out_of_bounds"
proof -
  have "map_of methods ''GE'' = None" "map_of methods ''GET'' = Some GET"
    "req_progress RequestParser_new = ParsingMethod"
    by (simp_all add: methods_def RequestParser_new_def)
  then show ?thesis
    using RequestParser_incomplete_input [of "''GE''" RequestParser_new "[]" "[]"]
      RequestParser_incomplete_input [of "''GET''" RequestParser_new "[]" "[]"] by simp
qed

text \<open>Header lines without a value. A line without a colon, or with nothing but white space behind
  its first colon, makes the parser fault: \<^verbatim>\<open>right\<close> runs over the end of the line, and the string
  constructor throws or the read leaves the buffer. \<^verbatim>\<open>InvalidHeader\<close> is never reported.\<close>

theorem RequestParser_header_without_value:
  assumes "no_value line" "CHR 0x0A \<notin> set line" "line \<noteq> []" "req_progress r = ParsingHeaders"
  shows "\<exists>f. RequestParser_parse (pre @ map Some (line @ crlf @ rest) @ post) (int (length pre))
    (int (length pre + length line + 2 + length rest)) r = Inl f"
proof -
  let ?m = "pre @ map Some (line @ crlf @ rest) @ post" and ?b = "int (length pre)"
  let ?e = "int (length pre + length line + 2 + length rest)"
  have r: "reads ?m ?b (line @ crlf)"
    using reads_here [of ?b pre "line @ crlf" "map Some rest @ post"] by simp
  have "?e \<le> int (length ?m)" by (simp add: crlf_def)
  note f = find_crlf [OF r assms(2) _ this]
  have "reads ?m ?b (line @ [CHR 0x0D])"
    using r reads_append [of ?m ?b "line @ [CHR 0x0D]" "[CHR 0x0A]"] by (simp add: crlf_def)
  from parse_header_line_no_value [OF this _ assms(1) refl] obtain g where
    "parse_header_line ?m ?b (?b + int (length line)) = Inl g" by (auto simp: isspace_def)
  then have "request_headers ?m ?b ?e r = Inl g"
    using f assms(3) by (subst request_headers.simps) (simp add: RequestParser_ParseHeader_def)
  then show ?thesis using assms(4) by (simp add: RequestParser_parse_def)
qed

lemma RequestParser_header_without_value_witness:
  "\<exists>f. RequestParser_parse (map Some (''Accept: '' @ crlf @ crlf)) 0 12
     (RequestParser_new\<lparr>req_progress := ParsingHeaders\<rparr>) = Inl f"
  using RequestParser_header_without_value [of "''Accept: ''"
      "RequestParser_new\<lparr>req_progress := ParsingHeaders\<rparr>" "[]" crlf "[]"]
  by (simp add: no_value_def isspace_def crlf_def)

end
