(* ===== verification/Http_Reply.thy ===== *)
theory Http_Reply
  imports Http_Text
begin

text \<open>
  \<^verbatim>\<open>Reply\<close> and \<^verbatim>\<open>ReplyParser\<close> of \<^verbatim>\<open>src/src/http/HttpDef.h\<close> and \<^verbatim>\<open>HttpDef.cpp\<close>. The parser falls
  through from the status line to the headers and, at the blank line or at the end of the input, to
  the body, whose length it reads from the \<^verbatim>\<open>Content-Length\<close> header.
\<close>

section \<open>Replies\<close>

datatype reply_progress = ParseStarting | ParsingVersion | ParsingStatus | ParsingStatusString
  | ParsingHeaders | ParsingBody | Good | InvalidVersion | InvalidStatus | InvalidStatusString
  | InvalidHeader

record reply =
  rep_status :: int
  rep_content :: buf
  rep_headers :: headers

record reply_parser = reply +
  rep_progress :: reply_progress
  rep_bytes :: int

definition ReplyParser_clear :: "reply_parser \<Rightarrow> reply_parser" where
  "ReplyParser_clear r = r\<lparr>rep_progress := ParseStarting, rep_bytes := 0, rep_status := 0,
     rep_content := Buffer_retrieve_all (rep_content r), rep_headers := Map.empty\<rparr>"

definition ReplyParser_isError :: "reply_parser \<Rightarrow> bool" where
  "ReplyParser_isError r \<longleftrightarrow>
     rep_progress r \<in> {InvalidVersion, InvalidStatus, InvalidStatusString, InvalidHeader}"

definition ReplyParser_isGood :: "reply_parser \<Rightarrow> bool" where
  "ReplyParser_isGood r \<longleftrightarrow> rep_progress r = Good"

definition Reply_Error :: "int \<Rightarrow> string" where
  "Reply_Error errcode = []"

text \<open>\<^verbatim>\<open>toString\<close> also sets the \<^verbatim>\<open>Content-Length\<close> header of the reply.\<close>

definition Reply_headers :: "'a reply_scheme \<Rightarrow> headers res" where
  "Reply_headers r =
     (if Buffer_empty (rep_content r) then Inr (rep_headers r)
      else bind_res (Buffer_size (rep_content r)) (\<lambda>n.
           Inr ((rep_headers r)(''Content-Length'' \<mapsto> to_string n))))"

definition Reply_toString :: "string list \<Rightarrow> 'a reply_scheme \<Rightarrow> (string \<times> 'a reply_scheme) res" where
  "Reply_toString keys r =
     bind_res (Reply_headers r) (\<lambda>hs.
     bind_res (buffer_text (rep_content r)) (\<lambda>body.
     Inr (''HTTP/1.1 '' @ dict_at status_number (rep_status r) @ '' ''
            @ dict_at status_string (rep_status r) @ crlf
            @ concat (map (header_line hs) keys) @ crlf @ body,
          r\<lparr>rep_headers := hs\<rparr>)))"

section \<open>Parsing\<close>

definition ReplyParser_ParseHttpVersion :: "mem \<Rightarrow> int \<Rightarrow> int \<Rightarrow> reply_parser \<Rightarrow> reply_parser res" where
  "ReplyParser_ParseHttpVersion m b e r =
     bind_res (check (b \<le> e) Assertion) (\<lambda>_.
     if e - b \<noteq> 8 then Inr (r\<lparr>rep_progress := InvalidVersion\<rparr>)
     else bind_res (string_of m b e) (\<lambda>s.
       if s = ''HTTP/1.1'' then Inr (r\<lparr>rep_progress := ParsingStatus\<rparr>)
       else Inr (r\<lparr>rep_progress := InvalidVersion\<rparr>)))"

text \<open>An unknown status code is reported by the flag only; the state stays at \<open>ParsingStatus\<close>.\<close>

definition ReplyParser_ParseStatus :: "mem \<Rightarrow> int \<Rightarrow> int \<Rightarrow> reply_parser \<Rightarrow> (bool \<times> reply_parser) res" where
  "ReplyParser_ParseStatus m b e r =
     bind_res (string_of m b e) (\<lambda>s.
     bind_res (stoi s) (\<lambda>status.
     case map_of status_number status of
       None \<Rightarrow> Inr (False, r)
     | Some _ \<Rightarrow> Inr (True, r\<lparr>rep_progress := ParsingStatusString, rep_status := status\<rparr>)))"

definition ReplyParser_ParseStatusString :: "reply_parser \<Rightarrow> reply_parser" where
  "ReplyParser_ParseStatusString r = r\<lparr>rep_progress := ParsingHeaders\<rparr>"

definition ReplyParser_ParseHeader :: "mem \<Rightarrow> int \<Rightarrow> int \<Rightarrow> reply_parser \<Rightarrow> reply_parser res" where
  "ReplyParser_ParseHeader m b e r =
     bind_res (parse_header_line m b e) (\<lambda>(k, v). Inr (r\<lparr>rep_headers := (rep_headers r)(k \<mapsto> v)\<rparr>))"

definition reply_body :: "mem \<Rightarrow> int \<Rightarrow> int \<Rightarrow> reply_parser \<Rightarrow> reply_parser res" where
  "reply_body m b e r =
     bind_res (stoi (case rep_headers r ''Content-Length'' of None \<Rightarrow> [] | Some v \<Rightarrow> v)) (\<lambda>len.
     if len = 0 then Inr (r\<lparr>rep_progress := Good\<rparr>)
     else if e - b < len then Inr r
     else bind_res (Buffer_append_bytes (drop (nat b) m) len (rep_content r)) (\<lambda>c.
          Inr (r\<lparr>rep_progress := Good, rep_bytes := rep_bytes r + len, rep_content := c\<rparr>)))"

function reply_headers :: "mem \<Rightarrow> int \<Rightarrow> int \<Rightarrow> reply_parser \<Rightarrow> reply_parser res" where
  "reply_headers m b e r =
     (if b = e then reply_body m b e r
      else bind_res (find_char m b e CHR 0x0A) (\<lambda>f.
        if b = f \<or> b + 1 = f then
          reply_body m (f + 1) e (r\<lparr>rep_progress := ParsingBody, rep_bytes := rep_bytes r + (f + 1 - b)\<rparr>)
        else bind_res (line_end m f) (\<lambda>le.
             bind_res (ReplyParser_ParseHeader m b le r) (\<lambda>r.
             reply_headers m (f + 1) e (r\<lparr>rep_bytes := rep_bytes r + (f + 1 - b)\<rparr>)))))"
  by pat_completeness auto
termination
  by (relation "measure (\<lambda>(m, b, e, r). nat (e - b))") (auto dest!: find_char_bounds)

declare reply_headers.simps [simp del]

definition reply_status_string :: "mem \<Rightarrow> int \<Rightarrow> int \<Rightarrow> reply_parser \<Rightarrow> reply_parser res" where
  "reply_status_string m b e r =
     bind_res (find_char m b e CHR 0x0A) (\<lambda>f.
     bind_res (line_end m f) (\<lambda>_.
     let r = ReplyParser_ParseStatusString r
     in reply_headers m (f + 1) e (r\<lparr>rep_bytes := rep_bytes r + (f + 1 - b)\<rparr>)))"

definition reply_status :: "mem \<Rightarrow> int \<Rightarrow> int \<Rightarrow> reply_parser \<Rightarrow> reply_parser res" where
  "reply_status m b e r =
     bind_res (find_char m b e CHR '' '') (\<lambda>f.
     bind_res (ReplyParser_ParseStatus m b f r) (\<lambda>(ok, r).
     if ok then reply_status_string m (f + 1) e (r\<lparr>rep_bytes := rep_bytes r + (f + 1 - b)\<rparr>)
     else Inr r))"

definition reply_version :: "mem \<Rightarrow> int \<Rightarrow> int \<Rightarrow> reply_parser \<Rightarrow> reply_parser res" where
  "reply_version m b e r =
     bind_res (find_char m b e CHR '' '') (\<lambda>f.
     bind_res (ReplyParser_ParseHttpVersion m b f r) (\<lambda>r.
     if rep_progress r = InvalidVersion then Inr r
     else reply_status m (f + 1) e (r\<lparr>rep_bytes := rep_bytes r + (f + 1 - b)\<rparr>)))"

definition ReplyParser_parse :: "mem \<Rightarrow> int \<Rightarrow> int \<Rightarrow> reply_parser \<Rightarrow> reply_parser res" where
  "ReplyParser_parse m b e r =
     (case rep_progress r of
        ParseStarting \<Rightarrow> reply_version m b e (r\<lparr>rep_progress := ParsingVersion\<rparr>)
      | ParsingVersion \<Rightarrow> reply_version m b e r
      | ParsingStatus \<Rightarrow> reply_status m b e r
      | ParsingStatusString \<Rightarrow> reply_status_string m b e r
      | ParsingHeaders \<Rightarrow> reply_headers m b e r
      | ParsingBody \<Rightarrow> reply_body m b e r
      | _ \<Rightarrow> Inr r)"

section \<open>The parts of a reply\<close>

lemma reply_headers_line:
  assumes "reads m b (header_line hs k)" "good_key k" "hs k = Some v" "good_value v"
    "b + int (length (header_line hs k)) \<le> e" "e \<le> int (length m)"
  shows "reply_headers m b e r = reply_headers m (b + int (length (header_line hs k))) e
    (r\<lparr>rep_headers := (rep_headers r)(k \<mapsto> v), rep_bytes := rep_bytes r + int (length (header_line hs k))\<rparr>)"
  using header_line_step [OF assms] assms(5)
  by (subst reply_headers.simps) (simp add: ReplyParser_ParseHeader_def)

lemma reply_headers_end:
  assumes "reads m b crlf" "b + 2 \<le> e" "e \<le> int (length m)"
  shows "reply_headers m b e r =
    reply_body m (b + 2) e (r\<lparr>rep_progress := ParsingBody, rep_bytes := rep_bytes r + 2\<rparr>)"
proof -
  have "find_char m b e CHR 0x0A = Inr (b + 1)"
    using find_crlf(1) [of m b "[]" e] assms by simp
  then show ?thesis using assms(2) by (subst reply_headers.simps) (simp add: add.commute)
qed

lemma reply_headers_ok:
  assumes "\<forall>k \<in> set keys. good_key k \<and> (\<exists>v. hs k = Some v \<and> good_value v)"
    "reads m b (concat (map (header_line hs) keys) @ crlf)"
    "b + int (length (concat (map (header_line hs) keys))) + 2 \<le> e" "e \<le> int (length m)"
  shows "reply_headers m b e r =
    reply_body m (b + int (length (concat (map (header_line hs) keys))) + 2) e
      (r\<lparr>rep_headers := put_headers hs keys (rep_headers r), rep_progress := ParsingBody,
         rep_bytes := rep_bytes r + int (length (concat (map (header_line hs) keys))) + 2\<rparr>)"
  using assms(1-3)
proof (induction keys arbitrary: b r)
  case Nil
  then show ?case using reply_headers_end [of m b e r] assms(4) by simp
next
  case (Cons k keys)
  let ?n = "int (length (header_line hs k))"
  obtain v where v: "hs k = Some v" "good_value v" "good_key k" using Cons.prems(1) by auto
  have r: "reads m b (header_line hs k)" "reads m (b + ?n) (concat (map (header_line hs) keys) @ crlf)"
    using Cons.prems(2) by (simp_all add: reads_append add.assoc)
  show ?case
    using Cons.IH [OF _ r(2), of "r\<lparr>rep_headers := (rep_headers r)(k \<mapsto> v), rep_bytes := rep_bytes r + ?n\<rparr>"]
      reply_headers_line [OF r(1) v(3,1,2), of e r] Cons.prems assms(4) v
    by (simp add: add.assoc fun_upd_def)
qed

lemma status_number_texts:
  "\<forall>(n, s) \<in> set status_number. stoi s = Inr n \<and> CHR '' '' \<notin> set s \<and> n \<noteq> 0"
  by code_simp

lemma status_string_texts: "\<forall>(n, s) \<in> set status_string. CHR 0x0A \<notin> set s"
  by code_simp

lemma status_number_at:
  assumes "map_of status_number n = Some s"
  shows "dict_at status_number n = s" "stoi s = Inr n" "CHR '' '' \<notin> set s"
  using assms status_number_texts map_of_SomeD [OF assms] by (auto simp: dict_at_def)

lemma status_string_at: "CHR 0x0A \<notin> set (dict_at status_string n)"
proof (cases "map_of status_string n")
  case (Some s)
  with status_string_texts map_of_SomeD [OF Some] show ?thesis by (auto simp: dict_at_def)
qed (simp add: dict_at_def)

lemma reply_version_ok:
  assumes "reads m b (''HTTP/1.1'' @ '' '')" "b + 8 < e" "e \<le> int (length m)"
  shows "reply_version m b e r = reply_status m (b + 9) e
    (r\<lparr>rep_progress := ParsingStatus, rep_bytes := rep_bytes r + 9\<rparr>)"
proof -
  have f: "find_char m b e CHR '' '' = Inr (b + 8)"
    using find_blank [OF assms(1)] assms(2,3) by simp
  have "string_of m b (b + 8) = Inr ''HTTP/1.1''"
    using assms(1) [unfolded reads_append] by (intro string_of_reads) simp_all
  with f show ?thesis by (simp add: reply_version_def ReplyParser_ParseHttpVersion_def add.commute)
qed

lemma reply_status_ok:
  assumes "reads m b (s @ '' '')" "map_of status_number n = Some s" "b + int (length s) < e" "e \<le> int (length m)"
  shows "reply_status m b e r = reply_status_string m (b + int (length s) + 1) e
    (r\<lparr>rep_progress := ParsingStatusString, rep_status := n, rep_bytes := rep_bytes r + int (length s) + 1\<rparr>)"
proof -
  have "string_of m b (b + int (length s)) = Inr s"
    using assms(1) [unfolded reads_append] by (intro string_of_reads) simp_all
  then show ?thesis
    using find_blank [OF assms(1) status_number_at(3) [OF assms(2)] assms(3,4)]
      status_number_at(2) [OF assms(2)] assms(2)
    by (simp add: reply_status_def ReplyParser_ParseStatus_def add.assoc)
qed

lemma reply_status_string_ok:
  assumes "reads m b (s @ crlf)" "CHR 0x0A \<notin> set s" "b + int (length s) + 1 < e" "e \<le> int (length m)"
  shows "reply_status_string m b e r = reply_headers m (b + int (length s) + 2) e
    (r\<lparr>rep_progress := ParsingHeaders, rep_bytes := rep_bytes r + int (length s) + 2\<rparr>)"
  using find_crlf [OF assms]
  by (simp add: reply_status_string_def ReplyParser_ParseStatusString_def add.assoc)

lemma reply_body_ok:
  assumes "reads m b body" "body \<noteq> []" "b + int (length body) \<le> e"
    "rep_headers r ''Content-Length'' = Some (to_string (int (length body)))"
    "length body < 2 ^ 31" "buf_ok (rep_content r)"
  shows "\<exists>c. buf_ok c \<and> content c = content (rep_content r) @ map Some body \<and>
    reply_body m b e r = Inr (r\<lparr>rep_progress := Good, rep_bytes := rep_bytes r + int (length body),
      rep_content := c\<rparr>)"
proof -
  have len: "stoi (to_string (int (length body))) = Inr (int (length body))"
    using stoi_nat_string [OF assms(5)] by (simp add: to_string_def)
  have rd: "0 \<le> b" "int (length body) \<le> int (length (drop (nat b) m))"
    "take (nat (int (length body))) (drop (nat b) m) = map Some body"
    using assms(1) by (auto simp: reads_def)
  obtain c where "Buffer_append_bytes (drop (nat b) m) (int (length body)) (rep_content r) = Inr c"
    "buf_ok c" "content c = content (rep_content r) @ map Some body"
    using Buffer_append_bytes_ok [OF assms(6), of "int (length body)" "drop (nat b) m"] rd assms(2)
    by auto
  then show ?thesis
    using len assms(2-4) by (intro exI [of _ c]) (simp add: reply_body_def)
qed

definition rep_printable :: "string list \<Rightarrow> headers \<Rightarrow> bool" where
  "rep_printable keys hs \<longleftrightarrow> lists_keys keys hs \<and> (\<forall>k v. hs k = Some v \<longrightarrow> good_key k \<and> good_value v)"

text \<open>Everything up to the body.\<close>

lemma reply_head_ok:
  assumes "rep_printable keys hs" "map_of status_number n = Some s"
    "reads m b (''HTTP/1.1 '' @ s @ '' '' @ dict_at status_string n @ crlf
      @ concat (map (header_line hs) keys) @ crlf)"
    "h = length (''HTTP/1.1 '' @ s @ '' '' @ dict_at status_string n @ crlf
      @ concat (map (header_line hs) keys) @ crlf)"
    "b + int h \<le> e" "e \<le> int (length m)"
  shows "ReplyParser_parse m b e (ReplyParser_clear p) =
    reply_body m (b + int h) e ((ReplyParser_clear p)\<lparr>rep_status := n, rep_headers := hs,
      rep_progress := ParsingBody, rep_bytes := int h\<rparr>)"
proof -
  let ?hs = "concat (map (header_line hs) keys)"
  define V S T H where "V = ''HTTP/1.1'' @ '' ''" and "S = s @ '' ''" and "T = dict_at status_string n @ crlf"
    and "H = ?hs @ crlf"
  note parts = V_def S_def T_def H_def
  define b1 where "b1 = b + 9 + int (length s) + 1"
  define b2 where "b2 = b1 + int (length (dict_at status_string n)) + 2"
  have "reads m b (V @ S @ T @ H)" using assms(3) by (simp add: parts)
  then have "reads m b V \<and> reads m (b + int (length V)) S \<and> reads m (b + int (length V) + int (length S)) T
      \<and> reads m (b + int (length V) + int (length S) + int (length T)) H"
    by (simp only: reads_append)
  moreover have "b + int (length V) = b + 9" "b + 9 + int (length S) = b1" "b1 + int (length T) = b2"
    by (simp_all add: parts b1_def b2_def crlf_def)
  ultimately have "reads m b V \<and> reads m (b + 9) S \<and> reads m b1 T \<and> reads m b2 H" by metis
  then have r: "reads m b (''HTTP/1.1'' @ '' '')" "reads m (b + 9) (s @ '' '')"
    "reads m b1 (dict_at status_string n @ crlf)" "reads m b2 (?hs @ crlf)" unfolding parts by blast+
  have len: "int h = 9 + int (length s) + 1 + int (length (dict_at status_string n)) + 2 + int (length ?hs) + 2"
    by (simp add: assms(4) crlf_def)
  have fin: "b2 + int (length ?hs) + 2 = b + int h" by (simp add: len b1_def b2_def)
  have keys: "set keys = dom hs" using assms(1) by (simp add: rep_printable_def lists_keys_def)
  then have good: "\<forall>k \<in> set keys. good_key k \<and> (\<exists>v. hs k = Some v \<and> good_value v)"
    using assms(1) by (auto simp: rep_printable_def)
  let ?p = "(ReplyParser_clear p)\<lparr>rep_progress := ParsingVersion\<rparr>"
  have "ReplyParser_parse m b e (ReplyParser_clear p) = reply_version m b e ?p"
    by (simp add: ReplyParser_parse_def ReplyParser_clear_def)
  also have "\<dots> = reply_status m (b + 9) e (?p\<lparr>rep_progress := ParsingStatus, rep_bytes := 9\<rparr>)"
    using reply_version_ok [OF r(1), of e ?p] assms(5,6) len by (simp add: ReplyParser_clear_def)
  also have "\<dots> = reply_status_string m b1 e (?p\<lparr>rep_progress := ParsingStatusString, rep_status := n,
      rep_bytes := 9 + int (length s) + 1\<rparr>)"
    using reply_status_ok [OF r(2) assms(2), of e "?p\<lparr>rep_progress := ParsingStatus, rep_bytes := 9\<rparr>"]
      assms(5,6) len by (cases p) (simp add: b1_def ReplyParser_clear_def)
  also have "\<dots> = reply_headers m b2 e (?p\<lparr>rep_progress := ParsingHeaders, rep_status := n,
      rep_bytes := 9 + int (length s) + 1 + int (length (dict_at status_string n)) + 2\<rparr>)"
    using reply_status_string_ok [OF r(3) status_string_at, of e "?p\<lparr>rep_progress := ParsingStatusString,
      rep_status := n, rep_bytes := 9 + int (length s) + 1\<rparr>"] assms(5,6) len
    by (cases p) (simp add: b1_def b2_def ReplyParser_clear_def)
  also have "\<dots> = reply_body m (b + int h) e ((ReplyParser_clear p)\<lparr>rep_status := n, rep_headers := hs,
      rep_progress := ParsingBody, rep_bytes := int h\<rparr>)"
    using reply_headers_ok [OF good r(4) _ assms(6), unfolded fin, OF assms(5)] put_headers_all [OF keys] len
    by (cases p) (simp add: ReplyParser_clear_def)
  finally show ?thesis .
qed

section \<open>Properties\<close>

lemma content_retrieve_all [simp]: "content (Buffer_retrieve_all b) = []"
  by (simp add: content_def Buffer_retrieve_all_def)

lemma buf_ok_retrieve_all [simp]: "buf_ok b \<Longrightarrow> buf_ok (Buffer_retrieve_all b)"
  by (simp add: buf_ok_def Buffer_retrieve_all_def storage_def)

text \<open>C23. Round trip of replies. The text that \<^verbatim>\<open>Reply::toString\<close> prints for a known status code and
  a non-empty body sets \<^verbatim>\<open>Content-Length\<close>, and a cleared parser reads it back, wherever it stands and
  whatever follows: same status, same headers, same body, and \<^verbatim>\<open>bytes_\<close> is the length of the text.\<close>

theorem ReplyParser_roundtrip:
  fixes q :: reply and p :: reply_parser
  assumes "map_of status_number (rep_status q) \<noteq> None"
    "buf_ok (rep_content q)" "content (rep_content q) = map Some body" "body \<noteq> []" "length body < 2 ^ 31"
    "rep_printable keys ((rep_headers q)(''Content-Length'' \<mapsto> to_string (int (length body))))"
    "buf_ok (rep_content p)"
  defines "hs \<equiv> (rep_headers q)(''Content-Length'' \<mapsto> to_string (int (length body)))"
  shows "\<exists>text c. Reply_toString keys q = Inr (text, q\<lparr>rep_headers := hs\<rparr>)
    \<and> buf_ok c \<and> content c = map Some body
    \<and> ReplyParser_parse (pre @ map Some (text @ rest) @ post) (int (length pre))
        (int (length pre + length text + length rest)) (ReplyParser_clear p) =
      Inr ((ReplyParser_clear p)\<lparr>rep_status := rep_status q, rep_headers := hs, rep_content := c,
        rep_progress := Good, rep_bytes := int (length text)\<rparr>)"
proof -
  obtain s where s: "map_of status_number (rep_status q) = Some s" using assms(1) by blast
  define head where "head = ''HTTP/1.1 '' @ s @ '' '' @ dict_at status_string (rep_status q) @ crlf
      @ concat (map (header_line hs) keys) @ crlf"
  let ?text = "head @ body"
  let ?m = "pre @ map Some (?text @ rest) @ post" and ?b = "int (length pre)"
  let ?e = "int (length pre + length ?text + length rest)"
  have ne: "\<not> Buffer_empty (rep_content q)"
    using assms(3,4) content_Nil_iff [OF assms(2)] by (simp add: Buffer_empty_def)
  have "Reply_headers q = Inr hs"
    using ne Buffer_size_ok [OF assms(2)] assms(3) by (simp add: Reply_headers_def hs_def)
  then have str: "Reply_toString keys q = Inr (?text, q\<lparr>rep_headers := hs\<rparr>)"
    using buffer_text_ok [OF assms(2,3)] status_number_at(1) [OF s]
    by (simp add: Reply_toString_def head_def)
  have rd: "reads ?m ?b head" "reads ?m (?b + int (length head)) body"
    using reads_here [of ?b pre ?text "map Some rest @ post"] by (simp_all add: reads_append)
  let ?r = "(ReplyParser_clear p)\<lparr>rep_status := rep_status q, rep_headers := hs,
      rep_progress := ParsingBody, rep_bytes := int (length head)\<rparr>"
  have parse: "ReplyParser_parse ?m ?b ?e (ReplyParser_clear p) = reply_body ?m (?b + int (length head)) ?e ?r"
    by (rule reply_head_ok [OF assms(6) [folded hs_def] s]; (fold head_def)?; (rule rd(1) | simp)?)
  have "rep_headers ?r ''Content-Length'' = Some (to_string (int (length body)))"
    "buf_ok (rep_content ?r)" "content (rep_content ?r) = []"
    using assms(7) by (simp_all add: hs_def ReplyParser_clear_def)
  from reply_body_ok [OF rd(2) assms(4) _ this(1) assms(5) this(2), of ?e] this(3)
  obtain c where c: "buf_ok c" "content c = map Some body"
    "reply_body ?m (?b + int (length head)) ?e ?r = Inr (?r\<lparr>rep_progress := Good,
      rep_bytes := int (length head) + int (length body), rep_content := c\<rparr>)" by auto
  have "?r\<lparr>rep_progress := Good, rep_bytes := int (length head) + int (length body), rep_content := c\<rparr> =
    (ReplyParser_clear p)\<lparr>rep_status := rep_status q, rep_headers := hs, rep_content := c,
        rep_progress := Good, rep_bytes := int (length ?text)\<rparr>"
    by (cases p) (simp add: ReplyParser_clear_def)
  with str parse c show ?thesis by (intro exI [of _ ?text] exI [of _ c]) simp
qed

definition sample_reply :: reply where
  "sample_reply = \<lparr>rep_status = 404, rep_content = buf_of (map Some ''gone'') 0 4,
     rep_headers = [''Server'' \<mapsto> ''liby'']\<rparr>"

definition sample_parser :: reply_parser where
  "sample_parser = \<lparr>rep_status = 0, rep_content = Buffer_default, rep_headers = Map.empty,
     rep_progress = ParseStarting, rep_bytes = 0\<rparr>"

lemma ReplyParser_roundtrip_witness:
  "\<exists>text r. Reply_toString [''Content-Length'', ''Server''] sample_reply = Inr (text,
       sample_reply\<lparr>rep_headers := [''Server'' \<mapsto> ''liby'', ''Content-Length'' \<mapsto> ''4'']\<rparr>)
     \<and> ReplyParser_parse (map Some text) 0 (int (length text)) (ReplyParser_clear sample_parser) = Inr r
     \<and> rep_status r = 404 \<and> content (rep_content r) = map Some ''gone''"
proof -
  have four: "to_string (int (length ''gone'')) = ''4''" by code_simp
  have pk: "rep_printable [''Content-Length'', ''Server'']
      ((rep_headers sample_reply)(''Content-Length'' \<mapsto> to_string (int (length ''gone''))))"
    unfolding four by (auto simp: rep_printable_def lists_keys_def sample_reply_def good_key_def
        good_value_def isspace_def split: if_splits)
  have "map_of status_number (rep_status sample_reply) \<noteq> None" "buf_ok (rep_content sample_reply)"
    "content (rep_content sample_reply) = map Some ''gone''" "''gone'' \<noteq> []" "length ''gone'' < 2 ^ 31"
    "buf_ok (rep_content sample_parser)"
    by (simp_all add: sample_reply_def sample_parser_def status_number_def)
  from ReplyParser_roundtrip [OF this(1-5) pk this(6), of "[]" "[]" "[]"] show ?thesis
    unfolding four by (auto simp: sample_reply_def)
qed

text \<open>The length of a body. At the body, the parser throws \<^verbatim>\<open>std::invalid_argument\<close> when the reply
  has no \<^verbatim>\<open>Content-Length\<close>; for a length of 0 it is done; while fewer bytes than announced are there it
  leaves everything as it is and waits; and a negative length fails the assertion of
  \<^verbatim>\<open>Buffer::append\<close>. So the parser throws on every reply that \<^verbatim>\<open>Reply::toString\<close> prints without a body
  and without that header.\<close>

theorem ReplyParser_body_length:
  assumes "rep_progress r = ParsingBody"
  shows "(rep_headers r ''Content-Length'' = None \<longrightarrow>
      ReplyParser_parse m b e r = Inl (Thrown ''std::invalid_argument''))
    \<and> (rep_headers r ''Content-Length'' = Some (to_string (int n)) \<and> n < 2 ^ 31 \<longrightarrow>
        (n = 0 \<longrightarrow> ReplyParser_parse m b e r = Inr (r\<lparr>rep_progress := Good\<rparr>))
        \<and> (e - b < int n \<and> n \<noteq> 0 \<longrightarrow> ReplyParser_parse m b e r = Inr r))
    \<and> (rep_headers r ''Content-Length'' = Some (to_string (- int (Suc n))) \<and> n < 2 ^ 31 \<and> b \<le> e \<longrightarrow>
        ReplyParser_parse m b e r = Inl Assertion)"
proof (intro conjI impI; (elim conjE)?)
  have parse: "ReplyParser_parse m b e r = reply_body m b e r"
    using assms by (simp add: ReplyParser_parse_def)
  show "ReplyParser_parse m b e r = Inl (Thrown ''std::invalid_argument'')"
    if "rep_headers r ''Content-Length'' = None"
    using that parse by (simp add: reply_body_def stoi_def)
  show "ReplyParser_parse m b e r = Inr (r\<lparr>rep_progress := Good\<rparr>)"
    if "rep_headers r ''Content-Length'' = Some (to_string (int n))" "n < 2 ^ 31" "n = 0"
    using that parse stoi_nat_string [of n] by (simp add: reply_body_def to_string_def)
  show "ReplyParser_parse m b e r = Inr r"
    if "rep_headers r ''Content-Length'' = Some (to_string (int n))" "n < 2 ^ 31" "e - b < int n" "n \<noteq> 0"
    using that parse stoi_nat_string [of n] by (simp add: reply_body_def to_string_def)
  show "ReplyParser_parse m b e r = Inl Assertion"
    if "rep_headers r ''Content-Length'' = Some (to_string (- int (Suc n)))" "n < 2 ^ 31" "b \<le> e"
    using that parse stoi_neg_string [of "Suc n"]
    by (simp add: reply_body_def Buffer_append_bytes_def)
qed

lemma ReplyParser_body_length_witness:
  "ReplyParser_parse (map Some ''some body'') 0 9 (sample_parser\<lparr>rep_progress := ParsingBody\<rparr>) =
     Inl (Thrown ''std::invalid_argument'')"
  using ReplyParser_body_length [of "sample_parser\<lparr>rep_progress := ParsingBody\<rparr>" "map Some ''some body''" 0 9 0]
  by (simp add: sample_parser_def)

end
