(* ===== verification/Sockets.thy ===== *)
theory Sockets
  imports Numbers
begin

text \<open>
  \<^verbatim>\<open>FileDescriptor\<close>, \<^verbatim>\<open>Endpoint\<close> and \<^verbatim>\<open>Socket\<close> (\<^verbatim>\<open>src/src/\<close>). What the kernel answers to a system
  call is an argument: \<open>Inl\<close> with \<^verbatim>\<open>errno\<close> when the call returns -1, \<open>Inr\<close> with its result
  otherwise. An exception that carries \<^verbatim>\<open>strerror(errno)\<close> is \<open>Thrown\<close> with the name of the error;
  the messages of \<^verbatim>\<open>Endpoint\<close> are given in translation.
\<close>

datatype errno = EAGAIN | EINTR | EINPROGRESS | Errno string

fun strerror :: "errno \<Rightarrow> string" where
  "strerror EAGAIN = ''EAGAIN''"
| "strerror EINTR = ''EINTR''"
| "strerror EINPROGRESS = ''EINPROGRESS''"
| "strerror (Errno s) = s"

type_synonym 'a answer = "errno + 'a"

definition or_throw :: "'a answer \<Rightarrow> 'a res" where
  "or_throw a = (case a of Inl e \<Rightarrow> Inl (Thrown (strerror e)) | Inr x \<Rightarrow> Inr x)"

lemma or_throw_simps [simp]: "or_throw (Inl e) = Inl (Thrown (strerror e))" "or_throw (Inr x) = Inr x"
  by (simp_all add: or_throw_def)

section \<open>File descriptors\<close>

definition FileDescriptor :: "int \<Rightarrow> int res" where
  "FileDescriptor fd = (if fd < 0 then Inl (Thrown ''fd < 0'') else Inr fd)"

definition O_NONBLOCK :: "32 word" where
  "O_NONBLOCK = 0x800"

text \<open>The status flags that \<^verbatim>\<open>set_noblock\<close> leaves, given the answers to both calls of \<^verbatim>\<open>fcntl\<close>.\<close>

definition FileDescriptor_set_noblock :: "bool \<Rightarrow> 32 word answer \<Rightarrow> unit answer \<Rightarrow> 32 word res" where
  "FileDescriptor_set_noblock flag getfl setfl =
     bind_res (or_throw getfl) (\<lambda>opt.
     let opt = (if flag then Bit_Operations.or opt O_NONBLOCK
                else Bit_Operations.and opt (Bit_Operations.not O_NONBLOCK))
     in bind_res (or_throw setfl) (\<lambda>_. Inr opt))"

definition FileDescriptor_openFile :: "(string \<Rightarrow> nat option) \<Rightarrow> string \<Rightarrow> nat option" where
  "FileDescriptor_openFile open_file path = (if path \<noteq> [] then open_file path else None)"

definition FileDescriptor_getFileSize :: "(nat \<Rightarrow> int answer) \<Rightarrow> nat \<Rightarrow> int res" where
  "FileDescriptor_getFileSize fstat fd = or_throw (fstat fd)"

section \<open>Endpoints\<close>

text \<open>Both fields are kept in network byte order.\<close>

datatype endpoint = Endpoint (ep_addr: "32 word") (ep_port: "16 word")

definition htons :: "16 word \<Rightarrow> 16 word" where
  "htons w = Bit_Operations.or (push_bit 8 w) (drop_bit 8 w)"

definition Endpoint_of_sockaddr :: "(16 word \<times> 32 word) option \<Rightarrow> endpoint res" where
  "Endpoint_of_sockaddr sa =
     (case sa of None \<Rightarrow> Inl Assertion | Some (port, addr) \<Rightarrow> Inr (Endpoint addr port))"

text \<open>
  \<^verbatim>\<open>inet_pton\<close> answers 1 and the address, 0 for text that is no address, or -1; -1 is not below -1, so
  it ends in the last branch.
\<close>

definition Endpoint_of_text :: "(string \<Rightarrow> int \<times> 32 word) \<Rightarrow> string \<Rightarrow> 16 word \<Rightarrow> endpoint res" where
  "Endpoint_of_text inet_pton addr port =
     (let (ret, a) = inet_pton addr
      in if ret = 0 then Inl (Thrown ''invalid protocol'')
         else if ret < - 1 then Inl (Thrown ''an error was met'')
         else if ret \<noteq> 1 then Inl (Thrown ''unknown error'')
         else Inr (Endpoint a (htons port)))"

definition Endpoint_of_texts :: "(string \<Rightarrow> int \<times> 32 word) \<Rightarrow> string \<Rightarrow> string \<Rightarrow> endpoint res" where
  "Endpoint_of_texts inet_pton addr port =
     bind_res (stoi port) (\<lambda>p. Endpoint_of_text inet_pton addr (word_of_int p))"

text \<open>\<^verbatim>\<open>operator<\<close> compares the addresses first; it makes endpoints a linear order.\<close>

definition Endpoint_less :: "endpoint \<Rightarrow> endpoint \<Rightarrow> bool" where
  "Endpoint_less ep1 ep2 \<longleftrightarrow>
     (if ep_addr ep1 < ep_addr ep2 then True
      else if ep_addr ep1 = ep_addr ep2 \<and> ep_port ep1 < ep_port ep2 then True
      else False)"

instantiation endpoint :: linorder
begin

definition less_endpoint :: "endpoint \<Rightarrow> endpoint \<Rightarrow> bool" where
  "less_endpoint = Endpoint_less"

definition less_eq_endpoint :: "endpoint \<Rightarrow> endpoint \<Rightarrow> bool" where
  "less_eq_endpoint ep1 ep2 \<longleftrightarrow> \<not> ep2 < ep1"

instance
proof
  fix x y z :: endpoint
  note defs = less_endpoint_def less_eq_endpoint_def Endpoint_less_def
  show "x < y \<longleftrightarrow> x \<le> y \<and> \<not> y \<le> x" by (auto simp: defs)
  show "x \<le> x" by (simp add: defs)
  show "x \<le> y \<Longrightarrow> y \<le> z \<Longrightarrow> x \<le> z" by (auto simp: defs split: if_splits)
  show "x \<le> y \<Longrightarrow> y \<le> x \<Longrightarrow> x = y"
    by (cases x; cases y) (auto simp: defs split: if_splits)
  show "x \<le> y \<or> y \<le> x" by (auto simp: defs split: if_splits)
qed

end

section \<open>Sockets\<close>

record socket =
  isUdp :: bool
  sock_fd :: int
  sock_fp :: bool
  sock_ep :: endpoint

definition Socket_createSocket :: "int answer \<Rightarrow> socket \<Rightarrow> socket res" where
  "Socket_createSocket a s =
     bind_res (or_throw a) (\<lambda>fd. bind_res (FileDescriptor fd) (\<lambda>fd.
     Inr (s\<lparr>sock_fd := fd, sock_fp := True\<rparr>)))"

definition Socket_new :: "int answer \<Rightarrow> bool \<Rightarrow> socket res" where
  "Socket_new a udp = Socket_createSocket a \<lparr>isUdp = udp, sock_fd = - 1, sock_fp = False, sock_ep = Endpoint 0 0\<rparr>"

definition Socket_of_fp :: "int \<Rightarrow> bool \<Rightarrow> socket" where
  "Socket_of_fp fd udp = \<lparr>isUdp = udp, sock_fd = fd, sock_fp = True, sock_ep = Endpoint 0 0\<rparr>"

definition Socket_of_endpoint :: "int answer \<Rightarrow> endpoint \<Rightarrow> bool \<Rightarrow> socket res" where
  "Socket_of_endpoint a ep udp = Socket_createSocket a \<lparr>isUdp = udp, sock_fd = - 1, sock_fp = False, sock_ep = ep\<rparr>"

definition Socket_of_fp_endpoint :: "int \<Rightarrow> endpoint \<Rightarrow> bool \<Rightarrow> socket" where
  "Socket_of_fp_endpoint fd ep udp = \<lparr>isUdp = udp, sock_fd = fd, sock_fp = True, sock_ep = ep\<rparr>"

definition Socket_setFp :: "int option \<Rightarrow> socket \<Rightarrow> socket res" where
  "Socket_setFp fp s =
     (case fp of None \<Rightarrow> Inl Assertion | Some fd \<Rightarrow> Inr (s\<lparr>sock_fd := fd, sock_fp := True\<rparr>))"

definition Socket_setEndpoint :: "endpoint \<Rightarrow> socket \<Rightarrow> socket" where
  "Socket_setEndpoint ep s = s\<lparr>sock_ep := ep\<rparr>"

text \<open>\<^verbatim>\<open>setNoblock\<close> uses the descriptor object, which a socket made by these constructors has.\<close>

definition Socket_setNoblock :: "unit answer \<Rightarrow> socket \<Rightarrow> socket res" where
  "Socket_setNoblock a s =
     (if \<not> sock_fp s then Inl Null_deref else bind_res (or_throw a) (\<lambda>_. Inr s))"

definition Socket_setNonagle :: "unit answer \<Rightarrow> socket \<Rightarrow> socket res" where
  "Socket_setNonagle a s =
     bind_res (check (\<not> isUdp s) Assertion) (\<lambda>_. bind_res (or_throw a) (\<lambda>_. Inr s))"

text \<open>
  What the kernel answers to the calls that \<^verbatim>\<open>connect\<close> and \<^verbatim>\<open>listen\<close> make, by the descriptor and the
  address they are made for.
\<close>

record kernel =
  k_socket :: "int answer"
  k_fcntl :: "int \<Rightarrow> unit answer"
  k_connect :: "int \<Rightarrow> endpoint \<Rightarrow> unit answer"
  k_setsockopt :: "int \<Rightarrow> unit answer"
  k_bind :: "int \<Rightarrow> endpoint \<Rightarrow> unit answer"
  k_listen :: "int \<Rightarrow> unit answer"

definition Socket_connect :: "kernel \<Rightarrow> socket \<Rightarrow> socket res" where
  "Socket_connect k s =
     bind_res (if \<not> sock_fp s then Socket_createSocket (k_socket k) s else Inr s) (\<lambda>s.
     bind_res (Socket_setNoblock (k_fcntl k (sock_fd s)) s) (\<lambda>s.
     case k_connect k (sock_fd s) (sock_ep s) of
       Inl e \<Rightarrow> if e \<noteq> EINPROGRESS then Inl (Thrown (strerror e)) else Inr s
     | Inr _ \<Rightarrow> Inr s))"

definition Socket_listen :: "kernel \<Rightarrow> socket \<Rightarrow> socket res" where
  "Socket_listen k s =
     bind_res (if \<not> sock_fp s then Socket_createSocket (k_socket k) s else Inr s) (\<lambda>s.
     bind_res (Socket_setNoblock (k_fcntl k (sock_fd s)) s) (\<lambda>s.
     bind_res (or_throw (k_setsockopt k (sock_fd s))) (\<lambda>_.
     bind_res (or_throw (k_bind k (sock_fd s) (sock_ep s))) (\<lambda>_.
     if isUdp s then Inr s
     else bind_res (or_throw (k_listen k (sock_fd s))) (\<lambda>_. Inr s)))))"

text \<open>
  \<^verbatim>\<open>accept\<close> calls itself as long as it is interrupted. \<open>ans i\<close> is the kernel's \<open>i\<close>th answer; the
  result comes with the number of the next one.
\<close>

partial_function (option) Socket_accept ::
    "socket \<Rightarrow> (nat \<Rightarrow> (int \<times> endpoint) answer) \<Rightarrow> nat \<Rightarrow> (socket option res \<times> nat) option" where
  [code]: "Socket_accept s ans i =
     (if sock_fd s < 0 then Some (Inl Assertion, i)
      else case ans i of
        Inl e \<Rightarrow>
          if e = EAGAIN then Some (Inr None, i + 1)
          else if e = EINTR then Socket_accept s ans (i + 1)
          else Some (Inl (Thrown (strerror e)), i + 1)
      | Inr (fd, ep) \<Rightarrow>
          Some (bind_res (FileDescriptor fd) (\<lambda>fd. Inr (Some (Socket_of_fp_endpoint fd ep False))), i + 1))"

section \<open>Properties\<close>

lemma word_of_int_mod_16: "(word_of_int (n mod 65536) :: 16 word) = word_of_int n"
  by (simp add: word_of_int_eq_iff take_bit_eq_mod)

lemma htons_htons: "htons (htons w) = w"
  by (rule bit_eqI)
    (auto simp: htons_def bit_or_iff bit_push_bit_iff bit_drop_bit_eq dest: bit_imp_le_length)

text \<open>The port of an endpoint given as text. A decimal port is cut to its low 16 bits before it is put
  in network order, so \<^verbatim>\<open>65616\<close> is port 80, and no port is ever refused; text that is no number throws.\<close>

theorem Endpoint_port_wraps:
  assumes "n < 2 ^ 31"
  shows "Endpoint_of_texts pton addr (nat_string n) = Endpoint_of_texts pton addr (nat_string (n mod 65536))
    \<and> (fst (pton addr) = 1 \<longrightarrow>
        Endpoint_of_texts pton addr (nat_string n) = Inr (Endpoint (snd (pton addr)) (htons (of_nat n))))
    \<and> Endpoint_of_texts pton addr [] = Inl (Thrown ''std::invalid_argument'')
    \<and> htons (htons w) = w"
proof -
  have "n mod 65536 < 2 ^ 31" using assms by (rule le_less_trans [OF mod_less_eq_dividend])
  then have "stoi (nat_string n) = Inr (int n)" "stoi (nat_string (n mod 65536)) = Inr (int n mod 65536)"
    using stoi_nat_string [of n] stoi_nat_string [of "n mod 65536"] assms by (simp_all add: zmod_int)
  moreover have "stoi [] = Inl (Thrown ''std::invalid_argument'')" by (simp add: stoi_def)
  ultimately show ?thesis
    by (simp add: Endpoint_of_texts_def word_of_int_mod_16 htons_htons Endpoint_of_text_def
        split: prod.splits)
qed

lemma Endpoint_port_wraps_witness:
  "Endpoint_of_texts (\<lambda>_. (1, 0x0100007F)) ''127.0.0.1'' (nat_string 65616)
     = Endpoint_of_texts (\<lambda>_. (1, 0x0100007F)) ''127.0.0.1'' (nat_string 80)"
  using Endpoint_port_wraps [of 65616 "\<lambda>_. (1, 0x0100007F)" "''127.0.0.1''"] by simp

end
