(* ===== verification/Http_Server.thy ===== *)
theory Http_Server
  imports Http_Request Http_Reply Connections Sockets
begin

text \<open>
  \<^verbatim>\<open>HttpServer\<close> and \<^verbatim>\<open>HttpClient\<close> (\<^verbatim>\<open>src/src/http/\<close>) on top of \<^verbatim>\<open>Connection\<close> and the parsers. The
  file system is two arguments: \<open>open_file\<close>, the descriptor that \<^verbatim>\<open>open\<close> gives for a path, and
  \<open>fstat\<close>, the size that \<^verbatim>\<open>fstat\<close> answers for it; \<open>keys\<close> is the order in which the hash table of a reply lists
  its headers.
\<close>

section \<open>The server\<close>

text \<open>
  The handlers that the server hands to \<^verbatim>\<open>send\<close> and \<^verbatim>\<open>sendFile\<close>, and what they do to the
  connection. \<open>Finished\<close> only calls \<^verbatim>\<open>destroyLater\<close>, which queues the destruction with the loop.
\<close>

datatype http_handler = ServeFile nat int | Finished | DestroyConn

definition http_behaviour :: "http_handler cbehaviour" where
  "http_behaviour e es =
     (case e of Ran (ServeFile f n) \<Rightarrow> [SendFile f 0 n (Some Finished)] | Ran DestroyConn \<Rightarrow> [Destroy]
      | _ \<Rightarrow> [])"

record http_context =
  keep_alive :: bool
  requestParser :: request_parser

definition HttpContext_new :: http_context where
  "HttpContext_new = \<lparr>keep_alive = True, requestParser = RequestParser_new\<rparr>"

text \<open>Parsing what is in the read buffer and dropping what the parser took.\<close>

definition http_parse :: "http_context \<Rightarrow> 'h conn \<Rightarrow> (http_context \<times> 'h conn) res" where
  "http_parse x c =
     bind_res (Buffer_data (readBuf c)) (\<lambda>d. bind_res (Buffer_size (readBuf c)) (\<lambda>n.
     bind_res (RequestParser_parse (storage (readBuf c)) d (d + n) (requestParser x)) (\<lambda>r.
     bind_res (Buffer_retrieve (req_bytes r - req_bytes (requestParser x)) (readBuf c)) (\<lambda>b.
     Inr (x\<lparr>requestParser := r\<rparr>, c\<lparr>readBuf := b\<rparr>)))))"

definition file_reply :: "string \<Rightarrow> int \<Rightarrow> reply" where
  "file_reply uri n = \<lparr>rep_status = 200, rep_content = Buffer_default,
     rep_headers = [''Content-Length'' \<mapsto> to_string n, ''Content-Type'' \<mapsto> getMimeType uri]\<rparr>"

definition http_serve :: "string list \<Rightarrow> nat \<Rightarrow> int \<Rightarrow> string \<Rightarrow> http_handler conn \<Rightarrow> http_handler conn res" where
  "http_serve keys f n uri c =
     bind_res (Reply_toString keys (file_reply uri n)) (\<lambda>(s, _).
     Connection_send_string s (Some (ServeFile f n)) c)"

text \<open>\<^verbatim>\<open>headers_["Connection"]\<close> also inserts the key.\<close>

definition touch_connection :: "request_parser \<Rightarrow> request_parser" where
  "touch_connection r = r\<lparr>req_headers := (req_headers r)(''Connection'' \<mapsto>
     (case req_headers r ''Connection'' of None \<Rightarrow> [] | Some v \<Rightarrow> v))\<rparr>"

partial_function (option) http_server_loop ::
    "string \<Rightarrow> (string \<Rightarrow> nat option) \<Rightarrow> (nat \<Rightarrow> int answer) \<Rightarrow> string list \<Rightarrow> http_context \<Rightarrow>
     http_handler conn \<Rightarrow> (http_context \<times> http_handler conn) res option" where
  [code]: "http_server_loop root open_file fstat keys x c =
     (if Buffer_empty (readBuf c) then Some (Inr (x, c))
      else (case http_parse x c of
        Inl e \<Rightarrow> Some (Inl e)
      | Inr (x, c) \<Rightarrow>
          if RequestParser_isError (requestParser x) then
            Some (bind_res (Connection_send_string (Reply_Error 404) (Some DestroyConn) c) (\<lambda>c. Inr (x, c)))
          else if RequestParser_isGood (requestParser x) then
            (case FileDescriptor_openFile open_file (root @ req_uri (requestParser x)) of
               None \<Rightarrow> Some (Inr (x, c))
             | Some f \<Rightarrow>
                 (case FileDescriptor_getFileSize fstat f of
                    Inl _ \<Rightarrow> Some (Inr (x, c))
                  | Inr n \<Rightarrow>
                      (case http_serve keys f n (req_uri (requestParser x)) c of
                         Inl e \<Rightarrow> Some (Inl e)
                       | Inr c \<Rightarrow>
                           let r = touch_connection (requestParser x)
                           in if req_headers r ''Connection'' \<noteq> Some ''keep-alive'' then
                                Some (Inr (\<lparr>keep_alive = False, requestParser = r\<rparr>, c))
                              else http_server_loop root open_file fstat keys
                                     (x\<lparr>requestParser := RequestParser_clear r\<rparr>) c)))
          else Some (Inr (x, c))))"

definition HttpServer_handleErroEvent :: "'h conn \<Rightarrow> 'h conn" where
  "HttpServer_handleErroEvent c = Connection_destroy c"

section \<open>The client\<close>

text \<open>
  A request is queued with the number of its handler; \<open>answered\<close> records the replies that handlers
  were called with. \<open>SendNext\<close> is the handler that \<^verbatim>\<open>sendRequest\<close> hands to \<^verbatim>\<open>send\<close>.
\<close>

datatype client_handler = SendNext

record http_client =
  requestLists :: "(request \<times> nat option) list"
  sendReqeustLists :: "(request \<times> nat option) list"
  client_parser :: reply_parser
  http_conn :: "client_handler conn option"
  answered :: "(nat \<times> int) list"

definition HttpClient_destroy :: "http_client \<Rightarrow> http_client" where
  "HttpClient_destroy h = h\<lparr>requestLists := [], http_conn := None\<rparr>"

definition HttpClient_sendRequest :: "string list \<Rightarrow> http_client \<Rightarrow> http_client res" where
  "HttpClient_sendRequest keys h =
     (case requestLists h of
        [] \<Rightarrow> Inl Empty_container
      | (q, k) # qs \<Rightarrow>
          bind_res (Buffer_alloc 1024) (\<lambda>b.
          bind_res (Request_toString keys q) (\<lambda>s.
          bind_res (Buffer_append_string s b) (\<lambda>b.
          bind_res (Buffer_append_buffer (req_body q) b) (\<lambda>b.
          (case http_conn h of
             None \<Rightarrow> Inl Null_deref
           | Some c \<Rightarrow>
               bind_res (Connection_send_buffer b (Some SendNext) c) (\<lambda>(_, c).
               Inr (h\<lparr>http_conn := Some c, sendReqeustLists := sendReqeustLists h @ [(q, k)],
                      requestLists := qs\<rparr>))))))))"

definition HttpClient_get :: "string list \<Rightarrow> request \<Rightarrow> nat option \<Rightarrow> http_client \<Rightarrow> http_client res" where
  "HttpClient_get keys q k h =
     (let h = h\<lparr>requestLists := requestLists h @ [(q, k)]\<rparr>
      in if http_conn h \<noteq> None then HttpClient_sendRequest keys h else Inr h)"

definition HttpClient_handleConnection ::
    "string list \<Rightarrow> client_handler conn option \<Rightarrow> http_client \<Rightarrow> http_client res" where
  "HttpClient_handleConnection keys conn h =
     (case conn of
        None \<Rightarrow> Inl Null_deref
      | Some c \<Rightarrow>
          let h = h\<lparr>http_conn := Some (Connection_onErro True (Connection_onRead True c))\<rparr>
          in if requestLists h \<noteq> [] then HttpClient_sendRequest keys h else Inr h)"

definition HttpClient_handleErroEvent :: "http_client \<Rightarrow> http_client" where
  "HttpClient_handleErroEvent h = HttpClient_destroy h"

definition client_parse :: "reply_parser \<Rightarrow> buf \<Rightarrow> (reply_parser \<times> buf) res" where
  "client_parse r b =
     bind_res (Buffer_data b) (\<lambda>d. bind_res (Buffer_size b) (\<lambda>n.
     bind_res (ReplyParser_parse (storage b) d (d + n) r) (\<lambda>r'.
     bind_res (Buffer_retrieve (rep_bytes r' - rep_bytes r) b) (\<lambda>b'. Inr (r', b')))))"

definition client_answer :: "http_client \<Rightarrow> http_client res" where
  "client_answer h =
     (case sendReqeustLists h of
        [] \<Rightarrow> Inl Empty_container
      | (q, k) # qs \<Rightarrow>
          Inr (h\<lparr>answered := answered h @ (case k of None \<Rightarrow> [] | Some k \<Rightarrow> [(k, rep_status (client_parser h))]),
                 client_parser := ReplyParser_clear (client_parser h), sendReqeustLists := qs\<rparr>))"

text \<open>The loop over the read buffer \<open>b\<close> of the connection.\<close>

partial_function (option) client_loop :: "http_client \<Rightarrow> buf \<Rightarrow> (http_client \<times> buf) res option" where
  [code]: "client_loop h b =
     (if Buffer_empty b then Some (Inr (h, b))
      else (case client_parse (client_parser h) b of
        Inl e \<Rightarrow> Some (Inl e)
      | Inr (r, b) \<Rightarrow>
          let h = h\<lparr>client_parser := r\<rparr>
          in if ReplyParser_isError r then Some (Inr (HttpClient_handleErroEvent h, b))
             else if ReplyParser_isGood r then
               (case client_answer h of Inl e \<Rightarrow> Some (Inl e) | Inr h \<Rightarrow> client_loop h b)
             else client_loop h b))"

section \<open>Serving a request\<close>

lemma Buffer_not_empty: "buf_ok b \<Longrightarrow> content b \<noteq> [] \<Longrightarrow> \<not> Buffer_empty b"
  by (auto simp: Buffer_empty_def content_def)

lemma Buffer_empty_content: "buf_ok b \<Longrightarrow> Buffer_empty b \<longleftrightarrow> content b = []"
  by (simp add: Buffer_empty_def content_Nil_iff)

text \<open>A parse of the whole read buffer.\<close>

lemma http_parse_ok:
  assumes "buf_ok (readBuf c)" "content (readBuf c) = map Some s" "s \<noteq> []"
    "RequestParser_parse (storage (readBuf c)) (leftIndex (readBuf c)) (leftIndex (readBuf c) + int (length s))
       (requestParser x) = Inr r" "0 \<le> req_bytes r - req_bytes (requestParser x)"
  shows "\<exists>b. http_parse x c = Inr (x\<lparr>requestParser := r\<rparr>, c\<lparr>readBuf := b\<rparr>) \<and> buf_ok b
    \<and> Buffer_retrieve (req_bytes r - req_bytes (requestParser x)) (readBuf c) = Inr b
    \<and> content b = drop (nat (req_bytes r - req_bytes (requestParser x))) (map Some s)"
proof -
  obtain b where b: "Buffer_retrieve (req_bytes r - req_bytes (requestParser x)) (readBuf c) = Inr b"
    "buf_ok b" "content b = drop (nat (req_bytes r - req_bytes (requestParser x))) (map Some s)"
    using Buffer_retrieve_ok [OF assms(1,5)] assms(2) by auto
  then show ?thesis
    using assms by (simp add: http_parse_def Buffer_data_ok Buffer_size_ok)
qed

definition response_text :: "string list \<Rightarrow> int \<Rightarrow> string \<Rightarrow> string" where
  "response_text keys n uri = ''HTTP/1.1 200 Ok'' @ crlf
     @ concat (map (header_line [''Content-Length'' \<mapsto> to_string n, ''Content-Type'' \<mapsto> getMimeType uri]) keys)
     @ crlf"

lemma file_reply_text:
  "Reply_toString keys (file_reply uri n) = Inr (response_text keys n uri, file_reply uri n)"
proof -
  have "dict_at status_number 200 = ''200''" "dict_at status_string 200 = ''Ok''"
    by (simp_all add: dict_at_def status_number_def status_string_def)
  then show ?thesis
    by (simp add: Reply_toString_def Reply_headers_def file_reply_def response_text_def
        Buffer_empty_def buffer_text_def)
qed

lemma http_serve_ok:
  assumes "\<not> destroyed c"
  shows "http_serve keys f n uri c = Inr (c\<lparr>
    writTasks := writTasks c @ [buffer_task (buf_of (map Some (response_text keys n uri)) 0
      (length (response_text keys n uri))) (Some (ServeFile f n))],
    queued := queued c @ map (Byte \<circ> Some) (response_text keys n uri),
    promised := promised c @ [ServeFile f n], write_on := True\<rparr>)"
proof -
  have ne: "response_text keys n uri \<noteq> []" by (simp add: response_text_def)
  show ?thesis
    using assms ne Buffer_of_bytes_ok [of "int (length (response_text keys n uri))"
        "map Some (response_text keys n uri)"]
    by (simp add: http_serve_def file_reply_text Connection_send_string_def Connection_send_bytes_def
        push_task_def Connection_enableWrit_def buffer_task_def task_items_def)
qed

text \<open>What the handler does with a request that is complete.\<close>

definition queue_reply :: "string list \<Rightarrow> nat \<Rightarrow> int \<Rightarrow> string \<Rightarrow> http_handler conn \<Rightarrow> http_handler conn" where
  "queue_reply keys f n uri c = c\<lparr>
     writTasks := writTasks c @ [buffer_task (buf_of (map Some (response_text keys n uri)) 0
       (length (response_text keys n uri))) (Some (ServeFile f n))],
     queued := queued c @ map (Byte \<circ> Some) (response_text keys n uri),
     promised := promised c @ [ServeFile f n], write_on := True\<rparr>"

lemma server_loop_good:
  assumes "\<not> destroyed c" "\<not> Buffer_empty (readBuf c)" "req_progress r = request_progress.Good"
    "http_parse x c = Inr (x\<lparr>requestParser := r\<rparr>, c\<lparr>readBuf := b\<rparr>)"
    "root @ req_uri r \<noteq> []" "open_file (root @ req_uri r) = Some f" "fstat f = Inr n"
  shows "http_server_loop root open_file fstat keys x c =
    (let c' = queue_reply keys f n (req_uri r) (c\<lparr>readBuf := b\<rparr>); r' = touch_connection r in
     if req_headers r ''Connection'' = Some ''keep-alive''
     then http_server_loop root open_file fstat keys (x\<lparr>requestParser := RequestParser_clear r'\<rparr>) c'
     else Some (Inr (\<lparr>keep_alive = False, requestParser = r'\<rparr>, c')))"
proof -
  have serve: "http_serve keys f n (req_uri r) (c\<lparr>readBuf := b\<rparr>) = Inr (queue_reply keys f n (req_uri r) (c\<lparr>readBuf := b\<rparr>))"
    using http_serve_ok [of "c\<lparr>readBuf := b\<rparr>" keys f n "req_uri r"] assms(1) by (simp add: queue_reply_def)
  have r: "RequestParser_isGood r" "\<not> RequestParser_isError r"
    using assms(3) by (simp_all add: RequestParser_isGood_def RequestParser_isError_def)
  have conn: "req_headers (touch_connection r) ''Connection'' = Some ''keep-alive''
      \<longleftrightarrow> req_headers r ''Connection'' = Some ''keep-alive''"
    by (simp add: touch_connection_def split: option.splits)
  have fd: "FileDescriptor_openFile open_file (root @ req_uri r) = Some f"
    "FileDescriptor_getFileSize fstat f = Inr n"
    using assms(5-7) by (simp_all add: FileDescriptor_openFile_def FileDescriptor_getFileSize_def)
  show ?thesis
    using assms(2,4) r fd serve conn by (subst http_server_loop.simps) (simp add: Let_def)
qed

lemma server_loop_empty:
  "buf_ok (readBuf c) \<Longrightarrow> content (readBuf c) = [] \<Longrightarrow>
     http_server_loop root open_file fstat keys x c = Some (Inr (x, c))"
  using Buffer_empty_content [of "readBuf c"] by (subst http_server_loop.simps) simp

text \<open>The write event that follows: the response, then, queued by its handler, the file.\<close>

lemma serve_writes:
  assumes "\<not> destroyed c" "s \<noteq> []" "0 < n" "int (length s) \<le> r" "n \<le> r"
    "writTasks c = [buffer_task (buf_of (map Some s) 0 (length s)) (Some (ServeFile f n))]"
  shows "\<exists>c'. Connection_handleWritEvent http_behaviour [Room r, Room r] c = Some (Inr c')
    \<and> \<not> destroyed c' \<and> writTasks c' = [] \<and> readBuf c' = readBuf c
    \<and> wire c' = wire c @ map (Byte \<circ> Some) s @ file_items f 0 (nat n)
    \<and> cevents c' = cevents c @ [Ran (ServeFile f n), Ran Finished]"
proof -
  let ?t = "buffer_task (buf_of (map Some s) 0 (length s)) (Some (ServeFile f n))"
  let ?file = "\<lparr>fp = Some f, foffset = 0, flen = n, tbuffer = None, thandler = Some Finished\<rparr>"
  let ?c = "c\<lparr>wire := wire c @ map (Byte \<circ> Some) s\<rparr>"
  define c1 where "c1 = ?c\<lparr>cevents := cevents c @ [Ran (ServeFile f n)], writTasks := [?file],
    queued := queued c @ task_items ?file, promised := promised c @ [Finished], write_on := True\<rparr>"
  have g: "gather [?t] = Inr (map (Byte \<circ> Some) s)"
    using assms(2) Buffer_size_ok [of "buf_of (map Some s) 0 (length s)"]
      Buffer_data_ok [of "buf_of (map Some s) 0 (length s)"]
    by (simp add: buffer_task_def)
  have handler: "run_handler http_behaviour (Some (ServeFile f n)) ?c =
      Inr (c1\<lparr>writTasks := [?t, ?file]\<rparr>)"
    using assms(1,6)
    by (cases c) (simp add: run_handler_def run_cev_def http_behaviour_def Connection_sendFile_def push_task_def
        Connection_enableWrit_def c1_def)
  have "consume http_behaviour (int (length s)) ?c = Some (Inr (False, c1))"
    using assms(1,2,6) handler Buffer_size_ok [of "buf_of (map Some s) 0 (length s)"]
    by (cases c; subst consume.simps, subst consume.simps) (simp add: buffer_task_def c1_def)
  then have round1: "writ_round http_behaviour (Room r) c = Some (Inr (False, c1))"
    using g assms(1,2,4,6) by (simp add: writ_round_def buffer_task_def)
  let ?c2 = "c1\<lparr>wire := wire c1 @ file_items f 0 (nat n), cevents := cevents c1 @ [Ran Finished],
    writTasks := []\<rparr>"
  have round2: "writ_round http_behaviour (Room r) c1 = Some (Inr (False, ?c2))"
    using assms(1,3,5)
    by (cases c) (simp add: writ_round_def c1_def min_absorb2 run_handler_def run_cev_def http_behaviour_def)
  have round3: "writ_round http_behaviour WouldBlock ?c2 = Some (Inr (True, ?c2))"
    by (simp add: writ_round_def)
  have "Connection_handleWritEvent http_behaviour [Room r, Room r] c = Some (Inr ?c2)"
    using assms(1,6) round1 round2 round3 by (simp add: Connection_handleWritEvent_def)
  then show ?thesis
    using assms(1) by (intro exI [of _ ?c2]) (simp add: c1_def)
qed

lemma server_loop_serves:
  assumes "\<not> destroyed c" "buf_ok (readBuf c)" "content (readBuf c) = map Some s" "s \<noteq> []"
    "requestParser x = RequestParser_clear p" "printable hkeys q" "Request_toString hkeys q = Inr s"
    "buffer_text (req_body q) = Inr []" "root @ req_uri q \<noteq> []" "open_file (root @ req_uri q) = Some f" "fstat f = Inr n"
  shows "\<exists>x' b. http_server_loop root open_file fstat keys x c =
      Some (Inr (x', queue_reply keys f n (req_uri q) (c\<lparr>readBuf := b\<rparr>)))
    \<and> buf_ok b \<and> content b = []
    \<and> keep_alive x' = (keep_alive x \<and> req_headers q ''Connection'' = Some ''keep-alive'')"
proof -
  let ?r = "parsed q (length s) (RequestParser_clear p)"
  have rd: "reads (storage (readBuf c)) (leftIndex (readBuf c)) s" by (rule reads_content [OF assms(2,3)])
  have r: "req_progress ?r = request_progress.Good" "req_uri ?r = req_uri q" "req_headers ?r = req_headers q"
    by (simp_all add: parsed_def)
  obtain b where b: "http_parse x c = Inr (x\<lparr>requestParser := ?r\<rparr>, c\<lparr>readBuf := b\<rparr>)" "buf_ok b" "content b = []"
    using http_parse_ok [OF assms(2,3,4), of x ?r] parse_printed [OF assms(6,7,8) rd] reads_length [OF rd] assms(5)
    by (auto simp: parsed_def RequestParser_clear_def)
  let ?c = "queue_reply keys f n (req_uri q) (c\<lparr>readBuf := b\<rparr>)"
  have ne: "\<not> Buffer_empty (readBuf c)" using Buffer_not_empty [OF assms(2)] assms(3,4) by simp
  have empty: "http_server_loop root open_file fstat keys y ?c = Some (Inr (y, ?c))" for y
    using b(2,3) by (intro server_loop_empty) (simp_all add: queue_reply_def)
  let ?r' = "touch_connection ?r"
  define x' where "x' = (if req_headers q ''Connection'' = Some ''keep-alive''
    then x\<lparr>requestParser := RequestParser_clear ?r'\<rparr> else \<lparr>keep_alive = False, requestParser = ?r'\<rparr>)"
  have "http_server_loop root open_file fstat keys x c = Some (Inr (x', ?c))"
    using server_loop_good [OF assms(1) ne r(1) b(1), of root open_file f fstat n keys] assms(9-11) r empty
    by (simp add: Let_def x'_def)
  moreover have "keep_alive x' = (keep_alive x \<and> req_headers q ''Connection'' = Some ''keep-alive'')"
    by (simp add: x'_def)
  ultimately show ?thesis using b(2,3) by blast
qed

text \<open>The server, end to end. When the text of a printable request stands in the read buffer of a
  live connection with nothing to write, and \<^verbatim>\<open>open\<close> finds the file at the root followed by the uri as
  it was sent, the read event consumes the request and queues the response; and a write event for
  which the kernel has room puts exactly the status line, the two headers and the \<open>n\<close> bytes of the
  file on the wire. The uri is not restricted, so \<^verbatim>\<open>/../\<close> leaves the root.\<close>

theorem HttpServer_serves:
  assumes "\<not> destroyed c" "buf_ok (readBuf c)" "content (readBuf c) = map Some s" "writTasks c = []"
    "requestParser x = RequestParser_clear p" "printable hkeys q" "Request_toString hkeys q = Inr s"
    "buffer_text (req_body q) = Inr []" "root @ req_uri q \<noteq> []" "open_file (root @ req_uri q) = Some f" "fstat f = Inr n"
    "0 < n" "n \<le> r" "int (length (response_text keys n (req_uri q))) \<le> r"
  shows "\<exists>x' c1 c2. http_server_loop root open_file fstat keys x c = Some (Inr (x', c1))
    \<and> content (readBuf c1) = []
    \<and> keep_alive x' = (keep_alive x \<and> req_headers q ''Connection'' = Some ''keep-alive'')
    \<and> Connection_handleWritEvent http_behaviour [Room r, Room r] c1 = Some (Inr c2)
    \<and> \<not> destroyed c2 \<and> writTasks c2 = []
    \<and> wire c2 = wire c @ map (Byte \<circ> Some) (response_text keys n (req_uri q)) @ file_items f 0 (nat n)"
proof -
  let ?s = "response_text keys n (req_uri q)"
  have ne: "s \<noteq> []" using assms(7,8) by (auto simp: Request_toString_def)
  obtain x' b where b: "http_server_loop root open_file fstat keys x c =
      Some (Inr (x', queue_reply keys f n (req_uri q) (c\<lparr>readBuf := b\<rparr>)))"
    "content b = []" "keep_alive x' = (keep_alive x \<and> req_headers q ''Connection'' = Some ''keep-alive'')"
    using server_loop_serves [of c s x p hkeys q root open_file f fstat n keys,
      OF assms(1-3) ne assms(5-11)] by (elim exE conjE) (rule that)
  let ?c1 = "queue_reply keys f n (req_uri q) (c\<lparr>readBuf := b\<rparr>)"
  have "?s \<noteq> []" by (simp add: response_text_def)
  then obtain c2 where "Connection_handleWritEvent http_behaviour [Room r, Room r] ?c1 = Some (Inr c2)"
    "\<not> destroyed c2" "writTasks c2 = []"
    "wire c2 = wire c @ map (Byte \<circ> Some) ?s @ file_items f 0 (nat n)"
    using serve_writes [of ?c1 ?s n r f] assms(1,4,12-14) by (auto simp: queue_reply_def)
  with b show ?thesis by (intro exI [of _ x'] exI [of _ ?c1] exI [of _ c2]) (simp add: queue_reply_def)
qed

definition sample_text :: string where
  "sample_text = ''GET /../etc/passwd?x=1 HTTP/1.1'' @ crlf @ ''Host: h:80'' @ crlf @ crlf"

definition sample_conn :: "http_handler conn" where
  "sample_conn = \<lparr>destroyed = False, read_on = True, write_on = False,
     readBuf = buf_of (map Some sample_text) 0 (length sample_text), writTasks = [], has_readcb = True,
     has_errocb = True, cevents = [], wire = [], queued = [], promised = []\<rparr>"

lemma HttpServer_serves_witness:
  "\<exists>x' c1 c2. http_server_loop ''/srv'' [''/srv/../etc/passwd'' \<mapsto> 9] (\<lambda>_. Inr 3) [''Content-Length'']
       (HttpContext_new\<lparr>requestParser := RequestParser_clear RequestParser_new\<rparr>) sample_conn = Some (Inr (x', c1))
    \<and> Connection_handleWritEvent http_behaviour [Room 100, Room 100] c1 = Some (Inr c2)
    \<and> wire c2 = map (Byte \<circ> Some) (''HTTP/1.1 200 Ok'' @ crlf @ ''Content-Length: 3'' @ crlf @ crlf)
        @ [FileByte 9 0, FileByte 9 1, FileByte 9 2]"
proof -
  define q where "q = sample_request\<lparr>req_uri := ''/../etc/passwd''\<rparr>"
  have prt: "printable [''Host''] q"
    by (simp add: q_def printable_def sample_request_def RequestParser_new_def plain_def lists_keys_def
        good_key_def good_value_def isspace_def)
  have bt: "buffer_text (req_body q) = Inr []"
    by (simp add: q_def sample_request_def RequestParser_new_def buffer_text_def Buffer_empty_def)
  have str: "Request_toString [''Host''] q = Inr sample_text"
    using bt by (simp add: Request_toString_def q_def sample_request_def RequestParser_new_def sample_text_def
        dict_at_def methods_string_def header_line_def)
  have three: "to_string 3 = ''3''" by code_simp
  have resp: "response_text [''Content-Length''] 3 (req_uri q) =
      ''HTTP/1.1 200 Ok'' @ crlf @ ''Content-Length: 3'' @ crlf @ crlf"
    using three by (simp add: response_text_def header_line_def)
  have "length (response_text [''Content-Length''] 3 (req_uri q)) = 38"
    unfolding resp by (simp add: crlf_def)
  then show ?thesis
    using HttpServer_serves [of sample_conn sample_text
        "HttpContext_new\<lparr>requestParser := RequestParser_clear RequestParser_new\<rparr>" RequestParser_new
        "[''Host'']" q "''/srv''" "[''/srv/../etc/passwd'' \<mapsto> 9]" 9 "\<lambda>_. Inr 3" 3 100 "[''Content-Length'']"]
      prt bt str
    unfolding resp by (auto simp: sample_conn_def q_def eval_nat_numeral file_items.simps)
qed

text \<open>Bad requests. When the first word in the buffer is no known method, the read event queues
  nothing and leaves the connection open with the bytes in its buffer: \<^verbatim>\<open>Reply::Error\<close> is the empty
  string, for which \<^verbatim>\<open>send\<close> does nothing, not even keep the handler that would destroy the connection.
  Every later read event ends the same way.\<close>

theorem HttpServer_ignores_bad_requests:
  assumes "buf_ok (readBuf c)" "content (readBuf c) = map Some (w @ '' '' @ rest)" "CHR '' '' \<notin> set w"
    "map_of methods w = None" "req_progress (requestParser x) = ParsingMethod"
  defines "x' \<equiv> x\<lparr>requestParser := (requestParser x)\<lparr>req_progress := InvalidMethod\<rparr>\<rparr>"
  shows "http_server_loop root open_file fstat keys x c = Some (Inr (x', c))
    \<and> (\<forall>d s. buf_ok (readBuf d) \<and> content (readBuf d) = map Some s \<longrightarrow>
        http_server_loop root open_file fstat keys x' d = Some (Inr (x', d)))"
proof (intro conjI allI impI; (elim conjE)?)
  have stay: "Buffer_retrieve 0 b = Inr b" if "buf_ok b" for b
    using that by (simp add: Buffer_retrieve_def Buffer_size_ok)
  have err: "RequestParser_isError (requestParser x')" by (simp add: x'_def RequestParser_isError_def)
  show "http_server_loop root open_file fstat keys x' d = Some (Inr (x', d))"
    if ok: "buf_ok (readBuf d)" "content (readBuf d) = map Some s" for d :: "http_handler conn" and s
  proof (cases "s = []")
    case True
    with ok Buffer_empty_content [OF ok(1)] show ?thesis by (subst http_server_loop.simps) simp
  next
    case False
    have "RequestParser_parse m b e (requestParser x') = Inr (requestParser x')" for m b e
      by (simp add: RequestParser_parse_def x'_def)
    then have "http_parse x' d = Inr (x', d)"
      using http_parse_ok [OF ok False, of x' "requestParser x'"] stay [OF ok(1)] by auto
    with ok False err Buffer_not_empty [OF ok(1)] show ?thesis
      by (subst http_server_loop.simps) (simp add: Reply_Error_def Connection_send_string_def)
  qed
  let ?m = "storage (readBuf c)" and ?b = "leftIndex (readBuf c)" and ?s = "w @ '' '' @ rest"
  have rd: "reads ?m ?b ?s" by (rule reads_content [OF assms(1,2)])
  have r1: "reads ?m ?b (w @ '' '')" and r2: "reads ?m ?b w"
    using rd reads_append [of ?m ?b "w @ '' ''" rest] reads_append [of ?m ?b w "'' '' @ rest"] by simp_all
  have "find_char ?m ?b (?b + int (length ?s)) CHR '' '' = Inr (?b + int (length w))"
    using find_blank [OF r1 assms(3)] reads_length [OF rd] by simp
  then have "RequestParser_parse ?m ?b (?b + int (length ?s)) (requestParser x) = Inr (requestParser x')"
    using assms(4,5) string_of_reads [OF r2 refl]
    by (simp add: RequestParser_parse_def request_method_def RequestParser_ParseMethod_def x'_def)
  then have "http_parse x c = Inr (x', c)"
    using http_parse_ok [OF assms(1,2), of x "requestParser x'"] stay [OF assms(1)] by (auto simp: x'_def)
  then show "http_server_loop root open_file fstat keys x c = Some (Inr (x', c))"
    using Buffer_not_empty [OF assms(1)] assms(2) err
    by (subst http_server_loop.simps) (simp add: Reply_Error_def Connection_send_string_def)
qed

lemma HttpServer_ignores_bad_requests_witness:
  "\<exists>x. http_server_loop [] Map.empty (\<lambda>_. Inr 0) [] HttpContext_new
     (sample_conn\<lparr>readBuf := buf_of (map Some ''BREW /'') 0 6\<rparr>)
   = Some (Inr (x, sample_conn\<lparr>readBuf := buf_of (map Some ''BREW /'') 0 6\<rparr>))"
  using HttpServer_ignores_bad_requests [of "sample_conn\<lparr>readBuf := buf_of (map Some ''BREW /'') 0 6\<rparr>"
      "''BREW''" "''/''" HttpContext_new "[]" Map.empty "\<lambda>_. Inr 0" "[]"]
  by (auto simp: methods_def HttpContext_new_def RequestParser_new_def)

section \<open>The client\<close>

lemma Buffer_retrieve_zero: "buf_ok b \<Longrightarrow> Buffer_retrieve 0 b = Inr b"
  by (simp add: Buffer_retrieve_def Buffer_size_ok)

text \<open>A reply whose body has not arrived: nothing is consumed and nothing changes.\<close>

lemma client_parse_waits:
  assumes "buf_ok b" "content b = map Some s" "s \<noteq> []" "rep_progress r = ParsingBody"
    "rep_headers r ''Content-Length'' = Some (to_string (int n))" "n < 2 ^ 31" "length s < n"
  shows "client_parse r b = Inr (r, b)"
proof -
  have "stoi (to_string (int n)) = Inr (int n)"
    using stoi_nat_string [OF assms(6)] by (simp add: to_string_def)
  then have "ReplyParser_parse m d (d + int (length s)) r = Inr r" for m d
    using assms(4,5,7) by (simp add: ReplyParser_parse_def reply_body_def)
  then show ?thesis
    using assms(1-3) Buffer_retrieve_zero [OF assms(1)]
    by (simp add: client_parse_def Buffer_data_ok Buffer_size_ok)
qed

lemma client_loop_stuck:
  assumes "client_parse (client_parser h) b = Inr (client_parser h, b)" "\<not> Buffer_empty b"
    "\<not> ReplyParser_isError (client_parser h)" "\<not> ReplyParser_isGood (client_parser h)"
  shows "client_loop h b = None"
proof -
  have "client_loop h' b' = Some r \<Longrightarrow> h' = h \<and> b' = b \<Longrightarrow> False" for h' b' r
  proof (induction h' b' r rule: client_loop.raw_induct [rotated, consumes 1, case_names step])
    case (step loop h' b' r)
    then have "loop h b = Some r" using assms by (simp add: Let_def)
    from step.IH [OF this] show ?case by simp
  qed
  then show ?thesis by (cases "client_loop h b") auto
qed

text \<open>C26. The client waits in the event loop. When the head of a reply has been parsed and part of its
  body is in the read buffer, the read handler of the client never returns: its loop leaves only on an
  empty buffer or an error, and the parser consumes nothing before the whole body is there.\<close>

theorem HttpClient_spins:
  assumes "buf_ok b" "content b = map Some s" "s \<noteq> []" "rep_progress (client_parser h) = ParsingBody"
    "rep_headers (client_parser h) ''Content-Length'' = Some (to_string (int n))" "n < 2 ^ 31" "length s < n"
  shows "client_loop h b = None"
proof (rule client_loop_stuck)
  show "client_parse (client_parser h) b = Inr (client_parser h, b)" by (rule client_parse_waits [OF assms])
  show "\<not> Buffer_empty b" using Buffer_not_empty [OF assms(1)] assms(2,3) by simp
qed (simp_all add: assms(4) ReplyParser_isError_def ReplyParser_isGood_def)

lemma HttpClient_spins_witness:
  "client_loop \<lparr>requestLists = [], sendReqeustLists = [], client_parser = sample_parser\<lparr>rep_progress := ParsingBody,
     rep_headers := [''Content-Length'' \<mapsto> ''9'']\<rparr>, http_conn = None, answered = []\<rparr>
     (buf_of (map Some ''part'') 0 4) = None"
proof -
  have "to_string (int 9) = ''9''" by code_simp
  then show ?thesis by (intro HttpClient_spins [of _ "''part''" _ 9]) simp_all
qed

text \<open>What the client sends. A request to a live connection goes out as the text of
  \<^verbatim>\<open>Request::toString\<close>, which already ends with the body, then the NUL that \<^verbatim>\<open>append(std::string)\<close> adds,
  then the body a second time; the request moves from the waiting list to the sent list.\<close>

theorem HttpClient_sends:
  assumes "requestLists h = (q, k) # qs" "http_conn h = Some c" "\<not> destroyed c"
    "Request_toString keys q = Inr s" "buf_ok (req_body q)" "content (req_body q) = map Some body"
  shows "\<exists>c'. HttpClient_sendRequest keys h = Inr (h\<lparr>http_conn := Some c',
      sendReqeustLists := sendReqeustLists h @ [(q, k)], requestLists := qs\<rparr>)
    \<and> queued c' = queued c @ map (Byte \<circ> Some) (s @ CHR 0x00 # body)
    \<and> (\<exists>front. s = front @ body)"
proof -
  obtain b0 where b0: "Buffer_alloc 1024 = Inr b0" "buf_ok b0" "content b0 = []"
    by (simp add: Buffer_alloc_ok)
  obtain b1 where b1: "Buffer_append_string s b0 = Inr b1" "buf_ok b1"
    "content b1 = map Some (s @ [CHR 0x00])"
    using Buffer_append_bytes_ok [OF b0(2), of "int (length s) + 1" "cstr s"] b0(3)
    by (auto simp: Buffer_append_string_def cstr_def nat_add_distrib)
  obtain b2 where b2: "Buffer_append_buffer (req_body q) b1 = Inr b2" "buf_ok b2"
    "content b2 = map Some (s @ CHR 0x00 # body)"
  proof (cases "content (req_body q) = []")
    case True
    then have "Buffer_empty (req_body q)" using Buffer_empty_content [OF assms(5)] by simp
    with b1 True assms(6) show ?thesis by (intro that [of b1]) (simp_all add: Buffer_append_buffer_def)
  next
    case False
    let ?src = "drop (nat (leftIndex (req_body q))) (storage (req_body q))"
    have rd: "reads (storage (req_body q)) (leftIndex (req_body q)) body"
      by (rule reads_content [OF assms(5,6)])
    have "0 < int (length body)" using False assms(6) by simp
    moreover have "int (length body) \<le> int (length ?src)" "take (length body) ?src = map Some body"
      using rd by (auto simp: reads_def)
    ultimately obtain b2 where "Buffer_append_bytes ?src (int (length body)) b1 = Inr b2" "buf_ok b2"
      "content b2 = content b1 @ map Some body"
      using Buffer_append_bytes_ok [OF b1(2), of "int (length body)" ?src] by auto
    with b1 False assms(5,6) Buffer_not_empty [OF assms(5)] show ?thesis
      by (intro that [of b2]) (simp_all add: Buffer_append_buffer_def Buffer_data_ok Buffer_size_ok)
  qed
  have ne: "content b2 \<noteq> []" using b2(3) by simp
  have "0 < int (length (content b2))" using ne by simp
  then have "0 < capacity b2" "leftIndex b2 \<le> rightIndex b2"
    using length_content [OF b2(2)] b2(2) by (simp_all add: buf_ok_def)
  then obtain cap fresh where cap: "Buffer_capacity b2 = Inr cap" "Buffer_alloc cap = Inr fresh"
    using buf_ok_bufptr [OF b2(2) ne] by (auto simp: Buffer_capacity_def Buffer_alloc_ok)
  obtain c' y where c': "Connection_send_buffer b2 (Some SendNext) c = Inr (y, c')"
    "queued c' = queued c @ map Byte (content b2)"
    using cap assms(3)
    by (simp add: Connection_send_buffer_def Buffer_swap_def push_task_def Connection_enableWrit_def
        buffer_task_def task_items_def)
  have "\<exists>front. s = front @ body"
    using assms(4) buffer_text_ok [OF assms(5,6)] by (auto simp: Request_toString_def)
  with assms(1,2,4) b0(1) b1(1) b2 c' show ?thesis
    by (intro exI [of _ c']) (simp add: HttpClient_sendRequest_def)
qed

definition sample_post :: request where
  "sample_post = \<lparr>req_method = POST, req_uri = ''/'', req_query = [], req_headers = Map.empty,
     req_body = buf_of (map Some ''ab'') 0 2\<rparr>"

definition idle_conn :: "client_handler conn" where
  "idle_conn = \<lparr>destroyed = False, read_on = True, write_on = False, readBuf = Buffer_default,
     writTasks = [], has_readcb = True, has_errocb = True, cevents = [], wire = [], queued = [], promised = []\<rparr>"

lemma HttpClient_sends_witness:
  "\<exists>c'. HttpClient_sendRequest [] \<lparr>requestLists = [(sample_post, None)], sendReqeustLists = [],
       client_parser = sample_parser, http_conn = Some idle_conn, answered = []\<rparr>
     = Inr \<lparr>requestLists = [], sendReqeustLists = [(sample_post, None)], client_parser = sample_parser,
       http_conn = Some c', answered = []\<rparr>
     \<and> queued c' = map (Byte \<circ> Some) (''POST / HTTP/1.1'' @ crlf @ crlf @ ''ab'' @ CHR 0x00 # ''ab'')"
proof -
  have body: "buf_ok (req_body sample_post)" "content (req_body sample_post) = map Some ''ab''"
    by (simp_all add: sample_post_def)
  have str: "Request_toString [] sample_post = Inr (''POST / HTTP/1.1'' @ crlf @ crlf @ ''ab'')"
    using buffer_text_ok [OF body]
    by (simp add: Request_toString_def sample_post_def dict_at_def methods_string_def)
  show ?thesis
    using HttpClient_sends [of "\<lparr>requestLists = [(sample_post, None)], sendReqeustLists = [],
       client_parser = sample_parser, http_conn = Some idle_conn, answered = []\<rparr>" sample_post None "[]"
       idle_conn "[]", OF _ _ _ str body]
    by (auto simp: idle_conn_def)
qed

end
