(* ===== verification/Served_Conns.thy ===== *)
theory Served_Conns
  imports Connections
begin

text \<open>
  Connections of programs that send what their callbacks were given (\<^verbatim>\<open>src/src/Connection.cpp\<close>): a locale for
  the shape of a queue that every write event keeps, interpreted on the queues of the servers and
  relays, and what one event of a channel does to such a connection.
\<close>

section \<open>Queues of buffers\<close>

text \<open>A plain queue has only buffers with something in them and without handlers.\<close>

definition plain_tasks :: "'h io_task list \<Rightarrow> bool" where
  "plain_tasks ts \<longleftrightarrow> (\<forall>t \<in> set ts. buffer_ready t \<and> thandler t = None)"

text \<open>A closing queue ends with a buffer whose handler destroys the connection.\<close>

definition closing_tasks :: "'h \<Rightarrow> 'h io_task list \<Rightarrow> bool" where
  "closing_tasks h ts \<longleftrightarrow> (\<exists>us t. ts = us @ [t] \<and> plain_tasks us \<and> buffer_ready t \<and> thandler t = Some h)"

text \<open>What a connection has been given, in order.\<close>

definition outgoing :: "'h conn \<Rightarrow> item list" where
  "outgoing c = wire c @ items_of (writTasks c)"

text \<open>What accounting for \<open>n\<close> written bytes does, \<open>ret\<close> being the answer of the inner loop: only a complete queue
  may have destroyed the connection.\<close>

definition took :: "('h io_task list \<Rightarrow> bool) \<Rightarrow> nat \<Rightarrow> 'h conn \<Rightarrow> bool \<Rightarrow> 'h conn \<Rightarrow> bool" where
  "took P n c ret c' \<longleftrightarrow>
     (if destroyed c' then ret \<and> n = length (items_of (writTasks c)) \<and> wire c' = wire c
      else \<exists>ts. c' = c\<lparr>writTasks := ts\<rparr> \<and> P ts \<and> items_of ts = drop n (items_of (writTasks c)))"

text \<open>A write event leaves all but the queue and the wire alone, or destroys the connection.\<close>

definition wrote :: "('h io_task list \<Rightarrow> bool) \<Rightarrow> 'h conn \<Rightarrow> 'h conn \<Rightarrow> bool" where
  "wrote P c c' \<longleftrightarrow>
     (if destroyed c' then \<exists>rest. outgoing c = wire c' @ rest
      else P (writTasks c') \<and> outgoing c' = outgoing c \<and> readBuf c' = readBuf c
        \<and> has_readcb c' = has_readcb c \<and> has_errocb c' = has_errocb c
        \<and> read_on c' = read_on c \<and> (writTasks c' \<noteq> [] \<longrightarrow> writTasks c \<noteq> [] \<and> write_on c' = write_on c))"

definition calm :: "'h cbehaviour \<Rightarrow> bool" where
  "calm beh \<longleftrightarrow> (\<forall>es. beh ErroCb es = [])"

lemma handleErro_calm:
  assumes "calm beh"
  shows "\<exists>c'. Connection_handleErroEvent beh c = Inr c' \<and> destroyed c' \<and> wire c' = wire c"
  using assms
  by (auto simp: Connection_handleErroEvent_def run_cev_def calm_def Connection_destroy_def)

lemma wrote_dead: "destroyed c' \<Longrightarrow> wire c' = wire c \<Longrightarrow> wrote P c c'"
  by (simp add: wrote_def outgoing_def)

lemma wrote_same: "P (writTasks c) \<Longrightarrow> \<not> destroyed c \<Longrightarrow> wrote P c c"
  by (simp add: wrote_def)

lemma wrote_trans: "wrote P c d \<Longrightarrow> \<not> destroyed d \<Longrightarrow> wrote P d e \<Longrightarrow> wrote P c e"
  by (auto simp: wrote_def split: if_splits)

lemma consume_nothing: "consume beh 0 c = Some (Inr (False, c))"
  by (subst consume.simps) simp

text \<open>Part of the first buffer is written, or all of it.\<close>

lemma consume_part:
  assumes "writTasks c = t # ts" "buffer_ready t" "0 < n" "n < length (task_items t)"
  shows "\<exists>u. consume beh (int n) c = Some (Inr (True, c\<lparr>writTasks := u # ts\<rparr>)) \<and> buffer_ready u
    \<and> thandler u = thandler t \<and> task_items u = drop n (task_items t)"
proof -
  from assms(2) obtain b where b: "fp t = None" "tbuffer t = Some b" "buf_ok b" "content b \<noteq> []"
    by (auto simp: buffer_ready_def)
  then have items: "task_items t = map Byte (content b)" by (simp add: task_items_def)
  obtain b' where b': "Buffer_retrieve (int n) b = Inr b'" "buf_ok b'" "content b' = drop n (content b)"
    using Buffer_retrieve_ok [OF b(3), of "int n"] by auto
  have "consume beh (int n) c = Some (Inr (True, c\<lparr>writTasks := t\<lparr>tbuffer := Some b'\<rparr> # ts\<rparr>))"
    using assms(1,3,4) b b' items by (subst consume.simps) (simp add: Buffer_size_ok)
  then show ?thesis
    using b b' assms(4) items by (intro exI [of _ "t\<lparr>tbuffer := Some b'\<rparr>"])
      (simp add: buffer_ready_def task_items_def drop_map)
qed

lemma consume_whole:
  assumes "writTasks c = t # ts" "buffer_ready t" "thandler t = None" "0 < n" "length (task_items t) \<le> n"
  shows "consume beh (int n) c = consume beh (int (n - length (task_items t))) (c\<lparr>writTasks := ts\<rparr>)"
proof -
  from assms(2) obtain b where b: "fp t = None" "tbuffer t = Some b" "buf_ok b" "content b \<noteq> []"
    by (auto simp: buffer_ready_def)
  moreover from this have "length (content b) \<le> n" using assms(5) by (simp add: task_items_def)
  ultimately show ?thesis
    using assms(1,3,4)
    by (subst consume.simps) (simp add: Buffer_size_ok run_handler_def of_nat_diff task_items_def)
qed

lemma consume_plain:
  assumes "plain_tasks (writTasks c)" "n \<le> length (items_of (writTasks c))"
  shows "\<exists>ret ts. consume beh (int n) c = Some (Inr (ret, c\<lparr>writTasks := ts\<rparr>)) \<and> plain_tasks ts
    \<and> items_of ts = drop n (items_of (writTasks c))"
  using assms
proof (induction "writTasks c" arbitrary: c n)
  case Nil
  then show ?case using consume_nothing [of beh c]
    by (intro exI [of _ False] exI [of _ "[]"]) (cases c, simp)
next
  case (Cons t ts)
  note tasks = Cons.hyps(2) [symmetric]
  from Cons.prems(1) tasks have t: "buffer_ready t" "thandler t = None" "plain_tasks ts"
    by (auto simp: plain_tasks_def)
  consider "n = 0" | (part) "0 < n" "n < length (task_items t)" | (whole) "0 < n" "length (task_items t) \<le> n"
    by fastforce
  then show ?case
  proof cases
    case 1
    then show ?thesis using consume_nothing [of beh c] Cons.prems
      by (intro exI [of _ False] exI [of _ "writTasks c"]) simp
  next
    case part
    obtain u where "consume beh (int n) c = Some (Inr (True, c\<lparr>writTasks := u # ts\<rparr>))" "buffer_ready u"
      "thandler u = thandler t" "task_items u = drop n (task_items t)"
      using consume_part [OF tasks t(1) part] by blast
    with t part tasks show ?thesis
      by (intro exI [of _ True] exI [of _ "u # ts"]) (simp add: plain_tasks_def)
  next
    case whole
    let ?n = "n - length (task_items t)"
    have "?n \<le> length (items_of ts)" using Cons.prems(2) tasks by simp
    then show ?thesis
      using Cons.hyps(1) [of "c\<lparr>writTasks := ts\<rparr>" ?n] t(3) tasks whole consume_whole [OF tasks t(1,2) whole] by simp
  qed
qed

section \<open>Write events on a queue of some shape\<close>

locale write_tasks =
  fixes beh :: "'h cbehaviour" and P :: "'h io_task list \<Rightarrow> bool"
  assumes beh_calm: "calm beh"
    and all_ready: "P ts \<Longrightarrow> t \<in> set ts \<Longrightarrow> buffer_ready t"
    and consumes: "P (writTasks c) \<Longrightarrow> \<not> destroyed c \<Longrightarrow> n \<le> length (items_of (writTasks c)) \<Longrightarrow>
      \<exists>ret c'. consume beh (int n) c = Some (Inr (ret, c')) \<and> took P n c ret c'"
begin

lemma gathers: "P (writTasks c) \<Longrightarrow> gather (writTasks c) = Inr (items_of (writTasks c))"
  using gather_ready [of "writTasks c" "[]"] all_ready by simp

text \<open>A system call with room for \<open>n\<close> of the bytes.\<close>

lemma round_room:
  assumes "P (writTasks c)" "\<not> destroyed c" "writTasks c = t # ts" "0 < min r (int (length (items_of (writTasks c))))"
  shows "\<exists>n ret c'. int n = min r (int (length (items_of (writTasks c))))
    \<and> writ_round beh (Room r) c = Some (Inr (ret, c'))
    \<and> took P n (c\<lparr>wire := wire c @ take n (items_of (writTasks c))\<rparr>) ret c'"
proof -
  define all_items where "all_items = items_of (writTasks c)"
  define n where "n = nat (min r (int (length all_items)))"
  let ?c = "c\<lparr>wire := wire c @ take n all_items\<rparr>"
  have t: "fp t = None" using all_ready [OF assms(1), of t] assms(3) by (simp add: buffer_ready_def)
  have g: "gather (writTasks c) = Inr all_items" unfolding all_items_def by (rule gathers [OF assms(1)])
  have n: "int n = min r (int (length all_items))" "n \<le> length (items_of (writTasks ?c))"
    using assms(4) by (simp_all add: n_def all_items_def)
  have "\<not> min r (int (length all_items)) \<le> 0" using assms(4) unfolding all_items_def by linarith
  then have "writ_round beh (Room r) c = consume beh (int n) ?c"
    using assms(2,3) t g n(1) by (simp add: writ_round_def Let_def n_def)
  moreover obtain ret c' where "consume beh (int n) ?c = Some (Inr (ret, c'))" "took P n ?c ret c'"
    using consumes [of ?c n] assms(1,2) n(2) by auto
  ultimately show ?thesis using n(1) by (auto simp: all_items_def)
qed

lemma round_wrote:
  assumes "P (writTasks c)" "\<not> destroyed c"
  shows "\<exists>ret c'. writ_round beh a c = Some (Inr (ret, c')) \<and> wrote P c c' \<and> (destroyed c' \<longrightarrow> ret)"
proof (cases "writTasks c")
  case Nil
  then have "writ_round beh a c = Some (Inr (True, c))" by (simp add: writ_round_def)
  then show ?thesis using wrote_same [of P, OF assms] by blast
next
  case (Cons t ts)
  then have t: "fp t = None" using all_ready [OF assms(1), of t] by (simp add: buffer_ready_def)
  define all_items where "all_items = items_of (writTasks c)"
  have g: "gather (writTasks c) = Inr all_items" unfolding all_items_def by (rule gathers [OF assms(1)])
  obtain d where err: "Connection_handleErroEvent beh c = Inr d" "destroyed d" "wire d = wire c"
    using handleErro_calm [OF beh_calm, of c] by blast
  have dead: "wrote P c d" using wrote_dead [OF err(2,3)] .
  consider (block) "a = WouldBlock" | (error) "a = WriteError \<or> (\<exists>r. a = Room r \<and> min r (int (length all_items)) \<le> 0)"
    | (room) r where "a = Room r" "0 < min r (int (length all_items))"
    by (meson not_le write_answer.exhaust)
  then show ?thesis
  proof cases
    case block
    then have "writ_round beh a c = Some (Inr (True, c))" using Cons t assms(2) g by (simp add: writ_round_def)
    then show ?thesis using wrote_same [of P, OF assms] by blast
  next
    case error
    then have "writ_round beh a c = Some (Inr (True, d))"
      using Cons t assms(2) g err by (auto simp: writ_round_def Let_def)
    then show ?thesis using dead by blast
  next
    case room
    from round_room [OF assms Cons room(2) [unfolded all_items_def]] obtain n ret c' where
      r: "writ_round beh a c = Some (Inr (ret, c'))" "took P n (c\<lparr>wire := wire c @ take n all_items\<rparr>) ret c'"
      unfolding room(1) all_items_def by blast
    have "wrote P c c'"
    proof (cases "destroyed c'")
      case True
      with r(2) show ?thesis by (auto simp: took_def wrote_def outgoing_def all_items_def)
    next
      case False
      moreover have "writTasks c \<noteq> []" using Cons by simp
      ultimately show ?thesis using r(2) assms(2) by (auto simp: took_def wrote_def outgoing_def all_items_def)
    qed
    with r show ?thesis by (auto simp: took_def split: if_splits)
  qed
qed

lemma loop_wrote:
  "P (writTasks c) \<Longrightarrow> \<not> destroyed c \<Longrightarrow> \<exists>c'. writ_loop beh as c = Some (Inr c') \<and> wrote P c c'"
proof (induction as arbitrary: c)
  case Nil
  from round_wrote [OF Nil, of WouldBlock] show ?case by auto
next
  case (Cons a as)
  obtain ret d where d: "writ_round beh a c = Some (Inr (ret, d))" "wrote P c d" "destroyed d \<longrightarrow> ret"
    using round_wrote [OF Cons.prems, of a] by blast
  show ?case
  proof (cases ret)
    case True
    with d show ?thesis by simp
  next
    case False
    with d have "P (writTasks d)" "\<not> destroyed d" by (auto simp: wrote_def)
    from Cons.IH [OF this] d False wrote_trans [OF d(2)] \<open>\<not> destroyed d\<close> show ?thesis by auto
  qed
qed

lemma handleWrit_wrote:
  assumes "P (writTasks c)" "\<not> destroyed c"
  shows "\<exists>c'. Connection_handleWritEvent beh as c = Some (Inr c') \<and> wrote P c c'"
proof (cases "writTasks c = []")
  case True
  let ?c = "c\<lparr>write_on := False\<rparr>"
  obtain c' where "writ_loop beh as ?c = Some (Inr c')" "wrote P ?c c'"
    using loop_wrote [of ?c as] assms by auto
  then show ?thesis
    using True assms(2)
    by (auto simp: Connection_handleWritEvent_def Connection_enableWrit_def wrote_def outgoing_def)
next
  case False
  with loop_wrote [OF assms, of as] assms(2) show ?thesis by (simp add: Connection_handleWritEvent_def)
qed

end

section \<open>The queues of the servers\<close>

lemma plain_consumes:
  assumes "plain_tasks (writTasks c)" "\<not> destroyed c" "n \<le> length (items_of (writTasks c))"
  shows "\<exists>ret c'. consume beh (int n) c = Some (Inr (ret, c')) \<and> took plain_tasks n c ret c'"
  using consume_plain [OF assms(1,3), of beh] assms(2) by (force simp: took_def)

definition silent :: "'h cbehaviour" where
  "silent = (\<lambda>_ _. [])"

lemma calm_silent: "calm silent"
  by (simp add: calm_def silent_def)

interpretation quiet_writes: write_tasks silent plain_tasks
  by unfold_locales (use calm_silent plain_consumes in \<open>auto simp: plain_tasks_def\<close>)

text \<open>A read event fills the read buffer with everything that arrived.\<close>

lemma handleRead_data:
  assumes "\<not> destroyed c" "buf_ok (readBuf c)" "bufptr (readBuf c) \<noteq> None" "ds \<noteq> []" "length ds \<le> 16384"
  shows "\<exists>b. buf_ok b \<and> content b = content (readBuf c) @ map Some ds
    \<and> Connection_handleReadEvent beh (Data ds) c =
        (if has_readcb c then run_cev beh ReadCb (c\<lparr>readBuf := b\<rparr>) else Inr (c\<lparr>readBuf := b\<rparr>))"
proof -
  let ?n = "capacity (readBuf c) - rightIndex (readBuf c)"
  have w: "Buffer_wdata (readBuf c) = Inr (rightIndex (readBuf c))"
    "Buffer_availbleSize (readBuf c) = Inr ?n"
    using assms(2,3) by (simp_all add: Buffer_wdata_def Buffer_availbleSize_def buf_ok_def)
  have takes: "readv_takes ?n ds = map Some ds" using assms(5) by (simp add: readv_takes_def)
  obtain b where "fill_readBuf (rightIndex (readBuf c)) ?n (map Some ds) (readBuf c) = Inr b" "buf_ok b"
    "content b = content (readBuf c) @ map Some ds"
    using fill_readBuf_ok [OF assms(2,3), of "map Some ds"] assms(4) by auto
  then show ?thesis using w takes assms(1,4) by (auto simp: Connection_handleReadEvent_def Let_def)
qed

text \<open>\<^verbatim>\<open>send(conn.read())\<close>, on this or another connection.\<close>

lemma send_buffer_plain:
  fixes c :: "'h conn"
  assumes "\<not> destroyed c" "plain_tasks (writTasks c)" "buf_ok b" "content b \<noteq> []"
  shows "\<exists>b' c'. Connection_send_buffer b None c = Inr (b', c') \<and> buf_ok b' \<and> content b' = [] \<and> bufptr b' \<noteq> None
    \<and> c' = c\<lparr>writTasks := writTasks c', queued := queued c', promised := promised c', write_on := True\<rparr>
    \<and> plain_tasks (writTasks c') \<and> outgoing c' = outgoing c @ map Byte (content b)"
proof -
  have cap: "0 < capacity b" "Buffer_capacity b = Inr (capacity b)"
  proof -
    have "0 < length (content b)" using assms(4) by simp
    then show "0 < capacity b" using assms(3) by (auto simp: content_def buf_ok_def)
    then show "Buffer_capacity b = Inr (capacity b)" using assms(3) by (simp add: Buffer_capacity_def buf_ok_def)
  qed
  let ?fresh = "buf_of (replicate (nat (capacity b)) None) 0 0"
  let ?t = "buffer_task b (None :: 'h option)"
  let ?c = "c\<lparr>writTasks := writTasks c @ [?t], queued := queued c @ task_items ?t, promised := promised c, write_on := True\<rparr>"
  have fresh: "Buffer_alloc (capacity b) = Inr ?fresh" using cap by (intro Buffer_alloc_ok) simp
  have "Connection_send_buffer b None c = Inr (?fresh, ?c)"
    using cap fresh assms(1)
    by (simp add: Connection_send_buffer_def Buffer_swap_def push_task_def Connection_enableWrit_def buffer_task_def)
  moreover have "plain_tasks (writTasks ?c)"
    using assms by (auto simp: plain_tasks_def buffer_ready_def buffer_task_def)
  moreover have "outgoing ?c = outgoing c @ map Byte (content b)"
    by (simp add: outgoing_def task_items_def buffer_task_def)
  moreover have "buf_ok ?fresh" "content ?fresh = []" "bufptr ?fresh \<noteq> None"
    using cap(1) by (simp_all add: buf_of_def buf_ok_def content_def storage_def)
  ultimately show ?thesis
    by (intro exI [of _ ?fresh] exI [of _ ?c]) simp
qed

section \<open>Events\<close>

text \<open>A destroyed connection has no channel and gets no events. A read delivers at most 16384 bytes.\<close>

datatype sock_event = Readable read_answer | Writable "write_answer list"

definition deliver :: "'h cbehaviour \<Rightarrow> sock_event \<Rightarrow> 'h conn \<Rightarrow> 'h conn res option" where
  "deliver beh e c =
     (if destroyed c then Some (Inr c)
      else case e of
        Readable a \<Rightarrow> Some (Connection_handleReadEvent beh a c)
      | Writable as \<Rightarrow> Connection_handleWritEvent beh as c)"

fun event_bytes :: "sock_event \<Rightarrow> char list" where
  "event_bytes (Readable (Data ds)) = ds"
| "event_bytes _ = []"

definition event_ok :: "sock_event \<Rightarrow> bool" where
  "event_ok e \<longleftrightarrow> length (event_bytes e) \<le> 16384"

text \<open>A live connection between two events: it has sent, or will send, the bytes \<open>out\<close>.\<close>

definition between :: "char list \<Rightarrow> 'h conn \<Rightarrow> bool" where
  "between out c \<longleftrightarrow> \<not> destroyed c \<and> plain_tasks (writTasks c) \<and> buf_ok (readBuf c) \<and> bufptr (readBuf c) \<noteq> None
     \<and> content (readBuf c) = [] \<and> has_readcb c \<and> outgoing c = map (Byte \<circ> Some) out"

text \<open>What the server does with a new connection before its own callback; \<open>rcb\<close> says whether the server
  has a read callback.\<close>

definition TcpServer_initConnection :: "bool \<Rightarrow> 'h conn \<Rightarrow> 'h conn" where
  "TcpServer_initConnection rcb c = Connection_onErro True (Connection_onRead rcb c)"

definition accepted_with :: "bool \<Rightarrow> 'h conn res" where
  "accepted_with rcb =
     bind_res (Connection_new False False) (\<lambda>c.
     bind_res (Connection_init1 (TcpServer_initConnection rcb c)) (Connection_enableRead True))"

definition accepted_conn :: "'h conn res" where
  "accepted_conn = accepted_with True"

section \<open>One event\<close>

lemma accepted_between: "\<exists>c. accepted_conn = Inr c \<and> between [] c"
  by (simp add: accepted_conn_def accepted_with_def TcpServer_initConnection_def Connection_onRead_def Connection_onErro_def
      Connection_new_def Buffer_alloc_ok Connection_init1_def Connection_enableRead_def
      between_def plain_tasks_def outgoing_def)

lemma between_outgoing: "between out c \<Longrightarrow> outgoing c = map (Byte \<circ> Some) out"
  by (simp add: between_def)

lemma between_live: "between out c \<Longrightarrow> \<not> destroyed c"
  by (simp add: between_def)

lemma wrote_between:
  assumes "between out c" "wrote plain_tasks c c'"
  shows "if destroyed c' then \<exists>rest. map (Byte \<circ> Some) out = wire c' @ rest else between out c'"
  using assms by (auto simp: wrote_def between_def)

lemma quiet_event:
  assumes "\<not> destroyed c" "buf_ok (readBuf c)" "bufptr (readBuf c) \<noteq> None" "\<And>ds. a = Data ds \<Longrightarrow> ds = []" "calm beh"
  shows "\<exists>c'. Connection_handleReadEvent beh a c = Inr c' \<and>
    (c' = c \<or> destroyed c' \<and> wire c' = wire c)"
proof -
  have w: "Buffer_wdata (readBuf c) = Inr (rightIndex (readBuf c))"
    "Buffer_availbleSize (readBuf c) = Inr (capacity (readBuf c) - rightIndex (readBuf c))"
    using assms(2,3) by (simp_all add: Buffer_wdata_def Buffer_availbleSize_def buf_ok_def)
  obtain d where "Connection_handleErroEvent beh c = Inr d" "destroyed d" "wire d = wire c"
    using handleErro_calm [OF assms(5), of c] by blast
  then show ?thesis
    using w assms(1,4) by (cases a) (auto simp: Connection_handleReadEvent_def)
qed

lemma quiet_read:
  assumes "between out c" "\<And>ds. a = Data ds \<Longrightarrow> ds = []" "calm beh"
  shows "\<exists>c'. Connection_handleReadEvent beh a c = Inr c' \<and>
    (c' = c \<or> destroyed c' \<and> wire c' = wire c)"
  by (rule quiet_event) (use assms in \<open>simp_all add: between_def\<close>)

lemma between_ready: "between out c \<Longrightarrow> \<forall>t \<in> set (writTasks c). task_ready t"
  by (auto simp: between_def plain_tasks_def task_ready_def buffer_ready_def)

lemma writes_rest:
  assumes "plain_tasks (writTasks c)" "\<not> destroyed c"
  shows "\<exists>as c'. Connection_handleWritEvent (\<lambda>_ _. []) as c = Some (Inr c') \<and> wire c' = outgoing c"
proof (cases "writTasks c = []")
  case True
  then have "Connection_handleWritEvent (\<lambda>_ _. []) [] c = Some (Inr (c\<lparr>write_on := False\<rparr>))"
    using assms(2) by (simp add: Connection_handleWritEvent_def Connection_enableWrit_def writ_round_def)
  with True show ?thesis by (intro exI [of _ "[]"]) (simp add: outgoing_def)
next
  case False
  let ?as = "replicate (length (writTasks c)) (Room (int (length (items_of (writTasks c)))))"
  have "\<forall>t \<in> set (writTasks c). task_ready t"
    using assms(1) by (auto simp: plain_tasks_def task_ready_def buffer_ready_def)
  then have "writ_loop (\<lambda>_ _. []) ?as c = Some (Inr (c\<lparr>writTasks := [], wire := wire c @ items_of (writTasks c),
      cevents := cevents c @ map Ran (handlers_of (writTasks c))\<rparr>))"
    using assms(2) by (intro writ_loop_all) (auto simp: quiet_def)
  with False assms(2) show ?thesis
    by (intro exI [of _ ?as]) (simp add: Connection_handleWritEvent_def outgoing_def)
qed

text \<open>A destroyed connection has sent a prefix of what it was to send.\<close>

definition cut_off :: "char list \<Rightarrow> 'h conn \<Rightarrow> bool" where
  "cut_off out c \<longleftrightarrow> destroyed c \<and> (\<exists>rest. map (Byte \<circ> Some) out = wire c @ rest)"

lemma between_wire:
  assumes "between out c"
  shows "\<exists>rest. map (Byte \<circ> Some) out = wire c @ rest"
  using between_outgoing [OF assms] by (metis outgoing_def)

lemma cut_off_wire: "between out c \<Longrightarrow> destroyed c' \<Longrightarrow> wire c' = wire c \<Longrightarrow> cut_off out c'"
  using between_wire by (simp add: cut_off_def)

lemma cut_off_destroy: "between out c \<Longrightarrow> cut_off out (Connection_destroy c)"
  by (erule cut_off_wire) (simp_all add: Connection_destroy_def)

lemma cut_off_more: "cut_off out c \<Longrightarrow> cut_off (out @ xs) c"
  by (auto simp: cut_off_def)

text \<open>Any other event of a connection leaves it as it is, or destroys it.\<close>

lemma other_event:
  assumes "between ox x" "event_ok e" "event_bytes e = []"
  shows "\<exists>x'. deliver silent e x = Some (Inr x') \<and> (between ox x' \<or> cut_off ox x')"
proof (cases e)
  case (Writable as)
  obtain x' where "Connection_handleWritEvent silent as x = Some (Inr x')" "wrote plain_tasks x x'"
    using quiet_writes.handleWrit_wrote [of x as] assms(1) by (auto simp: between_def)
  with Writable between_live [OF assms(1)] wrote_between [OF assms(1), of x'] show ?thesis
    by (auto simp: deliver_def cut_off_def split: if_splits)
next
  case (Readable a)
  have "\<And>ds. a = Data ds \<Longrightarrow> ds = []" using assms(3) Readable by simp
  from quiet_read [OF assms(1) this calm_silent] obtain x' where
    "Connection_handleReadEvent silent a x = Inr x'" "x' = x \<or> destroyed x' \<and> wire x' = wire x" by blast
  with Readable between_live [OF assms(1)] assms(1) cut_off_wire [OF assms(1)] show ?thesis
    by (auto simp: deliver_def)
qed

section \<open>Connections with unread bytes\<close>

text \<open>
  A live connection whose read buffer holds \<open>hs\<close>; what it has sent, or will send, are the cells \<open>out\<close>, which
  need not be set. \<open>cut_short\<close> is its end.
\<close>

definition carries :: "cell list \<Rightarrow> cell list \<Rightarrow> 'h conn \<Rightarrow> bool" where
  "carries hs out c \<longleftrightarrow> \<not> destroyed c \<and> plain_tasks (writTasks c) \<and> buf_ok (readBuf c) \<and> bufptr (readBuf c) \<noteq> None
     \<and> content (readBuf c) = hs \<and> has_readcb c \<and> outgoing c = map Byte out"

definition cut_short :: "cell list \<Rightarrow> 'h conn \<Rightarrow> bool" where
  "cut_short out c \<longleftrightarrow> destroyed c \<and> (\<exists>rest. map Byte out = wire c @ rest)"

lemma between_carries: "between out c \<longleftrightarrow> carries [] (map Some out) c"
  by (auto simp: between_def carries_def)

lemma carriesD:
  assumes "carries hs out c"
  shows "\<not> destroyed c" "plain_tasks (writTasks c)" "buf_ok (readBuf c)" "bufptr (readBuf c) \<noteq> None"
    "content (readBuf c) = hs" "has_readcb c" "outgoing c = map Byte out"
  using assms by (simp_all add: carries_def)

lemma carries_wire: "carries hs out c \<Longrightarrow> \<exists>rest. map Byte out = wire c @ rest"
  by (metis carriesD(7) outgoing_def)

lemma cut_short_wire: "carries hs out c \<Longrightarrow> destroyed c' \<Longrightarrow> wire c' = wire c \<Longrightarrow> cut_short out c'"
  using carries_wire by (simp add: cut_short_def)

lemma cut_short_destroy: "carries hs out c \<Longrightarrow> cut_short out (Connection_destroy c)"
  by (erule cut_short_wire) (simp_all add: Connection_destroy_def)

lemma cut_short_more: "cut_short out c \<Longrightarrow> cut_short (out @ xs) c"
  by (auto simp: cut_short_def)

text \<open>A write, an end of file, an error: the connection stays as it is up to its queue, or it ends.\<close>

lemma carries_other:
  assumes "carries hs out x" "event_bytes e = []"
  shows "\<exists>x'. deliver silent e x = Some (Inr x') \<and> (carries hs out x' \<or> cut_short out x')"
proof (cases e)
  case (Writable as)
  obtain x' where x': "Connection_handleWritEvent silent as x = Some (Inr x')" "wrote plain_tasks x x'"
    using quiet_writes.handleWrit_wrote [of x as] carriesD(1,2) [OF assms(1)] by blast
  from x'(2) assms(1) have "carries hs out x' \<or> cut_short out x'"
    by (auto simp: wrote_def carries_def cut_short_def split: if_splits)
  with x'(1) Writable carriesD(1) [OF assms(1)] show ?thesis by (simp add: deliver_def)
next
  case (Readable a)
  have "\<And>ds. a = Data ds \<Longrightarrow> ds = []" using assms(2) Readable by simp
  from quiet_event [OF _ _ _ this calm_silent] carriesD(1,3,4) [OF assms(1)] obtain x' where
    "Connection_handleReadEvent silent a x = Inr x'" "x' = x \<or> destroyed x' \<and> wire x' = wire x" by blast
  with Readable carriesD(1) [OF assms(1)] assms(1) cut_short_wire [OF assms(1)] show ?thesis
    by (auto simp: deliver_def)
qed

text \<open>Data, to a callback that is yet to run.\<close>

lemma carries_data:
  assumes "carries hs out x" "ds \<noteq> []" "length ds \<le> 16384"
  shows "\<exists>x'. deliver silent (Readable (Data ds)) x = Some (Inr x') \<and> carries (hs @ map Some ds) out x'"
proof -
  note x = carriesD [OF assms(1)]
  obtain b where b: "buf_ok b" "content b = hs @ map Some ds"
    "Connection_handleReadEvent silent (Data ds) x = run_cev silent ReadCb (x\<lparr>readBuf := b\<rparr>)"
    using handleRead_data [OF x(1,3,4) assms(2,3), of silent] x(5,6) by auto
  have "content b \<noteq> []" using b(2) assms(2) by simp
  then have "bufptr b \<noteq> None" by (cases "bufptr b") (simp_all add: content_def storage_def)
  then have "carries (hs @ map Some ds) out (x\<lparr>readBuf := b, cevents := cevents x @ [ReadCb]\<rparr>)"
    using b(1,2) x by (simp add: carries_def outgoing_def)
  with b(3) x(1) show ?thesis by (simp add: deliver_def run_cev_def silent_def)
qed

text \<open>\<^verbatim>\<open>y->send(x.read())\<close> on another connection.\<close>

lemma carries_passes:
  fixes y :: "'h conn"
  assumes "carries hx ox x" "carries hy oy y" "hx \<noteq> []"
  shows "\<exists>b y'. Connection_send_buffer (readBuf x) None y = Inr (b, y') \<and> carries [] ox (x\<lparr>readBuf := b\<rparr>)
    \<and> carries hy (oy @ hx) y'"
proof -
  note x = carriesD [OF assms(1)] and y = carriesD [OF assms(2)]
  obtain b y' where s: "Connection_send_buffer (readBuf x) None y = Inr (b, y')" "buf_ok b" "content b = []" "bufptr b \<noteq> None"
    "y' = y\<lparr>writTasks := writTasks y', queued := queued y', promised := promised y', write_on := True\<rparr>"
    "plain_tasks (writTasks y')" "outgoing y' = outgoing y @ map Byte (content (readBuf x))"
    using send_buffer_plain [OF y(1,2) x(3)] x(5) assms(3) by auto
  have "\<not> destroyed y' \<and> has_readcb y' \<and> readBuf y' = readBuf y"
    using y(1,6) by (subst (1 2 3) s(5)) simp
  then have "carries hy (oy @ hx) y'" using s(6,7) x(5) y by (simp add: carries_def)
  moreover have "carries [] ox (x\<lparr>readBuf := b\<rparr>)" using s(2-4) x by (simp add: carries_def outgoing_def)
  ultimately show ?thesis using s(1) by blast
qed

text \<open>\<^verbatim>\<open>x.send(x.read())\<close>, and the sending of a block of memory.\<close>

lemma carries_returns:
  fixes x :: "'h conn"
  assumes "carries hs out x" "hs \<noteq> []"
  shows "\<exists>b x'. Connection_send_buffer (readBuf x) None x = Inr (b, x') \<and> carries [] (out @ hs) (x'\<lparr>readBuf := b\<rparr>)"
proof -
  note x = carriesD [OF assms(1)]
  obtain b x' where s: "Connection_send_buffer (readBuf x) None x = Inr (b, x')" "buf_ok b" "content b = []" "bufptr b \<noteq> None"
    "x' = x\<lparr>writTasks := writTasks x', queued := queued x', promised := promised x', write_on := True\<rparr>"
    "plain_tasks (writTasks x')" "outgoing x' = outgoing x @ map Byte (content (readBuf x))"
    using send_buffer_plain [OF x(1-3)] x(5) assms(2) by auto
  have "\<not> destroyed x' \<and> has_readcb x'" using x(1,6) by (subst (1 2) s(5)) simp
  moreover have "outgoing (x'\<lparr>readBuf := b\<rparr>) = outgoing x'" by (simp add: outgoing_def)
  ultimately have "carries [] (out @ hs) (x'\<lparr>readBuf := b\<rparr>)" using s(2-4,6,7) x(5,7) by (simp add: carries_def)
  with s(1) show ?thesis by blast
qed

lemma carries_sends:
  fixes x :: "'h conn"
  assumes "carries hs out x" "bs \<noteq> []"
  shows "\<exists>x'. Connection_send_bytes (map Some bs) (int (length bs)) None x = Inr x' \<and> carries hs (out @ map Some bs) x'"
proof -
  note x = carriesD [OF assms(1)]
  let ?b = "buf_of (map Some bs) 0 (length bs)"
  let ?t = "buffer_task ?b (None :: 'h option)"
  let ?x = "x\<lparr>writTasks := writTasks x @ [?t], queued := queued x @ task_items ?t, promised := promised x, write_on := True\<rparr>"
  have b: "Buffer_of_bytes (map Some bs) (int (length bs)) = Inr ?b" "buf_ok ?b" "content ?b = map Some bs"
    using Buffer_of_bytes_ok [of "int (length bs)" "map Some bs"]
    by (simp_all add: buf_of_def buf_ok_def content_def storage_def)
  have t: "buffer_ready ?t" "thandler ?t = None" "task_items ?t = map Byte (map Some bs)"
    using b assms(2) by (simp_all add: buffer_ready_def buffer_task_def task_items_def)
  have "Connection_send_bytes (map Some bs) (int (length bs)) None x = Inr ?x"
    using b(1) x(1) by (simp add: Connection_send_bytes_def push_task_def Connection_enableWrit_def buffer_task_def)
  moreover have "carries hs (out @ map Some bs) ?x" using x t by (auto simp: carries_def plain_tasks_def outgoing_def)
  ultimately show ?thesis by blast
qed

end
