(* ===== verification/Http_Streams.thy ===== *)
theory Http_Streams
  imports Http_Server Served_Conns
begin

text \<open>
  \<^verbatim>\<open>HttpServer\<close> over several read events and several requests (\<^verbatim>\<open>src/src/http/HttpServer.cpp\<close>): a
  request that arrives in pieces, requests that arrive together, and a connection that goes on
  reading after a request without \<^verbatim>\<open>keep-alive\<close>.
\<close>

section \<open>A request in pieces\<close>

text \<open>
  The read callback, once per read event: every event delivers one piece, and the callback that the
  constructor registers runs the loop of \<^verbatim>\<open>handleReadEvent\<close>.
\<close>

fun http_reads ::
    "string \<Rightarrow> (string \<Rightarrow> nat option) \<Rightarrow> (nat \<Rightarrow> int answer) \<Rightarrow> string list \<Rightarrow> string list \<Rightarrow> http_context \<Rightarrow>
     http_handler conn \<Rightarrow> (http_context \<times> http_handler conn) res option" where
  "http_reads root open_file fstat keys [] x c = Some (Inr (x, c))"
| "http_reads root open_file fstat keys (p # ps) x c =
     bind_run (deliver silent (Readable (Data p)) c) (\<lambda>c.
     bind_run (http_server_loop root open_file fstat keys x c) (\<lambda>(x, c).
     http_reads root open_file fstat keys ps x c))"

text \<open>
  A write event with the handlers of the next tick, which the poller runs right after the callback.
  The handler of \<^verbatim>\<open>sendFile\<close> calls \<^verbatim>\<open>destroyLater\<close> when the connection is not to be kept. What it queues
  holds a plain pointer: when the event has destroyed the connection itself, the last reference went
  with the event and the pointer dangles.
\<close>

definition http_write :: "http_context \<Rightarrow> write_answer list \<Rightarrow> http_handler conn \<Rightarrow> http_handler conn res option" where
  "http_write x as c =
     bind_run (Connection_handleWritEvent http_behaviour as c) (\<lambda>c'.
     if Ran Finished \<in> set (drop (length (cevents c)) (cevents c')) \<and> \<not> keep_alive x
     then Some (if destroyed c' then Inl Null_deref else Inr (Connection_destroy c'))
     else Some (Inr c'))"

text \<open>Cutting behind a newline cuts between lines.\<close>

definition newline_end :: "string \<Rightarrow> bool" where
  "newline_end s \<longleftrightarrow> s \<noteq> [] \<and> last s = CHR 0x0A"

definition is_line :: "string \<Rightarrow> bool" where
  "is_line l \<longleftrightarrow> l \<noteq> [] \<and> last l = CHR 0x0A \<and> CHR 0x0A \<notin> set (butlast l)"

lemma line_prefix:
  assumes "is_line l" "l @ us = p @ vs" "newline_end p"
  shows "\<exists>p'. p = l @ p'"
proof -
  from assms(2) consider ws where "p = l @ ws" | ws where "l = p @ ws" "ws \<noteq> []"
    by (metis append_Nil2 append_eq_append_conv2)
  then show ?thesis
  proof cases
    case 2
    then have "CHR 0x0A \<in> set (butlast l)"
      using assms(3) last_in_set [of p] by (auto simp: newline_end_def butlast_append)
    with assms(1) show ?thesis by (simp add: is_line_def)
  qed blast
qed

lemma cut_at_line:
  assumes "\<forall>l \<in> set ls. is_line l" "concat ls = p @ rest" "newline_end p"
  shows "\<exists>k. 0 < k \<and> k \<le> length ls \<and> p = concat (take k ls) \<and> rest = concat (drop k ls)"
  using assms
proof (induction ls arbitrary: p)
  case Nil
  then show ?case by (simp add: newline_end_def)
next
  case (Cons l ls)
  then have l: "is_line l" "l @ concat ls = p @ rest" by simp_all
  from line_prefix [OF this Cons.prems(3)] obtain p' where p': "p = l @ p'" ..
  show ?case
  proof (cases "p' = []")
    case True
    with p' l(2) show ?thesis by (intro exI [of _ 1]) simp
  next
    case False
    with Cons.prems(3) p' have "newline_end p'" by (simp add: newline_end_def)
    with Cons.IH [of p'] Cons.prems(1) l(2) p' obtain k where
      "k \<le> length ls" "p' = concat (take k ls)" "rest = concat (drop k ls)" by auto
    with p' show ?thesis by (intro exI [of _ "Suc k"]) simp
  qed
qed

text \<open>Header lines that end with the input leave the parser among the headers.\<close>

lemma request_headers_piece:
  assumes "\<forall>k \<in> set ks. good_key k \<and> (\<exists>v. hs k = Some v \<and> good_value v)"
    "reads m b (concat (map (header_line hs) ks))"
    "b + int (length (concat (map (header_line hs) ks))) = e" "e \<le> int (length m)"
  shows "request_headers m b e r = Inr (r\<lparr>req_headers := put_headers hs ks (req_headers r),
    req_bytes := req_bytes r + int (length (concat (map (header_line hs) ks)))\<rparr>)"
  using assms(1-3)
proof (induction ks arbitrary: b r)
  case Nil
  then show ?case by (subst request_headers.simps) simp
next
  case (Cons k ks)
  let ?n = "int (length (header_line hs k))"
  obtain v where v: "hs k = Some v" "good_value v" "good_key k" using Cons.prems(1) by auto
  have r: "reads m b (header_line hs k)" "reads m (b + ?n) (concat (map (header_line hs) ks))"
    using Cons.prems(2) by (simp_all add: reads_append)
  show ?case
    using Cons.IH [OF _ r(2), of "r\<lparr>req_headers := (req_headers r)(k \<mapsto> v), req_bytes := req_bytes r + ?n\<rparr>"]
      request_headers_line [OF r(1) v(3,1,2), of e r] Cons.prems assms(4) v
    by (simp add: add.assoc fun_upd_def)
qed

text \<open>The lines of a request without a body.\<close>

definition request_lines :: "string list \<Rightarrow> 'a request_scheme \<Rightarrow> string list" where
  "request_lines keys q = request_line q # map (header_line (req_headers q)) keys @ [crlf]"

lemma header_line_is_line: "good_key k \<Longrightarrow> hs k = Some v \<Longrightarrow> good_value v \<Longrightarrow> is_line (header_line hs k)"
  by (auto simp: is_line_def header_line_def good_key_def good_value_def crlf_def butlast_append)

lemma methods_string_no_newline: "CHR 0x0A \<notin> set (dict_at methods_string k)"
  by (auto simp: dict_at_def methods_string_def split: option.splits if_splits dest!: map_of_SomeD)

lemma request_line_is_line:
  assumes "CHR 0x0A \<notin> set (req_uri q)" "CHR 0x0A \<notin> set (req_query q)"
  shows "is_line (request_line q)"
  using assms methods_string_no_newline [of "req_method q"]
  by (auto simp: is_line_def request_line_def target_def crlf_def butlast_append)

lemma request_lines_ok:
  assumes "printable keys q" "CHR 0x0A \<notin> set (req_uri q)" "CHR 0x0A \<notin> set (req_query q)"
  shows "\<forall>l \<in> set (request_lines keys q). is_line l"
  using request_line_is_line [OF assms(2,3)] printable_keys(1) [OF assms(1)] header_line_is_line
  by (fastforce simp: request_lines_def is_line_def crlf_def)
section \<open>The server on one piece\<close>

text \<open>A connection with everything read and nothing to write.\<close>

definition reading :: "'h conn \<Rightarrow> bool" where
  "reading c \<longleftrightarrow> \<not> destroyed c \<and> buf_ok (readBuf c) \<and> bufptr (readBuf c) \<noteq> None \<and> content (readBuf c) = []
     \<and> writTasks c = []"

lemma Buffer_retrieve_bufptr: "Buffer_retrieve n b = Inr b' \<Longrightarrow> bufptr b' = bufptr b"
  by (auto simp: Buffer_retrieve_def bind_res_Inr_iff split: if_splits)

lemma read_piece:
  assumes "reading c" "p \<noteq> []" "length p \<le> 16384" "req_bytes r = req_bytes (requestParser x) + int (length p)"
    and parse: "\<And>m b. reads m b p \<Longrightarrow> RequestParser_parse m b (b + int (length p)) (requestParser x) = Inr r"
  shows "\<exists>c1 b. deliver silent (Readable (Data p)) c = Some (Inr c1) \<and> \<not> destroyed c1 \<and> \<not> Buffer_empty (readBuf c1)
    \<and> http_parse x c1 = Inr (x\<lparr>requestParser := r\<rparr>, c1\<lparr>readBuf := b\<rparr>) \<and> reading (c1\<lparr>readBuf := b\<rparr>) \<and> wire c1 = wire c"
proof -
  have c: "\<not> destroyed c" "buf_ok (readBuf c)" "bufptr (readBuf c) \<noteq> None" "content (readBuf c) = []" "writTasks c = []"
    using assms(1) by (simp_all add: reading_def)
  obtain b1 where b1: "buf_ok b1" "content b1 = map Some p" "Connection_handleReadEvent silent (Data p) c
      = (if has_readcb c then run_cev silent ReadCb (c\<lparr>readBuf := b1\<rparr>) else Inr (c\<lparr>readBuf := b1\<rparr>))"
    using handleRead_data [OF c(1-3) assms(2,3), of silent] c(4) by auto
  define c1 where "c1 = c\<lparr>readBuf := b1, cevents := cevents c @ (if has_readcb c then [ReadCb] else [])\<rparr>"
  have deliver: "deliver silent (Readable (Data p)) c = Some (Inr c1)"
    using b1(3) c(1) by (simp add: deliver_def run_cev_def silent_def c1_def)
  have buf: "readBuf c1 = b1" by (simp add: c1_def)
  have ne: "content b1 \<noteq> []" using b1(2) assms(2) by simp
  obtain b where b: "http_parse x c1 = Inr (x\<lparr>requestParser := r\<rparr>, c1\<lparr>readBuf := b\<rparr>)" "buf_ok b" "content b = []"
    "Buffer_retrieve (req_bytes r - req_bytes (requestParser x)) b1 = Inr b"
    using http_parse_ok [of c1 p x r] b1(1,2) assms(2,4) parse [OF reads_content [OF b1(1,2)]] buf by auto
  have "bufptr b1 \<noteq> None" using ne by (cases "bufptr b1") (simp_all add: content_def storage_def)
  then have "reading (c1\<lparr>readBuf := b\<rparr>)"
    using b Buffer_retrieve_bufptr [OF b(4)] c by (simp add: reading_def c1_def)
  moreover have "\<not> Buffer_empty (readBuf c1)" using Buffer_not_empty [OF b1(1) ne] buf by simp
  ultimately show ?thesis using deliver b(1) c(1) by (intro exI [of _ c1] exI [of _ b]) (simp add: c1_def)
qed

lemma wait_piece:
  assumes "reading c" "p \<noteq> []" "length p \<le> 16384" "req_bytes r = req_bytes (requestParser x) + int (length p)"
    and "\<And>m b. reads m b p \<Longrightarrow> RequestParser_parse m b (b + int (length p)) (requestParser x) = Inr r"
    and "req_progress r = request_progress.ParsingHeaders"
  shows "\<exists>c'. reading c' \<and> wire c' = wire c \<and> http_reads root open_file fstat keys (p # ps) x c
    = http_reads root open_file fstat keys ps (x\<lparr>requestParser := r\<rparr>) c'"
proof -
  obtain c1 b where r: "deliver silent (Readable (Data p)) c = Some (Inr c1)" "\<not> Buffer_empty (readBuf c1)"
    "http_parse x c1 = Inr (x\<lparr>requestParser := r\<rparr>, c1\<lparr>readBuf := b\<rparr>)" "reading (c1\<lparr>readBuf := b\<rparr>)" "wire c1 = wire c"
    using read_piece [OF assms(1-5)] by blast
  have "http_server_loop root open_file fstat keys x c1 = Some (Inr (x\<lparr>requestParser := r\<rparr>, c1\<lparr>readBuf := b\<rparr>))"
    using r(2,3) assms(6) by (subst http_server_loop.simps)
      (simp add: RequestParser_isError_def RequestParser_isGood_def)
  with r show ?thesis by (intro exI [of _ "c1\<lparr>readBuf := b\<rparr>"]) simp
qed

text \<open>The parser is ready for the next request.\<close>

definition cleared :: "http_context \<Rightarrow> bool" where
  "cleared x \<longleftrightarrow> (\<exists>p. requestParser x = RequestParser_clear p)"

lemma last_piece:
  assumes "reading c" "p \<noteq> []" "length p \<le> 16384" "req_bytes r = req_bytes (requestParser x) + int (length p)"
    and "\<And>m b. reads m b p \<Longrightarrow> RequestParser_parse m b (b + int (length p)) (requestParser x) = Inr r"
    and "req_progress r = request_progress.Good"
    and "root @ req_uri r \<noteq> []" "open_file (root @ req_uri r) = Some f" "fstat f = Inr n"
  shows "\<exists>x' c'. http_reads root open_file fstat keys [p] x c = Some (Inr (x', queue_reply keys f n (req_uri r) c'))
    \<and> reading c' \<and> wire c' = wire c
    \<and> keep_alive x' = (keep_alive x \<and> req_headers r ''Connection'' = Some ''keep-alive'')
    \<and> (req_headers r ''Connection'' = Some ''keep-alive'' \<longrightarrow> cleared x')"
proof -
  obtain c1 b where r: "deliver silent (Readable (Data p)) c = Some (Inr c1)" "\<not> destroyed c1" "\<not> Buffer_empty (readBuf c1)"
    "http_parse x c1 = Inr (x\<lparr>requestParser := r\<rparr>, c1\<lparr>readBuf := b\<rparr>)" "reading (c1\<lparr>readBuf := b\<rparr>)" "wire c1 = wire c"
    using read_piece [OF assms(1-5)] by blast
  let ?c = "queue_reply keys f n (req_uri r) (c1\<lparr>readBuf := b\<rparr>)"
  have empty: "http_server_loop root open_file fstat keys y ?c = Some (Inr (y, ?c))" for y
    using r(5) by (intro server_loop_empty) (simp_all add: queue_reply_def reading_def)
  define x' where "x' = (if req_headers r ''Connection'' = Some ''keep-alive''
    then x\<lparr>requestParser := RequestParser_clear (touch_connection r)\<rparr>
    else \<lparr>keep_alive = False, requestParser = touch_connection r\<rparr>)"
  have "http_server_loop root open_file fstat keys x c1 = Some (Inr (x', ?c))"
    using server_loop_good [where r = r and x = x and c = c1 and b = b and root = root and open_file = open_file and fstat = fstat, OF r(2,3) assms(6) r(4) assms(7-9), of keys] empty by (simp add: Let_def x'_def)
  then have "http_reads root open_file fstat keys [p] x c = Some (Inr (x', ?c))" using r(1) by simp
  moreover have "keep_alive x' = (keep_alive x \<and> req_headers r ''Connection'' = Some ''keep-alive'')"
    by (simp add: x'_def)
  moreover have "req_headers r ''Connection'' = Some ''keep-alive'' \<longrightarrow> cleared x'" by (auto simp: x'_def cleared_def)
  ultimately show ?thesis using r(5,6) by (intro exI [of _ x'] exI [of _ "c1\<lparr>readBuf := b\<rparr>"]) simp
qed

section \<open>The server on all pieces\<close>

lemma put_headers_append: "put_headers hs (ks @ js) h = put_headers hs js (put_headers hs ks h)"
  by (simp add: put_headers_def)

lemma parse_in_headers:
  "req_progress r = request_progress.ParsingHeaders \<Longrightarrow> RequestParser_parse m b e r = request_headers m b e r"
  by (simp add: RequestParser_parse_def)

abbreviation piece_ok :: "string \<Rightarrow> bool" where
  "piece_ok p \<equiv> newline_end p \<and> length p \<le> 16384"

lemma pieces_of_headers:
  assumes "\<forall>p \<in> set ps. piece_ok p" "concat ps = concat (map (header_line hs) ks) @ crlf"
    "\<forall>k \<in> set ks. good_key k \<and> (\<exists>v. hs k = Some v \<and> good_value v)"
    "reading c" "req_progress (requestParser x) = request_progress.ParsingHeaders"
    "root @ req_uri (requestParser x) \<noteq> []" "open_file (root @ req_uri (requestParser x)) = Some f" "fstat f = Inr n"
  shows "\<exists>x' c'. http_reads root open_file fstat keys ps x c
      = Some (Inr (x', queue_reply keys f n (req_uri (requestParser x)) c'))
    \<and> reading c' \<and> wire c' = wire c \<and> keep_alive x' = (keep_alive x \<and>
        put_headers hs ks (req_headers (requestParser x)) ''Connection'' = Some ''keep-alive'')
    \<and> (put_headers hs ks (req_headers (requestParser x)) ''Connection'' = Some ''keep-alive'' \<longrightarrow> cleared x')"
  using assms(1-7)
proof (induction ps arbitrary: ks x c)
  case Nil
  then show ?case by (simp add: crlf_def)
next
  case (Cons p ps)
  let ?r = "requestParser x" and ?ls = "map (header_line hs) ks @ [crlf]"
  have p: "newline_end p" "p \<noteq> []" "length p \<le> 16384" using Cons.prems(1) by (simp_all add: newline_end_def)
  have lines: "\<forall>l \<in> set ?ls. is_line l"
    using Cons.prems(3) header_line_is_line by (fastforce simp: is_line_def crlf_def)
  have "concat ?ls = p @ concat ps" using Cons.prems(2) by simp
  from cut_at_line [OF lines this p(1)] obtain k where k: "0 < k" "k \<le> length ?ls"
    "p = concat (take k ?ls)" "concat ps = concat (drop k ?ls)" by blast
  show ?case
  proof (cases "k \<le> length ks")
    case True
    let ?ks = "take k ks"
    let ?r1 = "?r\<lparr>req_headers := put_headers hs ?ks (req_headers ?r), req_bytes := req_bytes ?r + int (length p)\<rparr>"
    have good: "\<forall>k \<in> set ?ks. good_key k \<and> (\<exists>v. hs k = Some v \<and> good_value v)"
      "\<forall>k \<in> set (drop k ks). good_key k \<and> (\<exists>v. hs k = Some v \<and> good_value v)"
      using Cons.prems(3) set_take_subset [of k ks] set_drop_subset [of k ks] by blast+
    have pt: "p = concat (map (header_line hs) ?ks)" using k(3) True by (simp add: take_map)
    have rest: "concat ps = concat (map (header_line hs) (drop k ks)) @ crlf" using k(4) True by (simp add: drop_map)
    have parse: "RequestParser_parse m b (b + int (length p)) ?r = Inr ?r1" if "reads m b p" for m b
      using request_headers_piece [OF good(1), of m b "b + int (length p)" ?r] that pt reads_length [OF that]
        parse_in_headers [OF Cons.prems(5)] by simp
    obtain c' where c': "reading c'" "wire c' = wire c" "http_reads root open_file fstat keys (p # ps) x c
        = http_reads root open_file fstat keys ps (x\<lparr>requestParser := ?r1\<rparr>) c'"
      using wait_piece [OF Cons.prems(4) p(2,3) _ parse, of root open_file fstat keys ps] Cons.prems(5) by auto
    have "put_headers hs (drop k ks) (put_headers hs ?ks h) = put_headers hs ks h" for h
      using put_headers_append [of hs ?ks "drop k ks"] by simp
    with Cons.IH [OF _ rest good(2) c'(1), of "x\<lparr>requestParser := ?r1\<rparr>"] Cons.prems(1,5-7) c'(2,3)
    show ?thesis by simp
  next
    case False
    with k(2-4) have pt: "p = concat (map (header_line hs) ks) @ crlf" "concat ps = []" by simp_all
    then have ps: "ps = []" using Cons.prems(1) by (cases ps) (auto simp: newline_end_def)
    let ?r1 = "?r\<lparr>req_headers := put_headers hs ks (req_headers ?r), req_progress := request_progress.Good,
      req_bytes := req_bytes ?r + int (length (concat (map (header_line hs) ks))) + 2\<rparr>"
    have bytes: "req_bytes ?r1 = req_bytes ?r + int (length p)" by (simp add: pt(1) crlf_def)
    have parse: "RequestParser_parse m b (b + int (length p)) ?r = Inr ?r1" if "reads m b p" for m b
      using request_headers_ok [OF Cons.prems(3), of m b "b + int (length p)" ?r] that pt reads_length [OF that]
        parse_in_headers [OF Cons.prems(5)] by (simp add: crlf_def)
    show ?thesis
      using last_piece [OF Cons.prems(4) p(2,3) bytes parse, of root open_file f fstat n keys] Cons.prems(6,7) assms(8) ps
      by simp
  qed
qed

lemma parse_first_lines:
  assumes "printable hkeys q" "set ks \<subseteq> set hkeys"
    "reads m b (request_line q @ concat (map (header_line (req_headers q)) ks))"
  shows "RequestParser_parse m b (b + int (length (request_line q @ concat (map (header_line (req_headers q)) ks))))
      (RequestParser_clear p) =
    Inr ((in_headers q p)\<lparr>req_headers := put_headers (req_headers q) ks (\<lambda>_. None),
      req_bytes := int (length (request_line q @ concat (map (header_line (req_headers q)) ks)))\<rparr>)"
proof -
  let ?hs = "concat (map (header_line (req_headers q)) ks)" and ?b = "b + int (length (request_line q))"
  have r: "reads m b (request_line q)" "reads m ?b ?hs" using assms(3) by (simp_all add: reads_append)
  have good: "\<forall>k \<in> set ks. good_key k \<and> (\<exists>v. req_headers q k = Some v \<and> good_value v)"
    using printable_keys(1) [OF assms(1)] assms(2) by blast
  have e: "?b + int (length ?hs) \<le> int (length m)" using reads_length [OF r(2)] by simp
  show ?thesis
    using parse_request_line [OF assms(1) r(1) _ e] request_headers_piece [OF good r(2) refl e, of "in_headers q p"]
    by (simp add: in_headers_def RequestParser_clear_def add.assoc)
qed

lemma pieces_of_request:
  assumes "printable hkeys q" "Request_toString hkeys q = Inr s" "buffer_text (req_body q) = Inr []"
    "CHR 0x0A \<notin> set (req_uri q)" "CHR 0x0A \<notin> set (req_query q)"
    "concat ps = s" "\<forall>p \<in> set ps. piece_ok p" "reading c" "requestParser x = RequestParser_clear p0"
    "root @ req_uri q \<noteq> []" "open_file (root @ req_uri q) = Some f" "fstat f = Inr n"
  shows "\<exists>x' c'. http_reads root open_file fstat keys ps x c = Some (Inr (x', queue_reply keys f n (req_uri q) c'))
    \<and> reading c' \<and> wire c' = wire c
    \<and> keep_alive x' = (keep_alive x \<and> req_headers q ''Connection'' = Some ''keep-alive'')
    \<and> (req_headers q ''Connection'' = Some ''keep-alive'' \<longrightarrow> cleared x')"
proof -
  let ?hs = "req_headers q" and ?ls = "map (header_line (req_headers q)) hkeys @ [crlf]"
  have s: "s = concat (request_lines hkeys q)"
    using Request_toString_lines [OF assms(2,3)] by (simp add: request_lines_def)
  obtain p ps' where ps: "ps = p # ps'"
    using assms(6) s by (cases ps) (auto simp: request_lines_def crlf_def)
  have p: "newline_end p" "p \<noteq> []" "length p \<le> 16384" using assms(7) ps by (simp_all add: newline_end_def)
  have "concat (request_lines hkeys q) = p @ concat ps'" using assms(6) s ps by simp
  from cut_at_line [OF request_lines_ok [OF assms(1,4,5)] this p(1)] obtain k where
    k: "0 < k" "k \<le> Suc (length ?ls)" "p = concat (take k (request_lines hkeys q))"
    "concat ps' = concat (drop k (request_lines hkeys q))" by (auto simp: request_lines_def)
  then obtain j where j: "k = Suc j" by (cases k) auto
  have pj: "p = request_line q @ concat (take j ?ls)" "concat ps' = concat (drop j ?ls)"
    using k(3,4) j by (simp_all add: request_lines_def)
  show ?thesis
  proof (cases "j \<le> length hkeys")
    case True
    let ?ks = "take j hkeys"
    let ?r1 = "(in_headers q p0)\<lparr>req_headers := put_headers ?hs ?ks (\<lambda>_. None), req_bytes := int (length p)\<rparr>"
    have pt: "p = request_line q @ concat (map (header_line ?hs) ?ks)" using pj(1) True by (simp add: take_map)
    have rest: "concat ps' = concat (map (header_line ?hs) (drop j hkeys)) @ crlf" using pj(2) True by (simp add: drop_map)
    have parse: "RequestParser_parse m b (b + int (length p)) (requestParser x) = Inr ?r1" if "reads m b p" for m b
      using parse_first_lines [OF assms(1) set_take_subset, of m b j p0] that pt assms(9) by simp
    have bytes: "req_bytes ?r1 = req_bytes (requestParser x) + int (length p)"
      by (simp add: assms(9) RequestParser_clear_def)
    have ph: "req_progress ?r1 = request_progress.ParsingHeaders" by (simp add: in_headers_def)
    obtain c' where c': "reading c'" "wire c' = wire c" "http_reads root open_file fstat keys (p # ps') x c
        = http_reads root open_file fstat keys ps' (x\<lparr>requestParser := ?r1\<rparr>) c'"
      using wait_piece [OF assms(8) p(2,3) bytes parse ph] by blast
    have good: "\<forall>k \<in> set (drop j hkeys). good_key k \<and> (\<exists>v. ?hs k = Some v \<and> good_value v)"
      using printable_keys(1) [OF assms(1)] set_drop_subset [of j hkeys] by blast
    have all: "put_headers ?hs (drop j hkeys) (put_headers ?hs ?ks (\<lambda>_. None)) = ?hs"
      using put_headers_append [of ?hs ?ks "drop j hkeys"] put_headers_all [OF printable_keys(2) [OF assms(1)]] by simp
    show ?thesis
      using pieces_of_headers [OF _ rest good c'(1), of "x\<lparr>requestParser := ?r1\<rparr>" root open_file f fstat n keys]
        assms(7,10-12) ps c'(2,3) all by (simp add: in_headers_def)
  next
    case False
    with k(2) j have "take j ?ls = ?ls" "drop j ?ls = []" by simp_all
    with pj have "p = s" "concat ps' = []" using s by (simp_all add: request_lines_def)
    then have pt: "p = s" and ps': "ps' = []" using assms(7) ps by (cases ps'; auto simp: newline_end_def)+
    let ?r1 = "parsed q (length s) (RequestParser_clear p0)"
    have parse: "RequestParser_parse m b (b + int (length p)) (requestParser x) = Inr ?r1" if "reads m b p" for m b
      using parse_printed [OF assms(1-3), of m b "b + int (length p)" p0] that pt assms(9) reads_length [OF that] by simp
    show ?thesis
      using last_piece [OF assms(8) p(2,3) _ parse, of root open_file f fstat n keys] assms(9-12) ps ps' pt
      by (simp add: parsed_def RequestParser_clear_def)
  qed
qed

section \<open>Requests that arrive together\<close>

text \<open>
  A request to be served: the order of its header lines, the request, its text, and the file. It may
  ask to keep the connection.
\<close>

type_synonym wanted = "string list \<times> request \<times> string \<times> nat \<times> int"

definition keeps :: "wanted \<Rightarrow> bool" where
  "keeps w \<longleftrightarrow> (case w of (hkeys, q, s, f, n) \<Rightarrow> req_headers q ''Connection'' = Some ''keep-alive'')"

definition wanted_ok :: "string \<Rightarrow> (string \<Rightarrow> nat option) \<Rightarrow> (nat \<Rightarrow> int answer) \<Rightarrow> wanted \<Rightarrow> bool" where
  "wanted_ok root open_file fstat w \<longleftrightarrow> (case w of (hkeys, q, s, f, n) \<Rightarrow>
     printable hkeys q \<and> Request_toString hkeys q = Inr s \<and> buffer_text (req_body q) = Inr []
     \<and> root @ req_uri q \<noteq> [] \<and> open_file (root @ req_uri q) = Some f \<and> fstat f = Inr n \<and> 0 < n)"

definition wanted_text :: "wanted \<Rightarrow> string" where
  "wanted_text w = (case w of (_, _, s, _, _) \<Rightarrow> s)"

definition head_text :: "string list \<Rightarrow> wanted \<Rightarrow> string" where
  "head_text keys w = (case w of (_, q, _, _, n) \<Rightarrow> response_text keys n (req_uri q))"

definition head_task :: "string list \<Rightarrow> wanted \<Rightarrow> http_handler io_task" where
  "head_task keys w = (case w of (_, _, _, f, n) \<Rightarrow>
     buffer_task (buf_of (map Some (head_text keys w)) 0 (length (head_text keys w))) (Some (ServeFile f n)))"

definition file_task :: "wanted \<Rightarrow> http_handler io_task" where
  "file_task w = (case w of (_, _, _, f, n) \<Rightarrow>
     \<lparr>fp = Some f, foffset = 0, flen = n, tbuffer = None, thandler = Some Finished\<rparr>)"

definition file_bytes :: "wanted \<Rightarrow> item list" where
  "file_bytes w = (case w of (_, _, _, f, n) \<Rightarrow> file_items f 0 (nat n))"

lemma head_text_nonempty: "head_text keys w \<noteq> []"
  by (simp add: head_text_def response_text_def split: prod.split)

lemma head_task_ready: "buffer_ready (head_task keys w)"
  using head_text_nonempty [of keys w]
  by (cases w) (simp add: buffer_ready_def head_task_def buffer_task_def)

lemma head_task_items: "task_items (head_task keys w) = map (Byte \<circ> Some) (head_text keys w)"
  by (simp add: head_task_def buffer_task_def task_items_def split: prod.split)

lemma wanted_room:
  "\<forall>w \<in> set ws. wanted_ok root open_file fstat w \<Longrightarrow> \<forall>(hkeys, q, s, f, n) \<in> set ws. n \<le> r \<Longrightarrow>
     \<forall>(hkeys, q, s, f, n) \<in> set ws. 0 < n \<and> n \<le> r"
  by (auto simp: wanted_ok_def)

text \<open>The requests that keep the connection are answered one after the other.\<close>

lemma server_loop_pipelined:
  assumes "\<not> destroyed c" "buf_ok (readBuf c)" "content (readBuf c) = map Some (concat (map wanted_text ws) @ rest)"
    "requestParser x = RequestParser_clear p" "\<forall>w \<in> set ws. wanted_ok root open_file fstat w \<and> keeps w"
  shows "\<exists>x' c' p'. http_server_loop root open_file fstat keys x c = http_server_loop root open_file fstat keys x' c'
    \<and> \<not> destroyed c' \<and> buf_ok (readBuf c') \<and> content (readBuf c') = map Some rest \<and> wire c' = wire c
    \<and> requestParser x' = RequestParser_clear p' \<and> keep_alive x' = keep_alive x \<and> has_errocb c' = has_errocb c
    \<and> writTasks c' = writTasks c @ map (head_task keys) ws"
  using assms
proof (induction ws arbitrary: x c p)
  case Nil
  then show ?case by (intro exI [of _ x] exI [of _ c] exI [of _ p]) simp
next
  case (Cons w ws)
  obtain hkeys q s f n where w: "w = (hkeys, q, s, f, n)" by (cases w)
  have ok: "printable hkeys q" "Request_toString hkeys q = Inr s" "buffer_text (req_body q) = Inr []"
    "req_headers q ''Connection'' = Some ''keep-alive''" "root @ req_uri q \<noteq> []"
    "open_file (root @ req_uri q) = Some f" "fstat f = Inr n"
    using Cons.prems(5) w by (simp_all add: wanted_ok_def keeps_def)
  let ?rest = "concat (map wanted_text ws) @ rest" and ?r = "parsed q (length s) (RequestParser_clear p)"
  have "wanted_text w = s" by (simp add: wanted_text_def w)
  then have cont: "content (readBuf c) = map Some (s @ ?rest)" using Cons.prems(3) by simp
  have sne: "s \<noteq> []" using Request_toString_lines [OF ok(2,3)] by (simp add: crlf_def)
  have rd: "reads (storage (readBuf c)) (leftIndex (readBuf c)) (s @ ?rest)"
    by (rule reads_content [OF Cons.prems(2) cont])
  have "RequestParser_parse (storage (readBuf c)) (leftIndex (readBuf c)) (leftIndex (readBuf c) + int (length (s @ ?rest)))
      (requestParser x) = Inr ?r"
    using parse_printed [OF ok(1-3), of "storage (readBuf c)" "leftIndex (readBuf c)" _ p] rd reads_length [OF rd]
      Cons.prems(4) by (simp add: reads_append)
  moreover have bytes: "req_bytes ?r - req_bytes (requestParser x) = int (length s)"
    by (simp add: Cons.prems(4) parsed_def RequestParser_clear_def)
  ultimately obtain b where b: "http_parse x c = Inr (x\<lparr>requestParser := ?r\<rparr>, c\<lparr>readBuf := b\<rparr>)" "buf_ok b"
    "content b = map Some ?rest"
    using http_parse_ok [OF Cons.prems(2) cont, of x ?r] sne by auto
  have ne: "\<not> Buffer_empty (readBuf c)" using Buffer_not_empty [OF Cons.prems(2)] cont sne by simp
  have r: "req_progress ?r = request_progress.Good" "req_uri ?r = req_uri q" "req_headers ?r = req_headers q"
    by (simp_all add: parsed_def)
  let ?c = "queue_reply keys f n (req_uri q) (c\<lparr>readBuf := b\<rparr>)"
  let ?x = "x\<lparr>requestParser := RequestParser_clear (touch_connection ?r)\<rparr>"
  have step: "http_server_loop root open_file fstat keys x c = http_server_loop root open_file fstat keys ?x ?c"
    using server_loop_good [where r = ?r and x = x and c = c and b = b and root = root and open_file = open_file
        and fstat = fstat and f = f and n = n, OF Cons.prems(1) ne r(1) b(1)] ok(4-7) r(2,3) by (simp add: Let_def)
  have task: "writTasks ?c = writTasks c @ [head_task keys w]"
    by (simp add: queue_reply_def head_task_def head_text_def w)
  have "\<not> destroyed ?c" "buf_ok (readBuf ?c)" "content (readBuf ?c) = map Some ?rest" "wire ?c = wire c"
    "has_errocb ?c = has_errocb c"
    using Cons.prems(1) b(2,3) by (simp_all add: queue_reply_def)
  with Cons.IH [of ?c ?x "touch_connection ?r"] Cons.prems(5) step task show ?case by simp
qed

text \<open>Writing the heads: the handler of each of them puts its file behind everything queued so far.\<close>

lemma consume_heads:
  assumes "\<not> destroyed c" "writTasks c = map (head_task keys) ws @ map file_task ds"
  shows "\<exists>c' es. consume http_behaviour (int (length (items_of (map (head_task keys) ws)))) c = Some (Inr (False, c'))
    \<and> \<not> destroyed c' \<and> writTasks c' = map file_task (ds @ ws) \<and> wire c' = wire c \<and> cevents c' = cevents c @ es
    \<and> has_errocb c' = has_errocb c"
  using assms
proof (induction ws arbitrary: c ds)
  case Nil
  then show ?case using consume_nothing [of http_behaviour c] by simp
next
  case (Cons w ws)
  obtain hkeys q s f n where w: "w = (hkeys, q, s, f, n)" by (cases w)
  obtain b where b: "fp (head_task keys w) = None" "tbuffer (head_task keys w) = Some b" "buf_ok b" "content b \<noteq> []"
    using head_task_ready [of keys w] by (auto simp: buffer_ready_def)
  have h: "thandler (head_task keys w) = Some (ServeFile f n)" by (simp add: head_task_def buffer_task_def w)
  define c1 where "c1 = c\<lparr>cevents := cevents c @ [Ran (ServeFile f n)],
    writTasks := writTasks c @ [file_task w], queued := queued c @ task_items (file_task w),
    promised := promised c @ [Finished], write_on := True\<rparr>"
  have run: "run_handler http_behaviour (Some (ServeFile f n)) c = Inr c1"
    using Cons.prems(1) by (simp add: run_handler_def run_cev_def http_behaviour_def Connection_sendFile_def push_task_def
        Connection_enableWrit_def c1_def file_task_def w)
  have len: "length (task_items (head_task keys w)) = length (content b)" using b by (simp add: task_items_def)
  have pos: "0 < int (length (content b)) + k" if "0 \<le> k" for k :: int
    using b(4) that by (intro add_pos_nonneg) simp_all
  let ?c2 = "c1\<lparr>writTasks := map (head_task keys) ws @ map file_task (ds @ [w])\<rparr>"
  have "consume http_behaviour (int (length (items_of (map (head_task keys) (w # ws))))) c
      = consume http_behaviour (int (length (items_of (map (head_task keys) ws)))) ?c2"
    using Cons.prems run h b(2-4) len pos Buffer_size_ok [OF b(3)]
    by (subst consume.simps) (simp add: c1_def)
  moreover have "\<not> destroyed ?c2" "wire ?c2 = wire c" "has_errocb ?c2 = has_errocb c"
    "cevents ?c2 = cevents c @ [Ran (ServeFile f n)]" using Cons.prems(1) by (simp_all add: c1_def)
  ultimately show ?case using Cons.IH [of ?c2 "ds @ [w]"] by auto
qed

definition heads :: "string list \<Rightarrow> wanted list \<Rightarrow> item list" where
  "heads keys ws = concat (map (\<lambda>w. map (Byte \<circ> Some) (head_text keys w)) ws)"

lemma heads_round:
  assumes "\<not> destroyed c" "writTasks c = map (head_task keys) ws" "ws \<noteq> []"
    "int (length (concat (map (head_text keys) ws))) \<le> r"
  shows "\<exists>c' es. writ_round http_behaviour (Room r) c = Some (Inr (False, c')) \<and> \<not> destroyed c'
    \<and> writTasks c' = map file_task ws \<and> wire c' = wire c @ heads keys ws \<and> cevents c' = cevents c @ es
    \<and> has_errocb c' = has_errocb c"
proof -
  define sent where "sent = items_of (map (head_task keys) ws)"
  have its: "sent = heads keys ws"
    by (simp add: sent_def heads_def head_task_items comp_def)
  have len: "length sent = length (concat (map (head_text keys) ws))"
    unfolding its heads_def by (simp add: length_concat comp_def)
  have ne: "sent \<noteq> []" using assms(3) head_text_nonempty unfolding its heads_def by (cases ws) auto
  have g: "gather (writTasks c) = Inr sent"
    using gather_ready [of "map (head_task keys) ws" "[]"] head_task_ready assms(2) by (auto simp: sent_def)
  obtain c' es where c': "consume http_behaviour (int (length sent)) (c\<lparr>wire := wire c @ sent\<rparr>) = Some (Inr (False, c'))"
    "\<not> destroyed c'" "writTasks c' = map file_task ws" "wire c' = wire c @ sent" "cevents c' = cevents c @ es"
    "has_errocb c' = has_errocb c"
    using consume_heads [of "c\<lparr>wire := wire c @ sent\<rparr>" keys ws "[]"] assms(1,2) by (auto simp: sent_def)
  have min: "min r (int (length sent)) = int (length sent)" using assms(4) len by simp
  obtain t ts where t: "writTasks c = t # ts" "fp t = None"
    using assms(2,3) head_task_ready [of keys "hd ws"] by (cases ws) (auto simp: buffer_ready_def)
  have "writ_round http_behaviour (Room r) c = Some (Inr (False, c'))"
    unfolding writ_round_def using g c'(1) assms(1) ne t min by simp
  with c' its show ?thesis by blast
qed

lemma write_files:
  assumes "\<not> destroyed c" "writTasks c = map file_task (ws @ vs)" "\<forall>(hkeys, q, s, f, n) \<in> set ws. 0 < n \<and> n \<le> r"
  shows "\<exists>c'. (\<forall>as. writ_loop http_behaviour (replicate (length ws) (Room r) @ as) c = writ_loop http_behaviour as c')
    \<and> \<not> destroyed c' \<and> writTasks c' = map file_task vs \<and> wire c' = wire c @ concat (map file_bytes ws)
    \<and> cevents c' = cevents c @ replicate (length ws) (Ran Finished) \<and> has_errocb c' = has_errocb c"
  using assms
proof (induction ws arbitrary: c)
  case Nil
  then show ?case by (intro exI [of _ c]) simp
next
  case (Cons w ws)
  obtain hkeys q s f n where w: "w = (hkeys, q, s, f, n)" by (cases w)
  have n: "0 < n" "n \<le> r" using Cons.prems(3) w by simp_all
  let ?c = "c\<lparr>wire := wire c @ file_items f 0 (nat n), cevents := cevents c @ [Ran Finished],
    writTasks := map file_task (ws @ vs)\<rparr>"
  have "writ_round http_behaviour (Room r) c = Some (Inr (False, ?c))"
    using Cons.prems(1,2) n w by (simp add: writ_round_def file_task_def min_absorb2 run_handler_def run_cev_def http_behaviour_def)
  with Cons.IH [of ?c] Cons.prems(1,3) w show ?case by (auto simp: file_bytes_def)
qed

lemma write_pipelined:
  assumes "\<not> destroyed c" "writTasks c = map (head_task keys) (ws @ vs)" "ws @ vs \<noteq> []"
    "int (length (concat (map (head_text keys) (ws @ vs)))) \<le> r" "\<forall>(hkeys, q, s, f, n) \<in> set ws. 0 < n \<and> n \<le> r"
  shows "\<exists>c' es. (\<forall>as. Connection_handleWritEvent http_behaviour (Room r # replicate (length ws) (Room r) @ as) c = writ_loop http_behaviour as c')
    \<and> \<not> destroyed c' \<and> writTasks c' = map file_task vs
    \<and> wire c' = wire c @ heads keys (ws @ vs) @ concat (map file_bytes ws)
    \<and> cevents c' = cevents c @ es @ replicate (length ws) (Ran Finished) \<and> has_errocb c' = has_errocb c"
proof -
  obtain c1 es where c1: "writ_round http_behaviour (Room r) c = Some (Inr (False, c1))" "\<not> destroyed c1"
    "writTasks c1 = map file_task (ws @ vs)" "wire c1 = wire c @ heads keys (ws @ vs)" "cevents c1 = cevents c @ es"
    "has_errocb c1 = has_errocb c"
    using heads_round [OF assms(1-4)] by blast
  obtain c' where "\<forall>as. writ_loop http_behaviour (replicate (length ws) (Room r) @ as) c1 = writ_loop http_behaviour as c'"
    "\<not> destroyed c'" "writTasks c' = map file_task vs" "wire c' = wire c1 @ concat (map file_bytes ws)"
    "cevents c' = cevents c1 @ replicate (length ws) (Ran Finished)" "has_errocb c' = has_errocb c1"
    using write_files [OF c1(2,3) assms(5)] by blast
  with c1 assms(1-3) show ?thesis
    by (intro exI [of _ c'] exI [of _ es]) (auto simp: Connection_handleWritEvent_def)
qed

section \<open>Properties\<close>

text \<open>A request may arrive in any number of read events, as long as every piece ends at the end of a
  line: the server waits for the blank line, and then puts exactly the response head and the bytes of
  the file on the wire, in the next write event that finds room. (A piece that ends inside a line is
  misread, see \<open>RequestParser_incomplete_input\<close>.) Then the connection is closed, unless the request asks
  to keep it.\<close>

theorem HttpServer_serves_pieces:
  assumes "printable hkeys q" "Request_toString hkeys q = Inr s" "buffer_text (req_body q) = Inr []"
    and "CHR 0x0A \<notin> set (req_uri q)" "CHR 0x0A \<notin> set (req_query q)"
    and "concat ps = s" "\<forall>p \<in> set ps. p \<noteq> [] \<and> last p = CHR 0x0A \<and> length p \<le> 16384"
    and "reading c" "requestParser x = RequestParser_clear p0"
    and "root @ req_uri q \<noteq> []" "open_file (root @ req_uri q) = Some f" "fstat f = Inr n"
    and "0 < n" "n \<le> r" "int (length (response_text keys n (req_uri q))) \<le> r"
  shows "\<exists>x' c1 c2. http_reads root open_file fstat keys ps x c = Some (Inr (x', c1))
    \<and> keep_alive x' = (keep_alive x \<and> req_headers q ''Connection'' = Some ''keep-alive'')
    \<and> (req_headers q ''Connection'' = Some ''keep-alive'' \<longrightarrow> cleared x')
    \<and> http_write x' [Room r, Room r] c1 = Some (Inr c2) \<and> (if keep_alive x' then reading c2 else destroyed c2)
    \<and> wire c2 = wire c @ map (Byte \<circ> Some) (response_text keys n (req_uri q)) @ file_items f 0 (nat n)"
proof -
  have "\<forall>p \<in> set ps. piece_ok p" using assms(7) by (simp add: newline_end_def)
  from pieces_of_request [where root = root and open_file = open_file and fstat = fstat and f = f and x = x and keys = keys,
      OF assms(1-6) this assms(8-12)] obtain x' c' where
    r: "http_reads root open_file fstat keys ps x c = Some (Inr (x', queue_reply keys f n (req_uri q) c'))"
    "reading c'" "wire c' = wire c" "keep_alive x' = (keep_alive x \<and> req_headers q ''Connection'' = Some ''keep-alive'')"
    "req_headers q ''Connection'' = Some ''keep-alive'' \<longrightarrow> cleared x'"
    by blast
  let ?s = "response_text keys n (req_uri q)" and ?c1 = "queue_reply keys f n (req_uri q) c'"
  have "?s \<noteq> []" by (simp add: response_text_def)
  then obtain c2 where c2: "Connection_handleWritEvent http_behaviour [Room r, Room r] ?c1 = Some (Inr c2)"
    "\<not> destroyed c2" "writTasks c2 = []" "readBuf c2 = readBuf c'"
    "wire c2 = wire c @ map (Byte \<circ> Some) ?s @ file_items f 0 (nat n)"
    "cevents c2 = cevents ?c1 @ [Ran (ServeFile f n), Ran Finished]"
    using serve_writes [of ?c1 ?s n r f] assms(13-15) r(2,3) by (auto simp: queue_reply_def reading_def)
  have read: "reading c2" using r(2) c2(2-4) by (simp add: reading_def)
  let ?c2 = "if keep_alive x' then c2 else Connection_destroy c2"
  have "http_write x' [Room r, Room r] ?c1 = Some (Inr ?c2)" using c2(1,2,6) by (simp add: http_write_def)
  then show ?thesis using r(1,4,5) c2(2,5) read
    by (intro exI [of _ x'] exI [of _ ?c1] exI [of _ ?c2]) (simp add: Connection_destroy_def)
qed

definition get :: "string \<Rightarrow> request" where
  "get uri = \<lparr>req_method = GET, req_uri = uri, req_query = [], req_headers = [''Connection'' \<mapsto> ''keep-alive''],
     req_body = Buffer_default\<rparr>"

definition get_text :: "string \<Rightarrow> string" where
  "get_text uri = ''GET '' @ uri @ '' HTTP/1.1'' @ crlf @ ''Connection: keep-alive'' @ crlf @ crlf"

lemma get_ok:
  assumes "plain uri"
  shows "printable [''Connection''] (get uri)" "Request_toString [''Connection''] (get uri) = Inr (get_text uri)"
    "buffer_text (req_body (get uri)) = Inr []"
  using assms
  by (simp_all add: printable_def get_def plain_def lists_keys_def good_key_def good_value_def isspace_def
      Request_toString_def get_text_def buffer_text_def Buffer_empty_def dict_at_def methods_string_def header_line_def)

definition fresh_conn :: "string \<Rightarrow> http_handler conn" where
  "fresh_conn s = \<lparr>destroyed = False, read_on = True, write_on = False, readBuf = buf_of (map Some s) 0 (length s),
     writTasks = [], has_readcb = True, has_errocb = True, cevents = [], wire = [], queued = [], promised = []\<rparr>"

definition fresh_context :: http_context where
  "fresh_context = \<lparr>keep_alive = True, requestParser = RequestParser_clear RequestParser_new\<rparr>"

lemma response_length: "length (response_text [''Content-Length''] 3 uri) = 38"
proof -
  have "to_string 3 = ''3''" by code_simp
  then show ?thesis by (simp add: response_text_def header_line_def crlf_def)
qed

theorem HttpServer_serves_pieces_witness:
  "\<exists>x' c1 c2. http_reads ''/srv'' [''/srv/a'' \<mapsto> 9] (\<lambda>_. Inr 3) [''Content-Length'']
      [''GET /a HTTP/1.1'' @ crlf, ''Connection: keep-alive'' @ crlf, crlf] fresh_context
      ((fresh_conn [])\<lparr>readBuf := buf_of [Some CHR 0x00] 0 0\<rparr>) = Some (Inr (x', c1))
    \<and> http_write x' [Room 100, Room 100] c1 = Some (Inr c2) \<and> reading c2
    \<and> wire c2 = map (Byte \<circ> Some) (response_text [''Content-Length''] 3 ''/a'') @ file_items 9 0 3"
proof -
  have pl: "plain ''/a''" by (simp add: plain_def)
  have "reading ((fresh_conn [])\<lparr>readBuf := buf_of [Some CHR 0x00] 0 0\<rparr>)"
    by (simp add: reading_def fresh_conn_def buf_of_def buf_ok_def content_def storage_def)
  from HttpServer_serves_pieces [OF get_ok [OF pl] _ _ _ _ this, of
      "[''GET /a HTTP/1.1'' @ crlf, ''Connection: keep-alive'' @ crlf, crlf]" fresh_context RequestParser_new
      "''/srv''" "[''/srv/a'' \<mapsto> 9]" 9 "\<lambda>_. Inr 3" 3 100 "[''Content-Length'']"] response_length
  show ?thesis by (auto simp: get_def get_text_def crlf_def fresh_context_def fresh_conn_def)
qed

text \<open>C20. Requests that arrive together. When several complete requests that keep the connection lie in
  the read buffer, the server queues all heads before any file, and every head's handler puts its file
  behind them: the wire carries first all the heads and then all the files. From the second request
  on, the bytes that follow a head are not the file it announces.\<close>

theorem HttpServer_pipelined_heads_first:
  assumes "\<not> destroyed c" "buf_ok (readBuf c)" "writTasks c = []" "requestParser x = RequestParser_clear p"
    and "content (readBuf c) = map Some (concat (map wanted_text ws))" "ws \<noteq> []"
    and "\<forall>w \<in> set ws. wanted_ok root open_file fstat w \<and> keeps w"
    and "\<forall>(hkeys, q, s, f, n) \<in> set ws. n \<le> r" "int (length (concat (map (head_text keys) ws))) \<le> r"
  shows "\<exists>x' c1 c2. http_server_loop root open_file fstat keys x c = Some (Inr (x', c1))
    \<and> keep_alive x' = keep_alive x \<and> content (readBuf c1) = []
    \<and> Connection_handleWritEvent http_behaviour (replicate (Suc (length ws)) (Room r)) c1 = Some (Inr c2)
    \<and> \<not> destroyed c2 \<and> writTasks c2 = []
    \<and> wire c2 = wire c @ concat (map (\<lambda>w. map (Byte \<circ> Some) (head_text keys w)) ws) @ concat (map file_bytes ws)"
proof -
  obtain x' c1 where l: "http_server_loop root open_file fstat keys x c = http_server_loop root open_file fstat keys x' c1"
    "\<not> destroyed c1" "buf_ok (readBuf c1)" "content (readBuf c1) = []" "wire c1 = wire c" "keep_alive x' = keep_alive x"
    "writTasks c1 = map (head_task keys) ws"
    using server_loop_pipelined [where rest = "[]" and ws = ws and keys = keys, OF assms(1,2) _ assms(4,7)] assms(3,5) by auto
  have "\<forall>(hkeys, q, s, f, n) \<in> set ws. 0 < n \<and> n \<le> r"
    by (rule wanted_room [of _ root open_file fstat]) (use assms(7,8) in auto)
  note rooms = this
  have tasks: "writTasks c1 = map (head_task keys) (ws @ [])" "ws @ [] \<noteq> []"
    "int (length (concat (map (head_text keys) (ws @ [])))) \<le> r" using l(7) assms(6,9) by simp_all
  obtain c2 where c2: "\<forall>as. Connection_handleWritEvent http_behaviour (Room r # replicate (length ws) (Room r) @ as) c1
      = writ_loop http_behaviour as c2" "\<not> destroyed c2" "writTasks c2 = []"
    "wire c2 = wire c @ heads keys ws @ concat (map file_bytes ws)"
    using write_pipelined [OF l(2) tasks rooms] l(5) by auto
  have "Connection_handleWritEvent http_behaviour (replicate (Suc (length ws)) (Room r)) c1 = writ_loop http_behaviour [] c2"
    using c2(1) [rule_format, of "[]"] by simp
  moreover have "writ_loop http_behaviour [] c2 = Some (Inr c2)" using c2(3) by (simp add: writ_round_def)
  ultimately show ?thesis using l server_loop_empty [OF l(3,4)] c2(2-4)
    by (intro exI [of _ x'] exI [of _ c1] exI [of _ c2]) (simp add: heads_def)
qed

theorem HttpServer_pipelined_heads_first_witness:
  "\<exists>x' c1 c2. http_server_loop ''/srv'' [''/srv/a'' \<mapsto> 8, ''/srv/b'' \<mapsto> 9] (\<lambda>_. Inr 3) [''Content-Length'']
      fresh_context (fresh_conn (get_text ''/a'' @ get_text ''/b'')) = Some (Inr (x', c1))
    \<and> Connection_handleWritEvent http_behaviour [Room 100, Room 100, Room 100] c1 = Some (Inr c2)
    \<and> wire c2 = map (Byte \<circ> Some) (response_text [''Content-Length''] 3 ''/a'' @ response_text [''Content-Length''] 3 ''/b'')
        @ file_items 8 0 3 @ file_items 9 0 3"
proof -
  let ?open = "[''/srv/a'' \<mapsto> 8, ''/srv/b'' \<mapsto> (9 :: nat)]"
  let ?ws = "[([''Connection''], get ''/a'', get_text ''/a'', 8, 3), ([''Connection''], get ''/b'', get_text ''/b'', 9, 3)]"
  have pl: "plain ''/a''" "plain ''/b''" by (simp_all add: plain_def)
  have "\<forall>w \<in> set ?ws. wanted_ok ''/srv'' ?open (\<lambda>_. Inr 3) w \<and> keeps w"
    using get_ok [OF pl(1)] get_ok [OF pl(2)] by (simp add: wanted_ok_def keeps_def) (simp add: get_def)
  moreover have "\<not> destroyed (fresh_conn s)" "buf_ok (readBuf (fresh_conn s))" "writTasks (fresh_conn s) = []"
    "content (readBuf (fresh_conn s)) = map Some s" "wire (fresh_conn s) = []" for s
    by (simp_all add: fresh_conn_def)
  moreover have "concat (map wanted_text ?ws) = get_text ''/a'' @ get_text ''/b''" by (simp add: wanted_text_def)
  moreover have "requestParser fresh_context = RequestParser_clear RequestParser_new" by (simp add: fresh_context_def)
  moreover have "req_uri (get u) = u" for u by (simp_all add: get_def)
  ultimately obtain x' c1 c2 where "http_server_loop ''/srv'' ?open (\<lambda>_. Inr 3) [''Content-Length'']
      fresh_context (fresh_conn (get_text ''/a'' @ get_text ''/b'')) = Some (Inr (x', c1))"
    "Connection_handleWritEvent http_behaviour (replicate (Suc (length ?ws)) (Room 100)) c1 = Some (Inr c2)"
    "wire c2 = concat (map (\<lambda>w. map (Byte \<circ> Some) (head_text [''Content-Length''] w)) ?ws) @ concat (map file_bytes ?ws)"
    using HttpServer_pipelined_heads_first [of "fresh_conn (get_text ''/a'' @ get_text ''/b'')" fresh_context
        RequestParser_new ?ws "''/srv''" ?open "\<lambda>_. Inr 3" 100 "[''Content-Length'']"] response_length
    by (auto simp: head_text_def)
  then show ?thesis by (intro exI [of _ x'] exI [of _ c1] exI [of _ c2]) (simp add: head_text_def file_bytes_def get_def)
qed

text \<open>A request that does not keep the connection is answered again by every later read event that comes
  before the connection is closed: the parser stays where it is, and nothing is taken from the buffer.\<close>

theorem HttpServer_serves_again:
  assumes "\<not> destroyed c" "buf_ok (readBuf c)" "content (readBuf c) = map Some s" "s \<noteq> []"
    and "req_progress (requestParser x) = request_progress.Good"
    and "req_headers (requestParser x) ''Connection'' \<noteq> Some ''keep-alive''"
    and "root @ req_uri (requestParser x) \<noteq> []" "open_file (root @ req_uri (requestParser x)) = Some f" "fstat f = Inr n"
  shows "http_server_loop root open_file fstat keys x c =
    Some (Inr (\<lparr>keep_alive = False, requestParser = touch_connection (requestParser x)\<rparr>,
      queue_reply keys f n (req_uri (requestParser x)) c))"
proof -
  have "\<not> Buffer_empty (readBuf c)" using Buffer_not_empty [OF assms(2)] assms(3,4) by simp
  moreover have "http_parse x c = Inr (x\<lparr>requestParser := requestParser x\<rparr>, c\<lparr>readBuf := readBuf c\<rparr>)"
    using assms(2-5) by (simp add: http_parse_def Buffer_data_ok Buffer_size_ok RequestParser_parse_def Buffer_retrieve_zero)
  ultimately show ?thesis
    using server_loop_good [where x = x and r = "requestParser x" and b = "readBuf c" and root = root and open_file = open_file
        and fstat = fstat and c = c and f = f and n = n and keys = keys] assms(1,5-9)
    by (simp add: Let_def)
qed


text \<open>A second request, for a file of three bytes, without a \<^verbatim>\<open>Connection\<close> header.\<close>

definition get_close :: "string \<Rightarrow> request" where
  "get_close uri = (get uri)\<lparr>req_headers := Map.empty\<rparr>"

lemma get_close_ok:
  assumes "plain uri"
  shows "printable [] (get_close uri)"
    "Request_toString [] (get_close uri) = Inr (''GET '' @ uri @ '' HTTP/1.1'' @ crlf @ crlf)"
    "buffer_text (req_body (get_close uri)) = Inr []"
  using assms
  by (simp_all add: get_close_def printable_def get_def plain_def lists_keys_def good_key_def good_value_def
      Request_toString_def buffer_text_def Buffer_empty_def dict_at_def methods_string_def)


end
