(* ===== verification/Tcp.thy ===== *)
theory Tcp
  imports Sockets
begin

text \<open>
  \<^verbatim>\<open>EventLoopGroup\<close>, \<^verbatim>\<open>TcpServer\<close> and \<^verbatim>\<open>TcpClient\<close> (\<^verbatim>\<open>src/src/\<close>): which loop serves which descriptor,
  the accept loop of a server over the kernel's answers, and the life of a client that connects.
  A loop is its number in the group.
\<close>

section \<open>Groups of loops\<close>

record loop_group =
  gr_n :: int
  ploops :: "nat list"

text \<open>The constructor makes \<open>n + 1\<close> loops and binds the first to the calling thread.\<close>

definition EventLoopGroup_new :: "int \<Rightarrow> loop_group res" where
  "EventLoopGroup_new n =
     (let loops = [0..<nat (n + 1)]
      in if loops = [] then Inl Out_of_bounds else Inr \<lparr>gr_n = n, ploops = loops\<rparr>)"

definition loop_at :: "loop_group \<Rightarrow> int \<Rightarrow> nat res" where
  "loop_at g i = (if 0 \<le> i \<and> i < int (length (ploops g)) then Inr (ploops g ! nat i) else Inl Out_of_bounds)"

definition EventLoopGroup_robinLoop :: "int \<Rightarrow> loop_group \<Rightarrow> nat res" where
  "EventLoopGroup_robinLoop fd g = loop_at g (fd smod (gr_n g + 1))"

definition EventLoopGroup_robinLoop1 :: "int \<Rightarrow> loop_group \<Rightarrow> nat res" where
  "EventLoopGroup_robinLoop1 fd g =
     (if gr_n g = 0 then loop_at g 0 else loop_at g (fd smod gr_n g + 1))"

section \<open>Servers\<close>

text \<open>
  \<open>accepted\<close> lists the connections made: descriptor, peer and the loop they run on. \<open>listening\<close> says
  whether the channel of the listening socket is still there.
\<close>

record tcp_server =
  listenfd :: int
  srv_socket :: "socket option"
  listening :: bool
  srv_acceptcb :: bool
  srv_readcb :: bool
  srv_errocb :: bool
  accepted :: "(int \<times> endpoint \<times> nat) list"

definition TcpServer_new :: tcp_server where
  "TcpServer_new = \<lparr>listenfd = - 1, srv_socket = None, listening = False, srv_acceptcb = False,
     srv_readcb = False, srv_errocb = False, accepted = []\<rparr>"

definition TcpServer_setServerSocket :: "socket \<Rightarrow> tcp_server \<Rightarrow> tcp_server" where
  "TcpServer_setServerSocket s srv = srv\<lparr>srv_socket := Some s\<rparr>"

definition TcpServer_onRead :: "bool \<Rightarrow> tcp_server \<Rightarrow> tcp_server" where
  "TcpServer_onRead f srv = srv\<lparr>srv_readcb := f\<rparr>"

definition TcpServer_onErro :: "bool \<Rightarrow> tcp_server \<Rightarrow> tcp_server" where
  "TcpServer_onErro f srv = srv\<lparr>srv_errocb := f\<rparr>"

definition TcpServer_onAccept :: "bool \<Rightarrow> tcp_server \<Rightarrow> tcp_server" where
  "TcpServer_onAccept f srv = srv\<lparr>srv_acceptcb := f\<rparr>"

definition TcpServer_start :: "tcp_server \<Rightarrow> tcp_server res" where
  "TcpServer_start srv =
     (case srv_socket srv of None \<Rightarrow> Inl Null_deref
      | Some s \<Rightarrow> Inr (srv\<lparr>listenfd := sock_fd s, listening := True\<rparr>))"

definition TcpServer_handleErroEvent :: "tcp_server \<Rightarrow> tcp_server" where
  "TcpServer_handleErroEvent srv =
     srv\<lparr>listening := False, srv_acceptcb := False, srv_readcb := False, srv_errocb := False\<rparr>"

definition TcpServer_new_connection :: "loop_group \<Rightarrow> socket \<Rightarrow> tcp_server \<Rightarrow> tcp_server res" where
  "TcpServer_new_connection g s srv =
     bind_res (EventLoopGroup_robinLoop (sock_fd s) g) (\<lambda>l.
     Inr (srv\<lparr>accepted := accepted srv @ [(sock_fd s, sock_ep s, l)]\<rparr>))"

text \<open>The endless loop of the accept event; a thrown message is caught inside of it.\<close>

partial_function (option) accept_loop ::
    "loop_group \<Rightarrow> socket \<Rightarrow> (nat \<Rightarrow> (int \<times> endpoint) answer) \<Rightarrow> nat \<Rightarrow> tcp_server \<Rightarrow>
     (tcp_server \<times> nat) res option" where
  [code]: "accept_loop g s ans i srv =
     (case Socket_accept s ans i of
        None \<Rightarrow> None
      | Some (r, j) \<Rightarrow>
          (case r of
             Inl e \<Rightarrow>
               (case e of
                  Thrown _ \<Rightarrow> accept_loop g s ans j (TcpServer_handleErroEvent srv)
                | _ \<Rightarrow> Some (Inl e))
           | Inr None \<Rightarrow> Some (Inr (srv, j))
           | Inr (Some c) \<Rightarrow>
               (case TcpServer_new_connection g c srv of
                  Inl e \<Rightarrow> Some (Inl e)
                | Inr srv \<Rightarrow> accept_loop g s ans j srv)))"

definition TcpServer_handleAcceptEvent ::
    "loop_group \<Rightarrow> (nat \<Rightarrow> (int \<times> endpoint) answer) \<Rightarrow> tcp_server \<Rightarrow> (tcp_server \<times> nat) res option" where
  "TcpServer_handleAcceptEvent g ans srv =
     (if listenfd srv < 0 then Some (Inl Assertion)
      else case srv_socket srv of None \<Rightarrow> Some (Inl Null_deref) | Some s \<Rightarrow> accept_loop g s ans 0 srv)"

section \<open>Lemmas\<close>

definition group_ok :: "loop_group \<Rightarrow> bool" where
  "group_ok g \<longleftrightarrow> 0 \<le> gr_n g \<and> ploops g = [0..<nat (gr_n g + 1)]"

lemma EventLoopGroup_new_ok: "0 \<le> n \<Longrightarrow> \<exists>g. EventLoopGroup_new n = Inr g \<and> group_ok g \<and> gr_n g = n"
  by (auto simp: EventLoopGroup_new_def group_ok_def)

lemma loop_at_ok: "group_ok g \<Longrightarrow> 0 \<le> i \<Longrightarrow> i \<le> gr_n g \<Longrightarrow> loop_at g i = Inr (nat i)"
  by (simp add: loop_at_def group_ok_def nat_less_iff del: upt_Suc)

lemma robinLoop_ok: "group_ok g \<Longrightarrow> 0 \<le> fd \<Longrightarrow> EventLoopGroup_robinLoop fd g = Inr (nat (fd mod (gr_n g + 1)))"
proof -
  assume g: "group_ok g" and fd: "0 \<le> fd"
  then have "0 < gr_n g + 1" by (simp add: group_ok_def)
  then have "fd smod (gr_n g + 1) = fd mod (gr_n g + 1)" "0 \<le> fd mod (gr_n g + 1)" "fd mod (gr_n g + 1) \<le> gr_n g"
    using fd smod_nonneg [of fd "gr_n g + 1"] pos_mod_bound [of "gr_n g + 1" fd] by simp_all
  then show ?thesis using loop_at_ok [OF g] by (simp add: EventLoopGroup_robinLoop_def)
qed

text \<open>What one answer other than \<^verbatim>\<open>EAGAIN\<close> does to the server.\<close>

definition take_answer :: "loop_group \<Rightarrow> tcp_server \<Rightarrow> (int \<times> endpoint) answer \<Rightarrow> tcp_server" where
  "take_answer g srv a =
     (case a of
        Inl e \<Rightarrow> if e = EINTR then srv else TcpServer_handleErroEvent srv
      | Inr (fd, ep) \<Rightarrow> srv\<lparr>accepted := accepted srv @ [(fd, ep, nat (fd mod (gr_n g + 1)))]\<rparr>)"

definition answers_ok :: "(nat \<Rightarrow> (int \<times> endpoint) answer) \<Rightarrow> bool" where
  "answers_ok ans \<longleftrightarrow> (\<forall>i fd ep. ans i = Inr (fd, ep) \<longrightarrow> 0 \<le> fd)"

lemma accept_loop_step:
  assumes "group_ok g" "0 \<le> sock_fd s" "answers_ok ans" "ans i \<noteq> Inl EAGAIN"
  shows "accept_loop g s ans i srv = accept_loop g s ans (i + 1) (take_answer g srv (ans i))"
proof (cases "ans i")
  case (Inr p)
  obtain fd ep where p: "p = (fd, ep)" by (cases p)
  then have "0 \<le> fd" using assms(3) Inr by (auto simp: answers_ok_def)
  then show ?thesis
    using assms(1,2) Inr p
    by (subst accept_loop.simps, subst Socket_accept.simps)
      (simp add: FileDescriptor_def TcpServer_new_connection_def Socket_of_fp_endpoint_def robinLoop_ok
        take_answer_def)
next
  case (Inl e)
  show ?thesis
  proof (cases "e = EINTR")
    case True
    have "Socket_accept s ans i = Socket_accept s ans (i + 1)"
      using Inl True assms(2) by (subst Socket_accept.simps) simp
    moreover have "take_answer g srv (ans i) = srv" using Inl True by (simp add: take_answer_def)
    ultimately show ?thesis by (subst (1 2) accept_loop.simps) (simp only: Suc_eq_plus1)
  next
    case False
    then show ?thesis
      using Inl assms(2,4)
      by (subst accept_loop.simps, subst Socket_accept.simps) (simp add: take_answer_def)
  qed
qed

lemma accept_loop_stop:
  assumes "0 \<le> sock_fd s" "ans i = Inl EAGAIN"
  shows "accept_loop g s ans i srv = Some (Inr (srv, i + 1))"
  using assms by (subst accept_loop.simps, subst Socket_accept.simps) simp

lemma accept_loop_steps:
  assumes "group_ok g" "0 \<le> sock_fd s" "answers_ok ans" "\<forall>j < k. ans (i + j) \<noteq> Inl EAGAIN"
  shows "accept_loop g s ans i srv =
    accept_loop g s ans (i + k) (foldl (take_answer g) srv (map ans [i..<i + k]))"
  using assms(4)
proof (induction k)
  case (Suc k)
  then show ?case
    using accept_loop_step [OF assms(1-3), of "i + k"] by (simp add: add.assoc)
qed simp

text \<open>An accept loop that returns has met \<^verbatim>\<open>EAGAIN\<close>.\<close>

lemma Socket_accept_result:
  "Socket_accept s ans i = Some r \<Longrightarrow> 0 \<le> sock_fd s \<Longrightarrow> answers_ok ans \<Longrightarrow>
   (\<exists>j\<ge>i. ans j = Inl EAGAIN) \<or> (\<exists>j c e. i < j \<and> (r = (Inr (Some c), j) \<and> 0 \<le> sock_fd c \<or> r = (Inl (Thrown e), j)))"
proof (induction rule: Socket_accept.raw_induct [rotated, consumes 1, case_names step])
  case (step acc s ans i r)
  show ?case
  proof (cases "ans i")
    case (Inl e)
    show ?thesis
    proof (cases "e = EINTR")
      case True
      with Inl step.hyps step.prems have "acc s ans (i + 1) = Some r" by simp
      from step.IH [OF this step.prems] show ?thesis
        by (elim disjE exE conjE) (auto dest: Suc_leD Suc_lessD)
    next
      case False
      with Inl step.hyps step.prems show ?thesis by (cases "e = EAGAIN") auto
    qed
  next
    case (Inr p)
    obtain fd ep where p: "p = (fd, ep)" by (cases p)
    with Inr step.prems have "0 \<le> fd" by (auto simp: answers_ok_def)
    with Inr p step.hyps step.prems show ?thesis
      by (auto simp: FileDescriptor_def Socket_of_fp_endpoint_def)
  qed
qed

lemma accept_loop_result:
  "accept_loop g s ans i srv = Some r \<Longrightarrow> group_ok g \<Longrightarrow> 0 \<le> sock_fd s \<Longrightarrow> answers_ok ans \<Longrightarrow>
   \<exists>j\<ge>i. ans j = Inl EAGAIN"
proof (induction rule: accept_loop.raw_induct [rotated, consumes 1, case_names step])
  case (step loop g s ans i srv r)
  obtain q j where acc: "Socket_accept s ans i = Some (q, j)"
    using step.hyps by (cases "Socket_accept s ans i") (simp, force)
  from Socket_accept_result [OF acc step.prems(2,3)] show ?case
  proof (elim disjE exE conjE)
    fix k c e assume k: "i < k" "(q, j) = (Inr (Some c), k)" "0 \<le> sock_fd c"
    then obtain srv' where "TcpServer_new_connection g c srv = Inr srv'"
      using robinLoop_ok [OF step.prems(1)] by (auto simp: TcpServer_new_connection_def)
    then have "loop g s ans k srv' = Some r" using step.hyps acc k by simp
    from step.IH [OF this step.prems] k(1) show ?thesis by (meson le_trans less_imp_le)
  next
    fix k c e assume k: "i < k" "(q, j) = (Inl (Thrown e), k)"
    then have "loop g s ans k (TcpServer_handleErroEvent srv) = Some r" using step.hyps acc by simp
    from step.IH [OF this step.prems] k(1) show ?thesis by (meson le_trans less_imp_le)
  qed blast
qed

section \<open>Clients\<close>

text \<open>
  A client that connects: \<open>cl_chan\<close> holds the write and error callbacks of its channel while it has
  one, \<open>ticks\<close> the handlers it has queued with \<^verbatim>\<open>nextTick\<close>, and \<open>connected\<close> the calls of the
  connector, \<open>True\<close> with a connection and \<open>False\<close> with \<^verbatim>\<open>nullptr\<close>.
\<close>

record tcp_client =
  cl_loop :: bool
  cl_socket :: bool
  cl_chan :: "(bool \<times> bool) option"
  chan_read :: bool
  chan_writ :: bool
  cl_connector :: bool
  cl_self :: bool
  ticks :: "bool list"
  connected :: "bool list"

definition TcpClient_new :: "bool \<Rightarrow> bool \<Rightarrow> tcp_client" where
  "TcpClient_new lp sock = \<lparr>cl_loop = lp, cl_socket = sock, cl_chan = None, chan_read = False, chan_writ = False,
     cl_connector = False, cl_self = False, ticks = [], connected = []\<rparr>"

definition TcpClient_onConnect :: "bool \<Rightarrow> tcp_client \<Rightarrow> tcp_client" where
  "TcpClient_onConnect f t = t\<lparr>cl_connector := f\<rparr>"

definition TcpClient_setSocket :: "tcp_client \<Rightarrow> tcp_client" where
  "TcpClient_setSocket t = t\<lparr>cl_socket := True\<rparr>"

definition TcpClient_setEventLoop :: "tcp_client \<Rightarrow> tcp_client" where
  "TcpClient_setEventLoop t = t\<lparr>cl_loop := True\<rparr>"

definition TcpClient_destroy :: "tcp_client \<Rightarrow> tcp_client" where
  "TcpClient_destroy t = t\<lparr>cl_loop := False, cl_chan := None, cl_socket := False, cl_connector := False,
     cl_self := False\<rparr>"

definition TcpClient_start :: "tcp_client \<Rightarrow> tcp_client res" where
  "TcpClient_start t =
     bind_res (check (cl_loop t \<and> cl_socket t) Assertion) (\<lambda>_.
     Inr (t\<lparr>cl_chan := Some (True, True), chan_read := False, chan_writ := True, cl_self := True\<rparr>))"

text \<open>The callback for a writable descriptor; the connector is copied into the queued handler.\<close>

definition TcpClient_handleWrit :: "tcp_client \<Rightarrow> tcp_client res" where
  "TcpClient_handleWrit t =
     (if \<not> cl_loop t \<or> \<not> cl_socket t then Inl Null_deref
      else case cl_chan t of
        None \<Rightarrow> Inl Null_deref
      | Some _ \<Rightarrow>
          Inr (t\<lparr>ticks := ticks t @ [cl_connector t], chan_read := False, chan_writ := False\<rparr>))"

definition TcpClient_handleErro :: "tcp_client \<Rightarrow> tcp_client" where
  "TcpClient_handleErro t =
     TcpClient_destroy (if cl_connector t then t\<lparr>connected := connected t @ [False]\<rparr> else t)"

text \<open>The handler queued with \<^verbatim>\<open>nextTick\<close>: it turns the callbacks of the channel off, destroys the
  client and hands the connection over.\<close>

definition TcpClient_tick :: "bool \<Rightarrow> tcp_client \<Rightarrow> tcp_client res" where
  "TcpClient_tick connector t =
     (case cl_chan t of
        None \<Rightarrow> Inl Null_deref
      | Some _ \<Rightarrow>
          let t = TcpClient_destroy (t\<lparr>cl_chan := Some (False, False)\<rparr>)
          in Inr (if connector then t\<lparr>connected := connected t @ [True]\<rparr> else t))"

fun run_ticks :: "bool list \<Rightarrow> tcp_client \<Rightarrow> tcp_client res" where
  "run_ticks [] t = Inr t"
| "run_ticks (f # fs) t = bind_res (TcpClient_tick f t) (run_ticks fs)"

text \<open>
  One event on the client's channel followed by the queued handlers. The channel calls back only while
  it is there, with the error first.
\<close>

datatype client_event = Writable | Broken

definition client_round :: "client_event \<Rightarrow> tcp_client \<Rightarrow> tcp_client res" where
  "client_round e t =
     bind_res (case cl_chan t of
                 None \<Rightarrow> Inr t
               | Some _ \<Rightarrow> (case e of Writable \<Rightarrow> TcpClient_handleWrit t | Broken \<Rightarrow> Inr (TcpClient_handleErro t)))
       (\<lambda>t. run_ticks (ticks t) (t\<lparr>ticks := []\<rparr>))"

fun client_rounds :: "client_event list \<Rightarrow> tcp_client \<Rightarrow> tcp_client res" where
  "client_rounds [] t = Inr t"
| "client_rounds (e # es) t = bind_res (client_round e t) (client_rounds es)"

section \<open>Properties\<close>

text \<open>Which loop serves a descriptor. In a group made for \<open>n \<ge> 0\<close> workers both choices are defined for
  every descriptor: \<^verbatim>\<open>robinLoop\<close> takes any of the \<open>n + 1\<close> loops, all descriptors of one residue the
  same one, and \<^verbatim>\<open>robinLoop1\<close> never the first unless it is the only one. For a negative descriptor
  the remainder is negative and the access leaves the array.\<close>

theorem EventLoopGroup_robin:
  assumes "0 \<le> n" "EventLoopGroup_new n = Inr g" "0 \<le> fd"
  shows "EventLoopGroup_robinLoop fd g = Inr (nat (fd mod (n + 1)))
    \<and> EventLoopGroup_robinLoop1 fd g = Inr (if n = 0 then 0 else nat (fd mod n + 1))
    \<and> nat (fd mod (n + 1)) < length (ploops g)
    \<and> (n \<noteq> 0 \<longrightarrow> 0 < nat (fd mod n + 1) \<and> nat (fd mod n + 1) < length (ploops g))
    \<and> (0 < n \<longrightarrow> EventLoopGroup_robinLoop (- 1) g = Inl Out_of_bounds)"
proof -
  have g: "group_ok g" "gr_n g = n"
    using EventLoopGroup_new_ok [OF assms(1)] assms(2) by auto
  then have len: "int (length (ploops g)) = n + 1" using assms(1) by (simp add: group_ok_def)
  have b: "0 \<le> fd mod (n + 1)" "fd mod (n + 1) < n + 1"
    using assms(1) pos_mod_sign [of "n + 1" fd] pos_mod_bound [of "n + 1" fd] by simp_all
  have "- 1 smod (n + 1) = - 1" if "0 < n"
    using that by (simp add: signed_modulo_int_def)
  then have neg: "0 < n \<longrightarrow> EventLoopGroup_robinLoop (- 1) g = Inl Out_of_bounds"
    using g by (auto simp: EventLoopGroup_robinLoop_def loop_at_def)
  have "EventLoopGroup_robinLoop1 fd g = Inr (if n = 0 then 0 else nat (fd mod n + 1))
      \<and> (n \<noteq> 0 \<longrightarrow> 0 < nat (fd mod n + 1) \<and> nat (fd mod n + 1) < length (ploops g))"
  proof (cases "n = 0")
    case True
    with loop_at_ok [OF g(1), of 0] g(2) show ?thesis by (simp add: EventLoopGroup_robinLoop1_def)
  next
    case False
    then have m: "fd smod n = fd mod n" "0 \<le> fd mod n" "fd mod n < n"
      using assms(1,3) smod_nonneg [of fd n] pos_mod_bound [of n fd] by simp_all
    with False loop_at_ok [OF g(1), of "fd mod n + 1"] g(2) len show ?thesis
      by (auto simp: EventLoopGroup_robinLoop1_def nat_less_iff)
  qed
  with robinLoop_ok [OF g(1) assms(3)] g(2) b len neg show ?thesis by (simp add: nat_less_iff)
qed

lemma EventLoopGroup_robin_witness:
  "\<exists>g. EventLoopGroup_new 3 = Inr g \<and> EventLoopGroup_robinLoop 10 g = Inr 2 \<and> EventLoopGroup_robinLoop1 10 g = Inr 2"
proof -
  obtain g where g: "EventLoopGroup_new 3 = Inr g" using EventLoopGroup_new_ok [of 3] by auto
  with EventLoopGroup_robin [OF _ g, of 10] show ?thesis by simp
qed

text \<open>C19. The accept loop. On a valid listening socket the loop returns exactly when the kernel answers
  \<^verbatim>\<open>EAGAIN\<close> at some time; it has then made one connection per accepted descriptor, in order, on the
  loop that \<^verbatim>\<open>robinLoop\<close> gives, has ignored interruptions, and at any other error has given up its
  channel and its callbacks and gone on. So an error that persists, such as a full descriptor table,
  keeps the event loop in here for ever.\<close>

theorem TcpServer_accepts:
  assumes "group_ok g" "srv_socket srv = Some s" "0 \<le> sock_fd s" "0 \<le> listenfd srv" "answers_ok ans"
  shows "(\<forall>k. (\<forall>j < k. ans j \<noteq> Inl EAGAIN) \<and> ans k = Inl EAGAIN \<longrightarrow>
      TcpServer_handleAcceptEvent g ans srv = Some (Inr (foldl (take_answer g) srv (map ans [0..<k]), k + 1)))
    \<and> ((\<forall>j. ans j \<noteq> Inl EAGAIN) \<longrightarrow> TcpServer_handleAcceptEvent g ans srv = None)"
proof (intro conjI allI impI; (elim conjE)?)
  have run: "TcpServer_handleAcceptEvent g ans srv = accept_loop g s ans 0 srv"
    using assms(2,4) by (simp add: TcpServer_handleAcceptEvent_def)
  show "TcpServer_handleAcceptEvent g ans srv = Some (Inr (foldl (take_answer g) srv (map ans [0..<k]), k + 1))"
    if before: "\<forall>j < k. ans j \<noteq> Inl EAGAIN" and stop: "ans k = Inl EAGAIN" for k
    using accept_loop_steps [OF assms(1,3,5), of k 0 srv] accept_loop_stop [of s ans k g, OF assms(3) stop]
      before run by simp
  show "TcpServer_handleAcceptEvent g ans srv = None" if "\<forall>j. ans j \<noteq> Inl EAGAIN"
    using accept_loop_result [OF _ assms(1,3,5), of 0 srv] that run
    by (cases "accept_loop g s ans 0 srv") auto
qed

lemma TcpServer_accepts_witness:
  "TcpServer_handleAcceptEvent \<lparr>gr_n = 0, ploops = [0]\<rparr> (\<lambda>_. Inl (Errno ''EMFILE''))
     (TcpServer_new\<lparr>listenfd := 3, srv_socket := Some (Socket_of_fp 3 False)\<rparr>) = None"
proof -
  have "group_ok \<lparr>gr_n = 0, ploops = [0]\<rparr>" by (simp add: group_ok_def)
  then show ?thesis
    using TcpServer_accepts [of "\<lparr>gr_n = 0, ploops = [0]\<rparr>"
        "TcpServer_new\<lparr>listenfd := 3, srv_socket := Some (Socket_of_fp 3 False)\<rparr>" "Socket_of_fp 3 False"
        "\<lambda>_. Inl (Errno ''EMFILE'')"]
    by (simp add: Socket_of_fp_def answers_ok_def)
qed

lemma client_rounds_done: "cl_chan t = None \<Longrightarrow> ticks t = [] \<Longrightarrow> client_rounds es t = Inr t"
proof -
  assume t: "cl_chan t = None" "ticks t = []"
  then have "client_round e t = Inr t" for e by (cases t) (simp add: client_round_def)
  then show ?thesis by (induction es) simp_all
qed

text \<open>C34. The life of a connecting client. Once started with a connector, whatever events its channel
  sees, the connector is called exactly once, at the first event: with a connection when the
  descriptor became writable, with \<^verbatim>\<open>nullptr\<close> on an error; the client then owns neither channel nor
  socket, and no later event does anything.\<close>

theorem TcpClient_connects_once:
  assumes "TcpClient_start t = Inr t'" "cl_connector t" "ticks t = []"
  shows "\<exists>t''. client_rounds (e # es) t' = Inr t'' \<and> connected t'' = connected t @ [e = Writable]
    \<and> cl_chan t'' = None \<and> \<not> cl_socket t'' \<and> \<not> cl_self t''"
proof -
  have t': "t' = t\<lparr>cl_chan := Some (True, True), chan_read := False, chan_writ := True, cl_self := True\<rparr>"
    "cl_loop t" "cl_socket t"
    using assms(1) by (auto simp: TcpClient_start_def bind_res_Inr_iff)
  have "\<exists>t1. client_round e t' = Inr t1 \<and> connected t1 = connected t @ [e = Writable]
      \<and> cl_chan t1 = None \<and> \<not> cl_socket t1 \<and> \<not> cl_self t1 \<and> ticks t1 = []"
    using t' assms(2,3)
    by (cases e) (auto simp: client_round_def TcpClient_handleWrit_def TcpClient_handleErro_def
        TcpClient_destroy_def TcpClient_tick_def Let_def)
  then show ?thesis using client_rounds_done by auto
qed

lemma TcpClient_connects_once_witness:
  "\<exists>t'. client_rounds [Writable, Broken] ((TcpClient_onConnect True (TcpClient_new True True))
       \<lparr>cl_chan := Some (True, True), chan_writ := True, cl_self := True\<rparr>) = Inr t' \<and> connected t' = [True]"
proof -
  let ?t = "TcpClient_onConnect True (TcpClient_new True True)"
  have "TcpClient_start ?t = Inr (?t\<lparr>cl_chan := Some (True, True), chan_writ := True, cl_self := True\<rparr>)"
    by (simp add: TcpClient_start_def TcpClient_onConnect_def TcpClient_new_def)
  from TcpClient_connects_once [OF this, of Writable "[Broken]"] show ?thesis
    by (auto simp: TcpClient_onConnect_def TcpClient_new_def)
qed

end
