(* ===== verification/Udp.thy ===== *)
theory Udp
  imports Buffers Sockets
begin

text \<open>
  \<^verbatim>\<open>UdpSocket\<close> and \<^verbatim>\<open>UdpConnection\<close> (\<^verbatim>\<open>src/src/\<close>): one socket shared by many peers, each with a
  read buffer, and one queue of datagrams to send. The kernel's answers are lists; when a list ends
  the call would block. What the callbacks and completion handlers do is the argument \<open>beh\<close>, as in
  \<open>Connections\<close>. The lookup by \<^verbatim>\<open>std::map\<close> is a lookup by equality, since \<^verbatim>\<open>operator<\<close> is a linear
  order (\<open>Sockets\<close>).
\<close>

section \<open>State\<close>

text \<open>
  \<open>uc_id\<close> tells apart the objects that have existed for one peer. \<open>u_sent\<close> and \<open>u_taken\<close> are ghost fields
  that no operation reads: the datagrams the kernel has taken, and the strings that callbacks have taken
  out of read buffers.
\<close>

record udp_conn =
  uc_id :: nat
  uc_readBuf :: buf

text \<open>A task holds a pointer to the address inside of its connection.\<close>

record 'h udp_io_task =
  u_dest :: "endpoint \<times> nat"
  u_buffer :: buf
  u_handler :: "'h option"

datatype 'h uev = UAccept endpoint | URead endpoint | UConnect endpoint | UErro | URan 'h

record 'h udp_socket =
  u_destroyed :: bool
  u_read_on :: bool
  u_write_on :: bool
  u_conns :: "endpoint \<rightharpoonup> udp_conn"
  u_tasks :: "'h udp_io_task list"
  u_acceptcb :: bool
  u_readcb :: bool
  u_connectcb :: bool
  u_errocb :: bool
  u_events :: "'h uev list"
  u_next :: nat
  u_sent :: "(endpoint \<times> cell list) list"
  u_taken :: "(endpoint \<times> cell list) list"

definition UdpSocket_new :: "'h udp_socket" where
  "UdpSocket_new = \<lparr>u_destroyed = False, u_read_on = False, u_write_on = False, u_conns = Map.empty,
     u_tasks = [], u_acceptcb = False, u_readcb = False, u_connectcb = False, u_errocb = False,
     u_events = [], u_next = 0, u_sent = [], u_taken = []\<rparr>"

definition UdpSocket_start :: "'h udp_socket \<Rightarrow> 'h udp_socket res" where
  "UdpSocket_start u = (if u_destroyed u then Inl Null_deref else Inr (u\<lparr>u_read_on := True\<rparr>))"

definition UdpSocket_onRead :: "bool \<Rightarrow> 'h udp_socket \<Rightarrow> 'h udp_socket" where
  "UdpSocket_onRead f u = u\<lparr>u_readcb := f\<rparr>"

definition UdpSocket_onErro :: "bool \<Rightarrow> 'h udp_socket \<Rightarrow> 'h udp_socket" where
  "UdpSocket_onErro f u = u\<lparr>u_errocb := f\<rparr>"

definition UdpSocket_onAccept :: "bool \<Rightarrow> 'h udp_socket \<Rightarrow> 'h udp_socket" where
  "UdpSocket_onAccept f u = u\<lparr>u_acceptcb := f\<rparr>"

definition UdpSocket_onConnect :: "bool \<Rightarrow> 'h udp_socket \<Rightarrow> 'h udp_socket" where
  "UdpSocket_onConnect f u = u\<lparr>u_connectcb := f\<rparr>"

definition UdpSocket_enableRead :: "bool \<Rightarrow> 'h udp_socket \<Rightarrow> 'h udp_socket res" where
  "UdpSocket_enableRead f u = (if u_destroyed u then Inl Null_deref else Inr (u\<lparr>u_read_on := f\<rparr>))"

definition UdpSocket_enableWrit :: "bool \<Rightarrow> 'h udp_socket \<Rightarrow> 'h udp_socket res" where
  "UdpSocket_enableWrit f u = (if u_destroyed u then Inl Null_deref else Inr (u\<lparr>u_write_on := f\<rparr>))"

text \<open>\<^verbatim>\<open>destroy\<close> forgets three of the four callbacks.\<close>

definition UdpSocket_destroy :: "'h udp_socket \<Rightarrow> 'h udp_socket" where
  "UdpSocket_destroy u =
     (if u_destroyed u then u
      else u\<lparr>u_destroyed := True, u_acceptcb := False, u_readcb := False, u_errocb := False,
             u_tasks := [], u_conns := Map.empty\<rparr>)"

definition UdpSocket_destroyConn :: "endpoint \<Rightarrow> 'h udp_socket \<Rightarrow> 'h udp_socket" where
  "UdpSocket_destroyConn ep u = u\<lparr>u_conns := (u_conns u)(ep := None)\<rparr>"

definition UdpSocket_getReadBuf :: "endpoint \<Rightarrow> 'h udp_socket \<Rightarrow> buf res" where
  "UdpSocket_getReadBuf ep u =
     (case u_conns u ep of None \<Rightarrow> Inl (Thrown ''0'') | Some c \<Rightarrow> Inr (uc_readBuf c))"

definition UdpSocket_send :: "'h udp_io_task \<Rightarrow> 'h udp_socket \<Rightarrow> 'h udp_socket res" where
  "UdpSocket_send t u = UdpSocket_enableWrit True (u\<lparr>u_tasks := u_tasks u @ [t]\<rparr>)"

section \<open>Connections\<close>

text \<open>The operations of a \<^verbatim>\<open>UdpConnection\<close> are given its peer and its identity.\<close>

definition UdpConnection_send_bytes ::
    "endpoint \<times> nat \<Rightarrow> cell list \<Rightarrow> int \<Rightarrow> 'h option \<Rightarrow> 'h udp_socket \<Rightarrow> 'h udp_socket res" where
  "UdpConnection_send_bytes d base len h u =
     bind_res (Buffer_of_bytes base len) (\<lambda>b.
     UdpSocket_send \<lparr>u_dest = d, u_buffer = b, u_handler = h\<rparr> u)"

definition UdpConnection_send_buffer ::
    "endpoint \<times> nat \<Rightarrow> buf \<Rightarrow> 'h option \<Rightarrow> 'h udp_socket \<Rightarrow> (buf \<times> 'h udp_socket) res" where
  "UdpConnection_send_buffer d b h u =
     bind_res (Buffer_capacity b) (\<lambda>cap.
     bind_res (Buffer_alloc cap) (\<lambda>fresh.
     let (b1, b2) = Buffer_swap fresh b in
     bind_res (UdpSocket_send \<lparr>u_dest = d, u_buffer = b1, u_handler = h\<rparr> u) (\<lambda>u. Inr (b2, u))))"

definition UdpConnection_send_move ::
    "endpoint \<times> nat \<Rightarrow> buf \<Rightarrow> 'h option \<Rightarrow> 'h udp_socket \<Rightarrow> (buf \<times> 'h udp_socket) res" where
  "UdpConnection_send_move d b h u =
     (let (b1, b2) = Buffer_move_ctor b in
      bind_res (UdpSocket_send \<lparr>u_dest = d, u_buffer = b1, u_handler = h\<rparr> u) (\<lambda>u. Inr (b2, u)))"

definition UdpConnection_send_cstr ::
    "endpoint \<times> nat \<Rightarrow> string \<Rightarrow> 'h option \<Rightarrow> 'h udp_socket \<Rightarrow> 'h udp_socket res" where
  "UdpConnection_send_cstr d s h u =
     (let bs = takeWhile (\<lambda>c. c \<noteq> CHR 0x00) s
      in UdpConnection_send_bytes d (map Some bs) (int (length bs)) h u)"

definition UdpConnection_send_string ::
    "endpoint \<times> nat \<Rightarrow> string \<Rightarrow> 'h option \<Rightarrow> 'h udp_socket \<Rightarrow> 'h udp_socket res" where
  "UdpConnection_send_string d s h u = UdpConnection_send_bytes d (map Some s) (int (length s)) h u"

text \<open>\<^verbatim>\<open>UdpConnection::destroy\<close>.\<close>

definition UdpConnection_destroy :: "endpoint \<Rightarrow> 'h udp_socket \<Rightarrow> 'h udp_socket" where
  "UdpConnection_destroy peer u = UdpSocket_destroyConn peer u"

section \<open>What callbacks may do\<close>

text \<open>A call on a connection that is gone uses a dangling reference.\<close>

datatype 'h ucall = USendBytes endpoint "cell list" "'h option" | USendCstr endpoint string "'h option"
  | USendString endpoint string "'h option" | UEcho endpoint "'h option" | UMoveEcho endpoint "'h option"
  | UConsume endpoint int | UTake endpoint | UDestroyConn endpoint | UEnableWrit bool | UEnableRead bool | UDestroy

definition on_conn ::
    "endpoint \<Rightarrow> (udp_conn \<Rightarrow> 'h udp_socket \<Rightarrow> 'h udp_socket res) \<Rightarrow> 'h udp_socket \<Rightarrow> 'h udp_socket res" where
  "on_conn ep f u = (case u_conns u ep of None \<Rightarrow> Inl Out_of_bounds | Some c \<Rightarrow> f c u)"

definition put_buf :: "endpoint \<Rightarrow> udp_conn \<Rightarrow> buf \<Rightarrow> 'h udp_socket \<Rightarrow> 'h udp_socket" where
  "put_buf ep c b u = u\<lparr>u_conns := (u_conns u)(ep \<mapsto> c\<lparr>uc_readBuf := b\<rparr>)\<rparr>"

fun do_ucall :: "'h ucall \<Rightarrow> 'h udp_socket \<Rightarrow> 'h udp_socket res" where
  "do_ucall (USendBytes ep bs h) u =
     on_conn ep (\<lambda>c. UdpConnection_send_bytes (ep, uc_id c) bs (int (length bs)) h) u"
| "do_ucall (USendCstr ep s h) u = on_conn ep (\<lambda>c. UdpConnection_send_cstr (ep, uc_id c) s h) u"
| "do_ucall (USendString ep s h) u = on_conn ep (\<lambda>c. UdpConnection_send_string (ep, uc_id c) s h) u"
| "do_ucall (UEcho ep h) u =
     on_conn ep (\<lambda>c u. bind_res (UdpConnection_send_buffer (ep, uc_id c) (uc_readBuf c) h u)
       (\<lambda>(b, u). Inr (put_buf ep c b u))) u"
| "do_ucall (UMoveEcho ep h) u =
     on_conn ep (\<lambda>c u. bind_res (UdpConnection_send_move (ep, uc_id c) (uc_readBuf c) h u)
       (\<lambda>(b, u). Inr (put_buf ep c b u))) u"
| "do_ucall (UConsume ep n) u =
     on_conn ep (\<lambda>c u. bind_res (Buffer_retrieve n (uc_readBuf c)) (\<lambda>b. Inr (put_buf ep c b u))) u"
| "do_ucall (UTake ep) u =
     on_conn ep (\<lambda>c u.
       case Buffer_retriveveAllAsString (uc_readBuf c) of
         None \<Rightarrow> Inl Diverges
       | Some r \<Rightarrow> bind_res r (\<lambda>(text, b). Inr ((put_buf ep c b u)\<lparr>u_taken := u_taken u @ [(ep, text)]\<rparr>))) u"
| "do_ucall (UDestroyConn ep) u = on_conn ep (\<lambda>c u. Inr (UdpConnection_destroy ep u)) u"
| "do_ucall (UEnableWrit f) u = UdpSocket_enableWrit f u"
| "do_ucall (UEnableRead f) u = UdpSocket_enableRead f u"
| "do_ucall UDestroy u = Inr (UdpSocket_destroy u)"

fun do_ucalls :: "'h ucall list \<Rightarrow> 'h udp_socket \<Rightarrow> 'h udp_socket res" where
  "do_ucalls [] u = Inr u"
| "do_ucalls (x # xs) u = bind_res (do_ucall x u) (do_ucalls xs)"

type_synonym 'h ubehaviour = "'h uev \<Rightarrow> 'h uev list \<Rightarrow> 'h ucall list"

definition run_uev :: "'h ubehaviour \<Rightarrow> bool \<Rightarrow> 'h uev \<Rightarrow> 'h udp_socket \<Rightarrow> 'h udp_socket res" where
  "run_uev beh cb e u =
     (if cb then do_ucalls (beh e (u_events u)) (u\<lparr>u_events := u_events u @ [e]\<rparr>) else Inr u)"

section \<open>Events\<close>

definition UdpSocket_handleErroEvent :: "'h ubehaviour \<Rightarrow> 'h udp_socket \<Rightarrow> 'h udp_socket res" where
  "UdpSocket_handleErroEvent beh u =
     bind_res (run_uev beh (u_errocb u) UErro u) (\<lambda>u. Inr (UdpSocket_destroy u))"

definition new_udp_conn :: "endpoint \<Rightarrow> 'h udp_socket \<Rightarrow> 'h udp_socket res" where
  "new_udp_conn ep u =
     bind_res (Buffer_alloc 1024) (\<lambda>b.
     Inr (u\<lparr>u_conns := (u_conns u)(ep \<mapsto> \<lparr>uc_id = u_next u, uc_readBuf = b\<rparr>), u_next := u_next u + 1\<rparr>))"

definition UdpSocket_handleConnectEvent :: "'h ubehaviour \<Rightarrow> endpoint \<Rightarrow> 'h udp_socket \<Rightarrow> 'h udp_socket res" where
  "UdpSocket_handleConnectEvent beh ep u =
     (if u_conns u ep \<noteq> None then Inr u
      else bind_res (new_udp_conn ep u) (\<lambda>u. run_uev beh (u_connectcb u) (UConnect ep) u))"

text \<open>The bytes of one datagram; a connection that its accept callback has removed is still held, and
  takes them to no effect.\<close>

definition udp_append :: "endpoint \<Rightarrow> nat \<Rightarrow> cell list \<Rightarrow> 'h udp_socket \<Rightarrow> 'h udp_socket res" where
  "udp_append ep k bs u =
     (case u_conns u ep of
        Some c \<Rightarrow>
          if uc_id c = k then
            bind_res (Buffer_append_bytes bs (int (length bs)) (uc_readBuf c)) (\<lambda>b. Inr (put_buf ep c b u))
          else bind_res (check (bs \<noteq> []) Assertion) (\<lambda>_. Inr u)
      | None \<Rightarrow> bind_res (check (bs \<noteq> []) Assertion) (\<lambda>_. Inr u))"

definition udp_receive :: "'h ubehaviour \<Rightarrow> endpoint \<Rightarrow> cell list \<Rightarrow> 'h udp_socket \<Rightarrow> 'h udp_socket res" where
  "udp_receive beh peer bs u =
     bind_res
       (case u_conns u peer of
          None \<Rightarrow>
            bind_res (new_udp_conn peer u) (\<lambda>u'.
            bind_res (run_uev beh (u_acceptcb u') (UAccept peer) u') (udp_append peer (u_next u) bs))
        | Some c \<Rightarrow> udp_append peer (uc_id c) bs u)
       (\<lambda>u. run_uev beh (u_readcb u) (URead peer) u)"

datatype recv_answer = Datagram endpoint "char list" | RecvError errno

fun udp_read_loop :: "'h ubehaviour \<Rightarrow> recv_answer list \<Rightarrow> 'h udp_socket \<Rightarrow> 'h udp_socket res" where
  "udp_read_loop beh [] u = (if u_destroyed u then Inl Null_deref else Inr u)"
| "udp_read_loop beh (a # as) u =
     (if u_destroyed u then Inl Null_deref
      else case a of
        RecvError e \<Rightarrow> if e \<noteq> EAGAIN then UdpSocket_handleErroEvent beh u else Inr u
      | Datagram ep ds \<Rightarrow>
          bind_res (udp_receive beh ep (map Some (take 4096 ds)) u) (udp_read_loop beh as))"

definition UdpSocket_handleReadEvent :: "'h ubehaviour \<Rightarrow> recv_answer list \<Rightarrow> 'h udp_socket \<Rightarrow> 'h udp_socket res" where
  "UdpSocket_handleReadEvent beh as u = udp_read_loop beh as u"

text \<open>
  \<^verbatim>\<open>sendto\<close> takes a whole datagram or returns -1. The source compares that -1 with \<^verbatim>\<open>EAGAIN\<close>, which it
  never equals, so every failure is an error.
\<close>

datatype send_answer = Sent | SendError errno

definition udp_send_round :: "'h ubehaviour \<Rightarrow> send_answer \<Rightarrow> 'h udp_socket \<Rightarrow> (bool \<times> 'h udp_socket) res" where
  "udp_send_round beh a u =
     (case u_tasks u of
        [] \<Rightarrow> Inr (True, u)
      | t # ts \<Rightarrow>
          bind_res (Buffer_data (u_buffer t)) (\<lambda>_. bind_res (Buffer_size (u_buffer t)) (\<lambda>n.
          if u_destroyed u then Inl Null_deref
          else if \<not> (case u_conns u (fst (u_dest t)) of None \<Rightarrow> False | Some c \<Rightarrow> uc_id c = snd (u_dest t))
          then Inl Out_of_bounds
          else case a of
            SendError e \<Rightarrow> bind_res (UdpSocket_handleErroEvent beh u) (\<lambda>u. Inr (True, u))
          | Sent \<Rightarrow>
              bind_res (Buffer_retrieve n (u_buffer t)) (\<lambda>b.
              let u = u\<lparr>u_sent := u_sent u @ [(fst (u_dest t), content (u_buffer t))],
                        u_tasks := t\<lparr>u_buffer := b\<rparr> # ts\<rparr> in
              bind_res (case u_handler t of None \<Rightarrow> Inr u | Some h \<Rightarrow> run_uev beh True (URan h) u) (\<lambda>u.
              if u_tasks u = [] then Inl Empty_container
              else Inr (False, u\<lparr>u_tasks := tl (u_tasks u)\<rparr>))))))"

fun udp_send_loop :: "'h ubehaviour \<Rightarrow> send_answer list \<Rightarrow> 'h udp_socket \<Rightarrow> 'h udp_socket res" where
  "udp_send_loop beh [] u = bind_res (udp_send_round beh (SendError EAGAIN) u) (\<lambda>(_, u). Inr u)"
| "udp_send_loop beh (a # as) u =
     bind_res (udp_send_round beh a u) (\<lambda>(ret, u). if ret then Inr u else udp_send_loop beh as u)"

definition UdpSocket_handleWritEvent :: "'h ubehaviour \<Rightarrow> send_answer list \<Rightarrow> 'h udp_socket \<Rightarrow> 'h udp_socket res" where
  "UdpSocket_handleWritEvent beh as u =
     bind_res (if u_destroyed u then Inr u
               else if u_tasks u = [] then UdpSocket_enableWrit False u else Inr u)
       (udp_send_loop beh as)"

section \<open>Receiving\<close>

definition uquiet :: "'h ubehaviour \<Rightarrow> bool" where
  "uquiet beh \<longleftrightarrow> (\<forall>e es. beh e es = [])"

definition udp_ok :: "'h udp_socket \<Rightarrow> bool" where
  "udp_ok u \<longleftrightarrow> (\<forall>ep c. u_conns u ep = Some c \<longrightarrow> buf_ok (uc_readBuf c))"

text \<open>What a peer has sent and nobody has consumed.\<close>

definition inbox :: "'h udp_socket \<Rightarrow> endpoint \<Rightarrow> cell list" where
  "inbox u ep = (case u_conns u ep of None \<Rightarrow> [] | Some c \<Rightarrow> content (uc_readBuf c))"

lemma run_uev_quiet:
  "uquiet beh \<Longrightarrow> run_uev beh cb e u = Inr (if cb then u\<lparr>u_events := u_events u @ [e]\<rparr> else u)"
  by (simp add: run_uev_def uquiet_def)

lemma udp_append_ok:
  assumes "u_conns u ep = Some c" "uc_id c = k" "buf_ok (uc_readBuf c)" "bs \<noteq> []"
  shows "\<exists>b. udp_append ep k bs u = Inr (put_buf ep c b u) \<and> buf_ok b \<and> content b = content (uc_readBuf c) @ bs"
  using Buffer_append_bytes_ok [OF assms(3), of "int (length bs)" bs] assms
  by (auto simp: udp_append_def)

definition receive_events :: "'h udp_socket \<Rightarrow> endpoint \<Rightarrow> 'h uev list" where
  "receive_events u peer = (if u_conns u peer = None \<and> u_acceptcb u then [UAccept peer] else [])
     @ (if u_readcb u then [URead peer] else [])"

lemma udp_receive_ok:
  assumes "uquiet beh" "udp_ok u" "bs \<noteq> []"
  shows "\<exists>u'. udp_receive beh peer bs u = Inr u' \<and> udp_ok u' \<and> u_destroyed u' = u_destroyed u
    \<and> inbox u' = (inbox u)(peer := inbox u peer @ bs)
    \<and> dom (u_conns u') = insert peer (dom (u_conns u))
    \<and> u_events u' = u_events u @ receive_events u peer
    \<and> u_acceptcb u' = u_acceptcb u \<and> u_readcb u' = u_readcb u"
proof (cases "u_conns u peer")
  case (Some c)
  then have "buf_ok (uc_readBuf c)" using assms(2) by (simp add: udp_ok_def)
  from udp_append_ok [OF Some refl this assms(3)] obtain b where
    "udp_append peer (uc_id c) bs u = Inr (put_buf peer c b u)" "buf_ok b" "content b = content (uc_readBuf c) @ bs"
    by (elim exE conjE)
  then show ?thesis
    using Some assms(2) run_uev_quiet [OF assms(1)]
    by (auto simp: udp_receive_def put_buf_def udp_ok_def inbox_def fun_eq_iff receive_events_def split: if_splits)
next
  case None
  obtain b0 where b0: "Buffer_alloc 1024 = Inr b0" "buf_ok b0" "content b0 = []"
    by (simp add: Buffer_alloc_ok)
  let ?c = "\<lparr>uc_id = u_next u, uc_readBuf = b0\<rparr>"
  let ?u1 = "u\<lparr>u_conns := (u_conns u)(peer \<mapsto> ?c), u_next := u_next u + 1\<rparr>"
  define u2 where "u2 = (if u_acceptcb u then ?u1\<lparr>u_events := u_events u @ [UAccept peer]\<rparr> else ?u1)"
  have new: "new_udp_conn peer u = Inr ?u1" using b0(1) by (simp add: new_udp_conn_def)
  have acc: "run_uev beh (u_acceptcb ?u1) (UAccept peer) ?u1 = Inr u2"
    using run_uev_quiet [OF assms(1)] by (simp add: u2_def)
  have u2: "u_conns u2 = (u_conns u)(peer \<mapsto> ?c)" "u_destroyed u2 = u_destroyed u"
    "u_acceptcb u2 = u_acceptcb u" "u_readcb u2 = u_readcb u"
    "u_events u2 = u_events u @ (if u_acceptcb u then [UAccept peer] else [])"
    by (simp_all add: u2_def)
  then have "u_conns u2 peer = Some ?c" by simp
  from udp_append_ok [OF this _ _ assms(3), of "u_next u"] b0 obtain b where
    app: "udp_append peer (u_next u) bs u2 = Inr (put_buf peer ?c b u2)" "buf_ok b" "content b = bs"
    by auto
  have "udp_receive beh peer bs u = run_uev beh (u_readcb (put_buf peer ?c b u2)) (URead peer) (put_buf peer ?c b u2)"
    using None new acc app(1) by (simp add: udp_receive_def)
  then show ?thesis
    using None assms(2) app(2,3) u2 run_uev_quiet [OF assms(1)]
    by (auto simp: put_buf_def udp_ok_def inbox_def fun_eq_iff receive_events_def split: if_splits)
qed

text \<open>The datagrams of one peer, each cut to the 4096 bytes of the receive buffer.\<close>

definition sent_by :: "endpoint \<Rightarrow> (endpoint \<times> char list) list \<Rightarrow> cell list" where
  "sent_by ep ds = concat (map (\<lambda>(e, d). if e = ep then map Some (take 4096 d) else []) ds)"

fun demux_events :: "bool \<Rightarrow> bool \<Rightarrow> endpoint set \<Rightarrow> (endpoint \<times> char list) list \<Rightarrow> 'h uev list" where
  "demux_events acb rcb known [] = []"
| "demux_events acb rcb known ((ep, d) # ds) =
     (if ep \<notin> known \<and> acb then [UAccept ep] else []) @ (if rcb then [URead ep] else [])
       @ demux_events acb rcb (insert ep known) ds"

lemma udp_read_loop_ok:
  assumes "uquiet beh"
  shows "udp_ok u \<Longrightarrow> \<not> u_destroyed u \<Longrightarrow> \<forall>(ep, d) \<in> set ds. d \<noteq> [] \<Longrightarrow>
    \<exists>u'. udp_read_loop beh (map (\<lambda>(ep, d). Datagram ep d) ds) u = Inr u' \<and> udp_ok u' \<and> \<not> u_destroyed u'
      \<and> (\<forall>ep. inbox u' ep = inbox u ep @ sent_by ep ds)
      \<and> dom (u_conns u') = dom (u_conns u) \<union> fst ` set ds
      \<and> u_events u' = u_events u @ demux_events (u_acceptcb u) (u_readcb u) (dom (u_conns u)) ds"
proof (induction ds arbitrary: u)
  case Nil
  then show ?case by (simp add: sent_by_def)
next
  case (Cons x ds)
  obtain ep d where x: "x = (ep, d)" by (cases x)
  then have "map Some (take 4096 d) \<noteq> []" using Cons.prems by simp
  from udp_receive_ok [OF assms Cons.prems(1) this, of ep] obtain u1 where u1:
    "udp_receive beh ep (map Some (take 4096 d)) u = Inr u1" "udp_ok u1" "u_destroyed u1 = u_destroyed u"
    "inbox u1 = (inbox u)(ep := inbox u ep @ map Some (take 4096 d))"
    "dom (u_conns u1) = insert ep (dom (u_conns u))"
    "u_events u1 = u_events u @ receive_events u ep"
    "u_acceptcb u1 = u_acceptcb u" "u_readcb u1 = u_readcb u"
    by (elim exE conjE)
  from Cons.IH [of u1] u1 Cons.prems obtain u2 where u2:
    "udp_read_loop beh (map (\<lambda>(ep, d). Datagram ep d) ds) u1 = Inr u2" "udp_ok u2" "\<not> u_destroyed u2"
    "\<forall>ep. inbox u2 ep = inbox u1 ep @ sent_by ep ds"
    "dom (u_conns u2) = dom (u_conns u1) \<union> fst ` set ds"
    "u_events u2 = u_events u1 @ demux_events (u_acceptcb u1) (u_readcb u1) (dom (u_conns u1)) ds"
    by auto
  have "ep \<notin> dom (u_conns u) \<longleftrightarrow> u_conns u ep = None" by auto
  then show ?case
    using u1 u2 x Cons.prems(2)
    by (intro exI [of _ u2]) (simp add: sent_by_def receive_events_def)
qed

section \<open>Sending\<close>

definition dest_alive :: "'h udp_socket \<Rightarrow> 'h udp_io_task \<Rightarrow> bool" where
  "dest_alive u t \<longleftrightarrow> (\<exists>c. u_conns u (fst (u_dest t)) = Some c \<and> uc_id c = snd (u_dest t))"

definition utask_ok :: "'h udp_io_task \<Rightarrow> bool" where
  "utask_ok t \<longleftrightarrow> buf_ok (u_buffer t) \<and> bufptr (u_buffer t) \<noteq> None"

definition utask_events :: "'h udp_io_task \<Rightarrow> 'h uev list" where
  "utask_events t = (case u_handler t of None \<Rightarrow> [] | Some h \<Rightarrow> [URan h])"

lemma udp_send_round_ok:
  assumes "uquiet beh" "u_tasks u = t # ts" "utask_ok t" "dest_alive u t" "\<not> u_destroyed u"
  shows "udp_send_round beh Sent u = Inr (False, u\<lparr>u_tasks := ts,
    u_sent := u_sent u @ [(fst (u_dest t), content (u_buffer t))], u_events := u_events u @ utask_events t\<rparr>)"
proof -
  have ok: "buf_ok (u_buffer t)" "bufptr (u_buffer t) \<noteq> None" using assms(3) by (simp_all add: utask_ok_def)
  have data: "Buffer_data (u_buffer t) = Inr (leftIndex (u_buffer t))"
    using ok by (simp add: Buffer_data_def buf_ok_def)
  obtain b where "Buffer_retrieve (int (length (content (u_buffer t)))) (u_buffer t) = Inr b"
    using Buffer_retrieve_ok [OF ok(1), of "int (length (content (u_buffer t)))"] by auto
  then show ?thesis
    using assms(2,4,5) data Buffer_size_ok [OF ok(1)] run_uev_quiet [OF assms(1)]
    by (cases "u_handler t"; cases u)
      (auto simp: udp_send_round_def dest_alive_def utask_events_def Let_def)
qed

lemma udp_send_loop_ok:
  assumes "uquiet beh"
  shows "\<forall>t \<in> set (u_tasks u). utask_ok t \<and> dest_alive u t \<Longrightarrow> \<not> u_destroyed u \<Longrightarrow> length (u_tasks u) \<le> k \<Longrightarrow>
    udp_send_loop beh (replicate k Sent) u = Inr (u\<lparr>u_tasks := [],
      u_sent := u_sent u @ map (\<lambda>t. (fst (u_dest t), content (u_buffer t))) (u_tasks u),
      u_events := u_events u @ concat (map utask_events (u_tasks u))\<rparr>)"
proof (induction k arbitrary: u)
  case 0
  then show ?case by (simp add: udp_send_round_def)
next
  case (Suc k)
  show ?case
  proof (cases "u_tasks u")
    case Nil
    then show ?thesis by (simp add: udp_send_round_def)
  next
    case (Cons t ts)
    let ?u = "u\<lparr>u_tasks := ts, u_sent := u_sent u @ [(fst (u_dest t), content (u_buffer t))],
      u_events := u_events u @ utask_events t\<rparr>"
    have round: "udp_send_round beh Sent u = Inr (False, ?u)"
      using udp_send_round_ok [OF assms Cons] Suc.prems Cons by simp
    have "udp_send_loop beh (replicate k Sent) ?u = Inr (?u\<lparr>u_tasks := [],
      u_sent := u_sent ?u @ map (\<lambda>t. (fst (u_dest t), content (u_buffer t))) (u_tasks ?u),
      u_events := u_events ?u @ concat (map utask_events (u_tasks ?u))\<rparr>)"
      using Suc.prems Cons by (intro Suc.IH) (auto simp: dest_alive_def)
    then show ?thesis using round Cons by simp
  qed
qed

section \<open>Properties\<close>


definition peer_a :: endpoint where "peer_a = Endpoint 1 10"
definition peer_b :: endpoint where "peer_b = Endpoint 2 10"


text \<open>Sending datagrams. With quiet handlers and connections that are still there, a write event for
  which the kernel takes every datagram sends the queue in order, each to its peer with its content,
  and runs every handler; the first call that would block destroys the socket instead, since the
  return value -1 is compared with \<^verbatim>\<open>EAGAIN\<close>.\<close>

theorem UdpSocket_sends_in_order:
  assumes "uquiet beh" "\<forall>t \<in> set (u_tasks u). utask_ok t \<and> dest_alive u t" "\<not> u_destroyed u" "u_tasks u \<noteq> []"
  shows "UdpSocket_handleWritEvent beh (replicate (length (u_tasks u)) Sent) u = Inr (u\<lparr>u_tasks := [],
      u_sent := u_sent u @ map (\<lambda>t. (fst (u_dest t), content (u_buffer t))) (u_tasks u),
      u_events := u_events u @ concat (map utask_events (u_tasks u))\<rparr>)
    \<and> (\<exists>u'. UdpSocket_handleWritEvent beh [SendError EAGAIN] u = Inr u' \<and> u_destroyed u' \<and> u_tasks u' = []
        \<and> u_sent u' = u_sent u)"
proof
  show "UdpSocket_handleWritEvent beh (replicate (length (u_tasks u)) Sent) u = Inr (u\<lparr>u_tasks := [],
      u_sent := u_sent u @ map (\<lambda>t. (fst (u_dest t), content (u_buffer t))) (u_tasks u),
      u_events := u_events u @ concat (map utask_events (u_tasks u))\<rparr>)"
    using udp_send_loop_ok [OF assms(1-3) order_refl] assms(3,4) by (simp add: UdpSocket_handleWritEvent_def)
  obtain t ts where ts: "u_tasks u = t # ts" using assms(4) by (cases "u_tasks u") auto
  then have ok: "buf_ok (u_buffer t)" "bufptr (u_buffer t) \<noteq> None" "dest_alive u t"
    using assms(2) by (auto simp: utask_ok_def)
  then have "Buffer_data (u_buffer t) = Inr (leftIndex (u_buffer t))" by (simp add: Buffer_data_def buf_ok_def)
  then show "\<exists>u'. UdpSocket_handleWritEvent beh [SendError EAGAIN] u = Inr u' \<and> u_destroyed u' \<and> u_tasks u' = []
        \<and> u_sent u' = u_sent u"
    using ts ok Buffer_size_ok [OF ok(1)] assms(3) run_uev_quiet [OF assms(1)]
    by (auto simp: UdpSocket_handleWritEvent_def udp_send_round_def dest_alive_def
        UdpSocket_handleErroEvent_def UdpSocket_destroy_def)
qed

definition udp_busy :: "nat udp_socket" where
  "udp_busy = UdpSocket_new\<lparr>u_conns := [peer_a \<mapsto> \<lparr>uc_id = 0, uc_readBuf = Buffer_default\<rparr>], u_next := 1,
     u_tasks := [\<lparr>u_dest = (peer_a, 0), u_buffer = buf_of (map Some ''pong'') 0 4, u_handler = Some 5\<rparr>]\<rparr>"

lemma UdpSocket_sends_in_order_witness:
  "\<exists>u'. UdpSocket_handleWritEvent (\<lambda>_ _. []) [Sent] udp_busy = Inr u'
     \<and> u_sent u' = [(peer_a, map Some ''pong'')] \<and> u_events u' = [URan 5]"
  using UdpSocket_sends_in_order [of "\<lambda>_ _. []" udp_busy]
  by (auto simp: uquiet_def udp_busy_def UdpSocket_new_def utask_ok_def dest_alive_def utask_events_def)

text \<open>The read callback destroys the socket that is reading.\<close>

lemma udp_receive_destroyed:
  assumes "udp_ok u" "u_readcb u" "\<not> u_acceptcb u" "d \<noteq> []" "\<forall>es. beh (URead ep) es = [UDestroy]"
  shows "\<exists>v. udp_receive beh ep (map Some (take 4096 d)) u = Inr v \<and> u_destroyed v"
proof -
  obtain b0 where b0: "Buffer_alloc 1024 = Inr b0" "buf_ok b0" "content b0 = []"
    by (simp add: Buffer_alloc_ok)
  have ne: "map Some (take 4096 d) \<noteq> []" using assms(4) by simp
  have gone: "\<exists>v'. run_uev beh (u_readcb v) (URead ep) v = Inr v' \<and> u_destroyed v'"
    if "u_readcb v" for v :: "'a udp_socket"
    using that assms(5) by (simp add: run_uev_def UdpSocket_destroy_def)
  show ?thesis
  proof (cases "u_conns u ep")
    case (Some c)
    then have "buf_ok (uc_readBuf c)" using assms(1) by (simp add: udp_ok_def)
    from udp_append_ok [OF Some refl this ne] obtain b where
      "udp_append ep (uc_id c) (map Some (take 4096 d)) u = Inr (put_buf ep c b u)" by (elim exE conjE)
    with Some gone [of "put_buf ep c b u"] assms(2) show ?thesis
      by (simp add: udp_receive_def put_buf_def)
  next
    case None
    let ?c = "\<lparr>uc_id = u_next u, uc_readBuf = b0\<rparr>"
    let ?u1 = "u\<lparr>u_conns := (u_conns u)(ep \<mapsto> ?c), u_next := u_next u + 1\<rparr>"
    from udp_append_ok [of ?u1 ep ?c "u_next u", OF _ _ _ ne] b0 obtain b where
      "udp_append ep (u_next u) (map Some (take 4096 d)) ?u1 = Inr (put_buf ep ?c b ?u1)" by auto
    with None gone [of "put_buf ep ?c b ?u1"] b0(1) assms(2,3) show ?thesis
      by (simp add: udp_receive_def put_buf_def new_udp_conn_def run_uev_def)
  qed
qed

lemma udp_send_destroyed:
  assumes "u_tasks u = t # ts" "utask_ok t" "\<not> u_destroyed u"
  shows "UdpSocket_handleWritEvent beh bs (UdpConnection_destroy (fst (u_dest t)) u) = Inl Out_of_bounds"
proof -
  have "Buffer_data (u_buffer t) = Inr (leftIndex (u_buffer t))"
    "Buffer_size (u_buffer t) = Inr (int (length (content (u_buffer t))))"
    using assms(2) by (simp_all add: utask_ok_def Buffer_data_def Buffer_size_ok) (simp add: buf_ok_def)
  then show ?thesis
    using assms(1,3)
    by (cases bs) (simp_all add: UdpSocket_handleWritEvent_def udp_send_round_def
        UdpConnection_destroy_def UdpSocket_destroyConn_def)
qed

text \<open>Faults of the socket. An empty datagram, which any peer can send, fails the assertion of
  \<^verbatim>\<open>Buffer::append\<close>; a read callback that destroys the socket leaves the loop with a null socket; and a
  datagram queued by a connection that has been destroyed since is sent to an address that is gone.\<close>

theorem UdpSocket_faults:
  assumes "uquiet beh" "udp_ok u" "\<not> u_destroyed u"
  shows "UdpSocket_handleReadEvent beh (Datagram ep [] # as) u = Inl Assertion
    \<and> (u_readcb u \<and> \<not> u_acceptcb u \<and> d \<noteq> [] \<and> (\<forall>es. beh' (URead ep) es = [UDestroy]) \<longrightarrow>
        UdpSocket_handleReadEvent beh' (Datagram ep d # as) u = Inl Null_deref)
    \<and> (u_tasks u = t # ts \<and> utask_ok t \<longrightarrow>
        UdpSocket_handleWritEvent beh bs (UdpConnection_destroy (fst (u_dest t)) u) = Inl Out_of_bounds)"
proof (intro conjI impI; (elim conjE)?)
  obtain b0 where b0: "Buffer_alloc 1024 = Inr b0" "buf_ok b0" "content b0 = []"
    by (simp add: Buffer_alloc_ok)
  have empty: "Buffer_append_bytes [] 0 b = Inl Assertion" for b
    by (simp add: Buffer_append_bytes_def)
  have "udp_append ep k [] v = Inl Assertion" for k and v :: "'a udp_socket"
    by (simp add: udp_append_def empty split: option.split)
  then have "udp_receive beh ep [] u = Inl Assertion"
    using b0(1) run_uev_quiet [OF assms(1)]
    by (simp add: udp_receive_def new_udp_conn_def split: option.split)
  then show "UdpSocket_handleReadEvent beh (Datagram ep [] # as) u = Inl Assertion"
    using assms(3) by (simp add: UdpSocket_handleReadEvent_def)
  show "UdpSocket_handleReadEvent beh' (Datagram ep d # as) u = Inl Null_deref"
    if "u_readcb u" "\<not> u_acceptcb u" "d \<noteq> []" "\<forall>es. beh' (URead ep) es = [UDestroy]"
    using udp_receive_destroyed [where beh = beh', OF assms(2) that] assms(3)
    by (cases "as") (auto simp: UdpSocket_handleReadEvent_def)
  show "UdpSocket_handleWritEvent beh bs (UdpConnection_destroy (fst (u_dest t)) u) = Inl Out_of_bounds"
    if "u_tasks u = t # ts" "utask_ok t"
    using udp_send_destroyed [OF that assms(3)] .
qed

lemma UdpSocket_faults_witness:
  "UdpSocket_handleReadEvent (\<lambda>_ _. []) [Datagram peer_b []] udp_busy = Inl Assertion"
  using UdpSocket_faults [of "\<lambda>_ _. []" udp_busy peer_b "[]"]
  by (auto simp: uquiet_def udp_ok_def udp_busy_def UdpSocket_new_def split: if_splits)

end
