(* ===== verification/Event_Queue.thy ===== *)
theory Event_Queue
  imports Prelude
begin

text \<open>
  \<^verbatim>\<open>BlockingQueue\<close>, \<^verbatim>\<open>EventQueue\<close> and the calls of \<^verbatim>\<open>EventLoop\<close> that use it (\<^verbatim>\<open>src/src/\<close>): how threads hand
  work to a loop. The calls are broken into the actions that other threads can observe, an append
  under the mutex and a write to the eventfd, and the threads interleave these in any order.
\<close>

section \<open>BlockingQueue\<close>

text \<open>
  Threads that wait on the condition variable are counted: \<open>sleeping\<close> in the wait, \<open>awake\<close> notified
  but not yet back from it. A wait may also end without a notification.
\<close>

record 'a blocking_queue =
  bq_queue :: "'a list"
  sleeping :: nat
  awake :: nat

definition BlockingQueue_new :: "'a list \<Rightarrow> 'a blocking_queue" where
  "BlockingQueue_new es = \<lparr>bq_queue = es, sleeping = 0, awake = 0\<rparr>"

definition notify_one :: "'a blocking_queue \<Rightarrow> 'a blocking_queue" where
  "notify_one b = (if sleeping b = 0 then b else b\<lparr>sleeping := sleeping b - 1, awake := awake b + 1\<rparr>)"

definition notify_all :: "'a blocking_queue \<Rightarrow> 'a blocking_queue" where
  "notify_all b = b\<lparr>sleeping := 0, awake := awake b + sleeping b\<rparr>"

definition BlockingQueue_push_back :: "'a \<Rightarrow> 'a blocking_queue \<Rightarrow> 'a blocking_queue" where
  "BlockingQueue_push_back e b = b\<lparr>bq_queue := bq_queue b @ [e]\<rparr>"

definition BlockingQueue_push_notify :: "'a \<Rightarrow> 'a blocking_queue \<Rightarrow> 'a blocking_queue" where
  "BlockingQueue_push_notify e b = notify_one (b\<lparr>bq_queue := bq_queue b @ [e]\<rparr>)"

definition BlockingQueue_push_broadcast :: "'a \<Rightarrow> 'a blocking_queue \<Rightarrow> 'a blocking_queue" where
  "BlockingQueue_push_broadcast e b = notify_all (b\<lparr>bq_queue := bq_queue b @ [e]\<rparr>)"

definition BlockingQueue_empty :: "'a blocking_queue \<Rightarrow> bool" where
  "BlockingQueue_empty b \<longleftrightarrow> bq_queue b = []"

definition BlockingQueue_front :: "'a blocking_queue \<Rightarrow> 'a res" where
  "BlockingQueue_front b = (case bq_queue b of [] \<Rightarrow> Inl Empty_container | x # _ \<Rightarrow> Inr x)"

definition BlockingQueue_pop_front :: "'a blocking_queue \<Rightarrow> ('a \<times> 'a blocking_queue) res" where
  "BlockingQueue_pop_front b =
     (case bq_queue b of [] \<Rightarrow> Inl Empty_container | x # xs \<Rightarrow> Inr (x, b\<lparr>bq_queue := xs\<rparr>))"

definition BlockingQueue_pop :: "'a blocking_queue \<Rightarrow> 'a blocking_queue res" where
  "BlockingQueue_pop b =
     (case bq_queue b of [] \<Rightarrow> Inl Empty_container | x # xs \<Rightarrow> Inr (b\<lparr>bq_queue := xs\<rparr>))"

text \<open>
  One test of the condition in \<^verbatim>\<open>pop_wait\<close>, under the mutex: take the front or go to sleep. A thread
  that wakes up tests again.
\<close>

definition BlockingQueue_pop_wait :: "'a blocking_queue \<Rightarrow> ('a option \<times> 'a blocking_queue) res" where
  "BlockingQueue_pop_wait b =
     (if \<not> BlockingQueue_empty b
      then bind_res (BlockingQueue_pop_front b) (\<lambda>(x, b). Inr (Some x, b))
      else Inr (None, b\<lparr>sleeping := sleeping b + 1\<rparr>))"

definition wait_returns :: "'a blocking_queue \<Rightarrow> 'a blocking_queue" where
  "wait_returns b = b\<lparr>awake := awake b - 1\<rparr>"

inductive bq_step :: "'a blocking_queue \<Rightarrow> 'a blocking_queue \<Rightarrow> bool" where
  notify: "bq_step b (BlockingQueue_push_notify e b)"
| broadcast: "bq_step b (BlockingQueue_push_broadcast e b)"
| pop_wait: "BlockingQueue_pop_wait b = Inr (r, b') \<Longrightarrow> bq_step b b'"
| woken: "0 < awake b \<Longrightarrow> BlockingQueue_pop_wait (wait_returns b) = Inr (r, b') \<Longrightarrow> bq_step b b'"
| spurious: "0 < sleeping b \<Longrightarrow> bq_step b (b\<lparr>sleeping := sleeping b - 1, awake := awake b + 1\<rparr>)"

inductive bq_reach :: "'a list \<Rightarrow> 'a blocking_queue \<Rightarrow> bool" for es where
  new: "bq_reach es (BlockingQueue_new es)"
| step: "bq_reach es b \<Longrightarrow> bq_step b b' \<Longrightarrow> bq_reach es b'"

lemmas bq_defs = BlockingQueue_push_notify_def BlockingQueue_push_broadcast_def notify_one_def
  notify_all_def BlockingQueue_pop_wait_def BlockingQueue_pop_front_def BlockingQueue_empty_def
  wait_returns_def BlockingQueue_new_def BlockingQueue_push_back_def

lemma pop_wait_never_faults: "\<exists>r. BlockingQueue_pop_wait b = Inr r"
  by (cases "bq_queue b") (simp_all add: bq_defs)

lemma bq_step_inv:
  assumes "bq_step b b'" "0 < sleeping b \<longrightarrow> length (bq_queue b) \<le> awake b"
  shows "0 < sleeping b' \<longrightarrow> length (bq_queue b') \<le> awake b'"
  using assms by cases (auto simp: bq_defs split: if_splits list.splits)

text \<open>A push without a notification leaves a sleeper beside a full queue.\<close>

lemma push_back_loses_wakeups:
  "let b = BlockingQueue_push_back x \<lparr>bq_queue = [], sleeping = 1, awake = 0\<rparr>
   in bq_reach [] \<lparr>bq_queue = [], sleeping = 1, awake = 0\<rparr> \<and> sleeping b = 1 \<and> awake b = 0 \<and> bq_queue b = [x]"
proof -
  have "bq_reach [] \<lparr>bq_queue = [], sleeping = 1, awake = 0\<rparr>"
    by (rule bq_reach.step [OF bq_reach.new], rule bq_step.pop_wait [of _ None]) (simp add: bq_defs)
  then show ?thesis by (simp add: bq_defs)
qed

section \<open>EventQueue\<close>

text \<open>
  The eventfd holds a counter that a write increases and a read resets; a write that would pass
  \<open>2 ^ 64 - 2\<close> fails. \<open>None\<close> is the queue after \<^verbatim>\<open>destroy\<close>. The queue of handlers is used without the
  condition variable.
\<close>

record 'h event_queue =
  eventfd :: "nat option"
  watched :: bool
  eventHandlers :: "'h blocking_queue"

definition EventQueue_new :: "'h event_queue" where
  "EventQueue_new = \<lparr>eventfd = Some 1000, watched = False, eventHandlers = BlockingQueue_new []\<rparr>"

definition EventQueue_start :: "'h event_queue \<Rightarrow> 'h event_queue res" where
  "EventQueue_start q = (if eventfd q = None then Inl Null_deref else Inr (q\<lparr>watched := True\<rparr>))"

definition EventQueue_destroy :: "'h event_queue \<Rightarrow> 'h event_queue" where
  "EventQueue_destroy q = q\<lparr>eventfd := None, watched := False\<rparr>"

definition EventQueue_wakeup :: "'h event_queue \<Rightarrow> 'h event_queue" where
  "EventQueue_wakeup q =
     (case eventfd q of
        None \<Rightarrow> q
      | Some n \<Rightarrow> if n + 1 \<le> 2 ^ 64 - 2 then q\<lparr>eventfd := Some (n + 1)\<rparr> else q)"

definition EventQueue_pushHandler :: "'h \<Rightarrow> 'h event_queue \<Rightarrow> 'h event_queue" where
  "EventQueue_pushHandler h q = q\<lparr>eventHandlers := BlockingQueue_push_back h (eventHandlers q)\<rparr>"

text \<open>
  The first half of the read callback: \<open>True\<close> when it goes on to run handlers. The read fails when
  the counter is 0.
\<close>

definition EventQueue_read :: "'h event_queue \<Rightarrow> bool \<times> 'h event_queue" where
  "EventQueue_read q =
     (case eventfd q of
        None \<Rightarrow> (False, q)
      | Some n \<Rightarrow> if n = 0 then (False, q) else (True, q\<lparr>eventfd := Some 0\<rparr>))"

section \<open>Threads and the loop\<close>

datatype 'h action = Push 'h | Wakeup

text \<open>\<^verbatim>\<open>EventLoop::runEventHandler\<close> and \<^verbatim>\<open>EventLoop::wakeup\<close>, as the actions of the calling thread.\<close>

definition EventLoop_runEventHandler :: "'h \<Rightarrow> 'h action list" where
  "EventLoop_runEventHandler h = [Push h, Wakeup]"

definition EventLoop_wakeup :: "'h action list" where
  "EventLoop_wakeup = [Wakeup]"

text \<open>
  The loop thread waits in its poller (where an error on the eventfd makes it destroy the queue), is about to test the queue, or runs a handler, which may post
  handlers itself. \<open>threads\<close> are what the other threads still have to do; \<open>posted\<close> and \<open>ran\<close> are the
  handlers pushed and started so far.
\<close>

datatype 'h loop_pc = Waiting | Draining | Running "'h action list"

record 'h loop_sys =
  equeue :: "'h event_queue"
  loop_pc :: "'h loop_pc"
  threads :: "'h action list list"
  posted :: "'h list"
  ran :: "'h list"

definition loop_new :: "nat \<Rightarrow> 'h loop_sys" where
  "loop_new n = \<lparr>equeue = EventQueue_new\<lparr>watched := True\<rparr>, loop_pc = Waiting,
     threads = replicate n [], posted = [], ran = []\<rparr>"

definition do_action :: "'h action \<Rightarrow> 'h loop_sys \<Rightarrow> 'h loop_sys" where
  "do_action a s =
     (case a of
        Push h \<Rightarrow> s\<lparr>equeue := EventQueue_pushHandler h (equeue s), posted := posted s @ [h]\<rparr>
      | Wakeup \<Rightarrow> s\<lparr>equeue := EventQueue_wakeup (equeue s)\<rparr>)"

text \<open>
  A step of the loop thread. It leaves the poller when its eventfd is watched and readable. \<open>beh h\<close> are
  the handlers that \<open>h\<close> posts.
\<close>

definition loop_step :: "('h \<Rightarrow> 'h list) \<Rightarrow> 'h loop_sys \<Rightarrow> 'h loop_sys" where
  "loop_step beh s =
     (case loop_pc s of
        Waiting \<Rightarrow>
          if watched (equeue s) then
            (case EventQueue_read (equeue s) of
               (go, q) \<Rightarrow> s\<lparr>equeue := q, loop_pc := (if go then Draining else Waiting)\<rparr>)
          else s
      | Draining \<Rightarrow>
          (case BlockingQueue_pop_front (eventHandlers (equeue s)) of
             Inl _ \<Rightarrow> s\<lparr>loop_pc := Waiting\<rparr>
           | Inr (h, b) \<Rightarrow>
               s\<lparr>equeue := (equeue s)\<lparr>eventHandlers := b\<rparr>,
                 loop_pc := Running (concat (map EventLoop_runEventHandler (beh h))), ran := ran s @ [h]\<rparr>)
      | Running [] \<Rightarrow> s\<lparr>loop_pc := Draining\<rparr>
      | Running (a # as) \<Rightarrow> do_action a (s\<lparr>loop_pc := Running as\<rparr>))"

inductive sys_step :: "('h \<Rightarrow> 'h list) \<Rightarrow> 'h loop_sys \<Rightarrow> 'h loop_sys \<Rightarrow> bool" for beh where
  loop: "sys_step beh s (loop_step beh s)"
| post: "i < length (threads s) \<Longrightarrow> threads s ! i = [] \<Longrightarrow>
    sys_step beh s (s\<lparr>threads := (threads s)[i := EventLoop_runEventHandler h]\<rparr>)"
| wakeup: "i < length (threads s) \<Longrightarrow> threads s ! i = [] \<Longrightarrow>
    sys_step beh s (s\<lparr>threads := (threads s)[i := EventLoop_wakeup]\<rparr>)"
| act: "i < length (threads s) \<Longrightarrow> threads s ! i = a # as \<Longrightarrow>
    sys_step beh s (do_action a (s\<lparr>threads := (threads s)[i := as]\<rparr>))"
| error: "loop_pc s = Waiting \<Longrightarrow> sys_step beh s (s\<lparr>equeue := EventQueue_destroy (equeue s)\<rparr>)"

inductive sys_reach :: "('h \<Rightarrow> 'h list) \<Rightarrow> nat \<Rightarrow> 'h loop_sys \<Rightarrow> bool" for beh n where
  new: "sys_reach beh n (loop_new n)"
| step: "sys_reach beh n s \<Longrightarrow> sys_step beh s s' \<Longrightarrow> sys_reach beh n s'"

section \<open>Invariant\<close>

definition pending :: "'h loop_sys \<Rightarrow> 'h list" where
  "pending s = bq_queue (eventHandlers (equeue s))"

definition thread_ok :: "'h action list \<Rightarrow> bool" where
  "thread_ok as \<longleftrightarrow> as = [] \<or> as = [Wakeup] \<or> (\<exists>h. as = [Push h, Wakeup])"

definition wakeup_due :: "'h loop_sys \<Rightarrow> bool" where
  "wakeup_due s \<longleftrightarrow> (\<exists>c. eventfd (equeue s) = Some c \<and> 0 < c) \<or> [Wakeup] \<in> set (threads s)"

definition sys_inv :: "'h loop_sys \<Rightarrow> bool" where
  "sys_inv s \<longleftrightarrow> ran s @ pending s = posted s
     \<and> (\<forall>as \<in> set (threads s). thread_ok as)
     \<and> (watched (equeue s) \<longleftrightarrow> eventfd (equeue s) \<noteq> None)
     \<and> (eventfd (equeue s) \<noteq> None \<and> loop_pc s = Waiting \<and> pending s \<noteq> [] \<longrightarrow> wakeup_due s)"

named_theorems eq_simps \<open>effect of the actions on the queue of handlers\<close>

lemma wakeup_simps [eq_simps]:
  "eventHandlers (EventQueue_wakeup q) = eventHandlers q"
  "watched (EventQueue_wakeup q) = watched q"
  "(eventfd (EventQueue_wakeup q) = None) = (eventfd q = None)"
  by (simp_all add: EventQueue_wakeup_def split: option.split)

lemma wakeup_positive: "eventfd q = Some c \<Longrightarrow> \<exists>c'. eventfd (EventQueue_wakeup q) = Some c' \<and> 0 < c'"
  by (simp add: EventQueue_wakeup_def)

lemma push_simps [eq_simps]:
  "bq_queue (eventHandlers (EventQueue_pushHandler h q)) = bq_queue (eventHandlers q) @ [h]"
  "watched (EventQueue_pushHandler h q) = watched q"
  "eventfd (EventQueue_pushHandler h q) = eventfd q"
  by (simp_all add: EventQueue_pushHandler_def bq_defs)

lemma do_action_simps [eq_simps]:
  "loop_pc (do_action a s) = loop_pc s" "threads (do_action a s) = threads s" "ran (do_action a s) = ran s"
  "watched (equeue (do_action a s)) = watched (equeue s)"
  "(eventfd (equeue (do_action a s)) = None) = (eventfd (equeue s) = None)"
  by (simp_all add: do_action_def eq_simps split: action.split)

lemma do_action_pending [eq_simps]:
  "posted (do_action a s) = posted s @ (case a of Push h \<Rightarrow> [h] | Wakeup \<Rightarrow> [])"
  "pending (do_action a s) = pending s @ (case a of Push h \<Rightarrow> [h] | Wakeup \<Rightarrow> [])"
  by (simp_all add: do_action_def pending_def eq_simps split: action.split)

lemma pending_updates [eq_simps]:
  "pending (s\<lparr>loop_pc := p\<rparr>) = pending s" "pending (s\<lparr>threads := ts\<rparr>) = pending s"
  "pending (s\<lparr>ran := r\<rparr>) = pending s"
  by (simp_all add: pending_def)

lemma read_simps:
  "EventQueue_read q = (go, q') \<Longrightarrow> eventHandlers q' = eventHandlers q \<and> watched q' = watched q
     \<and> (eventfd q' = None) = (eventfd q = None) \<and> (go \<longleftrightarrow> (\<exists>c. eventfd q = Some c \<and> 0 < c)) \<and> (\<not> go \<longrightarrow> q' = q)"
  by (auto simp: EventQueue_read_def split: option.splits if_splits)

lemma loop_step_inv:
  assumes "sys_inv s"
  shows "sys_inv (loop_step beh s)"
proof (cases "loop_pc s")
  case Waiting
  obtain go q where r: "EventQueue_read (equeue s) = (go, q)" by force
  from assms Waiting read_simps [OF r] show ?thesis
    by (auto simp: loop_step_def r sys_inv_def pending_def wakeup_due_def)
next
  case Draining
  with assms show ?thesis
    by (auto simp: loop_step_def sys_inv_def pending_def bq_defs split: list.split)
next
  case (Running as)
  with assms show ?thesis
    by (cases as) (auto simp: loop_step_def sys_inv_def eq_simps)
qed

lemma act_inv:
  assumes "sys_inv s" "i < length (threads s)" "threads s ! i = a # as"
  shows "sys_inv (do_action a (s\<lparr>threads := (threads s)[i := as]\<rparr>))"
proof -
  let ?s = "s\<lparr>threads := (threads s)[i := as]\<rparr>"
  have ok: "thread_ok (a # as)" using assms unfolding sys_inv_def by (metis nth_mem)
  have due: "wakeup_due (do_action a ?s)" if "eventfd (equeue s) \<noteq> None"
  proof (cases a)
    case (Push h)
    with ok have "as = [Wakeup]" by (simp add: thread_ok_def)
    then show ?thesis using assms(2) by (simp add: wakeup_due_def eq_simps set_update_memI)
  next
    case Wakeup
    then show ?thesis using that wakeup_positive by (auto simp: wakeup_due_def do_action_def)
  qed
  have "set ((threads s)[i := as]) \<subseteq> insert as (set (threads s))" by (rule set_update_subset_insert)
  moreover have "thread_ok as" using ok by (auto simp: thread_ok_def)
  ultimately have "\<forall>bs \<in> set ((threads s)[i := as]). thread_ok bs" using assms(1) by (auto simp: sys_inv_def)
  with assms(1) due show ?thesis
    by (simp add: sys_inv_def eq_simps)
qed

lemma begin_inv:
  assumes "sys_inv s" "i < length (threads s)" "threads s ! i = []" "thread_ok as"
  shows "sys_inv (s\<lparr>threads := (threads s)[i := as]\<rparr>)"
proof -
  have sub: "set ((threads s)[i := as]) \<subseteq> insert as (set (threads s))" by (rule set_update_subset_insert)
  then have "\<forall>bs \<in> set ((threads s)[i := as]). thread_ok bs"
    using assms(1,4) by (auto simp: sys_inv_def)
  moreover have "[Wakeup] \<in> set ((threads s)[i := as])" if "[Wakeup] \<in> set (threads s)"
  proof -
    obtain j where j: "j < length (threads s)" "threads s ! j = [Wakeup]"
      using \<open>[Wakeup] \<in> set (threads s)\<close> unfolding in_set_conv_nth by (elim exE conjE)
    with assms(3) have "i \<noteq> j" by auto
    with j have "(threads s)[i := as] ! j = [Wakeup]" "j < length ((threads s)[i := as])" by simp_all
    then show ?thesis by (metis nth_mem)
  qed
  then have "wakeup_due s \<Longrightarrow> wakeup_due (s\<lparr>threads := (threads s)[i := as]\<rparr>)"
    unfolding wakeup_due_def by simp blast
  ultimately show ?thesis using assms(1) by (simp add: sys_inv_def eq_simps)
qed

lemma sys_step_inv: "sys_step beh s s' \<Longrightarrow> sys_inv s \<Longrightarrow> sys_inv s'"
proof (induction rule: sys_step.induct)
  case (loop s)
  then show ?case by (rule loop_step_inv)
next
  case (post i s h)
  then show ?case by (intro begin_inv) (simp_all add: thread_ok_def EventLoop_runEventHandler_def)
next
  case (wakeup i s)
  then show ?case by (intro begin_inv) (simp_all add: thread_ok_def EventLoop_wakeup_def)
next
  case (act i s a as)
  then show ?case by (intro act_inv)
next
  case (error s)
  then show ?case by (simp add: sys_inv_def EventQueue_destroy_def pending_def)
qed

lemma sys_reach_inv: "sys_reach beh n s \<Longrightarrow> sys_inv s"
proof (induction rule: sys_reach.induct)
  case new
  show ?case
    by (simp add: sys_inv_def loop_new_def EventQueue_new_def pending_def BlockingQueue_new_def thread_ok_def)
next
  case (step s s')
  then show ?case using sys_step_inv by blast
qed

section \<open>The loop empties its queue\<close>

text \<open>What the loop still has to run, and how far it is in running it.\<close>

definition to_push :: "'h action list \<Rightarrow> 'h list" where
  "to_push as = concat (map (\<lambda>a. case a of Push h \<Rightarrow> [h] | Wakeup \<Rightarrow> []) as)"

definition work :: "('h \<Rightarrow> nat) \<Rightarrow> 'h loop_sys \<Rightarrow> nat multiset" where
  "work rank s = image_mset rank (mset (pending s) + mset (case loop_pc s of Running as \<Rightarrow> to_push as | _ \<Rightarrow> []))"

definition pc_size :: "'h loop_pc \<Rightarrow> nat" where
  "pc_size p = (case p of Running as \<Rightarrow> Suc (length as) | _ \<Rightarrow> 0)"

definition done_with :: "'h loop_sys \<Rightarrow> 'h loop_sys \<Rightarrow> bool" where
  "done_with s t \<longleftrightarrow> loop_pc t = Waiting \<and> pending t = [] \<and> threads t = threads s
     \<and> (\<exists>hs. posted t = posted s @ hs)"

lemma to_push_posts: "to_push (concat (map EventLoop_runEventHandler hs)) = hs"
  by (induction hs) (simp_all add: to_push_def EventLoop_runEventHandler_def)

lemma pop_lowers_work:
  assumes "\<forall>h'\<in>set (beh h). rank h' < (rank h :: nat)"
  shows "(image_mset rank (mset xs + mset (beh h)), image_mset rank (mset (h # xs))) \<in> mult less_than"
proof -
  have "(image_mset rank (mset xs) + image_mset rank (mset (beh h)), image_mset rank (mset xs) + {#rank h#}) \<in> mult less_than"
    using assms by (intro one_step_implies_mult) auto
  then show ?thesis by simp
qed

lemma draining_pop:
  assumes "loop_pc s = Draining" "pending s = h # hs"
  shows "loop_step beh s = s\<lparr>equeue := (equeue s)\<lparr>eventHandlers := (eventHandlers (equeue s))\<lparr>bq_queue := hs\<rparr>\<rparr>,
    loop_pc := Running (concat (map EventLoop_runEventHandler (beh h))), ran := ran s @ [h]\<rparr>"
  using assms by (simp add: loop_step_def pending_def BlockingQueue_pop_front_def)

lemma drains:
  assumes rank: "\<And>h h'. h' \<in> set (beh h) \<Longrightarrow> rank h' < (rank h :: nat)"
  shows "loop_pc s \<noteq> Waiting \<Longrightarrow> \<exists>k. done_with s ((loop_step beh ^^ k) s)"
proof (induction "(work rank s, pc_size (loop_pc s))" arbitrary: s
    rule: wf_induct_rule [OF wf_lex_prod [OF wf_mult [OF wf_less_than] wf_less_than]])
  case (1 s)
  let ?t = "loop_step beh s"
  have step: "\<exists>k. done_with s ((loop_step beh ^^ k) s)"
    if less: "((work rank ?t, pc_size (loop_pc ?t)), work rank s, pc_size (loop_pc s)) \<in> mult less_than <*lex*> less_than"
      and pc: "loop_pc ?t \<noteq> Waiting" and ext: "threads ?t = threads s" "\<exists>hs. posted ?t = posted s @ hs"
  proof -
    from 1(1) [OF less pc] obtain k where "done_with ?t ((loop_step beh ^^ k) ?t)" by blast
    with ext have "done_with s ((loop_step beh ^^ Suc k) s)"
      unfolding done_with_def funpow_Suc_right comp_apply by auto
    then show ?thesis by blast
  qed
  show ?case
  proof (cases "loop_pc s")
    case Waiting
    with 1(2) show ?thesis by simp
  next
    case Draining
    show ?thesis
    proof (cases "pending s")
      case Nil
      with Draining have "done_with s (loop_step beh s)"
        by (simp add: loop_step_def pending_def BlockingQueue_pop_front_def done_with_def)
      then have "done_with s ((loop_step beh ^^ 1) s)" by simp
      then show ?thesis by blast
    next
      case (Cons h hs)
      have work: "work rank ?t = image_mset rank (mset hs + mset (beh h))"
        using Cons Draining by (simp add: draining_pop work_def pending_def to_push_posts)
      have "work rank s = image_mset rank (mset (h # hs))"
        using Cons Draining by (simp add: work_def)
      with work have "(work rank ?t, work rank s) \<in> mult less_than"
        using pop_lowers_work [of beh h rank hs] rank by simp
      then show ?thesis using draining_pop [OF Draining Cons, of beh] by (intro step) simp_all
    qed
  next
    case (Running as)
    show ?thesis
    proof (cases as)
      case Nil
      with Running have t: "?t = s\<lparr>loop_pc := Draining\<rparr>" by (simp add: loop_step_def)
      show ?thesis by (rule step) (use Running Nil in \<open>simp_all add: t work_def pc_size_def to_push_def eq_simps\<close>)
    next
      case (Cons a bs)
      with Running have t: "?t = do_action a (s\<lparr>loop_pc := Running bs\<rparr>)" by (simp add: loop_step_def)
      have "work rank ?t = work rank s"
        using Running Cons by (cases a) (simp_all add: t work_def to_push_def eq_simps)
      then show ?thesis by (intro step) (use Running Cons in \<open>simp_all add: t pc_size_def eq_simps\<close>)
    qed
  qed
qed

lemma wakes_up:
  assumes "sys_inv s" "eventfd (equeue s) \<noteq> None" "loop_pc s = Waiting" "pending s \<noteq> []" "[Wakeup] \<notin> set (threads s)"
  shows "\<exists>q. loop_step beh s = s\<lparr>equeue := q, loop_pc := Draining\<rparr> \<and> eventHandlers q = eventHandlers (equeue s)"
proof -
  from assms obtain c where c: "eventfd (equeue s) = Some c" "0 < c" by (auto simp: sys_inv_def wakeup_due_def)
  with assms show ?thesis by (auto simp: loop_step_def EventQueue_read_def sys_inv_def)
qed

lemma loop_steps_inv: "sys_inv s \<Longrightarrow> sys_inv ((loop_step beh ^^ k) s)"
  by (induction k) (auto intro: loop_step_inv)

lemma inv_drains:
  assumes inv: "sys_inv s" and alive: "eventfd (equeue s) \<noteq> None" and idle: "[Wakeup] \<notin> set (threads s)"
    and rank: "\<And>h h'. h' \<in> set (beh h) \<Longrightarrow> rank h' < (rank h :: nat)"
  shows "\<exists>k. done_with s ((loop_step beh ^^ k) s)"
proof (cases "loop_pc s = Waiting")
  case False
  then show ?thesis using drains [of beh rank s] rank by blast
next
  case True
  show ?thesis
  proof (cases "pending s = []")
    case True
    with \<open>loop_pc s = Waiting\<close> have "done_with s ((loop_step beh ^^ 0) s)" by (simp add: done_with_def)
    then show ?thesis by blast
  next
    case False
    obtain q where t: "loop_step beh s = s\<lparr>equeue := q, loop_pc := Draining\<rparr>"
      using wakes_up [OF inv alive True False idle] by blast
    obtain k where "done_with (loop_step beh s) ((loop_step beh ^^ k) (loop_step beh s))"
      using drains [of beh rank "loop_step beh s"] rank t by force
    then have "done_with s ((loop_step beh ^^ Suc k) s)"
      unfolding done_with_def funpow_Suc_right comp_apply t by simp
    then show ?thesis by blast
  qed
qed

text \<open>A handler that posts itself again keeps the loop from going back to its poller.\<close>

definition busy_with :: "'h \<Rightarrow> 'h loop_sys \<Rightarrow> bool" where
  "busy_with h s \<longleftrightarrow> (case loop_pc s of Waiting \<Rightarrow> False | Draining \<Rightarrow> h \<in> set (pending s)
     | Running as \<Rightarrow> h \<in> set (pending s) \<or> Push h \<in> set as)"

lemma busy_step:
  assumes "h \<in> set (beh h)" "busy_with h s"
  shows "busy_with h (loop_step beh s)"
proof (cases "loop_pc s")
  case Waiting
  with assms show ?thesis by (simp add: busy_with_def)
next
  case Draining
  with assms(2) obtain x xs where p: "pending s = x # xs" by (cases "pending s") (auto simp: busy_with_def)
  have "Push h \<in> set (concat (map EventLoop_runEventHandler (beh h)))"
    using assms(1) by (auto simp: EventLoop_runEventHandler_def)
  with assms(2) Draining p show ?thesis
    by (auto simp: draining_pop [OF Draining p] busy_with_def pending_def)
next
  case (Running as)
  with assms(2) show ?thesis
    by (cases as) (auto simp: loop_step_def busy_with_def eq_simps split: action.split)
qed

lemma self_posting_handler_starves_loop:
  assumes "h \<in> set (beh h)" "loop_pc s = Draining" "h \<in> set (pending s)"
  shows "loop_pc ((loop_step beh ^^ k) s) \<noteq> Waiting"
proof -
  have "busy_with h ((loop_step beh ^^ k) s)"
  proof (induction k)
    case 0
    show ?case using assms by (simp add: busy_with_def)
  next
    case (Suc k)
    then show ?case using busy_step [of h beh, OF assms(1)] by simp
  qed
  then show ?thesis by (auto simp: busy_with_def)
qed

section \<open>Properties\<close>

text \<open>C36. Waiting for elements. However pushes with a notification, waits and spurious wake-ups of any
  number of threads interleave, there is never a thread asleep in \<^verbatim>\<open>pop_wait\<close> beside an element that no
  notified thread is about to take; and \<^verbatim>\<open>pop_wait\<close> never takes from an empty list.\<close>

theorem BlockingQueue_no_idle_sleeper:
  assumes "bq_reach es b"
  shows "(0 < sleeping b \<longrightarrow> length (bq_queue b) \<le> awake b)
    \<and> (\<exists>r b'. BlockingQueue_pop_wait b = Inr (r, b') \<and> bq_queue b = (case r of None \<Rightarrow> [] | Some x \<Rightarrow> x # bq_queue b'))"
proof
  show "0 < sleeping b \<longrightarrow> length (bq_queue b) \<le> awake b"
    using assms
  proof (induction rule: bq_reach.induct)
    case new
    show ?case by (simp add: BlockingQueue_new_def)
  next
    case (step b b')
    from step.hyps(2) step.IH show ?case by (rule bq_step_inv)
  qed
  show "\<exists>r b'. BlockingQueue_pop_wait b = Inr (r, b') \<and> bq_queue b = (case r of None \<Rightarrow> [] | Some x \<Rightarrow> x # bq_queue b')"
    by (cases "bq_queue b") (auto simp: bq_defs)
qed

lemma BlockingQueue_no_idle_sleeper_witness:
  "let b = BlockingQueue_push_notify (7::nat) \<lparr>bq_queue = [], sleeping = 2, awake = 0\<rparr>
   in sleeping b = 1 \<and> length (bq_queue b) \<le> awake b"
proof -
  let ?b = "\<lparr>bq_queue = [] :: nat list, sleeping = 1, awake = 0\<rparr>"
  have "bq_reach [] ?b"
    by (rule bq_reach.step [OF bq_reach.new], rule bq_step.pop_wait [of _ None]) (simp add: bq_defs)
  from bq_reach.step [OF this bq_step.pop_wait [of _ None]]
  have "bq_reach [] (?b\<lparr>sleeping := 2\<rparr>)" by (simp add: bq_defs numeral_2_eq_2)
  from BlockingQueue_no_idle_sleeper [OF bq_reach.step [OF this bq_step.notify [of _ 7]]]
  show ?thesis by (simp add: bq_defs)
qed

text \<open>C7. Posting to a loop. In every interleaving of any number of threads that post handlers or wake the
  loop up, the handlers started and the handlers still queued are the handlers posted, in their order;
  and no wake-up is lost: when a handler is queued, no thread stands between its push and its write,
  and the eventfd is alive, a loop that waits in its poller finds the eventfd readable and starts
  running handlers.\<close>

theorem EventQueue_no_lost_wakeup:
  assumes "sys_reach beh n s"
  shows "ran s @ pending s = posted s
    \<and> (eventfd (equeue s) \<noteq> None \<and> pending s \<noteq> [] \<and> loop_pc s = Waiting \<and> [Wakeup] \<notin> set (threads s)
        \<longrightarrow> loop_pc (loop_step beh s) = Draining)"
proof -
  have inv: "sys_inv s" using assms by (rule sys_reach_inv)
  then have "ran s @ pending s = posted s" by (simp add: sys_inv_def)
  moreover have "loop_pc (loop_step beh s) = Draining"
    if "eventfd (equeue s) \<noteq> None" "pending s \<noteq> []" "loop_pc s = Waiting" "[Wakeup] \<notin> set (threads s)"
    using wakes_up [of s beh] inv that by auto
  ultimately show ?thesis by blast
qed

definition one_posted :: "nat loop_sys" where
  "one_posted = do_action Wakeup (do_action (Push 5) (loop_new 1))"

lemma one_posted_reach: "sys_reach beh 1 one_posted"
proof -
  have "sys_reach beh 1 ((loop_new 1)\<lparr>threads := [[Push 5, Wakeup]]\<rparr>)"
    using sys_reach.step [OF sys_reach.new sys_step.post [of 0 "loop_new 1" beh "5::nat"]]
    by (simp add: loop_new_def EventLoop_runEventHandler_def)
  from sys_reach.step [OF this sys_step.act [of 0 _ "Push 5" "[Wakeup]"]]
  have "sys_reach beh 1 (do_action (Push 5) ((loop_new 1)\<lparr>threads := [[Wakeup]]\<rparr>))" by simp
  from sys_reach.step [OF this sys_step.act [of 0 _ Wakeup "[]"]]
  show ?thesis by (simp add: one_posted_def do_action_def loop_new_def)
qed

lemma one_posted_state:
  "pending one_posted = [5]" "posted one_posted = [5]" "eventfd (equeue one_posted) = Some 1001"
  "loop_pc one_posted = Waiting" "threads one_posted = [[]]"
  by (simp_all add: one_posted_def do_action_def loop_new_def pending_def EventQueue_new_def
      EventQueue_pushHandler_def EventQueue_wakeup_def bq_defs)

lemma EventQueue_no_lost_wakeup_witness:
  "pending one_posted = [5] \<and> loop_pc (loop_step (\<lambda>_. []) one_posted) = Draining"
  using EventQueue_no_lost_wakeup [OF one_posted_reach, of "\<lambda>_. []"] by (simp add: one_posted_state)

text \<open>C35. The loop runs everything. When every handler posts only handlers of a lower rank, the loop by
  itself comes back to its poller with an empty queue after finitely many steps, having run every
  handler posted before and the ones posted by these.\<close>

theorem EventQueue_runs_everything:
  assumes "sys_reach beh n s" "eventfd (equeue s) \<noteq> None" "[Wakeup] \<notin> set (threads s)"
    "\<forall>h. \<forall>h' \<in> set (beh h). rank h' < (rank h :: nat)"
  shows "\<exists>k t hs. t = (loop_step beh ^^ k) s \<and> loop_pc t = Waiting \<and> pending t = []
    \<and> ran t = posted s @ hs \<and> posted t = ran t"
proof -
  have inv: "sys_inv s" using assms(1) by (rule sys_reach_inv)
  obtain k where "done_with s ((loop_step beh ^^ k) s)"
    using inv_drains [OF inv assms(2,3), of beh rank] assms(4) by blast
  moreover have "sys_inv ((loop_step beh ^^ k) s)" using inv by (rule loop_steps_inv)
  ultimately show ?thesis
    unfolding done_with_def sys_inv_def by (metis append_Nil2)
qed

lemma EventQueue_runs_everything_witness:
  "\<exists>k t hs. t = (loop_step (\<lambda>h. if h = 0 then [] else [h - 1]) ^^ k) one_posted
     \<and> loop_pc t = Waiting \<and> pending t = [] \<and> ran t = 5 # hs \<and> posted t = ran t"
  using EventQueue_runs_everything [OF one_posted_reach, of "\<lambda>h. if h = 0 then [] else [h - 1]" "\<lambda>h. h"]
  by (simp add: one_posted_state split: if_splits)

end
