(* ===== verification/Utilities.thy ===== *)
theory Utilities
  imports Interfaces Numbers Timestamps
begin

text \<open>
  The helpers of \<^verbatim>\<open>src/src/util.h\<close>, \<^verbatim>\<open>util.cpp\<close> and \<^verbatim>\<open>Logger.cpp\<close>: the trie, the registry of signal
  handlers, the formatting of times and the fixed buffer of the logger.
\<close>

section \<open>Trie\<close>

text \<open>A node has an element and 95 slots, one for each printable character.\<close>

datatype 'a trie = Trie (element: "'a option") (nodes: "'a trie option list")

definition max_elements :: nat where "max_elements = 95"

definition Trie_new :: "'a trie" where
  "Trie_new = Trie None (replicate max_elements None)"

text \<open>\<^verbatim>\<open>char\<close> is signed; \<^verbatim>\<open>throw;\<close> outside of a handler ends the program.\<close>

definition char_int :: "char \<Rightarrow> int" where
  "char_int c = (let n = int (of_char c) in if n < 128 then n else n - 256)"

definition Trie_conv :: "int \<Rightarrow> nat res" where
  "Trie_conv c = (if c < 32 \<or> 126 < c then Inl Terminate else Inr (nat (c - 32)))"

text \<open>The walk that \<^verbatim>\<open>operator[]\<close> and \<^verbatim>\<open>insert\<close> share, creating nodes on its way; \<open>f\<close> is what happens
  to the element at its end.\<close>

fun trie_walk :: "('a option \<Rightarrow> 'a option) \<Rightarrow> string \<Rightarrow> 'a trie \<Rightarrow> 'a trie res" where
  "trie_walk f [] t = Inr (Trie (f (element t)) (nodes t))"
| "trie_walk f (c # cs) t =
     bind_res (Trie_conv (char_int c)) (\<lambda>i.
     bind_res (check (i < length (nodes t)) Out_of_bounds) (\<lambda>_.
     bind_res (trie_walk f cs (case nodes t ! i of None \<Rightarrow> Trie_new | Some p \<Rightarrow> p)) (\<lambda>p.
     Inr (Trie (element t) ((nodes t)[i := Some p])))))"

definition Trie_insert :: "string option \<Rightarrow> 'a \<Rightarrow> 'a trie \<Rightarrow> 'a trie res" where
  "Trie_insert s x t =
     (case s of None \<Rightarrow> Inl Terminate | Some s \<Rightarrow> trie_walk (\<lambda>_. Some x) (c_string s) t)"

fun trie_element :: "string \<Rightarrow> 'a trie \<Rightarrow> 'a option res" where
  "trie_element [] t = Inr (element t)"
| "trie_element (c # cs) t =
     bind_res (Trie_conv (char_int c)) (\<lambda>i.
     bind_res (check (i < length (nodes t)) Out_of_bounds) (\<lambda>_.
     case nodes t ! i of None \<Rightarrow> Inr None | Some p \<Rightarrow> trie_element cs p))"

text \<open>\<^verbatim>\<open>operator[]\<close>: the element there is after the walk; \<open>d\<close> is a new \<^verbatim>\<open>T\<close>.\<close>

definition Trie_index :: "'a \<Rightarrow> string option \<Rightarrow> 'a trie \<Rightarrow> ('a \<times> 'a trie) res" where
  "Trie_index d s t =
     (case s of
        None \<Rightarrow> Inl Terminate
      | Some s \<Rightarrow>
          bind_res (trie_walk (\<lambda>e. if e = None then Some d else e) (c_string s) t) (\<lambda>t'.
          bind_res (trie_element (c_string s) t') (\<lambda>e.
          case e of None \<Rightarrow> Inl Null_deref | Some x \<Rightarrow> Inr (x, t'))))"

definition Trie_find :: "string option \<Rightarrow> 'a trie \<Rightarrow> bool res" where
  "Trie_find s t =
     (case s of None \<Rightarrow> Inr False
      | Some s \<Rightarrow> bind_res (trie_element (c_string s) t) (\<lambda>e. Inr (e \<noteq> None)))"

text \<open>A well-formed trie, and the map it stands for.\<close>

inductive trie_ok :: "'a trie \<Rightarrow> bool" where
  "length ns = max_elements \<Longrightarrow> \<forall>p. Some p \<in> set ns \<longrightarrow> trie_ok p \<Longrightarrow> trie_ok (Trie e ns)"

inductive_simps trie_ok_Trie [simp]: "trie_ok (Trie e ns)"

definition printing :: "char \<Rightarrow> bool" where
  "printing c \<longleftrightarrow> 32 \<le> char_int c \<and> char_int c \<le> 126"

definition slot :: "char \<Rightarrow> nat" where
  "slot c = nat (char_int c - 32)"

definition trie_map :: "'a trie \<Rightarrow> string \<Rightarrow> 'a option" where
  "trie_map t s = (case trie_element s t of Inr e \<Rightarrow> e | Inl _ \<Rightarrow> None)"

lemma Trie_conv_slot [simp]: "printing c \<Longrightarrow> Trie_conv (char_int c) = Inr (slot c)"
  by (simp add: Trie_conv_def printing_def slot_def)

lemma slot_bound: "printing c \<Longrightarrow> slot c < max_elements"
  unfolding slot_def printing_def max_elements_def by linarith

lemma Trie_conv_unprintable: "\<not> printing c \<Longrightarrow> Trie_conv (char_int c) = Inl Terminate"
  by (auto simp: Trie_conv_def printing_def)

lemma signed_inj:
  fixes a b :: nat
  assumes "a < 256" "b < 256" "(if int a < 128 then int a else int a - 256) = (if int b < 128 then int b else int b - 256)"
  shows "a = b"
  using assms by (auto split: if_splits)

lemma slot_inj: "printing c \<Longrightarrow> printing c' \<Longrightarrow> slot c = slot c' \<longleftrightarrow> c = c'"
proof
  assume "printing c" "printing c'" "slot c = slot c'"
  then have "char_int c = char_int c'" unfolding slot_def printing_def by linarith
  then have "of_char c = (of_char c' :: nat)"
    unfolding char_int_def Let_def by (rule signed_inj [OF nat_of_char_less_256 nat_of_char_less_256])
  then show "c = c'" by (simp add: of_char_eq_iff)
qed auto

lemma trie_ok_new [simp]: "trie_ok Trie_new"
  by (simp add: Trie_new_def)

lemma trie_ok_length: "trie_ok t \<Longrightarrow> length (nodes t) = max_elements"
  by (cases t) simp

lemma trie_ok_node: "trie_ok t \<Longrightarrow> nodes t ! i = Some p \<Longrightarrow> i < max_elements \<Longrightarrow> trie_ok p"
proof (cases t)
  case (Trie e ns)
  moreover assume "trie_ok t" "nodes t ! i = Some p" "i < max_elements"
  ultimately have "Some p \<in> set ns" by (metis nth_mem trie.sel(2) trie_ok_length)
  with \<open>trie_ok t\<close> Trie show "trie_ok p" by simp
qed

lemma trie_map_Nil [simp]: "trie_map t [] = element t"
  by (simp add: trie_map_def)

lemma trie_map_new [simp]: "trie_map Trie_new = Map.empty"
proof
  fix s show "trie_map Trie_new s = None"
    by (cases s) (auto simp: trie_map_def Trie_new_def bind_res_def Trie_conv_def check_def max_elements_def
      split: sum.splits)
qed

lemma trie_map_Cons:
  assumes "trie_ok t"
  shows "trie_map t (c # cs) =
    (if printing c then case nodes t ! slot c of None \<Rightarrow> None | Some p \<Rightarrow> trie_map p cs else None)"
proof (cases "printing c")
  case True
  with slot_bound [OF True] trie_ok_length [OF assms] show ?thesis
    by (simp add: trie_map_def split: option.split)
next
  case False
  then show ?thesis by (simp add: trie_map_def Trie_conv_unprintable)
qed

lemma trie_map_node:
  assumes "trie_ok t" "printing c"
  shows "trie_map (Trie e ((nodes t)[slot c := Some p])) (c' # cs) =
    (if c' = c then trie_map p cs else trie_map t (c' # cs))"
proof -
  have len: "slot c < length (nodes t)" using slot_bound [OF assms(2)] trie_ok_length [OF assms(1)] by simp
  show ?thesis
  proof (cases "printing c'")
    case True
    with slot_bound [OF True] trie_ok_length [OF assms(1)] len slot_inj [OF True assms(2)] show ?thesis
      by (auto simp: trie_map_def nth_list_update split: option.split)
  next
    case False
    with assms(2) have "c' \<noteq> c" by auto
    with False show ?thesis by (simp add: trie_map_def Trie_conv_unprintable)
  qed
qed

lemma trie_walk_ok:
  assumes "trie_ok t" "\<forall>c \<in> set s. printing c" "\<And>e. f e \<noteq> None"
  shows "\<exists>t'. trie_walk f s t = Inr t' \<and> trie_ok t' \<and> trie_map t' = (trie_map t)(s := f (trie_map t s))"
  using assms(1,2)
proof (induction s arbitrary: t)
  case Nil
  have "trie_map (Trie (f (element t)) (nodes t)) = (trie_map t)([] := f (element t))"
  proof
    fix x show "trie_map (Trie (f (element t)) (nodes t)) x = ((trie_map t)([] := f (element t))) x"
      by (cases x) (simp_all add: trie_map_def)
  qed
  moreover have "trie_ok (Trie (f (element t)) (nodes t))" using Nil by (cases t) simp
  ultimately show ?case unfolding trie_walk.simps trie_map_Nil by blast
next
  case (Cons c cs)
  let ?p = "case nodes t ! slot c of None \<Rightarrow> Trie_new | Some p \<Rightarrow> p"
  have pc: "printing c" using Cons.prems by simp
  have len: "slot c < length (nodes t)" using slot_bound [OF pc] trie_ok_length [OF Cons.prems(1)] by simp
  have okp: "trie_ok ?p"
    using trie_ok_node [OF Cons.prems(1), of "slot c"] slot_bound [OF pc] by (simp split: option.split)
  have mp: "trie_map ?p cs = trie_map t (c # cs)"
    using trie_map_Cons [OF Cons.prems(1), of c cs] pc by (simp split: option.split)
  obtain p' where p': "trie_walk f cs ?p = Inr p'" "trie_ok p'" "trie_map p' = (trie_map ?p)(cs := f (trie_map ?p cs))"
    using Cons.IH [OF okp] Cons.prems(2) unfolding list.set by blast
  define t' where "t' = Trie (element t) ((nodes t)[slot c := Some p'])"
  have walk: "trie_walk f (c # cs) t = Inr t'" using pc len p'(1) by (simp add: t'_def)
  have "trie_map t' x = ((trie_map t)(c # cs := f (trie_map t (c # cs)))) x" for x
  proof (cases x)
    case Nil
    then show ?thesis by (simp add: t'_def)
  next
    case (Cons d ds)
    show ?thesis
    proof (cases "d = c")
      case True
      with Cons have "trie_map t' x = trie_map p' ds"
        by (simp add: t'_def trie_map_node [OF \<open>trie_ok t\<close> pc])
      moreover have "trie_map ?p ds = trie_map t (c # ds)"
        using trie_map_Cons [OF \<open>trie_ok t\<close>, of c ds] pc by (simp split: option.split)
      ultimately show ?thesis using Cons True p'(3) mp by auto
    next
      case False
      with Cons show ?thesis by (simp add: t'_def trie_map_node [OF \<open>trie_ok t\<close> pc])
    qed
  qed
  then have "trie_map t' = (trie_map t)(c # cs := f (trie_map t (c # cs)))" by blast
  moreover have "trie_ok t'"
    using \<open>trie_ok t\<close> p'(2) by (cases t) (auto simp: t'_def dest: set_update_subset_insert [THEN subsetD])
  ultimately show ?case using walk by blast
qed

lemma trie_element_ok:
  "trie_ok t \<Longrightarrow> \<forall>c \<in> set s. printing c \<Longrightarrow> trie_element s t = Inr (trie_map t s)"
proof (induction s arbitrary: t)
  case (Cons c cs)
  then have pc: "printing c" and "slot c < length (nodes t)"
    using slot_bound [of c] trie_ok_length [of t] by auto
  moreover have "trie_ok p" if "nodes t ! slot c = Some p" for p
    using that Cons.prems slot_bound [OF pc] by (auto intro: trie_ok_node)
  ultimately show ?case using Cons trie_map_Cons [of t c cs] by (auto split: option.split)
qed simp

definition key_ok :: "string option \<Rightarrow> bool" where
  "key_ok s \<longleftrightarrow> (\<exists>x. s = Some x \<and> (\<forall>c \<in> set x. printing c))"

definition key_map :: "'a trie \<Rightarrow> string option \<Rightarrow> 'a option" where
  "key_map t s = (case s of None \<Rightarrow> None | Some x \<Rightarrow> trie_map t x)"

lemma c_string_printing [simp]: "\<forall>c \<in> set s. printing c \<Longrightarrow> c_string s = s"
  unfolding c_string_def by (rule takeWhile_eq_all_conv [THEN iffD2]) (auto simp: printing_def char_int_def)

lemma key_map_upd:
  assumes "trie_map t' = (trie_map t)(x := e)"
  shows "key_map t' = (key_map t)(Some x := e)"
proof
  fix k show "key_map t' k = ((key_map t)(Some x := e)) k"
    using assms by (cases k) (auto simp: key_map_def)
qed

interpretation trie: keyed_store key_ok trie_ok key_map d Trie_insert Trie_find "Trie_index d" for d
proof unfold_locales
  fix t :: "'a trie" and k v
  assume t: "trie_ok t" and k: "key_ok k"
  then obtain x where x: "k = Some x" "\<forall>c \<in> set x. printing c" by (auto simp: key_ok_def)
  obtain t' where t': "trie_walk (\<lambda>_. Some v) x t = Inr t'" "trie_ok t'" "trie_map t' = (trie_map t)(x \<mapsto> v)"
    using trie_walk_ok [OF t x(2), of "\<lambda>_. Some v"] by auto
  then show "\<exists>t'. Trie_insert k v t = Inr t' \<and> trie_ok t' \<and> key_map t' = (key_map t)(k \<mapsto> v)"
    using x key_map_upd [OF t'(3)] by (simp add: Trie_insert_def)
  show "Trie_find k t = Inr (key_map t k \<noteq> None)"
    using x trie_element_ok [OF t x(2)] by (simp add: Trie_find_def key_map_def)
  let ?f = "\<lambda>e. if e = None then Some d else e"
  let ?v = "case key_map t k of None \<Rightarrow> d | Some w \<Rightarrow> w"
  obtain t2 where t2: "trie_walk ?f x t = Inr t2" "trie_ok t2" "trie_map t2 = (trie_map t)(x := ?f (trie_map t x))"
    using trie_walk_ok [OF t x(2), of ?f] by force
  have "?f (trie_map t x) = Some ?v" using x by (simp add: key_map_def split: option.split)
  with t2 x trie_element_ok [OF t2(2) x(2)] key_map_upd [OF t2(3)]
  have "Trie_index d k t = Inr (?v, t2) \<and> trie_ok t2 \<and> key_map t2 = (key_map t)(k \<mapsto> ?v)"
    by (simp add: Trie_index_def)
  then show "\<exists>v t'. Trie_index d k t = Inr (v, t') \<and> trie_ok t' \<and> v = ?v \<and> key_map t' = (key_map t)(k \<mapsto> v)"
    by blast
qed

lemma map_of_Some_keys: "map_of (map (\<lambda>(s, x). (Some s, x)) kvs) (Some s) = map_of kvs s"
  by (induction kvs) auto

lemma trie_walk_unprintable:
  "trie_ok t \<Longrightarrow> \<forall>c \<in> set s. printing c \<Longrightarrow> \<not> printing c \<Longrightarrow> trie_walk f (s @ c # r) t = Inl Terminate"
proof (induction s arbitrary: t)
  case Nil
  then show ?case by (simp add: Trie_conv_unprintable)
next
  case (Cons d s)
  let ?p = "case nodes t ! slot d of None \<Rightarrow> Trie_new | Some p \<Rightarrow> p"
  have pd: "printing d" using Cons.prems by simp
  have "trie_ok ?p"
    using trie_ok_node [OF Cons.prems(1), of "slot d"] slot_bound [OF pd] by (simp split: option.split)
  with Cons have "trie_walk f (s @ c # r) ?p = Inl Terminate" by simp
  with pd slot_bound [OF pd] trie_ok_length [OF Cons.prems(1)] show ?case by simp
qed

section \<open>Signals\<close>

text \<open>
  What the kernel does on a signal; \<open>SigErr\<close> is the answer of a failed \<^verbatim>\<open>signal\<close>, and \<open>settable\<close> are the
  signals whose disposition can be changed. A functor may be empty.
\<close>

datatype disposition = SigDefault | SigIgnore | SignalHandler | SigErr

record 'h signals =
  functors :: "int \<rightharpoonup> 'h option"
  stored_funcs :: "int \<rightharpoonup> disposition"
  dispositions :: "int \<Rightarrow> disposition"

definition kernel_signal :: "(int \<Rightarrow> bool) \<Rightarrow> int \<Rightarrow> disposition \<Rightarrow> 'h signals \<Rightarrow> disposition \<times> 'h signals" where
  "kernel_signal settable n d g =
     (if settable n \<and> d \<noteq> SigErr
      then (dispositions g n, g\<lparr>dispositions := (dispositions g)(n := d)\<rparr>) else (SigErr, g))"

definition Signal_signal :: "(int \<Rightarrow> bool) \<Rightarrow> int \<Rightarrow> 'h option \<Rightarrow> 'h signals \<Rightarrow> 'h signals" where
  "Signal_signal settable n h g =
     (let (old, g) = kernel_signal settable n SignalHandler (g\<lparr>functors := (functors g)(n \<mapsto> h)\<rparr>)
      in g\<lparr>stored_funcs := (stored_funcs g)(n \<mapsto> old)\<rparr>)"

definition Signal_reset :: "(int \<Rightarrow> bool) \<Rightarrow> int \<Rightarrow> 'h signals \<Rightarrow> 'h signals" where
  "Signal_reset settable n g =
     (let g = g\<lparr>functors := (functors g)(n := None)\<rparr>
      in case stored_funcs g n of
           None \<Rightarrow> g
         | Some d \<Rightarrow> (snd (kernel_signal settable n d g))\<lparr>stored_funcs := (stored_funcs g)(n := None)\<rparr>)"

text \<open>\<^verbatim>\<open>signal_handler\<close>, run when a signal with its disposition arrives; \<^verbatim>\<open>operator[]\<close> makes an empty functor
  where there is none.\<close>

definition signal_handler :: "int \<Rightarrow> 'h signals \<Rightarrow> 'h res" where
  "signal_handler n g =
     (case functors g n of
        Some (Some h) \<Rightarrow> Inr h
      | _ \<Rightarrow> Inl (Thrown ''std::bad_function_call''))"

section \<open>Times as text\<close>

text \<open>
  \<^verbatim>\<open>Timestamp::toString\<close> keeps the text of the last second in two thread-local variables, at first \<open>0\<close>
  and the empty string; \<open>date\<close> is the text of a second by \<^verbatim>\<open>localtime_r\<close>.
\<close>

definition usec_string :: "int \<Rightarrow> string" where
  "usec_string u =
     (let s = nat_string (nat \<bar>u\<bar>) in
      if u < 0 then '' -'' @ replicate (5 - length s) CHR ''0'' @ s
      else '' '' @ replicate (6 - length s) CHR ''0'' @ s)"

definition Timestamp_toString :: "(int \<Rightarrow> string) \<Rightarrow> timestamp \<Rightarrow> int \<times> string \<Rightarrow> string \<times> int \<times> string" where
  "Timestamp_toString date t cache =
     (let cache = (if sec t \<noteq> fst cache then (sec t, date (sec t)) else cache)
      in (snd cache @ usec_string (usec t), cache))"

fun toStrings :: "(int \<Rightarrow> string) \<Rightarrow> timestamp list \<Rightarrow> int \<times> string \<Rightarrow> string list" where
  "toStrings date [] cache = []"
| "toStrings date (t # ts) cache =
     (let (s, cache) = Timestamp_toString date t cache in s # toStrings date ts cache)"

text \<open>The cache is invisible as long as no time lies in the first second of the epoch, where a fresh
  thread prints no date.\<close>

lemma Timestamp_toString_cached:
  assumes "\<forall>t \<in> set ts. sec t \<noteq> 0"
  shows "toStrings date ts (0, []) = map (\<lambda>t. date (sec t) @ usec_string (usec t)) ts"
proof -
  have "toStrings date ts c = map (\<lambda>t. date (sec t) @ usec_string (usec t)) ts"
    if "c = (0, []) \<or> snd c = date (fst c)" for c
    using that assms
  proof (induction ts arbitrary: c)
    case (Cons t ts)
    have "Timestamp_toString date t c = (date (sec t) @ usec_string (usec t), sec t, date (sec t))"
      using Cons.prems by (cases c) (auto simp: Timestamp_toString_def Let_def)
    with Cons.IH [of "(sec t, date (sec t))"] Cons.prems show ?case by simp
  qed simp
  then show ?thesis by simp
qed

lemma Timestamp_toString_epoch: "toStrings date [TV 0 0] (0, []) = ['' 000000'']"
proof -
  have "usec_string 0 = '' 000000''" by code_simp
  then show ?thesis by (simp add: Timestamp_toString_def)
qed

section \<open>Logger\<close>

datatype log_level = VERBOSE | DEBUG | INFO | WARN | ERROR | FATAL

definition level_number :: "log_level \<Rightarrow> nat" where
  "level_number l = (case l of VERBOSE \<Rightarrow> 0 | DEBUG \<Rightarrow> 1 | INFO \<Rightarrow> 2 | WARN \<Rightarrow> 3 | ERROR \<Rightarrow> 4 | FATAL \<Rightarrow> 5)"

definition getLevelString :: "log_level \<Rightarrow> string" where
  "getLevelString l = [''VERBOSE'', ''DEBUG'', ''INFO'', ''WARN'', ''ERROR'', ''FATAL''] ! level_number l"

text \<open>The prefix of a message, with the texts that \<^verbatim>\<open>%s\<close> and \<^verbatim>\<open>%d\<close> print.\<close>

definition log_prefix :: "log_level \<Rightarrow> string \<Rightarrow> string \<Rightarrow> int \<Rightarrow> string \<Rightarrow> string" where
  "log_prefix l time file line func =
     ''['' @ getLevelString l @ ''] ['' @ time @ '']: '' @ file @ '': '' @ to_string line @ '' '' @ func @ '' ''"

text \<open>
  \<^verbatim>\<open>snprintf\<close> and \<^verbatim>\<open>vsnprintf\<close> at an offset of a buffer. They write at most \<open>n\<close> characters with the NUL
  and return the length of the whole text. A negative \<open>n\<close> is a huge \<^verbatim>\<open>size_t\<close>.
\<close>

definition snprintf :: "cell list \<Rightarrow> int \<Rightarrow> int \<Rightarrow> string \<Rightarrow> (cell list \<times> int) res" where
  "snprintf buf off n s =
     (let out = (if n = 0 then [] else if n < 0 then s @ [CHR 0x00] else take (nat n - 1) s @ [CHR 0x00])
      in bind_res (write_range buf off (map Some out)) (\<lambda>b. Inr (b, int (length s))))"

definition line_end :: "cell \<Rightarrow> bool" where
  "line_end c \<longleftrightarrow> c = Some (CHR ''\<newline>'') \<or> c = Some (CHR 0x00)"

text \<open>The loop that steps back over line ends.\<close>

fun trim_offset :: "cell list \<Rightarrow> nat \<Rightarrow> nat res" where
  "trim_offset b i =
     (if length b \<le> i then Inl Out_of_bounds
      else if line_end (b ! i) then (case i of 0 \<Rightarrow> Inl Out_of_bounds | Suc j \<Rightarrow> trim_offset b j) else Inr i)"

declare trim_offset.simps [simp del]

text \<open>Its end: one newline and a NUL after the text, which is written up to its NUL.\<close>

definition finish_line :: "cell list \<Rightarrow> nat \<Rightarrow> cell list option res" where
  "finish_line buf off =
     bind_res (trim_offset buf off) (\<lambda>i.
     bind_res (write_range buf (int i + 1) [Some (CHR ''\<newline>'')]) (\<lambda>buf.
     bind_res (write_range buf (int i + 2) [Some (CHR 0x00)]) (\<lambda>buf.
     Inr (Some (takeWhile (\<lambda>c. c \<noteq> Some (CHR 0x00)) buf)))))"

text \<open>The two calls of \<^verbatim>\<open>snprintf\<close> on the fresh buffer, the prefix and then the message after it, and the end
  of the line.\<close>

definition log_line :: "string \<Rightarrow> string \<Rightarrow> cell list option res" where
  "log_line p m =
     (let buf = replicate 4096 None in
      bind_res (snprintf buf 0 4096 p) (\<lambda>(buf, n).
      let off = n in
      bind_res (snprintf buf off (4096 - off) m) (\<lambda>(buf, n).
      finish_line buf (nat (off + n)))))"

text \<open>\<^verbatim>\<open>Logger::log\<close>: the bytes written to the standard error, or \<open>None\<close> below the level of the logger;
  \<open>m\<close> is the formatted message.\<close>

definition Logger_log :: "log_level \<Rightarrow> log_level \<Rightarrow> string \<Rightarrow> string \<Rightarrow> int \<Rightarrow> string \<Rightarrow> string \<Rightarrow> cell list option res" where
  "Logger_log lv l time file line func m =
     (if level_number l < level_number lv then Inr None
      else log_line (log_prefix l time file line func) m)"

text \<open>
  The macros. A place that logs has the level of the logger, the time, the file, the line and the function.
  \<^verbatim>\<open>fatal\<close> ends the program with status 1; the conditional ones do nothing when their condition is false.
\<close>

type_synonym log_site = "log_level \<times> string \<times> string \<times> int \<times> string"

datatype after_log = Goes_on "cell list option" | Exits int "cell list option"

definition log_at :: "log_level \<Rightarrow> log_site \<Rightarrow> string \<Rightarrow> cell list option res" where
  "log_at l site m = (case site of (lv, time, file, line, func) \<Rightarrow> Logger_log lv l time file line func m)"

definition Logger_setLevel :: "log_level \<Rightarrow> log_site \<Rightarrow> log_site" where
  "Logger_setLevel l site = (case site of (lv, rest) \<Rightarrow> (l, rest))"

definition log_verbose :: "log_site \<Rightarrow> string \<Rightarrow> cell list option res" where
  "log_verbose = log_at VERBOSE"

definition log_debug :: "log_site \<Rightarrow> string \<Rightarrow> cell list option res" where
  "log_debug = log_at DEBUG"

definition log_info :: "log_site \<Rightarrow> string \<Rightarrow> cell list option res" where
  "log_info = log_at INFO"

definition log_warn :: "log_site \<Rightarrow> string \<Rightarrow> cell list option res" where
  "log_warn = log_at WARN"

definition log_error :: "log_site \<Rightarrow> string \<Rightarrow> cell list option res" where
  "log_error = log_at ERROR"

definition log_fatal :: "log_site \<Rightarrow> string \<Rightarrow> after_log res" where
  "log_fatal site m = bind_res (log_at FATAL site m) (\<lambda>out. Inr (Exits 1 out))"

definition log_debugif :: "bool \<Rightarrow> log_site \<Rightarrow> string \<Rightarrow> cell list option res" where
  "log_debugif c site m = (if c then log_debug site m else Inr None)"

definition log_infoif :: "bool \<Rightarrow> log_site \<Rightarrow> string \<Rightarrow> cell list option res" where
  "log_infoif c site m = (if c then log_info site m else Inr None)"

definition log_warnif :: "bool \<Rightarrow> log_site \<Rightarrow> string \<Rightarrow> cell list option res" where
  "log_warnif c site m = (if c then log_warn site m else Inr None)"

definition log_errorif :: "bool \<Rightarrow> log_site \<Rightarrow> string \<Rightarrow> cell list option res" where
  "log_errorif c site m = (if c then log_error site m else Inr None)"

definition log_fatalif :: "bool \<Rightarrow> log_site \<Rightarrow> string \<Rightarrow> after_log res" where
  "log_fatalif c site m = (if c then log_fatal site m else Inr (Goes_on None))"

lemma trim_offset_step:
  "i < length b \<Longrightarrow> trim_offset b i =
     (if line_end (b ! i) then (case i of 0 \<Rightarrow> Inl Out_of_bounds | Suc j \<Rightarrow> trim_offset b j) else Inr i)"
  by (simp add: trim_offset.simps [of b i])

definition trimmed :: "string \<Rightarrow> string" where
  "trimmed s = rev (dropWhile (\<lambda>c. c = CHR ''\<newline>'' \<or> c = CHR 0x00) (rev s))"

lemma trimmed_snoc: "trimmed (s @ [c]) = (if c = CHR ''\<newline>'' \<or> c = CHR 0x00 then trimmed s else s @ [c])"
  by (simp add: trimmed_def)

lemma trim_offset_text:
  assumes "trimmed s \<noteq> []" "length s < length b" "take (length s) b = map Some s"
  shows "trim_offset b (length s - 1) = Inr (length (trimmed s) - 1)"
  using assms
proof (induction s rule: rev_induct)
  case Nil
  then show ?case by (simp add: trimmed_def)
next
  case (snoc c s)
  have c: "b ! length s = Some c"
  proof -
    have "take (Suc (length s)) b ! length s = Some c" using snoc.prems(3) by (simp add: nth_append)
    then show ?thesis using snoc.prems(2) by simp
  qed
  show ?case
  proof (cases "c = CHR ''\<newline>'' \<or> c = CHR 0x00")
    case False
    with c snoc.prems show ?thesis by (simp add: trim_offset_step line_end_def trimmed_snoc)
  next
    case True
    with snoc.prems(1) have ne: "trimmed s \<noteq> []" by (simp add: trimmed_snoc)
    then obtain k where k: "length s = Suc k" by (cases s) (auto simp: trimmed_def)
    have "take (length s) b = map Some s"
    proof -
      have "take (length s) (take (length (s @ [c])) b) = take (length s) (map Some (s @ [c]))"
        using snoc.prems(3) by simp
      then show ?thesis by simp
    qed
    with snoc.IH ne snoc.prems(2) have "trim_offset b (length s - 1) = Inr (length (trimmed s) - 1)" by simp
    with True c k snoc.prems(2) show ?thesis
      by (auto simp: trim_offset_step [of "Suc k"] line_end_def trimmed_snoc)
  qed
qed

lemma length_trimmed: "length (trimmed s) \<le> length s"
  unfolding trimmed_def by (metis length_dropWhile_le length_rev)

lemma trimmed_prefix: "take (length (trimmed s)) s = trimmed s"
proof -
  have "rev s = takeWhile (\<lambda>c. c = CHR ''\<newline>'' \<or> c = CHR 0x00) (rev s) @ dropWhile (\<lambda>c. c = CHR ''\<newline>'' \<or> c = CHR 0x00) (rev s)"
    by simp
  then have "s = trimmed s @ rev (takeWhile (\<lambda>c. c = CHR ''\<newline>'' \<or> c = CHR 0x00) (rev s))"
    unfolding trimmed_def by (metis rev_append rev_rev_ident)
  then show ?thesis by (metis append_eq_conv_conj)
qed

lemma write_range_append:
  "i = int (length xs) \<Longrightarrow> length zs \<le> length ys \<Longrightarrow>
     write_range (xs @ ys) i zs = Inr (xs @ zs @ drop (length zs) ys)"
  by (simp add: write_range_def)

lemma snprintf_fits:
  assumes "i = int (length xs)" "int (length s) < n" "n = int (length ys)"
  shows "snprintf (xs @ ys) i n s = Inr (xs @ map Some s @ Some (CHR 0x00) # drop (length s + 1) ys, int (length s))"
  using assms write_range_append [of i xs "map Some (s @ [CHR 0x00])" ys]
  by (cases "ys = []") (simp_all add: snprintf_def)

lemma takeWhile_no_nul:
  "CHR 0x00 \<notin> set s \<Longrightarrow> takeWhile (\<lambda>c. c \<noteq> Some (CHR 0x00)) (map Some s @ Some (CHR 0x00) # ys) = map Some s"
  by (induction s) auto

lemma log_prefix_start: "\<exists>r. log_prefix l time file line func = CHR ''['' # r"
  by (simp add: log_prefix_def)

lemma trimmed_nonempty:
  assumes "\<exists>r. s = CHR ''['' # r"
  shows "trimmed s \<noteq> []"
proof -
  obtain r where "s = CHR ''['' # r" using assms by blast
  then have "CHR ''['' \<in> set (rev s)" by simp
  moreover have "\<not> (CHR ''['' = CHR ''\<newline>'' \<or> CHR ''['' = CHR 0x00)" by simp
  ultimately show ?thesis unfolding trimmed_def dropWhile_eq_Nil_conv rev_is_Nil_conv by blast
qed

lemma terminate_line:
  assumes t: "trimmed t \<noteq> []" "CHR 0x00 \<notin> set t" "length t + length ys + 1 = 4096"
  shows "finish_line (map Some t @ Some (CHR 0x00) # ys) (length t)
    = (if length (trimmed t) < 4095 then Inr (Some (map Some (trimmed t @ [CHR ''\<newline>'']))) else Inl Out_of_bounds)"
proof -
  let ?b = "map Some t @ Some (CHR 0x00) # ys"
  define k where "k = length (trimmed t)"
  define r where "r = drop k ?b"
  have k: "0 < k" "k \<le> length t" using t(1) length_trimmed [of t] by (simp_all add: k_def)
  then obtain j where j: "length t = Suc j" by (cases t) auto
  have "trim_offset ?b (length t) = trim_offset ?b (length t - 1)"
    using j trim_offset_step [of "length t" ?b] by (simp add: line_end_def nth_append)
  also have "\<dots> = Inr (k - 1)" unfolding k_def by (rule trim_offset_text) (use t in simp_all)
  finally have trim: "trim_offset ?b (length t) = Inr (k - 1)" .
  have b: "?b = map Some (trimmed t) @ r"
  proof -
    have "take k ?b = map Some (take k t)" using k by (simp add: take_map)
    also have "\<dots> = map Some (trimmed t)" using trimmed_prefix [of t] by (simp add: k_def)
    finally show ?thesis unfolding r_def by (metis append_take_drop_id)
  qed
  have lr: "length r + k = 4096" using t(3) k by (simp add: r_def)
  have idx: "int (k - 1) + 1 = int (length (map Some (trimmed t)))"
    "int (k - 1) + 2 = int (length (map Some (trimmed t @ [CHR ''\<newline>''])))"
    using k(1) by (cases k; simp add: k_def)+
  have nl: "write_range ?b (int (k - 1) + 1) [Some (CHR ''\<newline>'')] = Inr (map Some (trimmed t @ [CHR ''\<newline>'']) @ drop 1 r)"
    unfolding b by (subst write_range_append [OF idx(1)]) (use k lr t(3) in \<open>simp_all add: k_def\<close>)
  have no_nul: "CHR 0x00 \<notin> set (trimmed t @ [CHR ''\<newline>''])"
  proof -
    have "set (trimmed t) \<subseteq> set t" using set_take_subset [of "length (trimmed t)" t] by (simp only: trimmed_prefix)
    with t(2) show ?thesis by auto
  qed
  show ?thesis
  proof (cases "k < 4095")
    case True
    have "write_range (map Some (trimmed t @ [CHR ''\<newline>'']) @ drop 1 r) (int (k - 1) + 2) [Some (CHR 0x00)]
      = Inr (map Some (trimmed t @ [CHR ''\<newline>'']) @ [Some (CHR 0x00)] @ drop 1 (drop 1 r))"
      by (subst write_range_append [OF idx(2)]) (use k lr True in \<open>simp_all add: k_def\<close>)
    then show ?thesis
      using trim nl True takeWhile_no_nul [OF no_nul, of "drop 1 (drop 1 r)"]
      by (simp add: k_def finish_line_def)
  next
    case False
    have "write_range (map Some (trimmed t @ [CHR ''\<newline>'']) @ drop 1 r) (int (k - 1) + 2) [Some (CHR 0x00)] = Inl Out_of_bounds"
      using k lr False by (simp add: write_range_def k_def)
    then show ?thesis using trim nl False by (simp add: k_def finish_line_def)
  qed
qed

lemma finish_line_outside: "length b = n \<Longrightarrow> n \<le> i \<Longrightarrow> finish_line b i = Inl Out_of_bounds"
  by (simp add: finish_line_def trim_offset.simps [of b i])

lemma log_line_fits:
  assumes "length (p @ m) < 4096" "CHR 0x00 \<notin> set (p @ m)" "trimmed (p @ m) \<noteq> []"
  shows "log_line p m =
    (if length (trimmed (p @ m)) < 4095 then Inr (Some (map Some (trimmed (p @ m) @ [CHR ''\<newline>'']))) else Inl Out_of_bounds)"
proof -
  define blank where "blank = replicate 4096 (None :: cell)"
  define ys where "ys = Some (CHR 0x00) # drop (length p + 1) blank"
  have lb: "length blank = 4096" by (simp add: blank_def)
  have "int (length p) < 4096" "(4096 :: int) = int (length blank)" using assms(1) lb by simp_all
  from snprintf_fits [of 0 "[]", OF _ this]
  have first: "snprintf blank 0 4096 p = Inr (map Some p @ ys, int (length p))" by (simp add: ys_def)
  have "length ys = 4096 - length p" using lb assms(1) by (simp add: ys_def)
  then have "int (length m) < 4096 - int (length p)" "4096 - int (length p) = int (length ys)"
    using assms(1) by simp_all
  from snprintf_fits [of _ "map Some p", OF _ this]
  have second: "snprintf (map Some p @ ys) (int (length p)) (4096 - int (length p)) m
      = Inr (map Some (p @ m) @ Some (CHR 0x00) # drop (length m + 1) ys, int (length m))" by simp
  have len: "length (p @ m) + length (drop (length m + 1) ys) + 1 = 4096" using assms(1) lb by (simp add: ys_def)
  have "nat (int (length p) + int (length m)) = length (p @ m)" by simp
  then show ?thesis
    using first second terminate_line [OF assms(3,2) len] by (simp add: log_line_def blank_def)
qed

lemma log_line_overflows:
  assumes "4096 \<le> length (p @ m)"
  shows "log_line p m = Inl Out_of_bounds"
proof -
  define blank where "blank = replicate 4096 (None :: cell)"
  have lb: "length blank = 4096" by (simp add: blank_def)
  have outside: "finish_line b (nat (int (length p) + int (length m))) = Inl Out_of_bounds" if "length b = 4096" for b
    by (rule finish_line_outside [OF that]) (use assms in simp)
  consider "length p < 4096" | "length p = 4096" | "4096 < length p" by linarith
  then show ?thesis
  proof cases
    case 1
    obtain b where b: "snprintf blank 0 4096 p = Inr (b, int (length p))" "length b = 4096"
      using 1 lb by (auto simp: snprintf_def write_range_def)
    moreover obtain b' where "snprintf b (int (length p)) (4096 - int (length p)) m = Inr (b', int (length m))" "length b' = 4096"
      using 1 b(2) assms by (auto simp: snprintf_def write_range_def)
    ultimately show ?thesis using outside by (simp add: log_line_def blank_def)
  next
    case 2
    obtain b where b: "snprintf blank 0 4096 p = Inr (b, int (length p))" "length b = 4096"
      using 2 lb by (auto simp: snprintf_def write_range_def)
    then have "snprintf b (int (length p)) (4096 - int (length p)) m = Inr (b, int (length m))"
      using 2 by (simp add: snprintf_def write_range_def)
    with b outside [of b] show ?thesis by (simp add: log_line_def blank_def)
  next
    case 3
    obtain b where b: "snprintf blank 0 4096 p = Inr (b, int (length p))" "length b = 4096"
      using 3 lb by (auto simp: snprintf_def write_range_def)
    then have "snprintf b (int (length p)) (4096 - int (length p)) m = Inl Out_of_bounds"
      using 3 by (simp add: snprintf_def write_range_def)
    with b show ?thesis by (simp add: log_line_def blank_def)
  qed
qed

lemma log_of_text:
  assumes "t = log_prefix l time file line func @ m" "CHR 0x00 \<notin> set t"
  shows "Logger_log lv l time file line func m =
    (if level_number l < level_number lv then Inr None
     else if length t < 4096 \<and> length (trimmed t) < 4095
       then Inr (Some (map Some (trimmed t @ [CHR ''\<newline>'']))) else Inl Out_of_bounds)"
proof -
  define p where "p = log_prefix l time file line func"
  obtain r where "p = CHR ''['' # r" using log_prefix_start p_def by blast
  with assms(1) have "t = CHR ''['' # (r @ m)" by (simp only: p_def append_Cons)
  then have ne: "trimmed t \<noteq> []" by (intro trimmed_nonempty exI)
  have t: "t = p @ m" using assms(1) by (simp add: p_def)
  show ?thesis
  proof (cases "length t < 4096")
    case True
    with log_line_fits [of p m] ne assms(2) show ?thesis by (simp add: Logger_log_def p_def [symmetric] t)
  next
    case False
    with log_line_overflows [of p m] show ?thesis by (simp add: Logger_log_def p_def [symmetric] t)
  qed
qed

text \<open>\<^verbatim>\<open>fatal\<close> is above every level: its line is written, whatever the level, and the program ends.\<close>

lemma log_fatal_ends:
  assumes "t = log_prefix FATAL time file line func @ m" "CHR 0x00 \<notin> set t" "length t < 4095"
  shows "log_fatal (Logger_setLevel lv (l, time, file, line, func)) m = Inr (Exits 1 (Some (map Some (trimmed t @ [CHR ''\<newline>'']))))"
proof -
  have "length (trimmed t) \<le> length t" by (simp add: length_trimmed)
  moreover have "\<not> level_number FATAL < level_number lv" by (cases lv) (simp_all add: level_number_def)
  ultimately show ?thesis
    using log_of_text [OF assms(1,2), of lv] assms(3) by (simp add: log_fatal_def log_at_def Logger_setLevel_def)
qed

section \<open>Properties\<close>

text \<open>C37. The logger. Below its level nothing is written. Otherwise the prefix and the message come out
  without their trailing newlines and with exactly one, provided that they fit: the whole text in 4095
  characters and what is left without the newlines in 4094. A longer message is cut by \<^verbatim>\<open>vsnprintf\<close>, but
  its full length is added to the offset, and the buffer of 4096 bytes is accessed outside.\<close>

theorem Logger_log_bounds:
  assumes "t = log_prefix l time file line func @ m" "CHR 0x00 \<notin> set t"
  shows "Logger_log lv l time file line func m =
    (if level_number l < level_number lv then Inr None
     else if length t < 4096 \<and> length (trimmed t) < 4095
       then Inr (Some (map Some (trimmed t @ [CHR ''\<newline>'']))) else Inl Out_of_bounds)"
  by (rule log_of_text [OF assms])

lemma Logger_log_bounds_witness:
  "\<exists>t. Logger_log INFO WARN ''T'' ''F'' 7 ''f'' ''x\<newline>\<newline>'' = Inr (Some (map Some (t @ [CHR ''\<newline>''])))
     \<and> t = ''[WARN] [T]: F: 7 f x''"
proof -
  have t: "log_prefix WARN ''T'' ''F'' 7 ''f'' @ ''x\<newline>\<newline>'' = ''[WARN] [T]: F: 7 f x\<newline>\<newline>''" by code_simp
  have "trimmed ''[WARN] [T]: F: 7 f x\<newline>\<newline>'' = ''[WARN] [T]: F: 7 f x''" by code_simp
  then show ?thesis
    using Logger_log_bounds [OF t [symmetric], of INFO] by (simp add: level_number_def)
qed

text \<open>C38. The trie. Writing any list of elements under printable keys into a new trie leaves the last
  element written under each key: \<^verbatim>\<open>find\<close> holds exactly for the keys written, \<^verbatim>\<open>operator[]\<close> gives the element,
  or a new one. A key with any other character ends the program.\<close>

theorem Trie_holds_last_written:
  assumes "\<forall>k \<in> fst ` set kvs. \<forall>c \<in> set k. printing c" "\<forall>c \<in> set s. printing c"
  shows "\<exists>t. ins_all Trie_insert (map (\<lambda>(k, x). (Some k, x)) kvs) Trie_new = Inr t
    \<and> Trie_find (Some s) t = Inr (s \<in> fst ` set kvs)
    \<and> (\<exists>t'. Trie_index d (Some s) t = Inr (case map_of (rev kvs) s of None \<Rightarrow> d | Some x \<Rightarrow> x, t'))
    \<and> (\<not> printing c \<and> c \<noteq> CHR 0x00 \<longrightarrow> Trie_insert (Some (s @ c # r)) x t = Inl Terminate)"
proof -
  let ?kvs = "map (\<lambda>(k, x). (Some k, x)) kvs"
  have good: "\<forall>k \<in> fst ` set ?kvs. key_ok k" using assms(1) by (auto simp: key_ok_def)
  have ks: "key_ok (Some s)" using assms(2) by (simp add: key_ok_def)
  have empty: "key_map Trie_new = Map.empty" by (auto simp: key_map_def split: option.split)
  have mem: "(Some s \<in> fst ` set ?kvs) = (s \<in> fst ` set kvs)" by force
  have val: "map_of (rev ?kvs) (Some s) = map_of (rev kvs) s" by (simp add: rev_map map_of_Some_keys)
  obtain t where t: "ins_all Trie_insert ?kvs Trie_new = Inr t" "trie_ok t"
    using trie.ins_all_law [OF trie_ok_new good] by blast
  have "Trie_insert (Some (s @ c # r)) x t = Inl Terminate" if "\<not> printing c" "c \<noteq> CHR 0x00"
  proof -
    have "c_string (s @ c # r) = s @ c # takeWhile (\<lambda>c. c \<noteq> CHR 0x00) r"
    proof -
      have "\<forall>y \<in> set s. y \<noteq> CHR 0x00" using assms(2) by (auto simp: printing_def char_int_def)
      then show ?thesis using that by (simp add: c_string_def takeWhile_append2)
    qed
    then show ?thesis using trie_walk_unprintable [OF t(2) assms(2) that(1)] by (simp add: Trie_insert_def)
  qed
  with trie.last_write_law [OF trie_ok_new good ks empty, of d] t show ?thesis
    unfolding mem val by auto
qed

lemma Trie_holds_last_written_witness:
  "\<exists>t. ins_all Trie_insert [(Some ''GET'', 1), (Some ''G'', 2), (Some ''GET'', 3 :: nat)] Trie_new = Inr t
     \<and> Trie_find (Some ''GE'') t = Inr False"
proof -
  have "\<forall>c \<in> set ''GET''. printing c" by (simp add: printing_def char_int_def)
  then show ?thesis
    using Trie_holds_last_written [of "[(''GET'', 1), (''G'', 2), (''GET'', 3 :: nat)]" "''GE''" 0 "CHR ''a''" "[]" 0] by auto
qed

text \<open>Signal handlers. For a signal that can be caught, \<^verbatim>\<open>signal\<close> makes its handler run, and \<^verbatim>\<open>reset\<close> puts the
  disposition back that was there before the first. But after a second \<^verbatim>\<open>signal\<close> for the same signal the
  stored disposition is the library's own function: \<^verbatim>\<open>reset\<close> leaves it installed without a functor, and
  the next signal throws \<^verbatim>\<open>std::bad_function_call\<close>.\<close>

theorem Signal_reset_restores:
  assumes "settable n" "stored_funcs g n = None" "dispositions g n \<noteq> SigErr"
  shows "signal_handler n (Signal_signal settable n (Some h) g) = Inr h
    \<and> dispositions (Signal_signal settable n (Some h) g) n = SignalHandler
    \<and> dispositions (Signal_reset settable n (Signal_signal settable n (Some h) g)) = dispositions g
    \<and> (let g2 = Signal_reset settable n (Signal_signal settable n (Some h') (Signal_signal settable n (Some h) g))
        in dispositions g2 n = SignalHandler \<and> signal_handler n g2 = Inl (Thrown ''std::bad_function_call''))"
  using assms
  by (auto simp: Signal_signal_def Signal_reset_def kernel_signal_def signal_handler_def Let_def)

lemma Signal_reset_restores_witness:
  "signal_handler 13 (Signal_reset (\<lambda>n. n \<noteq> 9) 13 (Signal_signal (\<lambda>n. n \<noteq> 9) 13 (Some (1::nat))
     (Signal_signal (\<lambda>n. n \<noteq> 9) 13 (Some 2)
       \<lparr>functors = Map.empty, stored_funcs = Map.empty, dispositions = \<lambda>_. SigDefault\<rparr>)))
   = Inl (Thrown ''std::bad_function_call'')"
  using Signal_reset_restores [of "\<lambda>n. n \<noteq> 9" 13
      "\<lparr>functors = Map.empty, stored_funcs = Map.empty, dispositions = \<lambda>_. SigDefault\<rparr>" "2::nat" 1]
  by (simp add: Let_def)

end
