(* ===== verification/Loop_Groups.thy ===== *)
theory Loop_Groups
  imports Tcp Udp Event_Queue
begin

text \<open>
  \<^verbatim>\<open>Resolver\<close> and the functions of \<^verbatim>\<open>EventLoopGroup\<close> (\<^verbatim>\<open>src/src/\<close>) that turn a host and a service into a
  listening server or a connecting client. \<^verbatim>\<open>getaddrinfo\<close> is the argument \<open>gai\<close>, the kernel's answers the
  record of \<open>Sockets\<close>.
\<close>

section \<open>Resolver\<close>

text \<open>
  What \<^verbatim>\<open>getaddrinfo\<close> finds: an address of \<^verbatim>\<open>AF_INET\<close>, a port and an address, or of \<^verbatim>\<open>AF_INET6\<close>, a port, a
  flow label and an address, in the order in which their structures hold them. The source asks for no
  family and reads both as \<^verbatim>\<open>sockaddr_in\<close>.
\<close>

datatype addrinfo = Inet "16 word" "32 word" | Inet6 "16 word" "32 word" "128 word"

fun as_sockaddr_in :: "addrinfo \<Rightarrow> 16 word \<times> 32 word" where
  "as_sockaddr_in (Inet port addr) = (port, addr)"
| "as_sockaddr_in (Inet6 port flow addr) = (port, flow)"

definition Endpoint_of_addrinfo :: "addrinfo \<Rightarrow> endpoint" where
  "Endpoint_of_addrinfo a = (let (port, addr) = as_sockaddr_in a in Endpoint addr port)"

type_synonym getaddrinfo = "string \<Rightarrow> string \<Rightarrow> addrinfo list option"

definition Resolver_resolve :: "getaddrinfo \<Rightarrow> string \<Rightarrow> string \<Rightarrow> endpoint list" where
  "Resolver_resolve gai host service =
     (case gai host service of None \<Rightarrow> [] | Some as \<Rightarrow> map Endpoint_of_addrinfo as)"

text \<open>
  The thread that resolves: it tests its flag, waits for a request, answers it through the loop of
  the thread that asked. A request without a handler only wakes it up. \<open>rt_posted\<close> are the answers
  handed to loops.
\<close>

type_synonym 'h request = "string \<times> string \<times> nat option \<times> 'h option"

datatype rt_pc = Testing | Popping | Stopped

record 'h resolver_thread =
  keep_running :: bool
  rt_requests :: "'h request blocking_queue"
  rt_pc :: rt_pc
  rt_posted :: "(nat \<times> endpoint list \<times> 'h) list"

definition ResolverThread_new :: "'h resolver_thread" where
  "ResolverThread_new =
     \<lparr>keep_running = True, rt_requests = BlockingQueue_new [], rt_pc = Testing, rt_posted = []\<rparr>"

definition ResolverThread_resolve :: "'h request \<Rightarrow> 'h resolver_thread \<Rightarrow> 'h resolver_thread" where
  "ResolverThread_resolve r rt = rt\<lparr>rt_requests := BlockingQueue_push_notify r (rt_requests rt)\<rparr>"

definition ResolverThread_stop :: "'h resolver_thread \<Rightarrow> 'h resolver_thread" where
  "ResolverThread_stop rt = ResolverThread_resolve ([], [], None, None) (rt\<lparr>keep_running := False\<rparr>)"

definition ResolverThread_answer :: "getaddrinfo \<Rightarrow> 'h request \<Rightarrow> (nat \<times> endpoint list \<times> 'h) list res" where
  "ResolverThread_answer gai r =
     (let (name, port, loop, h) = r in
      case h of None \<Rightarrow> Inr []
      | Some h \<Rightarrow>
          (case loop of None \<Rightarrow> Inl Null_deref | Some l \<Rightarrow> Inr [(l, Resolver_resolve gai name port, h)]))"

text \<open>One step of \<^verbatim>\<open>ResolverThread::func\<close>; an empty queue keeps it where it is.\<close>

definition ResolverThread_step :: "getaddrinfo \<Rightarrow> 'h resolver_thread \<Rightarrow> 'h resolver_thread res" where
  "ResolverThread_step gai rt =
     (case rt_pc rt of
        Testing \<Rightarrow> Inr (rt\<lparr>rt_pc := (if keep_running rt then Popping else Stopped)\<rparr>)
      | Popping \<Rightarrow>
          (if BlockingQueue_empty (rt_requests rt) then Inr rt
           else
             bind_res (BlockingQueue_pop_front (rt_requests rt)) (\<lambda>(r, q).
             bind_res (ResolverThread_answer gai r) (\<lambda>as.
             Inr (rt\<lparr>rt_requests := q, rt_pc := Testing, rt_posted := rt_posted rt @ as\<rparr>))))
      | Stopped \<Rightarrow> Inr rt)"

datatype 'h rt_event = Ask "'h request" | Stop | Work

fun rt_run :: "getaddrinfo \<Rightarrow> 'h rt_event list \<Rightarrow> 'h resolver_thread \<Rightarrow> 'h resolver_thread res" where
  "rt_run gai [] rt = Inr rt"
| "rt_run gai (Ask r # es) rt = rt_run gai es (ResolverThread_resolve r rt)"
| "rt_run gai (Stop # es) rt = rt_run gai es (ResolverThread_stop rt)"
| "rt_run gai (Work # es) rt = bind_res (ResolverThread_step gai rt) (rt_run gai es)"

section \<open>Making servers and clients\<close>

text \<open>\<open>Unavailable\<close> is \<^verbatim>\<open>nullptr\<close>, \<open>Exited\<close> the end of the program by \<^verbatim>\<open>fatal\<close>.\<close>

datatype 'a created = Unavailable | Exited string | Created 'a

definition EventLoopGroup_creatTcpServer ::
    "getaddrinfo \<Rightarrow> kernel \<Rightarrow> string \<Rightarrow> string \<Rightarrow> tcp_server created res" where
  "EventLoopGroup_creatTcpServer gai k host service =
     (case Resolver_resolve gai host service of
        [] \<Rightarrow> Inr Unavailable
      | ep # _ \<Rightarrow>
          bind_res (Socket_of_endpoint (k_socket k) ep False) (\<lambda>s.
          case Socket_listen k s of
            Inl (Thrown msg) \<Rightarrow> Inr (Exited msg)
          | Inl e \<Rightarrow> Inl e
          | Inr s \<Rightarrow>
              bind_res (TcpServer_start (TcpServer_setServerSocket s TcpServer_new)) (\<lambda>srv. Inr (Created srv))))"

text \<open>
  The answer of the resolver to \<^verbatim>\<open>creatTcpClient\<close>, which the loop \<open>here\<close> runs: nothing happens when the
  client is gone or no address was found. Otherwise the client is started here when its loop is \<open>here\<close>,
  and else the start is posted to its loop, which is then part of the result.
\<close>

definition EventLoopGroup_connectTcpClient ::
    "kernel \<Rightarrow> loop_group \<Rightarrow> nat \<Rightarrow> endpoint list \<Rightarrow> tcp_client option \<Rightarrow> (tcp_client \<times> nat option) option res" where
  "EventLoopGroup_connectTcpClient k g here eps cl =
     (case (cl, eps) of
        (Some t, ep # _) \<Rightarrow>
          bind_res (Socket_of_endpoint (k_socket k) ep False) (\<lambda>s.
          bind_res (Socket_connect k s) (\<lambda>s.
          bind_res (EventLoopGroup_robinLoop1 (sock_fd s) g) (\<lambda>l.
          let t = TcpClient_setSocket (TcpClient_setEventLoop t)
          in if l = here then bind_res (TcpClient_start t) (\<lambda>t. Inr (Some (t, None))) else Inr (Some (t, Some l)))))
      | _ \<Rightarrow> Inr None)"

definition EventLoopGroup_creatUdpServer ::
    "getaddrinfo \<Rightarrow> kernel \<Rightarrow> string \<Rightarrow> string \<Rightarrow> ('h udp_socket \<times> socket) created res" where
  "EventLoopGroup_creatUdpServer gai k host service =
     (case Resolver_resolve gai host service of
        [] \<Rightarrow> Inr Unavailable
      | ep # _ \<Rightarrow>
          bind_res (Socket_of_endpoint (k_socket k) ep True) (\<lambda>s.
          bind_res (Socket_listen k s) (\<lambda>s.
          bind_res (UdpSocket_start UdpSocket_new) (\<lambda>u. Inr (Created (u, s))))))"

definition EventLoopGroup_creatUdpClient ::
    "kernel \<Rightarrow> loop_group \<Rightarrow> ('h udp_socket \<times> socket \<times> nat) res" where
  "EventLoopGroup_creatUdpClient k g =
     bind_res (Socket_new (k_socket k) True) (\<lambda>s.
     bind_res (Socket_setNoblock (k_fcntl k (sock_fd s)) s) (\<lambda>s.
     bind_res (EventLoopGroup_robinLoop1 (sock_fd s) g) (\<lambda>l. Inr (UdpSocket_new, s, l))))"

text \<open>The answer of the resolver to \<^verbatim>\<open>creatUdpClient\<close> with a host and a service.\<close>

definition EventLoopGroup_connectUdpClient ::
    "'h ubehaviour \<Rightarrow> endpoint list \<Rightarrow> 'h udp_socket option \<Rightarrow> 'h udp_socket option res" where
  "EventLoopGroup_connectUdpClient beh eps us =
     (case (us, eps) of
        (Some u, ep # _) \<Rightarrow>
          bind_res (UdpSocket_start u) (\<lambda>u.
          bind_res (UdpSocket_handleConnectEvent beh ep u) (\<lambda>u. Inr (Some u)))
      | _ \<Rightarrow> Inr None)"

section \<open>Lemmas\<close>

definition asked :: "'h rt_event list \<Rightarrow> 'h request list" where
  "asked es = concat (map (\<lambda>e. case e of Ask r \<Rightarrow> [r] | Stop \<Rightarrow> [([], [], None, None)] | Work \<Rightarrow> []) es)"

definition answers :: "getaddrinfo \<Rightarrow> 'h request list \<Rightarrow> (nat \<times> endpoint list \<times> 'h) list" where
  "answers gai rs = concat (map (\<lambda>r. case ResolverThread_answer gai r of Inr as \<Rightarrow> as | Inl _ \<Rightarrow> []) rs)"

text \<open>\<open>taken\<close> are the requests the thread has taken.\<close>

definition rt_inv :: "getaddrinfo \<Rightarrow> 'h request list \<Rightarrow> 'h resolver_thread \<Rightarrow> bool" where
  "rt_inv gai sub rt \<longleftrightarrow>
     (\<exists>taken. taken @ bq_queue (rt_requests rt) = sub \<and> rt_posted rt = answers gai taken)
     \<and> (\<not> keep_running rt \<and> rt_pc rt = Popping \<longrightarrow> bq_queue (rt_requests rt) \<noteq> [])
     \<and> (rt_pc rt = Stopped \<longrightarrow> \<not> keep_running rt)"

lemma push_notify_queue [simp]: "bq_queue (BlockingQueue_push_notify x b) = bq_queue b @ [x]"
  by (simp add: bq_defs)

lemma rt_step_inv:
  assumes "rt_inv gai sub rt" "ResolverThread_step gai rt = Inr rt'"
  shows "rt_inv gai sub rt'"
proof (cases "rt_pc rt")
  case Popping
  show ?thesis
  proof (cases "bq_queue (rt_requests rt)")
    case Nil
    with assms Popping show ?thesis by (simp add: ResolverThread_step_def bq_defs)
  next
    case (Cons r rs)
    with assms(2) Popping obtain as where as: "ResolverThread_answer gai r = Inr as"
      and rt': "rt' = rt\<lparr>rt_requests := (rt_requests rt)\<lparr>bq_queue := rs\<rparr>, rt_pc := Testing, rt_posted := rt_posted rt @ as\<rparr>"
      by (auto simp: ResolverThread_step_def bq_defs bind_res_Inr_iff)
    from assms(1) Cons obtain taken where "taken @ r # rs = sub" "rt_posted rt = answers gai taken"
      by (auto simp: rt_inv_def)
    then have "(taken @ [r]) @ rs = sub" "rt_posted rt @ as = answers gai (taken @ [r])"
      using as by (simp_all add: answers_def)
    then show ?thesis unfolding rt_inv_def rt' by (intro conjI exI [of _ "taken @ [r]"]) simp_all
  qed
qed (use assms in \<open>auto simp: ResolverThread_step_def rt_inv_def\<close>)

lemma rt_ask_inv: "rt_inv gai sub rt \<Longrightarrow> rt_inv gai (sub @ [r]) (ResolverThread_resolve r rt)"
  by (auto simp: rt_inv_def ResolverThread_resolve_def)

lemma rt_stop_inv: "rt_inv gai sub rt \<Longrightarrow> rt_inv gai (sub @ [([], [], None, None)]) (ResolverThread_stop rt)"
  by (auto simp: rt_inv_def ResolverThread_stop_def ResolverThread_resolve_def)

lemma rt_run_inv: "rt_inv gai sub rt \<Longrightarrow> rt_run gai es rt = Inr rt' \<Longrightarrow> rt_inv gai (sub @ asked es) rt'"
proof (induction gai es rt arbitrary: sub rule: rt_run.induct)
  case (1 gai rt)
  then show ?case by (simp add: asked_def)
next
  case (2 gai r es rt)
  from "2.IH" [OF rt_ask_inv [OF "2.prems"(1)]] "2.prems"(2) show ?case by (simp add: asked_def)
next
  case (3 gai es rt)
  from "3.IH" [OF rt_stop_inv [OF "3.prems"(1)]] "3.prems"(2) show ?case by (simp add: asked_def)
next
  case (4 gai es rt)
  from "4.prems"(2) obtain rt1 where "ResolverThread_step gai rt = Inr rt1" "rt_run gai es rt1 = Inr rt'"
    by (auto simp: bind_res_Inr_iff)
  with "4.IH" [OF _ rt_step_inv [OF "4.prems"(1)]] show ?case by (simp add: asked_def)
qed

lemma rt_stops:
  assumes "rt_inv gai sub rt" "\<not> keep_running rt" "ResolverThread_step gai rt = Inr rt1" "ResolverThread_step gai rt1 = Inr rt2"
  shows "rt_pc rt2 = Stopped"
proof (cases "rt_pc rt")
  case Popping
  with assms(1,2) have "bq_queue (rt_requests rt) \<noteq> []" by (simp add: rt_inv_def)
  with Popping assms(2,3) have "rt_pc rt1 = Testing \<and> \<not> keep_running rt1"
    by (auto simp: ResolverThread_step_def bq_defs bind_res_Inr_iff split: list.splits)
  with assms(4) show ?thesis by (auto simp: ResolverThread_step_def)
qed (use assms in \<open>auto simp: ResolverThread_step_def\<close>)

lemma listen_ok:
  assumes "k_fcntl k fd = Inr ()" "k_setsockopt k fd = Inr ()" "sock_fp s" "sock_fd s = fd"
  shows "Socket_listen k s =
    bind_res (or_throw (k_bind k fd (sock_ep s))) (\<lambda>_.
    if isUdp s then Inr s else bind_res (or_throw (k_listen k fd)) (\<lambda>_. Inr s))"
  using assms by (simp add: Socket_listen_def Socket_setNoblock_def)

lemma socket_of_endpoint_ok:
  assumes "0 \<le> fd"
  shows "Socket_of_endpoint (Inr fd) ep udp = Inr \<lparr>isUdp = udp, sock_fd = fd, sock_fp = True, sock_ep = ep\<rparr>"
  using assms by (simp add: Socket_of_endpoint_def Socket_createSocket_def FileDescriptor_def)

section \<open>Properties\<close>

text \<open>The resolver thread. Whatever requests, stops and steps of the thread interleave, the requests it has
  taken and those still queued are the requests made, in order, and each one taken that has a handler
  has been answered once, in order, with the endpoints found or none. Once it has been told to stop,
  it has ended after two more of its own steps; the requests it has not taken are dropped.\<close>

theorem Resolver_answers_in_order:
  assumes "rt_run gai es ResolverThread_new = Inr rt"
  shows "(\<exists>taken. taken @ bq_queue (rt_requests rt) = asked es \<and> rt_posted rt = answers gai taken)
    \<and> (\<forall>rt'. \<not> keep_running rt \<and> rt_run gai [Work, Work] rt = Inr rt' \<longrightarrow> rt_pc rt' = Stopped)"
proof -
  have "rt_inv gai [] ResolverThread_new"
    by (simp add: rt_inv_def ResolverThread_new_def BlockingQueue_new_def answers_def)
  from rt_run_inv [OF this assms] have inv: "rt_inv gai (asked es) rt" by simp
  have "rt_pc rt' = Stopped" if "\<not> keep_running rt" "rt_run gai [Work, Work] rt = Inr rt'" for rt'
    using that(2) rt_stops [OF inv that(1)] by (auto simp: bind_res_Inr_iff)
  with inv show ?thesis by (auto simp: rt_inv_def)
qed

definition sample_gai :: getaddrinfo where
  "sample_gai host service =
     (if host = ''localhost'' then Some [Inet 0x901F 0x0100007F, Inet6 0x901F 0 1] else None)"

lemma Resolver_answers_in_order_witness:
  "\<exists>rt. rt_run sample_gai [Ask (''localhost'', ''8080'', Some 0, Some (7::nat)), Work, Stop, Work] ResolverThread_new = Inr rt
     \<and> rt_posted rt = [(0, [Endpoint 0x0100007F 0x901F, Endpoint 0 0x901F], 7)]
     \<and> (\<forall>rt'. rt_run sample_gai [Work, Work] rt = Inr rt' \<longrightarrow> rt_pc rt' = Stopped)"
proof -
  let ?es = "[Ask (''localhost'', ''8080'', Some 0, Some (7::nat)), Work, Stop, Work]"
  have "case rt_run sample_gai ?es ResolverThread_new of
      Inr rt \<Rightarrow> \<not> keep_running rt \<and> rt_posted rt = [(0, [Endpoint 0x0100007F 0x901F, Endpoint 0 0x901F], 7)]
    | _ \<Rightarrow> False"
    by (simp add: ResolverThread_new_def ResolverThread_resolve_def ResolverThread_stop_def ResolverThread_step_def
        ResolverThread_answer_def Resolver_resolve_def sample_gai_def Endpoint_of_addrinfo_def bq_defs)
  then obtain rt where rt: "rt_run sample_gai ?es ResolverThread_new = Inr rt" "\<not> keep_running rt"
    "rt_posted rt = [(0, [Endpoint 0x0100007F 0x901F, Endpoint 0 0x901F], 7)]"
    by (auto split: sum.splits)
  with Resolver_answers_in_order [OF rt(1)] show ?thesis by blast
qed

text \<open>A server from a name. When the name has an address and the kernel agrees to every call,
  \<^verbatim>\<open>creatTcpServer\<close> gives a server that listens on a socket bound to the first address found, and an
  accept event on it serves the waiting connections one after the other, on the loops of their
  descriptors, until the kernel has no more.\<close>

theorem EventLoopGroup_creatTcpServer_serves:
  assumes "gai host service = Some (a # as)" "k_socket k = Inr fd" "0 \<le> fd" "k_fcntl k fd = Inr ()"
    "k_setsockopt k fd = Inr ()" "k_bind k fd (Endpoint_of_addrinfo a) = Inr ()" "k_listen k fd = Inr ()"
  shows "\<exists>srv. EventLoopGroup_creatTcpServer gai k host service = Inr (Created srv)
    \<and> listening srv \<and> listenfd srv = fd
    \<and> srv_socket srv = Some \<lparr>isUdp = False, sock_fd = fd, sock_fp = True, sock_ep = Endpoint_of_addrinfo a\<rparr>
    \<and> (\<forall>g ans m. group_ok g \<and> answers_ok ans \<and> (\<forall>j < m. ans j \<noteq> Inl EAGAIN) \<and> ans m = Inl EAGAIN \<longrightarrow>
        TcpServer_handleAcceptEvent g ans srv = Some (Inr (foldl (take_answer g) srv (map ans [0..<m]), m + 1)))"
proof -
  define s where "s = \<lparr>isUdp = False, sock_fd = fd, sock_fp = True, sock_ep = Endpoint_of_addrinfo a\<rparr>"
  define srv where "srv = TcpServer_new\<lparr>srv_socket := Some s, listenfd := fd, listening := True\<rparr>"
  have "EventLoopGroup_creatTcpServer gai k host service = Inr (Created srv)"
    using assms listen_ok [OF assms(4,5), of s] socket_of_endpoint_ok [OF assms(3)]
    by (simp add: EventLoopGroup_creatTcpServer_def Resolver_resolve_def s_def srv_def TcpServer_start_def
        TcpServer_setServerSocket_def)
  moreover have "TcpServer_handleAcceptEvent g ans srv = Some (Inr (foldl (take_answer g) srv (map ans [0..<m]), m + 1))"
    if "group_ok g" "answers_ok ans" "\<forall>j < m. ans j \<noteq> Inl EAGAIN" "ans m = Inl EAGAIN" for g ans m
    using accept_loop_steps [OF that(1) _ that(2), of s m 0 srv] accept_loop_stop [of s ans m g] that(3,4) assms(3)
    by (simp add: TcpServer_handleAcceptEvent_def srv_def s_def)
  moreover have "listening srv \<and> listenfd srv = fd \<and> srv_socket srv = Some s" by (simp add: srv_def)
  ultimately show ?thesis unfolding s_def by blast
qed

definition willing :: kernel where
  "willing = \<lparr>k_socket = Inr 5, k_fcntl = \<lambda>_. Inr (), k_connect = \<lambda>_ _. Inl EINPROGRESS,
     k_setsockopt = \<lambda>_. Inr (), k_bind = \<lambda>_ _. Inr (), k_listen = \<lambda>_. Inr ()\<rparr>"

lemma EventLoopGroup_creatTcpServer_serves_witness:
  "\<exists>srv. EventLoopGroup_creatTcpServer sample_gai willing ''localhost'' ''8080'' = Inr (Created srv)
     \<and> listening srv \<and> listenfd srv = 5"
  using EventLoopGroup_creatTcpServer_serves [of sample_gai "''localhost''" "''8080''" "Inet 0x901F 0x0100007F"
      "[Inet6 0x901F 0 1]" willing 5]
  by (auto simp: sample_gai_def willing_def)

text \<open>What does not work. A name without an address gives \<^verbatim>\<open>nullptr\<close>, but a client for it is never told;
  a refused \<^verbatim>\<open>bind\<close> ends the program for a TCP server and throws for a UDP server; a connection that
  is refused at once throws out of the event loop; and of an IPv6 address the flow label is taken for
  the address.\<close>

theorem EventLoopGroup_creation_errors:
  "(Resolver_resolve gai host service = [] \<longrightarrow>
      EventLoopGroup_creatTcpServer gai k host service = Inr Unavailable
      \<and> EventLoopGroup_creatUdpServer gai k host service = Inr Unavailable
      \<and> EventLoopGroup_connectTcpClient k g here (Resolver_resolve gai host service) (Some t) = Inr None)
   \<and> (Resolver_resolve gai host service = ep # eps \<and> k_socket k = Inr fd \<and> 0 \<le> fd \<and> k_fcntl k fd = Inr ()
      \<and> k_setsockopt k fd = Inr () \<and> k_bind k fd ep = Inl e \<longrightarrow>
        EventLoopGroup_creatTcpServer gai k host service = Inr (Exited (strerror e))
        \<and> EventLoopGroup_creatUdpServer gai k host service = Inl (Thrown (strerror e)))
   \<and> (k_socket k = Inr fd \<and> 0 \<le> fd \<and> k_fcntl k fd = Inr () \<and> k_connect k fd ep = Inl e \<and> e \<noteq> EINPROGRESS \<longrightarrow>
        EventLoopGroup_connectTcpClient k g here (ep # eps) (Some t) = Inl (Thrown (strerror e)))
   \<and> Endpoint_of_addrinfo (Inet6 port flow addr) = Endpoint flow port"
proof (intro conjI impI; (elim conjE)?)
  assume a: "Resolver_resolve gai host service = ep # eps" "k_socket k = Inr fd" "0 \<le> fd" "k_fcntl k fd = Inr ()"
    "k_setsockopt k fd = Inr ()" "k_bind k fd ep = Inl e"
  note l = listen_ok [OF a(4,5)] socket_of_endpoint_ok [OF a(3)]
  show "EventLoopGroup_creatTcpServer gai k host service = Inr (Exited (strerror e))"
    using a l by (simp add: EventLoopGroup_creatTcpServer_def)
  show "EventLoopGroup_creatUdpServer gai k host service = Inl (Thrown (strerror e))"
    using a l by (simp add: EventLoopGroup_creatUdpServer_def)
next
  assume a: "k_socket k = Inr fd" "0 \<le> fd" "k_fcntl k fd = Inr ()" "k_connect k fd ep = Inl e" "e \<noteq> EINPROGRESS"
  show "EventLoopGroup_connectTcpClient k g here (ep # eps) (Some t) = Inl (Thrown (strerror e))"
    using a socket_of_endpoint_ok [OF a(2)]
    by (simp add: EventLoopGroup_connectTcpClient_def Socket_connect_def Socket_setNoblock_def)
qed (simp_all add: EventLoopGroup_creatTcpServer_def EventLoopGroup_creatUdpServer_def
      EventLoopGroup_connectTcpClient_def Endpoint_of_addrinfo_def)

end
