(* ===== verification/Loop_Threads.thy ===== *)
theory Loop_Threads
  imports Event_Queue Tcp
begin

text \<open>
  The life of an \<^verbatim>\<open>EventLoop\<close> and of an \<^verbatim>\<open>EventLoopGroup\<close> (\<^verbatim>\<open>src/src/\<close>): the binding of loops and pollers
  to threads, the start of the threads, the rounds of each loop until the functor of the group says no,
  the wake-ups that tell the other loops, and the join. The threads interleave in any order.
\<close>

section \<open>Thread-local pointers\<close>

text \<open>A loop is its number, and its poller has the same number.\<close>

record thread_locals =
  th_loop :: "nat option"
  th_poller :: "nat option"

definition fresh_thread :: thread_locals where
  "fresh_thread = \<lparr>th_loop = None, th_poller = None\<rparr>"

definition Poller_bind_to_thread :: "nat \<Rightarrow> thread_locals \<Rightarrow> thread_locals res" where
  "Poller_bind_to_thread p t =
     (if th_poller t \<noteq> None then Inl (Thrown ''th_poller cannot be bound more than 1 time'')
      else Inr (t\<lparr>th_poller := Some p\<rparr>))"

definition Poller_curr_thread_poller :: "thread_locals \<Rightarrow> nat res" where
  "Poller_curr_thread_poller t = (case th_poller t of None \<Rightarrow> Inl Assertion | Some p \<Rightarrow> Inr p)"

definition EventLoop_curr_thread_loop :: "thread_locals \<Rightarrow> nat option" where
  "EventLoop_curr_thread_loop t = th_loop t"

definition EventLoop_bind_to_thread :: "nat \<Rightarrow> thread_locals \<Rightarrow> thread_locals res" where
  "EventLoop_bind_to_thread l t =
     bind_res (if th_loop t \<noteq> None then Inl (Thrown ''th_loop cannot be bound more than one time'')
               else Inr (t\<lparr>th_loop := Some l\<rparr>))
       (Poller_bind_to_thread l)"

text \<open>The mixin takes the timers of the loop that is bound where the object is made.\<close>

definition TimerMixin_new :: "thread_locals \<Rightarrow> nat option" where
  "TimerMixin_new t = EventLoop_curr_thread_loop t"

section \<open>One loop\<close>

datatype poller_kind = UsePoll | UseSelect | UseEpoll | UseKevent

record 'h event_loop =
  loop_poller :: poller_kind
  loop_queue :: "'h event_queue"
  timers_on :: bool
  robin_functor :: "(int \<Rightarrow> nat res) option"
  robin_functor1 :: "(int \<Rightarrow> nat res) option"

definition choose_poller :: "bool \<Rightarrow> string \<Rightarrow> poller_kind" where
  "choose_poller apple chooser =
     (if chooser = ''POLL'' then UsePoll
      else if chooser = ''SELECT'' then UseSelect
      else if apple then UseKevent else UseEpoll)"

definition EventLoop_new :: "bool \<Rightarrow> string \<Rightarrow> 'h event_loop" where
  "EventLoop_new apple chooser =
     \<lparr>loop_poller = choose_poller apple chooser, loop_queue = EventQueue_new, timers_on = False,
      robin_functor = None, robin_functor1 = None\<rparr>"

definition EventLoop_setRobinFunctor :: "(int \<Rightarrow> nat res) \<Rightarrow> 'h event_loop \<Rightarrow> 'h event_loop" where
  "EventLoop_setRobinFunctor rf l = l\<lparr>robin_functor := Some rf\<rparr>"

definition EventLoop_setRobinFunctor1 :: "(int \<Rightarrow> nat res) \<Rightarrow> 'h event_loop \<Rightarrow> 'h event_loop" where
  "EventLoop_setRobinFunctor1 rf l = l\<lparr>robin_functor1 := Some rf\<rparr>"

text \<open>An empty \<^verbatim>\<open>std::function\<close> throws when it is called.\<close>

definition EventLoop_robinLoop :: "int \<Rightarrow> 'h event_loop \<Rightarrow> nat res" where
  "EventLoop_robinLoop fd l =
     (case robin_functor l of None \<Rightarrow> Inl (Thrown ''bad_function_call'') | Some rf \<Rightarrow> rf fd)"

definition EventLoop_robinLoop1 :: "int \<Rightarrow> 'h event_loop \<Rightarrow> nat res" where
  "EventLoop_robinLoop1 fd l =
     (case robin_functor1 l of None \<Rightarrow> Inl (Thrown ''bad_function_call'') | Some rf \<Rightarrow> rf fd)"

definition TimerQueue_start :: "'h event_loop \<Rightarrow> 'h event_loop" where
  "TimerQueue_start l = l\<lparr>timers_on := True\<rparr>"

text \<open>What \<^verbatim>\<open>run\<close> does before its loop.\<close>

definition EventLoop_run_start :: "'h event_loop \<Rightarrow> 'h event_loop res" where
  "EventLoop_run_start l =
     bind_res (EventQueue_start (loop_queue l)) (\<lambda>q. Inr (TimerQueue_start (l\<lparr>loop_queue := q\<rparr>)))"

section \<open>The group\<close>

text \<open>
  Where a thread is. \<open>Spawning k\<close> is the main thread in the loop of \<^verbatim>\<open>run\<close>; \<open>Entering\<close> the beginning of
  \<^verbatim>\<open>worker_thread\<close>; \<open>Testing\<close> before the functor, \<open>Polling\<close> in the poller, \<open>Waking k\<close> in the last loop,
  \<open>Unwound\<close> after an exception has left \<^verbatim>\<open>run\<close> in the main thread.
\<close>

datatype worker_pc = Unborn | Spawning nat | Entering | Testing | Polling | Waking nat | Finished | Unwound

text \<open>\<open>keep\<close> is what the functor of the group answers when it is called.\<close>

record 'h group_sys =
  grp :: loop_group
  loops :: "'h event_loop list"
  tlocals :: "thread_locals list"
  pcs :: "worker_pc list"
  keep :: bool

text \<open>The state when the constructor has returned and \<^verbatim>\<open>run\<close> is called, in a thread with the given locals.\<close>

definition EventLoopGroup_start :: "bool \<Rightarrow> nat \<Rightarrow> string \<Rightarrow> thread_locals \<Rightarrow> 'h group_sys res" where
  "EventLoopGroup_start apple n chooser t =
     bind_res (EventLoopGroup_new (int n)) (\<lambda>g.
     bind_res (EventLoop_bind_to_thread 0 t) (\<lambda>t.
     Inr \<lparr>grp = g, loops = replicate (n + 1) (EventLoop_new apple chooser),
          tlocals = t # replicate n fresh_thread, pcs = Spawning 0 # replicate n Unborn, keep = True\<rparr>))"

definition group_n :: "'h group_sys \<Rightarrow> nat" where
  "group_n s = nat (gr_n (grp s))"

definition set_pc :: "nat \<Rightarrow> worker_pc \<Rightarrow> 'h group_sys \<Rightarrow> 'h group_sys" where
  "set_pc i p s = s\<lparr>pcs := (pcs s)[i := p]\<rparr>"

definition upd_loop :: "nat \<Rightarrow> ('h event_loop \<Rightarrow> 'h event_loop) \<Rightarrow> 'h group_sys \<Rightarrow> 'h group_sys" where
  "upd_loop i f s = s\<lparr>loops := (loops s)[i := f (loops s ! i)]\<rparr>"

text \<open>One step of the main thread in the loop that starts the others.\<close>

definition EventLoopGroup_run_spawn :: "nat \<Rightarrow> 'h group_sys \<Rightarrow> 'h group_sys" where
  "EventLoopGroup_run_spawn k s =
     (if k < group_n s then set_pc 0 (Spawning (k + 1)) (set_pc (k + 1) Entering s)
      else set_pc 0 Entering s)"

definition worker_enter :: "nat \<Rightarrow> 'h group_sys \<Rightarrow> 'h group_sys res" where
  "worker_enter i s =
     bind_res (check (i \<le> group_n s) Assertion) (\<lambda>_.
     bind_res (if EventLoop_curr_thread_loop (tlocals s ! i) = None
               then EventLoop_bind_to_thread i (tlocals s ! i) else Inr (tlocals s ! i)) (\<lambda>t.
     let l = EventLoop_setRobinFunctor1 (\<lambda>fd. EventLoopGroup_robinLoop1 fd (grp s))
               (EventLoop_setRobinFunctor (\<lambda>fd. EventLoopGroup_robinLoop fd (grp s)) (loops s ! i))
     in bind_res (EventLoop_run_start l) (\<lambda>l.
        Inr (set_pc i Testing (s\<lparr>tlocals := (tlocals s)[i := t], loops := (loops s)[i := l]\<rparr>)))))"

text \<open>\<^verbatim>\<open>loop->wakeup()\<close>, for any loop.\<close>

definition wake_loop :: "nat \<Rightarrow> 'h group_sys \<Rightarrow> 'h group_sys" where
  "wake_loop k = upd_loop k (\<lambda>l. l\<lparr>loop_queue := EventQueue_wakeup (loop_queue l)\<rparr>)"

text \<open>
  A step of thread \<open>i\<close>, \<open>None\<close> when it has nothing to do or waits. \<open>EventLoop_run_turn\<close> is the loop of
  \<^verbatim>\<open>EventLoop::run\<close>: the test of the functor and a round of the poller. In the poller the thread waits for
  its eventfd; the other channels are events of the environment.
\<close>

definition EventLoop_run_turn :: "nat \<Rightarrow> 'h group_sys \<Rightarrow> 'h group_sys res option" where
  "EventLoop_run_turn i s =
     (if pcs s ! i = Testing then Some (Inr (set_pc i (if keep s then Polling else Waking 0) s))
      else (case EventQueue_read (loop_queue (loops s ! i)) of
         (go, q) \<Rightarrow>
           if watched q \<and> go then Some (Inr (set_pc i Testing (upd_loop i (\<lambda>l. l\<lparr>loop_queue := q\<rparr>) s)))
           else None))"

definition worker_step :: "nat \<Rightarrow> 'h group_sys \<Rightarrow> 'h group_sys res option" where
  "worker_step i s =
     (case pcs s ! i of
        Unborn \<Rightarrow> None
      | Spawning k \<Rightarrow> Some (Inr (EventLoopGroup_run_spawn k s))
      | Entering \<Rightarrow> Some (worker_enter i s)
      | Testing \<Rightarrow> EventLoop_run_turn i s
      | Polling \<Rightarrow> EventLoop_run_turn i s
      | Waking k \<Rightarrow>
          Some (Inr (if k < length (ploops (grp s))
                     then set_pc i (Waking (k + 1)) (wake_loop (ploops (grp s) ! k) s)
                     else set_pc i Finished s))
      | Finished \<Rightarrow> None
      | Unwound \<Rightarrow> None)"

lemmas worker_step_defs = worker_step_def EventLoop_run_turn_def

text \<open>
  The environment: another channel or a timer ends the wait of a poller; any thread wakes a loop or posts
  a handler; the eventfd of a loop fails; a handler throws in the main thread; the functor changes its
  mind, and with \<open>stays\<close> never back to yes.
\<close>

inductive env_step :: "bool \<Rightarrow> 'h group_sys \<Rightarrow> 'h group_sys \<Rightarrow> bool" for stays where
  event: "i < length (pcs s) \<Longrightarrow> pcs s ! i = Polling \<Longrightarrow> env_step stays s (set_pc i Testing s)"
| wake: "i < length (loops s) \<Longrightarrow> env_step stays s (wake_loop i s)"
| post: "i < length (loops s) \<Longrightarrow>
    env_step stays s (upd_loop i (\<lambda>l. l\<lparr>loop_queue := EventQueue_pushHandler h (loop_queue l)\<rparr>) s)"
| error: "i < length (loops s) \<Longrightarrow> pcs s ! i = Polling \<Longrightarrow>
    env_step stays s (upd_loop i (\<lambda>l. l\<lparr>loop_queue := EventQueue_destroy (loop_queue l)\<rparr>) s)"
| throws: "pcs s ! 0 = Polling \<Longrightarrow> env_step stays s (set_pc 0 Unwound s)"
| answer: "stays \<longrightarrow> keep s \<or> \<not> b \<Longrightarrow> env_step stays s (s\<lparr>keep := b\<rparr>)"

text \<open>\<open>group_run stays k s s'\<close>: from \<open>s\<close> to \<open>s'\<close> with \<open>k\<close> steps of the threads.\<close>

inductive group_run :: "bool \<Rightarrow> nat \<Rightarrow> 'h group_sys \<Rightarrow> 'h group_sys \<Rightarrow> bool" for stays where
  refl: "group_run stays 0 s s"
| worker: "group_run stays k s t \<Longrightarrow> i < length (pcs t) \<Longrightarrow> worker_step i t = Some (Inr u) \<Longrightarrow>
    group_run stays (Suc k) s u"
| env: "group_run stays k s t \<Longrightarrow> env_step stays t u \<Longrightarrow> group_run stays k s u"

definition group_reach :: "bool \<Rightarrow> bool \<Rightarrow> nat \<Rightarrow> string \<Rightarrow> 'h group_sys \<Rightarrow> bool" where
  "group_reach stays apple n chooser s \<longleftrightarrow>
     (\<exists>s0 k. EventLoopGroup_start apple n chooser fresh_thread = Inr s0 \<and> group_run stays k s0 s)"

text \<open>The destructor returns when every thread it started has ended.\<close>

definition EventLoopGroup_joins :: "'h group_sys \<Rightarrow> bool" where
  "EventLoopGroup_joins s \<longleftrightarrow> (\<forall>p \<in> set (tl (pcs s)). p = Finished)"

section \<open>Invariant\<close>

named_theorems group_simps \<open>effect of the steps on the fields\<close>

lemma set_pc_simps [group_simps]:
  "pcs (set_pc i p s) = (pcs s)[i := p]" "loops (set_pc i p s) = loops s" "grp (set_pc i p s) = grp s"
  "tlocals (set_pc i p s) = tlocals s" "keep (set_pc i p s) = keep s" "group_n (set_pc i p s) = group_n s"
  by (simp_all add: set_pc_def group_n_def)

lemma upd_loop_simps [group_simps]:
  "pcs (upd_loop i f s) = pcs s" "loops (upd_loop i f s) = (loops s)[i := f (loops s ! i)]"
  "grp (upd_loop i f s) = grp s" "tlocals (upd_loop i f s) = tlocals s" "keep (upd_loop i f s) = keep s"
  "group_n (upd_loop i f s) = group_n s"
  by (simp_all add: upd_loop_def group_n_def)

definition in_run :: "worker_pc \<Rightarrow> bool" where
  "in_run p \<longleftrightarrow> (case p of Unborn \<Rightarrow> False | Spawning _ \<Rightarrow> False | Entering \<Rightarrow> False | _ \<Rightarrow> True)"

text \<open>A thread that has gone past the wake-up of loop \<open>i\<close>.\<close>

definition past :: "worker_pc \<Rightarrow> nat \<Rightarrow> bool" where
  "past p i \<longleftrightarrow> (case p of Waking k \<Rightarrow> i < k | Finished \<Rightarrow> True | _ \<Rightarrow> False)"

definition leaving :: "worker_pc \<Rightarrow> bool" where
  "leaving p \<longleftrightarrow> (case p of Waking k \<Rightarrow> True | Finished \<Rightarrow> True | _ \<Rightarrow> False)"

lemmas pc_defs = in_run_def past_def leaving_def

definition fd_of :: "nat \<Rightarrow> 'h group_sys \<Rightarrow> nat option" where
  "fd_of i s = eventfd (loop_queue (loops s ! i))"

definition group_shape :: "nat \<Rightarrow> 'h group_sys \<Rightarrow> bool" where
  "group_shape n s \<longleftrightarrow> gr_n (grp s) = int n \<and> ploops (grp s) = [0..<n + 1]
     \<and> length (loops s) = n + 1 \<and> length (pcs s) = n + 1 \<and> length (tlocals s) = n + 1"

text \<open>How the threads are born, and that a loop in its rounds watches its eventfd unless it failed.\<close>

definition born_ok :: "nat \<Rightarrow> 'h group_sys \<Rightarrow> bool" where
  "born_ok i s \<longleftrightarrow>
     (pcs s ! i = Unborn \<longrightarrow> (\<exists>k < i. pcs s ! 0 = Spawning k))
   \<and> (\<forall>k. pcs s ! 0 = Spawning k \<longrightarrow> k < i \<longrightarrow> pcs s ! i = Unborn)
   \<and> (\<forall>k. pcs s ! i = Spawning k \<longrightarrow> i = 0 \<and> k \<le> group_n s)
   \<and> (pcs s ! i = Unwound \<longrightarrow> i = 0)
   \<and> (if in_run (pcs s ! i) then watched (loop_queue (loops s ! i)) = (fd_of i s \<noteq> None) else fd_of i s \<noteq> None)
   \<and> (\<not> in_run (pcs s ! i) \<longrightarrow> (if i = 0 then th_loop (tlocals s ! 0) \<noteq> None else tlocals s ! i = fresh_thread))"

definition stop_ok :: "'h group_sys \<Rightarrow> bool" where
  "stop_ok s \<longleftrightarrow> (\<forall>j < length (pcs s). leaving (pcs s ! j) \<longrightarrow> \<not> keep s)
     \<and> (\<forall>i < length (pcs s). \<forall>j < length (pcs s). past (pcs s ! j) i \<longrightarrow> pcs s ! i = Polling \<longrightarrow> fd_of i s \<noteq> Some 0)"

lemma stop_okD:
  "stop_ok s \<Longrightarrow> past (pcs s ! j) i \<Longrightarrow> pcs s ! i = Polling \<Longrightarrow> i < length (pcs s) \<Longrightarrow> j < length (pcs s) \<Longrightarrow>
     fd_of i s \<noteq> Some 0"
  by (simp add: stop_ok_def)

definition group_inv :: "bool \<Rightarrow> nat \<Rightarrow> 'h group_sys \<Rightarrow> bool" where
  "group_inv stays n s \<longleftrightarrow> group_shape n s \<and> (\<forall>i \<le> n. born_ok i s) \<and> (stays \<longrightarrow> stop_ok s)"

lemma group_n_simps [group_simps]:
  "group_n (s\<lparr>keep := b\<rparr>) = group_n s"
  "group_n (s\<lparr>tlocals := ts, loops := ls\<rparr>) = group_n s"
  by (simp_all add: group_n_def)

lemma fd_of_simps [group_simps]:
  "fd_of i (set_pc j p s) = fd_of i s"
  "fd_of i (s\<lparr>keep := b\<rparr>) = fd_of i s"
  by (simp_all add: fd_of_def group_simps)

lemma fd_of_wake:
  assumes "k < length (loops s)"
  shows "(fd_of i (wake_loop k s) = None) = (fd_of i s = None)"
    "fd_of k (wake_loop k s) \<noteq> Some 0"
    "fd_of i s \<noteq> Some 0 \<Longrightarrow> fd_of i (wake_loop k s) \<noteq> Some 0"
  using assms
  by (auto simp: fd_of_def wake_loop_def group_simps EventQueue_wakeup_def nth_list_update split: option.splits)

lemma watched_wake:
  "k < length (loops s) \<Longrightarrow> watched (loop_queue (loops (wake_loop k s) ! i)) = watched (loop_queue (loops s ! i))"
  by (auto simp: wake_loop_def group_simps eq_simps nth_list_update)

lemma wake_simps [group_simps]:
  "pcs (wake_loop k s) = pcs s" "length (loops (wake_loop k s)) = length (loops s)"
  "grp (wake_loop k s) = grp s" "tlocals (wake_loop k s) = tlocals s" "keep (wake_loop k s) = keep s"
  "group_n (wake_loop k s) = group_n s"
  by (simp_all add: wake_loop_def group_simps)

lemma inv_wake:
  assumes "group_inv stays n s" "k \<le> n"
  shows "group_inv stays n (wake_loop k s)"
proof -
  have k: "k < length (loops s)" using assms by (simp add: group_inv_def group_shape_def)
  have "born_ok i (wake_loop k s)" if "born_ok i s" for i
    using that by (simp add: born_ok_def group_simps fd_of_wake [OF k] watched_wake [OF k])
  moreover have "stop_ok (wake_loop k s)" if "stop_ok s"
    using that fd_of_wake(3) [OF k] by (auto simp: stop_ok_def group_simps)
  ultimately show ?thesis using assms(1) by (simp add: group_inv_def group_shape_def group_simps)
qed

text \<open>A thread changes its place without changing anything else.\<close>

lemma inv_set_pc:
  assumes "group_inv stays n s" "i \<le> n" "in_run (pcs s ! i)" "in_run p" "p = Unwound \<Longrightarrow> i = 0"
    "stays \<Longrightarrow> leaving p \<Longrightarrow> \<not> keep s"
    "stays \<Longrightarrow> p = Polling \<Longrightarrow> keep s"
    "\<And>k. stays \<Longrightarrow> past p k \<Longrightarrow> past (pcs s ! i) k \<or> fd_of k s \<noteq> Some 0 \<or> n < k"
  shows "group_inv stays n (set_pc i p s)"
proof -
  have len: "length (pcs s) = n + 1" using assms(1) by (simp add: group_inv_def group_shape_def)
  have "born_ok j (set_pc i p s)" if "j \<le> n" for j
  proof -
    have "born_ok j s" using assms(1) that by (simp add: group_inv_def)
    moreover have "pcs s ! 0 = Spawning k \<Longrightarrow> i \<noteq> 0" for k using assms(3) by (cases "i = 0") (auto simp: in_run_def)
    moreover have "p \<noteq> Unborn" "\<And>k. p \<noteq> Spawning k" using assms(4) by (auto simp: in_run_def)
    ultimately show ?thesis using assms(2,3,4,5) that len
      by (cases "j = i"; cases "i = 0") (auto simp: born_ok_def group_simps in_run_def)
  qed
  moreover have "stop_ok (set_pc i p s)" if "stays"
  proof -
    have st: "stop_ok s" using assms(1) that by (simp add: group_inv_def)
    have nk: "\<not> keep s" if "past p k" for k using assms(6) \<open>stays\<close> that by (auto simp: pc_defs split: worker_pc.splits)
    have old: "leaving (pcs s ! j) \<Longrightarrow> j \<le> n \<Longrightarrow> \<not> keep s" for j using st len by (simp add: stop_ok_def less_Suc_eq_le)
    have "fd_of a (set_pc i p s) \<noteq> Some 0" if "a \<le> n" "b \<le> n" "past ((pcs s)[i := p] ! b) a" "(pcs s)[i := p] ! a = Polling" for a b
    proof (cases "b = i")
      case True
      with that len assms(2) have pst: "past p a" by simp
      with nk assms(7) \<open>stays\<close> have "p \<noteq> Polling" by blast
      with that(1,4) len have pol: "a \<noteq> i" "pcs s ! a = Polling" by (cases "a = i"; simp)+
      from assms(8) [OF \<open>stays\<close> pst] that(1) consider "past (pcs s ! i) a" | "fd_of a s \<noteq> Some 0" by auto
      then show ?thesis
        using stop_okD [OF st _ pol(2)] that(1) assms(2) len by cases (auto simp: group_simps)
    next
      case False
      with that(3) have pst: "past (pcs s ! b) a" by simp
      then have "leaving (pcs s ! b)" by (auto simp: pc_defs split: worker_pc.splits)
      with old that(2) have "\<not> keep s" by blast
      with assms(7) \<open>stays\<close> have "p \<noteq> Polling" by blast
      with that(1,4) len have pol: "pcs s ! a = Polling" by (cases "a = i"; simp)
      from stop_okD [OF st pst pol] that(1,2) len show ?thesis by (simp add: group_simps)
    qed
    moreover have "\<not> keep s" if "leaving ((pcs s)[i := p] ! j)" "j \<le> n" for j
    proof (cases "j = i")
      case True
      with that len assms(6) \<open>stays\<close> show ?thesis by simp
    next
      case False
      with that old show ?thesis by simp
    qed
    ultimately show ?thesis using len by (simp add: stop_ok_def group_simps less_Suc_eq_le)
  qed
  ultimately show ?thesis using assms(1) by (simp add: group_inv_def group_shape_def group_simps)
qed

lemma inv_queue:
  assumes "group_inv stays n s" "i \<le> n" "in_run (pcs s ! i)" "pcs s ! i = Polling \<Longrightarrow> eventfd q \<noteq> Some 0 \<or> fd_of i s = Some 0"
    "watched q = (eventfd q \<noteq> None)"
  shows "group_inv stays n (upd_loop i (\<lambda>l. l\<lparr>loop_queue := q\<rparr>) s)"
proof -
  let ?s = "upd_loop i (\<lambda>l. l\<lparr>loop_queue := q\<rparr>) s"
  have len: "length (pcs s) = n + 1" "length (loops s) = n + 1"
    using assms(1) by (simp_all add: group_inv_def group_shape_def)
  have fd: "fd_of j ?s = (if j = i then eventfd q else fd_of j s)" if "j \<le> n" for j
    using that len(2) by (simp add: fd_of_def group_simps nth_list_update)
  have "born_ok j ?s" if "j \<le> n" for j
  proof -
    have "born_ok j s" using assms(1) that by (simp add: group_inv_def)
    then show ?thesis using assms(2,3,5) that len by (auto simp: born_ok_def group_simps fd nth_list_update)
  qed
  moreover have "stop_ok ?s" if "stop_ok s"
    using that assms(2,4) len by (auto simp: stop_ok_def group_simps fd)
  ultimately show ?thesis using assms(1) by (simp add: group_inv_def group_shape_def group_simps)
qed

lemma past_leaving: "past p k \<Longrightarrow> leaving p"
  by (auto simp: pc_defs split: worker_pc.splits)

lemma stop_ok_young:
  assumes "stop_ok s" "\<not> leaving p" "p \<noteq> Polling"
  shows "stop_ok (set_pc i p s)"
proof -
  have pc: "(pcs s)[i := p] ! j = pcs s ! j \<or> (pcs s)[i := p] ! j = p" for j
    by (cases "i < length (pcs s)") (auto simp: nth_list_update list_update_beyond not_less)
  show ?thesis
    unfolding stop_ok_def group_simps length_list_update
  proof (intro conjI allI impI)
    fix j assume "j < length (pcs s)" "leaving ((pcs s)[i := p] ! j)"
    with pc [of j] assms show "\<not> keep s" by (auto simp: stop_ok_def)
  next
    fix a b assume "a < length (pcs s)" "b < length (pcs s)" "past ((pcs s)[i := p] ! b) a" "(pcs s)[i := p] ! a = Polling"
    with pc [of a] pc [of b] assms stop_okD [OF assms(1)] past_leaving show "fd_of a s \<noteq> Some 0" by metis
  qed
qed

lemma spawn_inv:
  assumes "group_inv stays n s" "pcs s ! 0 = Spawning k"
  shows "group_inv stays n (EventLoopGroup_run_spawn k s)"
proof -
  let ?s = "EventLoopGroup_run_spawn k s"
  have n: "group_n s = n" and len: "length (pcs s) = n + 1"
    using assms(1) by (simp_all add: group_inv_def group_shape_def group_n_def)
  have born: "born_ok j s" if "j \<le> n" for j using assms(1) that by (simp add: group_inv_def)
  have "born_ok j ?s" if "j \<le> n" for j
  proof (cases "k < n")
    case True
    consider "j = 0" | "j = k + 1" | "j \<noteq> 0" "j \<noteq> k + 1" by blast
    then show ?thesis
      using born [OF that] assms(2) len that True
      by cases (auto simp: born_ok_def EventLoopGroup_run_spawn_def n group_simps in_run_def nth_list_update)
  next
    case False
    then show ?thesis
      using born [OF that] assms(2) len that
      by (auto simp: born_ok_def EventLoopGroup_run_spawn_def n group_simps in_run_def nth_list_update)
  qed
  moreover have "stop_ok ?s" if "stop_ok s"
    using that by (simp add: EventLoopGroup_run_spawn_def stop_ok_young leaving_def)
  ultimately show ?thesis
    using assms(1) by (simp add: group_inv_def group_shape_def EventLoopGroup_run_spawn_def group_simps)
qed

lemma enter_inv:
  assumes "group_inv stays n s" "i \<le> n" "pcs s ! i = Entering"
  shows "\<exists>s'. worker_enter i s = Inr s' \<and> group_inv stays n s' \<and> pcs s' = (pcs s)[i := Testing] \<and> keep s' = keep s"
proof -
  have n: "group_n s = n" and len: "length (pcs s) = n + 1" "length (loops s) = n + 1" "length (tlocals s) = n + 1"
    using assms(1) by (simp_all add: group_inv_def group_shape_def group_n_def)
  have born: "born_ok i s" using assms(1,2) by (simp add: group_inv_def)
  then have fd: "eventfd (loop_queue (loops s ! i)) \<noteq> None"
    and th: "if i = 0 then th_loop (tlocals s ! 0) \<noteq> None else tlocals s ! i = fresh_thread"
    using assms(3) by (simp_all add: born_ok_def in_run_def fd_of_def)
  obtain t where t: "(if EventLoop_curr_thread_loop (tlocals s ! i) = None
      then EventLoop_bind_to_thread i (tlocals s ! i) else Inr (tlocals s ! i)) = Inr t"
    using th by (cases "i = 0") (auto simp: EventLoop_curr_thread_loop_def EventLoop_bind_to_thread_def
        Poller_bind_to_thread_def fresh_thread_def)
  define l where "l = (loops s ! i)\<lparr>robin_functor := Some (\<lambda>fd. EventLoopGroup_robinLoop fd (grp s)),
    robin_functor1 := Some (\<lambda>fd. EventLoopGroup_robinLoop1 fd (grp s)),
    loop_queue := (loop_queue (loops s ! i))\<lparr>watched := True\<rparr>, timers_on := True\<rparr>"
  let ?s = "set_pc i Testing (s\<lparr>tlocals := (tlocals s)[i := t], loops := (loops s)[i := l]\<rparr>)"
  have "worker_enter i s = Inr ?s"
    unfolding worker_enter_def t n
    using assms(2) fd
    by (simp add: EventLoop_run_start_def EventQueue_start_def EventLoop_setRobinFunctor1_def
        EventLoop_setRobinFunctor_def TimerQueue_start_def l_def Let_def)
  moreover have "group_inv stays n ?s"
  proof -
    have "born_ok j ?s" if "j \<le> n" for j
    proof -
      have "born_ok j s" using assms(1) that by (simp add: group_inv_def)
      then show ?thesis using assms(2,3) that len fd
        by (auto simp: born_ok_def group_simps in_run_def fd_of_def nth_list_update l_def)
    qed
    moreover have "stop_ok ?s" if "stop_ok s"
    proof -
      have "fd_of j (s\<lparr>tlocals := (tlocals s)[i := t], loops := (loops s)[i := l]\<rparr>) = fd_of j s" for j
        using assms(2) len by (cases "j = i") (simp_all add: fd_of_def l_def)
      with that have "stop_ok (s\<lparr>tlocals := (tlocals s)[i := t], loops := (loops s)[i := l]\<rparr>)"
        by (simp add: stop_ok_def)
      then show ?thesis by (rule stop_ok_young) (simp_all add: leaving_def)
    qed
    ultimately show ?thesis using assms(1) by (simp add: group_inv_def group_shape_def group_simps)
  qed
  ultimately show ?thesis by (auto simp: group_simps)
qed

section \<open>Steps\<close>

text \<open>How far a thread is from its end, once the functor says no.\<close>

definition pc_rank :: "nat \<Rightarrow> worker_pc \<Rightarrow> nat" where
  "pc_rank n p = (case p of
     Spawning k \<Rightarrow> 2 * n + 6 - k | Unborn \<Rightarrow> n + 6 | Entering \<Rightarrow> n + 5 | Polling \<Rightarrow> n + 5 | Testing \<Rightarrow> n + 4
   | Waking k \<Rightarrow> Suc (n + 1 - k) | Finished \<Rightarrow> 0 | Unwound \<Rightarrow> 0)"

definition group_rank :: "nat \<Rightarrow> 'h group_sys \<Rightarrow> nat" where
  "group_rank n s = sum_list (map (pc_rank n) (pcs s))"

lemma rank_set:
  assumes "i < length ps"
  shows "sum_list (map (pc_rank n) (ps[i := p])) + pc_rank n (ps ! i) = sum_list (map (pc_rank n) ps) + pc_rank n p"
  using assms elem_le_sum_list [of i "map (pc_rank n) ps"] by (simp add: map_update sum_list_update)

lemma rank_set_less:
  "i < length ps \<Longrightarrow> pc_rank n p < pc_rank n (ps ! i) \<Longrightarrow>
     sum_list (map (pc_rank n) (ps[i := p])) < sum_list (map (pc_rank n) ps)"
  using rank_set [of i ps n p] by linarith

text \<open>What each step of a thread keeps: the invariant and the answer of the functor; after a no it brings the
  threads nearer to their end.\<close>

definition advances :: "bool \<Rightarrow> nat \<Rightarrow> 'h group_sys \<Rightarrow> 'h group_sys \<Rightarrow> bool" where
  "advances stays n s s' \<longleftrightarrow> group_inv stays n s' \<and> keep s' = keep s \<and> (\<not> keep s \<longrightarrow> group_rank n s' < group_rank n s)"

lemma group_invD:
  assumes "group_inv stays n s"
  shows "group_n s = n" "length (pcs s) = n + 1" "length (loops s) = n + 1" "ploops (grp s) = [0..<n + 1]"
    "i \<le> n \<Longrightarrow> born_ok i s" "stays \<Longrightarrow> stop_ok s"
  using assms by (simp_all add: group_inv_def group_shape_def group_n_def)

lemma rank_pc:
  assumes "group_inv stays n s" "i \<le> n" "pc_rank n p < pc_rank n (pcs s ! i)" "pcs s' = (pcs s)[i := p]"
  shows "group_rank n s' < group_rank n s"
  using rank_set_less [of i "pcs s" n p] group_invD(2) [OF assms(1)] assms(2,3,4) by (simp add: group_rank_def)

lemma leaving_says_no:
  "group_inv stays n s \<Longrightarrow> i \<le> n \<Longrightarrow> leaving (pcs s ! i) \<Longrightarrow> stays \<Longrightarrow> \<not> keep s"
  using group_invD(2,6) [of stays n s] by (auto simp: stop_ok_def less_Suc_eq_le)

lemma step_spawn:
  assumes "group_inv stays n s" "i \<le> n" "pcs s ! i = Spawning k"
  shows "worker_step i s = Some (Inr (EventLoopGroup_run_spawn k s)) \<and> advances stays n s (EventLoopGroup_run_spawn k s)"
proof -
  note inv = group_invD [OF assms(1)]
  from inv(1) inv(5) [OF assms(2)] assms(3) have i0: "i = 0" "k \<le> n" by (auto simp: born_ok_def)
  have "group_rank n (EventLoopGroup_run_spawn k s) < group_rank n s"
  proof (cases "k < n")
    case True
    with inv(5) [of "k + 1"] assms(3) i0 have un: "pcs s ! (k + 1) = Unborn" by (simp add: born_ok_def)
    define ps where "ps = (pcs s)[k + 1 := Entering]"
    have "sum_list (map (pc_rank n) ps) < sum_list (map (pc_rank n) (pcs s))"
      unfolding ps_def using True inv(2) un by (intro rank_set_less) (simp_all add: pc_rank_def)
    moreover have "sum_list (map (pc_rank n) (ps[0 := Spawning (k + 1)])) < sum_list (map (pc_rank n) ps)"
      using True inv(2) assms(3) i0 by (intro rank_set_less) (simp_all add: pc_rank_def ps_def)
    ultimately show ?thesis using True by (simp add: group_rank_def EventLoopGroup_run_spawn_def inv(1) group_simps ps_def)
  next
    case False
    with i0 assms show ?thesis
      by (intro rank_pc [OF assms(1,2), of Entering])
        (simp_all add: EventLoopGroup_run_spawn_def inv(1) group_simps pc_rank_def)
  qed
  moreover have "keep (EventLoopGroup_run_spawn k s) = keep s"
    by (simp add: EventLoopGroup_run_spawn_def group_simps)
  ultimately show ?thesis
    using spawn_inv [OF assms(1)] assms(3) i0 by (simp add: advances_def worker_step_defs)
qed

lemma step_test:
  assumes "group_inv stays n s" "i \<le> n" "pcs s ! i = Testing"
  shows "worker_step i s = Some (Inr (set_pc i (if keep s then Polling else Waking 0) s))
    \<and> advances stays n s (set_pc i (if keep s then Polling else Waking 0) s)"
proof -
  let ?s = "set_pc i (if keep s then Polling else Waking 0) s"
  have "group_inv stays n ?s"
    by (rule inv_set_pc [OF assms(1,2)]) (auto simp: assms(3) pc_defs split: if_splits)
  moreover have "\<not> keep s \<Longrightarrow> group_rank n ?s < group_rank n s"
    using assms by (intro rank_pc [OF assms(1,2), of "Waking 0"]) (simp_all add: group_simps pc_rank_def)
  ultimately show ?thesis using assms(3) by (simp add: advances_def worker_step_defs group_simps)
qed

lemma step_poll:
  assumes "group_inv stays n s" "i \<le> n" "pcs s ! i = Polling" "worker_step i s = Some r"
  shows "\<exists>s'. r = Inr s' \<and> advances stays n s s'"
proof -
  note inv = group_invD [OF assms(1)]
  obtain go q where q: "EventQueue_read (loop_queue (loops s ! i)) = (go, q)" by force
  let ?t = "set_pc i Testing s"
  let ?u = "upd_loop i (\<lambda>l. l\<lparr>loop_queue := q\<rparr>) ?t"
  have "r = Inr (set_pc i Testing (upd_loop i (\<lambda>l. l\<lparr>loop_queue := q\<rparr>) s))"
    using assms(3,4) q by (auto simp: worker_step_defs split: if_splits)
  then have r: "r = Inr ?u" by (simp add: set_pc_def upd_loop_def)
  have t: "group_inv stays n ?t"
    by (rule inv_set_pc [OF assms(1,2)]) (auto simp: assms(3) pc_defs)
  have "watched q = (eventfd q \<noteq> None)"
    using read_simps [OF q] inv(5) [OF assms(2)] assms(3) by (simp add: born_ok_def in_run_def fd_of_def)
  then have "group_inv stays n ?u"
    using inv(2) assms(2) by (intro inv_queue [OF t assms(2)]) (simp_all add: group_simps in_run_def)
  moreover have "group_rank n ?u < group_rank n s"
    using assms by (intro rank_pc [OF assms(1,2), of Testing]) (simp_all add: group_simps pc_rank_def)
  ultimately show ?thesis unfolding r by (simp add: advances_def group_simps)
qed

lemma step_wake:
  assumes "group_inv stays n s" "i \<le> n" "pcs s ! i = Waking k" "k \<le> n"
  shows "worker_step i s = Some (Inr (set_pc i (Waking (k + 1)) (wake_loop k s)))
    \<and> advances stays n s (set_pc i (Waking (k + 1)) (wake_loop k s))"
proof -
  note inv = group_invD [OF assms(1)]
  have w: "group_inv stays n (wake_loop k s)" by (rule inv_wake [OF assms(1,4)])
  have kl: "k < length (loops s)" using assms(4) inv(3) by simp
  have "group_inv stays n (set_pc i (Waking (k + 1)) (wake_loop k s))"
  proof (rule inv_set_pc [OF w assms(2)])
    fix j assume "past (Waking (k + 1)) j"
    then have "j < k \<or> j = k" by (auto simp: past_def)
    with fd_of_wake(2) [OF kl] show "past (pcs (wake_loop k s) ! i) j \<or> fd_of j (wake_loop k s) \<noteq> Some 0 \<or> n < j"
      by (auto simp: group_simps assms(3) past_def)
  next
    assume "stays"
    with leaving_says_no [OF assms(1,2)] assms(3) show "\<not> keep (wake_loop k s)" by (simp add: group_simps leaving_def)
  qed (simp_all add: group_simps assms(3) in_run_def)
  moreover have "group_rank n (set_pc i (Waking (k + 1)) (wake_loop k s)) < group_rank n s"
    using assms by (intro rank_pc [OF assms(1,2), of "Waking (k + 1)"]) (simp_all add: group_simps pc_rank_def)
  ultimately show ?thesis
    using assms(3,4) inv(4) by (simp add: advances_def worker_step_defs group_simps nth_upt del: upt_Suc)
qed

lemma step_finish:
  assumes "group_inv stays n s" "i \<le> n" "pcs s ! i = Waking k" "n < k"
  shows "worker_step i s = Some (Inr (set_pc i Finished s)) \<and> advances stays n s (set_pc i Finished s)"
proof -
  have "group_inv stays n (set_pc i Finished s)"
  proof (rule inv_set_pc [OF assms(1,2)])
    fix j show "past (pcs s ! i) j \<or> fd_of j s \<noteq> Some 0 \<or> n < j" using assms(4) by (auto simp: assms(3) past_def)
  next
    assume "stays"
    with leaving_says_no [OF assms(1,2)] assms(3) show "\<not> keep s" by (simp add: leaving_def)
  qed (simp_all add: assms(3) in_run_def)
  moreover have "group_rank n (set_pc i Finished s) < group_rank n s"
    using assms by (intro rank_pc [OF assms(1,2), of Finished]) (simp_all add: group_simps pc_rank_def)
  ultimately show ?thesis
    using assms(3,4) group_invD(4) [OF assms(1)] by (simp add: advances_def worker_step_defs group_simps del: upt_Suc)
qed

lemma worker_step_ok:
  assumes "group_inv stays n s" "i \<le> n" "worker_step i s = Some r"
  shows "\<exists>s'. r = Inr s' \<and> advances stays n s s'"
proof (cases "pcs s ! i")
  case (Spawning k)
  with step_spawn [OF assms(1,2)] assms(3) show ?thesis by auto
next
  case Entering
  obtain s' where s': "worker_enter i s = Inr s'" "group_inv stays n s'" "pcs s' = (pcs s)[i := Testing]" "keep s' = keep s"
    using enter_inv [OF assms(1,2) Entering] by blast
  have "group_rank n s' < group_rank n s"
    using s'(3) Entering by (intro rank_pc [OF assms(1,2)]) (simp_all add: pc_rank_def)
  with Entering assms(3) s' show ?thesis by (auto simp: worker_step_defs advances_def)
next
  case Testing
  with step_test [OF assms(1,2)] assms(3) show ?thesis by auto
next
  case Polling
  with step_poll [OF assms(1,2) _ assms(3)] show ?thesis by blast
next
  case (Waking k)
  with step_wake [OF assms(1,2)] step_finish [OF assms(1,2)] assms(3) show ?thesis by (cases "k \<le> n") auto
qed (use assms(3) in \<open>auto simp: worker_step_defs\<close>)

lemma inv_post:
  assumes "group_inv stays n s"
  shows "group_inv stays n (upd_loop i (\<lambda>l. l\<lparr>loop_queue := EventQueue_pushHandler h (loop_queue l)\<rparr>) s)"
    (is "group_inv stays n ?s")
proof -
  note inv = group_invD [OF assms]
  have fd: "fd_of j ?s = fd_of j s" "watched (loop_queue (loops ?s ! j)) = watched (loop_queue (loops s ! j))"
    if "j \<le> n" for j
    using that inv(3) by (cases "j = i"; simp add: fd_of_def group_simps eq_simps)+
  have "born_ok j ?s" if "j \<le> n" for j
    using inv(5) [OF that] fd [OF that] by (simp add: born_ok_def group_simps)
  moreover have "stop_ok ?s" if "stop_ok s"
    using that fd inv(2) by (simp add: stop_ok_def group_simps less_Suc_eq_le)
  ultimately show ?thesis
    using assms(1) by (simp add: group_inv_def group_shape_def group_simps)
qed

lemma env_step_ok:
  assumes "env_step stays s s'" "group_inv stays n s"
  shows "group_inv stays n s' \<and> (stays \<longrightarrow> \<not> keep s \<longrightarrow> \<not> keep s') \<and> group_rank n s' \<le> group_rank n s"
  using assms(1)
proof cases
  note inv = group_invD [OF assms(2)]
  case (event i)
  then have i: "i \<le> n" using inv(2) by simp
  have "group_inv stays n (set_pc i Testing s)"
    by (rule inv_set_pc [OF assms(2) i]) (auto simp: event pc_defs)
  moreover have "group_rank n (set_pc i Testing s) < group_rank n s"
    using event by (intro rank_pc [OF assms(2) i, of Testing]) (simp_all add: group_simps pc_rank_def)
  ultimately show ?thesis using event by (simp add: group_simps)
next
  note inv = group_invD [OF assms(2)]
  case (wake i)
  then have "i \<le> n" using inv(3) by simp
  from inv_wake [OF assms(2) this] wake show ?thesis by (simp add: group_simps group_rank_def)
next
  case (post i h)
  then show ?thesis using inv_post [OF assms(2), of i h] by (simp add: group_simps group_rank_def)
next
  note inv = group_invD [OF assms(2)]
  case (error i)
  then have i: "i \<le> n" using inv(3) by simp
  have "group_inv stays n (upd_loop i (\<lambda>l. l\<lparr>loop_queue := EventQueue_destroy (loop_queue (loops s ! i))\<rparr>) s)"
    using error by (intro inv_queue [OF assms(2) i]) (simp_all add: in_run_def EventQueue_destroy_def)
  moreover have "s' = upd_loop i (\<lambda>l. l\<lparr>loop_queue := EventQueue_destroy (loop_queue (loops s ! i))\<rparr>) s"
    using error by (simp add: upd_loop_def)
  ultimately show ?thesis by (simp add: group_simps group_rank_def)
next
  case throws
  have "group_inv stays n (set_pc 0 Unwound s)"
    by (rule inv_set_pc [OF assms(2)]) (auto simp: throws pc_defs)
  moreover have "group_rank n (set_pc 0 Unwound s) < group_rank n s"
    using throws by (intro rank_pc [OF assms(2), of 0 Unwound]) (simp_all add: group_simps pc_rank_def)
  ultimately show ?thesis using throws by (simp add: group_simps)
next
  note inv = group_invD [OF assms(2)]
  case (answer b)
  have "born_ok i s'" if "i \<le> n" for i
    using inv(5) [OF that] answer by (simp add: born_ok_def group_simps)
  moreover have "stop_ok s'" if "stays" "stop_ok s"
    using that answer by (auto simp: stop_ok_def group_simps)
  ultimately show ?thesis using assms(2) answer by (auto simp: group_inv_def group_shape_def group_rank_def)
qed

lemma group_run_ok:
  assumes "group_run stays k s s'" "group_inv stays n s"
  shows "group_inv stays n s' \<and> (stays \<and> \<not> keep s \<longrightarrow> \<not> keep s' \<and> k + group_rank n s' \<le> group_rank n s)"
  using assms
proof (induction rule: group_run.induct)
  case (refl s)
  then show ?case by simp
next
  case (worker k s t i u)
  then have t: "group_inv stays n t" "stays \<and> \<not> keep s \<longrightarrow> \<not> keep t \<and> k + group_rank n t \<le> group_rank n s" by simp_all
  with worker.hyps(2) have "i \<le> n" using group_invD(2) [OF t(1)] by simp
  from worker_step_ok [OF t(1) this worker.hyps(3)] t(2) show ?case by (auto simp: advances_def)
next
  case (env k s t u)
  then have t: "group_inv stays n t" "stays \<and> \<not> keep s \<longrightarrow> \<not> keep t \<and> k + group_rank n t \<le> group_rank n s" by simp_all
  from env_step_ok [OF env.hyps(2) t(1)] t(2) show ?case by auto
qed

lemma start_inv:
  assumes "EventLoopGroup_start apple n chooser fresh_thread = Inr s"
  shows "group_inv stays n s"
proof -
  have s: "s = \<lparr>grp = \<lparr>gr_n = int n, ploops = [0..<n + 1]\<rparr>, loops = replicate (n + 1) (EventLoop_new apple chooser),
      tlocals = \<lparr>th_loop = Some 0, th_poller = Some 0\<rparr> # replicate n fresh_thread,
      pcs = Spawning 0 # replicate n Unborn, keep = True\<rparr>"
    using assms by (simp add: EventLoopGroup_start_def EventLoopGroup_new_def EventLoop_bind_to_thread_def
        Poller_bind_to_thread_def fresh_thread_def Let_def nat_add_distrib del: upt_Suc split: if_splits)
  have "born_ok i s" if "i \<le> n" for i
    using that by (cases i) (simp_all add: s born_ok_def in_run_def fd_of_def EventLoop_new_def EventQueue_new_def nth_append
        group_n_def del: replicate_Suc upt_Suc)
  moreover have "pcs s ! i = Spawning 0 \<or> pcs s ! i = Unborn" if "i \<le> n" for i
    using that by (cases i) (simp_all add: s)
  then have "stop_ok s"
    by (force simp: stop_ok_def leaving_def past_def s less_Suc_eq_le)
  ultimately show ?thesis by (simp add: group_inv_def group_shape_def s)
qed

lemma group_reach_inv: "group_reach stays apple n chooser s \<Longrightarrow> group_inv stays n s"
  unfolding group_reach_def using group_run_ok start_inv by blast

lemma pc_index:
  assumes "group_inv stays n s" "p \<in> set (pcs s)"
  shows "\<exists>j \<le> n. pcs s ! j = p"
proof -
  obtain j where "j < length (pcs s)" "pcs s ! j = p" using assms(2) unfolding in_set_conv_nth by blast
  then show ?thesis using group_invD(2) [OF assms(1)] by (intro exI [of _ j]) simp
qed

lemma group_rank_bound:
  assumes "group_inv stays n s"
  shows "group_rank n s \<le> (n + 2) * (n + 6)"
proof -
  note inv = group_invD [OF assms]
  obtain p ps where ps: "pcs s = p # ps" "length ps = n" using inv(2) by (cases "pcs s") auto
  have "pc_rank n q \<le> n + 6" if q: "q \<in> set ps" for q
  proof -
    from q obtain i where "i < n" "ps ! i = q" unfolding in_set_conv_nth ps(2) by blast
    then have "q = pcs s ! Suc i" using ps(1) by simp
    with inv(5) [of "Suc i"] \<open>i < n\<close> show ?thesis by (auto simp: born_ok_def pc_rank_def split: worker_pc.split)
  qed
  then have "sum_list (map (pc_rank n) ps) \<le> sum_list (map (\<lambda>_. n + 6) ps)" by (intro sum_list_mono) auto
  moreover have "pc_rank n p \<le> 2 * n + 6" by (cases p) (simp_all add: pc_rank_def)
  ultimately show ?thesis using ps by (simp add: group_rank_def sum_list_triv algebra_simps)
qed


text \<open>Runs given as lists of moves, to look at a particular one.\<close>

datatype move = Do nat | Answer bool

fun exec :: "move list \<Rightarrow> 'h group_sys \<Rightarrow> 'h group_sys option" where
  "exec [] s = Some s"
| "exec (Do i # ms) s =
     (if i < length (pcs s) then (case worker_step i s of Some (Inr s') \<Rightarrow> exec ms s' | _ \<Rightarrow> None) else None)"
| "exec (Answer b # ms) s = exec ms (s\<lparr>keep := b\<rparr>)"

lemma exec_run:
  "exec ms s = Some s' \<Longrightarrow> group_run stays k r s \<Longrightarrow> stays \<longrightarrow> Answer True \<notin> set ms \<Longrightarrow> \<exists>k. group_run stays k r s'"
proof (induction ms s arbitrary: k rule: exec.induct)
  case (1 s)
  then show ?case by auto
next
  case (2 i ms s)
  from "2.prems"(1) obtain t where t: "i < length (pcs s)" "worker_step i s = Some (Inr t)" "exec ms t = Some s'"
    by (auto split: if_splits option.splits sum.splits)
  have "stays \<longrightarrow> Answer True \<notin> set ms" using "2.prems"(3) by simp
  from "2.IH" [OF t(1,2) HOL.refl t(3) group_run.worker [OF "2.prems"(2) t(1,2)] this] show ?case .
next
  case (3 b ms s)
  then have "env_step stays s (s\<lparr>keep := b\<rparr>)" by (intro env_step.answer) (cases b; auto)
  with 3 group_run.env show ?case by fastforce
qed

definition one_no :: "move list" where
  "one_no = [Do 0, Do 0, Do 0, Do 0, Do 0, Do 1, Do 1, Answer False, Do 0, Do 0, Do 0, Do 0]"

definition summary :: "'h group_sys \<Rightarrow> worker_pc list \<times> bool \<times> nat option list" where
  "summary s = (pcs s, keep s, map (\<lambda>l. eventfd (loop_queue l)) (loops s))"

definition two_threads :: "nat group_sys res" where
  "two_threads = EventLoopGroup_start False 1 ''EPOLL'' fresh_thread"

lemmas run_defs = worker_step_defs EventLoopGroup_run_spawn_def worker_enter_def EventLoop_run_start_def
  EventQueue_start_def TimerQueue_start_def EventLoop_setRobinFunctor_def EventLoop_setRobinFunctor1_def
  EventLoop_curr_thread_loop_def EventLoop_bind_to_thread_def Poller_bind_to_thread_def fresh_thread_def
  EventLoop_new_def EventQueue_new_def EventQueue_read_def EventQueue_wakeup_def wake_loop_def set_pc_def upd_loop_def
  group_n_def

lemma two_threads_run:
  "\<exists>s0 s. two_threads = Inr s0 \<and> exec one_no s0 = Some s \<and> summary s = ([Finished, Polling], False, [Some 1, Some 1001])"
  "\<exists>s0 s. two_threads = Inr s0 \<and> exec (one_no @ [Answer True, Do 1, Do 1]) s0 = Some s
     \<and> summary s = ([Finished, Polling], True, [Some 1, Some 0])"
  by (simp_all add: two_threads_def EventLoopGroup_start_def EventLoopGroup_new_def run_defs one_no_def summary_def Let_def)

lemma exec_reach:
  assumes "two_threads = Inr s0" "exec ms s0 = Some s" "stays \<longrightarrow> Answer True \<notin> set ms"
  shows "group_reach stays False 1 ''EPOLL'' s"
  unfolding group_reach_def
  using exec_run [OF assms(2) group_run.refl assms(3)] assms(1) by (auto simp: two_threads_def)


text \<open>A functor that says no only once ends one thread; the others, woken, ask again and go on waiting, so
  the join never returns.\<close>

theorem EventLoopGroup_one_no_hangs:
  "\<exists>s. group_reach False False 1 ''EPOLL'' (s :: nat group_sys) \<and> pcs s = [Finished, Polling] \<and> keep s
     \<and> (\<forall>i \<le> 1. worker_step i s = None) \<and> \<not> EventLoopGroup_joins s"
proof -
  obtain s0 s where s: "two_threads = Inr s0" "exec (one_no @ [Answer True, Do 1, Do 1]) s0 = Some s"
    "summary s = ([Finished, Polling], True, [Some 1, Some 0])"
    using two_threads_run(2) by blast
  have r: "group_reach False False 1 ''EPOLL'' s" by (rule exec_reach [OF s(1,2)]) simp
  have p: "pcs s = [Finished, Polling]" "keep s" using s(3) by (simp_all add: summary_def)
  have "eventfd (loop_queue (loops s ! 1)) = Some 0"
    using s(3) by (auto simp: summary_def map_eq_Cons_conv)
  then have "worker_step i s = None" if "i \<le> 1" for i
    using p(1) that by (cases i) (simp_all add: worker_step_defs EventQueue_read_def)
  with r p show ?thesis by (intro exI [of _ s]) (simp add: EventLoopGroup_joins_def)
qed

text \<open>The binding of threads. The constructor binds the first loop to its thread, so a second group
  in the same thread throws; before \<^verbatim>\<open>run\<close> the loops have no functor that chooses a loop; and everything made
  in this thread, such as an accepted connection, takes its timers from the first loop, although the
  connection itself is served by the loop of its descriptor, in another thread.\<close>

theorem EventLoopGroup_thread_binding:
  assumes "EventLoopGroup_start apple n chooser fresh_thread = Inr s"
  shows "EventLoopGroup_start apple' m chooser' (tlocals s ! 0)
        = Inl (Thrown ''th_loop cannot be bound more than one time'')
    \<and> EventLoop_robinLoop fd (loops s ! 0) = Inl (Thrown ''bad_function_call'')
    \<and> TimerMixin_new (tlocals s ! 0) = Some 0 \<and> Poller_curr_thread_poller (tlocals s ! 0) = Inr 0
    \<and> (0 \<le> fd \<and> fd mod (int n + 1) \<noteq> 0 \<longrightarrow>
        (\<exists>l. EventLoopGroup_robinLoop fd (grp s) = Inr l \<and> Some l \<noteq> TimerMixin_new (tlocals s ! 0)))"
proof -
  obtain g where g: "EventLoopGroup_new (int n) = Inr g" "group_ok g" "gr_n g = int n"
    using EventLoopGroup_new_ok [of "int n"] by auto
  have s: "s = \<lparr>grp = g, loops = replicate (n + 1) (EventLoop_new apple chooser),
      tlocals = \<lparr>th_loop = Some 0, th_poller = Some 0\<rparr> # replicate n fresh_thread,
      pcs = Spawning 0 # replicate n Unborn, keep = True\<rparr>"
    using assms g(1) by (simp add: EventLoopGroup_start_def EventLoop_bind_to_thread_def
        Poller_bind_to_thread_def fresh_thread_def)
  have "fd mod (int n + 1) \<noteq> 0 \<longrightarrow> 0 < fd mod (int n + 1)"
  proof -
    have "0 \<le> fd mod (int n + 1)" by simp
    then show ?thesis by linarith
  qed
  moreover obtain g' where "EventLoopGroup_new (int m) = Inr g'" using EventLoopGroup_new_ok [of "int m"] by auto
  ultimately show ?thesis
    using robinLoop_ok [OF g(2), of fd] g(3)
    by (simp add: s EventLoopGroup_start_def EventLoop_bind_to_thread_def EventLoop_robinLoop_def EventLoop_new_def
        TimerMixin_new_def EventLoop_curr_thread_loop_def Poller_curr_thread_poller_def)
qed

lemma EventLoopGroup_thread_binding_witness:
  "\<exists>s. EventLoopGroup_start False 1 ''EPOLL'' fresh_thread = Inr (s :: nat group_sys)
     \<and> EventLoopGroup_start False 0 ''POLL'' (tlocals s ! 0)
       = (Inl (Thrown ''th_loop cannot be bound more than one time'') :: nat group_sys res)"
proof -
  obtain s0 where "two_threads = Inr s0" using two_threads_run(1) by blast
  then have s: "EventLoopGroup_start False 1 ''EPOLL'' fresh_thread = Inr s0" by (simp add: two_threads_def)
  from EventLoopGroup_thread_binding [OF s] s show ?thesis by blast
qed

end
