(* ===== verification/Exit_Callers.thy ===== *)
theory Exit_Callers
  imports Prelude
begin

text \<open>
  The helpers of \<^verbatim>\<open>src/src/util.h\<close> and \<^verbatim>\<open>util.cpp\<close> that run functors later: \<^verbatim>\<open>ExitCaller\<close> at the end of the
  program, \<^verbatim>\<open>DeconstructCaller\<close> and \<^verbatim>\<open>DeferCaller\<close> at the end of an object, and \<^verbatim>\<open>ErrnoSaver\<close>, which puts
  \<^verbatim>\<open>errno\<close> back.
\<close>

section \<open>ExitCaller\<close>

text \<open>
  The single caller registers \<^verbatim>\<open>callOnExit\<close> with \<^verbatim>\<open>atexit\<close> when it is first asked for. The mutex is not
  recursive: to lock it again in the thread that holds it never returns. \<open>exit_ran\<close> are the functors run.
\<close>

record 'h exit_caller =
  at_exit :: bool
  exit_locked :: bool
  exit_functors :: "'h list"
  exit_ran :: "'h list"

definition exit_none :: "'h exit_caller" where
  "exit_none = \<lparr>at_exit = False, exit_locked = False, exit_functors = [], exit_ran = []\<rparr>"

definition ExitCaller_new :: "'h exit_caller \<Rightarrow> 'h exit_caller" where
  "ExitCaller_new s = s\<lparr>at_exit := True\<rparr>"

definition ExitCaller_getCaller :: "'h exit_caller \<Rightarrow> 'h exit_caller" where
  "ExitCaller_getCaller s = (if at_exit s then s else ExitCaller_new s)"

definition lock_exit :: "'h exit_caller \<Rightarrow> 'h exit_caller res" where
  "lock_exit s = (if exit_locked s then Inl Diverges else Inr (s\<lparr>exit_locked := True\<rparr>))"

definition ExitCaller_callImp :: "'h \<Rightarrow> 'h exit_caller \<Rightarrow> 'h exit_caller res" where
  "ExitCaller_callImp h s =
     bind_res (lock_exit s) (\<lambda>s. Inr (s\<lparr>exit_functors := exit_functors s @ [h], exit_locked := False\<rparr>))"

definition ExitCaller_call :: "'h \<Rightarrow> 'h exit_caller \<Rightarrow> 'h exit_caller res" where
  "ExitCaller_call h s = ExitCaller_callImp h (ExitCaller_getCaller s)"

fun exit_calls :: "'h list \<Rightarrow> 'h exit_caller \<Rightarrow> 'h exit_caller res" where
  "exit_calls [] s = Inr s"
| "exit_calls (h # hs) s = bind_res (ExitCaller_call h s) (exit_calls hs)"

text \<open>\<open>beh h\<close> are the functors that \<open>h\<close> itself hands to \<^verbatim>\<open>ExitCaller::call\<close> when it runs.\<close>

fun exit_each :: "('h \<Rightarrow> 'h list) \<Rightarrow> 'h list \<Rightarrow> 'h exit_caller \<Rightarrow> 'h exit_caller res" where
  "exit_each beh [] s = Inr s"
| "exit_each beh (h # hs) s =
     bind_res (exit_calls (beh h) (s\<lparr>exit_ran := exit_ran s @ [h]\<rparr>)) (exit_each beh hs)"

definition ExitCaller_callOnExit :: "('h \<Rightarrow> 'h list) \<Rightarrow> 'h exit_caller \<Rightarrow> 'h exit_caller res" where
  "ExitCaller_callOnExit beh s =
     bind_res (lock_exit s) (\<lambda>s.
     bind_res (exit_each beh (exit_functors s) s) (\<lambda>s. Inr (s\<lparr>exit_locked := False\<rparr>)))"

text \<open>The end of the program.\<close>

definition program_exit :: "('h \<Rightarrow> 'h list) \<Rightarrow> 'h exit_caller \<Rightarrow> 'h exit_caller res" where
  "program_exit beh s = (if at_exit s then ExitCaller_callOnExit beh s else Inr s)"

lemma exit_calls_ok:
  "\<not> exit_locked s \<Longrightarrow> exit_calls hs s = Inr (s\<lparr>at_exit := at_exit s \<or> hs \<noteq> [], exit_functors := exit_functors s @ hs\<rparr>)"
proof (induction hs arbitrary: s)
  case Nil
  then show ?case by (cases s) simp
next
  case (Cons h hs)
  let ?s = "s\<lparr>at_exit := True, exit_functors := exit_functors s @ [h]\<rparr>"
  have "ExitCaller_call h s = Inr ?s"
    using Cons.prems by (cases s) (simp add: ExitCaller_call_def ExitCaller_getCaller_def ExitCaller_new_def
      ExitCaller_callImp_def lock_exit_def)
  with Cons.IH [of ?s] Cons.prems show ?case by simp
qed

lemma exit_calls_locked: "exit_locked s \<Longrightarrow> exit_calls hs s = (if hs = [] then Inr s else Inl Diverges)"
  by (cases hs) (simp_all add: ExitCaller_call_def ExitCaller_getCaller_def ExitCaller_new_def
      ExitCaller_callImp_def lock_exit_def)

lemma exit_each_locked:
  "exit_locked s \<Longrightarrow> exit_each beh hs s =
     (if \<forall>h \<in> set hs. beh h = [] then Inr (s\<lparr>exit_ran := exit_ran s @ hs\<rparr>) else Inl Diverges)"
  by (induction hs arbitrary: s) (simp_all add: exit_calls_locked)

section \<open>Callers at the end of an object\<close>

text \<open>\<open>None\<close> is an empty functor, or none after \<^verbatim>\<open>cancel\<close>. A functor is its effect on the program's state.\<close>

type_synonym 's deferred = "('s \<Rightarrow> 's) option"

definition DeferCaller_new :: "('s \<Rightarrow> 's) option \<Rightarrow> 's deferred" where
  "DeferCaller_new f = f"

definition DeferCaller_cancel :: "'s deferred \<Rightarrow> 's deferred" where
  "DeferCaller_cancel d = None"

definition DeferCaller_destructor :: "'s deferred \<Rightarrow> 's \<Rightarrow> 's" where
  "DeferCaller_destructor d s = (case d of None \<Rightarrow> s | Some f \<Rightarrow> f s)"

text \<open>The objects of a block are destroyed in the opposite order, after its body.\<close>

fun in_scope :: "('s deferred) list \<Rightarrow> ('s \<Rightarrow> 's) \<Rightarrow> 's \<Rightarrow> 's" where
  "in_scope [] body s = body s"
| "in_scope (d # ds) body s = DeferCaller_destructor d (in_scope ds body s)"

text \<open>\<^verbatim>\<open>DeconstructCaller\<close> copies its list unless it is empty; \<open>None\<close> is the null pointer.\<close>

definition DeconstructCaller_new :: "('s \<Rightarrow> 's) list \<Rightarrow> ('s \<Rightarrow> 's) list option" where
  "DeconstructCaller_new callerList = (if 0 < length callerList then Some callerList else None)"

definition DeconstructCaller_destructor :: "('s \<Rightarrow> 's) list option \<Rightarrow> 's \<Rightarrow> 's" where
  "DeconstructCaller_destructor handlers s = (case handlers of None \<Rightarrow> s | Some fs \<Rightarrow> fold (\<lambda>f. f) fs s)"

text \<open>\<^verbatim>\<open>ErrnoSaver\<close> around a body that may change \<^verbatim>\<open>errno\<close>, the first component of the state.\<close>

definition ErrnoSaver_new :: "int \<times> 's \<Rightarrow> int" where
  "ErrnoSaver_new s = fst s"

definition ErrnoSaver_destructor :: "int \<Rightarrow> int \<times> 's \<Rightarrow> int \<times> 's" where
  "ErrnoSaver_destructor saved s = (saved, snd s)"

definition with_errno_saved :: "(int \<times> 's \<Rightarrow> int \<times> 's) \<Rightarrow> int \<times> 's \<Rightarrow> int \<times> 's" where
  "with_errno_saved body s = (let saved = ErrnoSaver_new s in ErrnoSaver_destructor saved (body s))"

lemma with_errno_saved_effect:
  "fst (with_errno_saved body s) = fst s" "snd (with_errno_saved body s) = snd (body s)"
  by (simp_all add: with_errno_saved_def ErrnoSaver_new_def ErrnoSaver_destructor_def Let_def)

lemma DeconstructCaller_runs_all:
  "DeconstructCaller_destructor (DeconstructCaller_new fs) s = fold (\<lambda>f. f) fs s"
  by (simp add: DeconstructCaller_destructor_def DeconstructCaller_new_def)

lemma in_scope_reverse:
  "in_scope (map (\<lambda>f. DeferCaller_new (Some f)) fs) body s = fold (\<lambda>f. f) (rev fs) (body s)"
  by (induction fs) (simp_all add: DeferCaller_destructor_def DeferCaller_new_def)

lemma in_scope_cancelled: "in_scope (map DeferCaller_cancel ds) body s = body s"
  by (induction ds) (simp_all add: DeferCaller_destructor_def DeferCaller_cancel_def)

section \<open>Properties\<close>

text \<open>C40. The end of the program. Whatever functors were handed to \<^verbatim>\<open>ExitCaller::call\<close>, the end of the program
  runs each of them once, in order, exactly when none of them hands over another: a functor that does
  waits forever for the mutex that \<^verbatim>\<open>callOnExit\<close> holds, and the program never ends.\<close>

theorem ExitCaller_runs_all_or_hangs:
  "bind_res (exit_calls hs exit_none) (program_exit beh) =
     (if \<forall>h \<in> set hs. beh h = []
      then Inr \<lparr>at_exit = (hs \<noteq> []), exit_locked = False, exit_functors = hs, exit_ran = hs\<rparr>
      else Inl Diverges)"
proof (cases "hs = []")
  case True
  then show ?thesis by (simp add: program_exit_def exit_none_def)
next
  case False
  have "exit_calls hs exit_none = Inr \<lparr>at_exit = True, exit_locked = False, exit_functors = hs, exit_ran = []\<rparr>"
    using exit_calls_ok [of exit_none hs] False by (simp add: exit_none_def)
  then show ?thesis
    using False by (simp add: program_exit_def ExitCaller_callOnExit_def lock_exit_def exit_each_locked)
qed

lemma ExitCaller_runs_all_or_hangs_witness:
  "bind_res (exit_calls [1, 2 :: nat] exit_none) (program_exit (\<lambda>_. [])) =
     Inr \<lparr>at_exit = True, exit_locked = False, exit_functors = [1, 2], exit_ran = [1, 2]\<rparr>
   \<and> bind_res (exit_calls [1, 2 :: nat] exit_none) (program_exit (\<lambda>h. if h = 1 then [3] else [])) = Inl Diverges"
  using ExitCaller_runs_all_or_hangs [of "[1, 2 :: nat]" "\<lambda>_. []"]
    ExitCaller_runs_all_or_hangs [of "[1, 2 :: nat]" "\<lambda>h. if h = 1 then [3] else []"]
  by simp

end
