(* ===== verification/Relays.thy ===== *)
theory Relays
  imports Served_Conns
begin

text \<open>
  Programs on top of the library (\<^verbatim>\<open>src/examples/\<close>): the echo server and the TCP relay, which joins
  two connections. A program is what it does in its callbacks; the
  events are those of its channels, with whatever the kernel answers.
\<close>

section \<open>The echo server\<close>

text \<open>The read callback of \<^verbatim>\<open>echo.cpp\<close>.\<close>

definition echo :: "'h cbehaviour" where
  "echo = (\<lambda>e es. case e of ReadCb \<Rightarrow> [SendRead None] | _ \<Rightarrow> [])"

fun echo_run :: "sock_event list \<Rightarrow> 'h conn \<Rightarrow> 'h conn res option" where
  "echo_run [] c = Some (Inr c)"
| "echo_run (e # es) c = bind_run (deliver echo e c) (echo_run es)"

lemma calm_echo: "calm echo"
  by (simp add: calm_def echo_def)

interpretation echo_writes: write_tasks echo plain_tasks
  by unfold_locales (use calm_echo plain_consumes in \<open>auto simp: plain_tasks_def\<close>)

lemma echo_data:
  fixes c :: "'h conn"
  assumes "between out c" "ds \<noteq> []" "length ds \<le> 16384"
  shows "\<exists>c'. Connection_handleReadEvent echo (Data ds) c = Inr c' \<and> between (out @ ds) c'
    \<and> read_on c' = read_on c \<and> write_on c'"
proof -
  obtain b where b: "buf_ok b" "content b = map Some ds"
    "Connection_handleReadEvent echo (Data ds) c = run_cev echo ReadCb (c\<lparr>readBuf := b\<rparr>)"
    using handleRead_data [of c ds echo] assms by (auto simp: between_def)
  let ?c = "c\<lparr>readBuf := b, cevents := cevents c @ [ReadCb]\<rparr>"
  obtain b' c' where s: "Connection_send_buffer b None ?c = Inr (b', c')" "buf_ok b'" "content b' = []" "bufptr b' \<noteq> None"
    "c' = ?c\<lparr>writTasks := writTasks c', queued := queued c', promised := promised c', write_on := True\<rparr>"
    "plain_tasks (writTasks c')" "outgoing c' = outgoing ?c @ map Byte (content b)"
    using send_buffer_plain [of ?c b] assms b(1,2) by (auto simp: between_def)
  have "Connection_handleReadEvent echo (Data ds) c = Inr (c'\<lparr>readBuf := b'\<rparr>)"
    using b(3) s(1) by (simp add: run_cev_def echo_def)
  moreover have "\<not> destroyed c' \<and> has_readcb c' \<and> read_on c' = read_on c \<and> write_on c'"
    using assms(1) by (subst (1 2 3 4) s(5)) (simp add: between_def)
  moreover have "outgoing (c'\<lparr>readBuf := b'\<rparr>) = map (Byte \<circ> Some) (out @ ds)"
  proof -
    have "outgoing (c'\<lparr>readBuf := b'\<rparr>) = outgoing c'" by (simp add: outgoing_def)
    also have "\<dots> = outgoing c @ map Byte (map Some ds)" using s(7) b(2) by (simp add: outgoing_def)
    finally show ?thesis using between_outgoing [OF assms(1)] by simp
  qed
  ultimately show ?thesis using s(2,3,4,6) by (auto simp: between_def)
qed

lemma echo_step:
  assumes "between out c" "event_ok e"
  shows "\<exists>c'. deliver echo e c = Some (Inr c') \<and>
    (if destroyed c' then \<exists>rest. map (Byte \<circ> Some) (out @ event_bytes e) = wire c' @ rest
     else between (out @ event_bytes e) c')"
proof -
  have live: "\<not> destroyed c" and pl: "plain_tasks (writTasks c)" using assms(1) by (simp_all add: between_def)
  have pre: "\<exists>rest. map (Byte \<circ> Some) out = wire c @ rest"
    using between_outgoing [OF assms(1)] by (metis outgoing_def)
  show ?thesis
  proof (cases e)
    case (Writable as)
    obtain c' where "Connection_handleWritEvent echo as c = Some (Inr c')" "wrote plain_tasks c c'"
      using echo_writes.handleWrit_wrote [OF pl live] by blast
    with wrote_between [OF assms(1), of c'] Writable live show ?thesis by (auto simp: deliver_def)
  next
    case (Readable a)
    show ?thesis
    proof (cases "\<exists>ds. a = Data ds \<and> ds \<noteq> []")
      case True
      then obtain ds where ds: "a = Data ds" "ds \<noteq> []" by blast
      obtain c' where "Connection_handleReadEvent echo (Data ds) c = Inr c'" "between (out @ ds) c'"
        using echo_data [OF assms(1) ds(2)] assms(2) Readable ds(1) by (auto simp: event_ok_def)
      with Readable ds live show ?thesis by (auto simp: deliver_def between_def)
    next
      case False
      then have bytes: "event_bytes e = []" using Readable by (cases a) auto
      obtain c' where "Connection_handleReadEvent echo a c = Inr c'" "c' = c \<or> destroyed c' \<and> wire c' = wire c"
        using quiet_read [OF assms(1) _ calm_echo, of a] False by auto
      with Readable live bytes assms(1) pre show ?thesis by (auto simp: deliver_def)
    qed
  qed
qed

lemma echo_run_dead: "destroyed c \<Longrightarrow> echo_run es c = Some (Inr c)"
  by (induction es) (simp_all add: deliver_def)

lemma echo_run_ok:
  "between out c \<Longrightarrow> \<forall>e \<in> set es. event_ok e \<Longrightarrow>
     \<exists>c'. echo_run es c = Some (Inr c') \<and>
       (if destroyed c' then \<exists>rest. map (Byte \<circ> Some) (out @ concat (map event_bytes es)) = wire c' @ rest
        else between (out @ concat (map event_bytes es)) c')"
proof (induction es arbitrary: out c)
  case Nil
  then show ?case by (simp add: between_def)
next
  case (Cons e es)
  obtain d where d: "deliver echo e c = Some (Inr d)"
    "if destroyed d then \<exists>rest. map (Byte \<circ> Some) (out @ event_bytes e) = wire d @ rest
     else between (out @ event_bytes e) d"
    using echo_step [OF Cons.prems(1), of e] Cons.prems(2) by auto
  show ?case
  proof (cases "destroyed d")
    case True
    with d obtain rest where "map (Byte \<circ> Some) (out @ event_bytes e) = wire d @ rest" by auto
    then have "map (Byte \<circ> Some) (out @ concat (map event_bytes (e # es)))
        = wire d @ (rest @ map (Byte \<circ> Some) (concat (map event_bytes es)))"
      by (metis append_assoc concat.simps(2) list.simps(9) map_append)
    moreover have "echo_run (e # es) c = Some (Inr d)" using d(1) echo_run_dead [OF True] by simp
    ultimately show ?thesis using True by (intro exI [of _ d]) (simp only: if_True, blast)
  next
    case False
    with d(2) have "between (out @ event_bytes e) d" by simp
    from Cons.IH [OF this] Cons.prems(2) obtain c' where c': "echo_run es d = Some (Inr c')"
      "if destroyed c' then \<exists>rest. map (Byte \<circ> Some) ((out @ event_bytes e) @ concat (map event_bytes es)) = wire c' @ rest
       else between ((out @ event_bytes e) @ concat (map event_bytes es)) c'" by auto
    have "echo_run (e # es) c = Some (Inr c')" using d(1) c'(1) by simp
    moreover have "out @ concat (map event_bytes (e # es)) = (out @ event_bytes e) @ concat (map event_bytes es)" by simp
    ultimately show ?thesis using c'(2) by metis
  qed
qed

section \<open>The TCP relay\<close>

text \<open>
  Two connections that hold each other weakly in their contexts: \<open>rl_front\<close> is the accepted one, \<open>rl_back\<close>
  the one to the other host, \<open>None\<close> until it is connected. \<open>got_front\<close> and \<open>got_back\<close> are the bytes read.
\<close>

record 'h relay =
  rl_front :: "'h conn"
  rl_back :: "'h conn option"
  got_front :: "char list"
  got_back :: "char list"

text \<open>\<^verbatim>\<open>TcpRelayer::onRead\<close> for the connection \<open>x\<close>; \<open>None\<close> is no context or an expired one.\<close>

definition TcpRelayer_onRead :: "'h conn \<Rightarrow> 'h conn option \<Rightarrow> ('h conn \<times> 'h conn option) res" where
  "TcpRelayer_onRead x peer =
     (case peer of
        None \<Rightarrow> Inr (Connection_destroy x, None)
      | Some y \<Rightarrow>
          if destroyed y then Inr (Connection_destroy x, Some y)
          else bind_res (Connection_send_buffer (readBuf x) None y) (\<lambda>(b, y). Inr (x\<lparr>readBuf := b\<rparr>, Some y)))"

definition TcpRelayer_onErro :: "'h conn option \<Rightarrow> 'h conn option" where
  "TcpRelayer_onErro peer = map_option Connection_destroy peer"

text \<open>
  An event of one of the two: the event of the connection itself, in which the callbacks only leave
  their mark, and then what the callback did.
\<close>

definition calls_read :: "sock_event \<Rightarrow> bool" where
  "calls_read e \<longleftrightarrow> event_bytes e \<noteq> []"

definition relay_event :: "sock_event \<Rightarrow> 'h conn \<Rightarrow> 'h conn option \<Rightarrow> ('h conn \<times> 'h conn option) res option" where
  "relay_event e x peer =
     (if destroyed x then Some (Inr (x, peer))
      else bind_run (deliver silent e x) (\<lambda>x'.
        if calls_read e \<and> has_readcb x then Some (TcpRelayer_onRead x' peer)
        else if destroyed x' then Some (Inr (x', TcpRelayer_onErro peer))
        else Some (Inr (x', peer))))"

text \<open>The connection a client makes, before its connector runs.\<close>

definition connected_conn :: "'h conn res" where
  "connected_conn = bind_res (Connection_new False False) (Connection_enableRead True)"

text \<open>
  The relay gets events on both sides and the answer of its client, a connection or none. The answer
  links the connections when the accepted one still lives.
\<close>

datatype relay_input = Front sock_event | Back sock_event | Connected bool

definition TcpRelayer_connected :: "bool \<Rightarrow> 'h relay \<Rightarrow> 'h relay res" where
  "TcpRelayer_connected ok r =
     (if rl_back r \<noteq> None then Inr r
      else if ok \<and> \<not> destroyed (rl_front r)
        then bind_res connected_conn (\<lambda>c.
             let c = Connection_onErro True (Connection_onRead True c);
                 f = Connection_onErro True (Connection_onRead True (rl_front r)) in
             bind_res (Connection_enableRead True c) (\<lambda>c. bind_res (Connection_enableRead True f) (\<lambda>f.
             Inr (r\<lparr>rl_front := f, rl_back := Some c\<rparr>))))
      else Inr (r\<lparr>rl_front := Connection_destroy (rl_front r)\<rparr>))"

definition relay_step :: "relay_input \<Rightarrow> 'h relay \<Rightarrow> 'h relay res option" where
  "relay_step i r =
     (case i of
        Connected ok \<Rightarrow> Some (TcpRelayer_connected ok r)
      | Front e \<Rightarrow>
          bind_run (relay_event e (rl_front r) (rl_back r)) (\<lambda>(x, y). Some (Inr (r\<lparr>rl_front := x, rl_back := y,
            got_front := got_front r @ (if destroyed (rl_front r) then [] else event_bytes e)\<rparr>)))
      | Back e \<Rightarrow>
          (case rl_back r of
             None \<Rightarrow> Some (Inr r)
           | Some y \<Rightarrow>
               bind_run (relay_event e y (Some (rl_front r))) (\<lambda>(y', x). Some (Inr (r\<lparr>rl_back := Some y',
                 rl_front := (case x of Some x \<Rightarrow> x | None \<Rightarrow> rl_front r),
                 got_back := got_back r @ (if destroyed y then [] else event_bytes e)\<rparr>)))))"

fun relay_run :: "relay_input list \<Rightarrow> 'h relay \<Rightarrow> 'h relay res option" where
  "relay_run [] r = Some (Inr r)"
| "relay_run (i # is) r = bind_run (relay_step i r) (relay_run is)"

definition relay_new :: "'h relay res" where
  "relay_new = bind_res accepted_conn (\<lambda>c. Inr \<lparr>rl_front = c, rl_back = None, got_front = [], got_back = []\<rparr>)"

lemma relay_data:
  fixes x y :: "'h conn"
  assumes "between ox x" "between oy y" "ds \<noteq> []" "length ds \<le> 16384"
  shows "\<exists>x' y'. relay_event (Readable (Data ds)) x (Some y) = Some (Inr (x', Some y'))
    \<and> between ox x' \<and> between (oy @ ds) y'"
proof -
  obtain b where b: "buf_ok b" "content b = map Some ds"
    "Connection_handleReadEvent silent (Data ds) x = run_cev silent ReadCb (x\<lparr>readBuf := b\<rparr>)"
    using handleRead_data [of x ds silent] assms by (auto simp: between_def)
  obtain b' y' where s: "Connection_send_buffer b None y = Inr (b', y')" "buf_ok b'" "content b' = []" "bufptr b' \<noteq> None"
    "y' = y\<lparr>writTasks := writTasks y', queued := queued y', promised := promised y', write_on := True\<rparr>"
    "plain_tasks (writTasks y')" "outgoing y' = outgoing y @ map Byte (content b)"
    using send_buffer_plain [of y b] assms b(1,2) by (auto simp: between_def)
  let ?x = "x\<lparr>readBuf := b', cevents := cevents x @ [ReadCb]\<rparr>"
  have "relay_event (Readable (Data ds)) x (Some y) = Some (Inr (?x, Some y'))"
    using b(3) s(1) assms(1-3)
    by (simp add: relay_event_def deliver_def run_cev_def silent_def calls_read_def TcpRelayer_onRead_def between_def)
  moreover have "between ox ?x" using assms(1) s(2-4) by (simp add: between_def outgoing_def)
  moreover have "between (oy @ ds) y'"
  proof -
    have "\<not> destroyed y' \<and> has_readcb y' \<and> readBuf y' = readBuf y"
      using assms(2) by (subst (1 2 3) s(5)) (simp add: between_def)
    then show ?thesis
      using assms(2) s(6,7) b(2) between_outgoing [OF assms(2)] by (simp add: between_def)
  qed
  ultimately show ?thesis by blast
qed

lemma relay_event_linked:
  assumes "between ox x" "between oy y" "event_ok e"
  shows "\<exists>x' y'. relay_event e x (Some y) = Some (Inr (x', Some y'))
    \<and> (between ox x' \<and> between (oy @ event_bytes e) y' \<or> cut_off ox x' \<and> cut_off (oy @ event_bytes e) y')"
proof (cases "event_bytes e = []")
  case False
  then obtain ds where ds: "e = Readable (Data ds)" by (cases e rule: event_bytes.cases) auto
  with relay_data [OF assms(1,2), of ds] assms(3) False show ?thesis by (auto simp: event_ok_def)
next
  case True
  obtain x' where x': "deliver silent e x = Some (Inr x')" "between ox x' \<or> cut_off ox x'"
    using other_event [OF assms(1,3) True] by blast
  from x'(2) show ?thesis
  proof
    assume "between ox x'"
    then show ?thesis
      using x'(1) True between_live assms(1,2) by (auto simp: relay_event_def calls_read_def)
  next
    assume c: "cut_off ox x'"
    then have "relay_event e x (Some y) = Some (Inr (x', Some (Connection_destroy y)))"
      using x'(1) True between_live [OF assms(1)] by (simp add: relay_event_def calls_read_def TcpRelayer_onErro_def cut_off_def)
    then show ?thesis using c cut_off_destroy [OF assms(2)] True by auto
  qed
qed

lemma relay_event_single:
  assumes "between ox x" "event_ok e"
  shows "\<exists>x'. relay_event e x None = Some (Inr (x', None))
    \<and> (between ox x' \<and> event_bytes e = [] \<or> cut_off ox x')"
proof (cases "event_bytes e = []")
  case False
  then obtain ds where ds: "e = Readable (Data ds)" by (cases e rule: event_bytes.cases) auto
  obtain b where b: "Connection_handleReadEvent silent (Data ds) x = run_cev silent ReadCb (x\<lparr>readBuf := b\<rparr>)"
    using handleRead_data [of x ds silent] assms False ds by (auto simp: between_def event_ok_def)
  let ?x = "Connection_destroy (x\<lparr>readBuf := b, cevents := cevents x @ [ReadCb]\<rparr>)"
  have "relay_event e x None = Some (Inr (?x, None))"
    using b assms(1) False ds
    by (simp add: relay_event_def deliver_def run_cev_def silent_def calls_read_def TcpRelayer_onRead_def between_def)
  moreover have "cut_off ox ?x"
    by (rule cut_off_wire [OF assms(1)]) (use between_live [OF assms(1)] in \<open>simp_all add: Connection_destroy_def\<close>)
  ultimately show ?thesis by blast
next
  case True
  obtain x' where x': "deliver silent e x = Some (Inr x')" "between ox x' \<or> cut_off ox x'"
    using other_event [OF assms True] by blast
  then show ?thesis
    using True between_live [OF assms(1)] between_live [of ox x']
    by (auto simp: relay_event_def calls_read_def TcpRelayer_onErro_def cut_off_def)
qed

fun front_bytes :: "relay_input \<Rightarrow> char list" where
  "front_bytes (Front e) = event_bytes e"
| "front_bytes _ = []"

definition input_ok :: "relay_input \<Rightarrow> bool" where
  "input_ok i \<longleftrightarrow> (case i of Front e \<Rightarrow> event_ok e | Back e \<Rightarrow> event_ok e | Connected _ \<Rightarrow> True)"

text \<open>\<open>seen\<close> is everything that came in on the accepted connection.\<close>

definition relay_inv :: "char list \<Rightarrow> 'h relay \<Rightarrow> bool" where
  "relay_inv seen r \<longleftrightarrow>
     (case rl_back r of
        None \<Rightarrow> got_back r = [] \<and> (between [] (rl_front r) \<and> got_front r = [] \<and> seen = [] \<or> cut_off [] (rl_front r))
      | Some y \<Rightarrow>
          between (got_back r) (rl_front r) \<and> between (got_front r) y \<and> got_front r = seen
          \<or> cut_off (got_back r) (rl_front r) \<and> cut_off (got_front r) y)"

lemma connect_inv:
  fixes r :: "'h relay"
  assumes "relay_inv seen r"
  shows "\<exists>r'. TcpRelayer_connected ok r = Inr r' \<and> relay_inv seen r'"
proof (cases "rl_back r = None \<and> ok \<and> \<not> destroyed (rl_front r)")
  case True
  then have f: "between [] (rl_front r)" "got_front r = []" "got_back r = []" "seen = []"
    using assms by (auto simp: relay_inv_def cut_off_def)
  define c where "c = buf_of (replicate 1024 None) 0 0"
  let ?f = "(rl_front r)\<lparr>has_readcb := True, has_errocb := True, read_on := True\<rparr>"
  let ?c = "\<lparr>destroyed = False, read_on = True, write_on = False, readBuf = c, writTasks = [], has_readcb = True,
    has_errocb = True, cevents = [], wire = [], queued = [], promised = []\<rparr> :: 'h conn"
  have "TcpRelayer_connected ok r = Inr (r\<lparr>rl_front := ?f, rl_back := Some ?c\<rparr>)"
    using True by (simp add: TcpRelayer_connected_def connected_conn_def Connection_new_def Buffer_alloc_ok c_def
      Connection_enableRead_def Connection_onRead_def Connection_onErro_def)
  moreover have "between [] ?f" using f(1) by (simp add: between_def outgoing_def)
  moreover have "between [] ?c"
    by (simp add: between_def outgoing_def plain_tasks_def c_def)
  ultimately show ?thesis using f by (simp add: relay_inv_def)
next
  case False
  then show ?thesis
    using assms cut_off_destroy [of "[]" "rl_front r"] between_live [of "[]" "rl_front r"]
    by (auto simp: TcpRelayer_connected_def relay_inv_def Connection_destroy_def cut_off_def split: option.splits)
qed

lemma dead_event: "destroyed x \<Longrightarrow> relay_event e x p = Some (Inr (x, p))"
  by (simp add: relay_event_def)

lemma front_inv:
  assumes "relay_inv seen r" "event_ok e"
  shows "\<exists>r'. relay_step (Front e) r = Some (Inr r') \<and> relay_inv (seen @ event_bytes e) r'"
proof (cases "destroyed (rl_front r)")
  case True
  then have "relay_step (Front e) r = Some (Inr r)" by (simp add: relay_step_def dead_event)
  moreover have "relay_inv (seen @ event_bytes e) r"
    using assms(1) True between_live by (auto simp: relay_inv_def split: option.splits)
  ultimately show ?thesis by blast
next
  case live: False
  show ?thesis
  proof (cases "rl_back r")
    case None
    with assms(1) live have f: "between [] (rl_front r)" "got_front r = []" "got_back r = []" "seen = []"
      by (auto simp: relay_inv_def cut_off_def)
    obtain x' where x': "relay_event e (rl_front r) None = Some (Inr (x', None))"
      "between [] x' \<and> event_bytes e = [] \<or> cut_off [] x'"
      using relay_event_single [OF f(1) assms(2)] by blast
    with None f live show ?thesis by (auto simp: relay_step_def relay_inv_def)
  next
    case (Some y)
    with assms(1) live have f: "between (got_back r) (rl_front r)" "between (got_front r) y" "got_front r = seen"
      by (auto simp: relay_inv_def cut_off_def)
    from relay_event_linked [OF f(1,2) assms(2)] Some f(3) live show ?thesis
      by (auto simp: relay_step_def relay_inv_def)
  qed
qed

lemma back_inv:
  assumes "relay_inv seen r" "event_ok e"
  shows "\<exists>r'. relay_step (Back e) r = Some (Inr r') \<and> relay_inv seen r'"
proof (cases "rl_back r")
  case None
  with assms(1) show ?thesis by (simp add: relay_step_def)
next
  case (Some y)
  show ?thesis
  proof (cases "destroyed y")
    case True
    with Some have "relay_step (Back e) r = Some (Inr (r\<lparr>rl_back := Some y\<rparr>))"
      by (simp add: relay_step_def dead_event)
    with assms(1) Some show ?thesis by (simp add: relay_inv_def)
  next
    case False
    with Some assms(1) have f: "between (got_back r) (rl_front r)" "between (got_front r) y" "got_front r = seen"
      by (auto simp: relay_inv_def cut_off_def)
    from relay_event_linked [OF f(2,1) assms(2)] Some f(3) False show ?thesis
      by (auto simp: relay_step_def relay_inv_def)
  qed
qed

lemma relay_run_inv:
  "relay_inv seen r \<Longrightarrow> \<forall>i \<in> set is. input_ok i \<Longrightarrow>
     \<exists>r'. relay_run is r = Some (Inr r') \<and> relay_inv (seen @ concat (map front_bytes is)) r'"
proof (induction "is" arbitrary: seen r)
  case Nil
  then show ?case by simp
next
  case (Cons i "is")
  have "\<exists>r1. relay_step i r = Some (Inr r1) \<and> relay_inv (seen @ front_bytes i) r1"
  proof (cases i)
    case (Front e)
    with front_inv [OF Cons.prems(1), of e] Cons.prems(2) show ?thesis by (simp add: input_ok_def)
  next
    case (Back e)
    with back_inv [OF Cons.prems(1), of e] Cons.prems(2) show ?thesis by (simp add: input_ok_def)
  next
    case (Connected ok)
    with connect_inv [OF Cons.prems(1), of ok] show ?thesis by (simp add: relay_step_def)
  qed
  then obtain r1 where r1: "relay_step i r = Some (Inr r1)" "relay_inv (seen @ front_bytes i) r1" by blast
  from Cons.IH [OF r1(2)] Cons.prems(2) r1(1) show ?case by simp
qed

lemma relay_new_inv: "\<exists>r. (relay_new :: 'h relay res) = Inr r \<and> relay_inv [] r"
proof -
  obtain c :: "'h conn" where c: "accepted_conn = Inr c" "between [] c" using accepted_between by blast
  have "(relay_new :: 'h relay res) = Inr \<lparr>rl_front = c, rl_back = None, got_front = [], got_back = []\<rparr>"
    unfolding relay_new_def c(1) by simp
  moreover have "relay_inv [] \<lparr>rl_front = c, rl_back = None, got_front = [], got_back = []\<rparr>"
    using c(2) by (simp add: relay_inv_def)
  ultimately show ?thesis by blast
qed

section \<open>Properties\<close>

text \<open>C10. The echo server. For a connection of the server and any sequence of reads, of at most 16384 bytes
  each, and writes with any answers of the kernel, no call faults and every write event returns. What
  is on the wire is a prefix of the bytes read, in order; while the connection lives, the rest of them
  is queued, and one write event with room sends it.\<close>

theorem echo_server_echoes:
  fixes c :: "'h conn"
  assumes "accepted_conn = Inr c" "\<forall>e \<in> set es. event_ok e"
  shows "\<exists>c' :: 'h conn. echo_run es c = Some (Inr c')
    \<and> (\<exists>rest. map (Byte \<circ> Some) (concat (map event_bytes es)) = wire c' @ rest
        \<and> (\<not> destroyed c' \<longrightarrow> rest = concat (map task_items (writTasks c'))
            \<and> (\<exists>as c''. Connection_handleWritEvent (\<lambda>_ _. []) as c' = Some (Inr c'')
                \<and> wire c'' = map (Byte \<circ> Some) (concat (map event_bytes es)))))"
proof -
  have "between [] c" using accepted_between [where 'a = 'h] unfolding assms(1) by simp
  from echo_run_ok [OF this assms(2)] obtain c' where c': "echo_run es c = Some (Inr c')"
    "if destroyed c' then \<exists>rest. map (Byte \<circ> Some) (concat (map event_bytes es)) = wire c' @ rest
     else between (concat (map event_bytes es)) c'"
    unfolding append_Nil by blast
  show ?thesis
  proof (cases "destroyed c'")
    case True
    with c' show ?thesis by auto
  next
    case False
    with c' have bt: "between (concat (map event_bytes es)) c'" by simp
    then have out: "map (Byte \<circ> Some) (concat (map event_bytes es)) = wire c' @ concat (map task_items (writTasks c'))"
      using between_outgoing by (metis outgoing_def)
    obtain as c'' where "Connection_handleWritEvent (\<lambda>_ _. []) as c' = Some (Inr c'')" "wire c'' = outgoing c'"
      using writes_rest [of c'] bt False by (auto simp: between_def)
    with c'(1) out between_outgoing [OF bt] show ?thesis by metis
  qed
qed

lemma echo_server_echoes_witness:
  "\<exists>c c' :: nat conn. accepted_conn = Inr c \<and>
     echo_run [Readable (Data ''ping''), Writable [Room 3], Readable (Data ''!'')] c = Some (Inr c')
     \<and> (\<exists>rest. map (Byte \<circ> Some) ''ping!'' = wire c' @ rest)"
proof -
  obtain c :: "nat conn" where c: "accepted_conn = Inr c" using accepted_between by blast
  from echo_server_echoes [OF c, of "[Readable (Data ''ping''), Writable [Room 3], Readable (Data ''!'')]"]
  show ?thesis using c by (auto simp: event_ok_def)
qed

text \<open>C11. The relay. Whatever happens on its two connections, and whether or not the second is made, no
  call faults. Before the connections are joined a byte from the client makes the relay drop it. Once they
  are joined they live and die together, each has sent a prefix of what the other has read, in order,
  and while they live the rest is queued and nothing that the client sent is missing.\<close>

theorem TcpRelayer_relays:
  fixes r :: "'h relay"
  assumes "relay_new = Inr r" "\<forall>i \<in> set is. input_ok i"
  shows "\<exists>r' :: 'h relay. relay_run is r = Some (Inr r') \<and>
    (case rl_back r' of
       None \<Rightarrow> concat (map front_bytes is) \<noteq> [] \<longrightarrow> destroyed (rl_front r')
     | Some y \<Rightarrow> (destroyed (rl_front r') \<longleftrightarrow> destroyed y)
        \<and> (\<exists>rest. map (Byte \<circ> Some) (got_front r') = wire y @ rest)
        \<and> (\<exists>rest. map (Byte \<circ> Some) (got_back r') = wire (rl_front r') @ rest)
        \<and> (\<not> destroyed y \<longrightarrow>
            wire y @ concat (map task_items (writTasks y)) = map (Byte \<circ> Some) (got_front r')
            \<and> got_front r' = concat (map front_bytes is)
            \<and> wire (rl_front r') @ concat (map task_items (writTasks (rl_front r'))) = map (Byte \<circ> Some) (got_back r')))"
proof -
  have "relay_inv [] r" using relay_new_inv [where 'h = 'h] unfolding assms(1) by simp
  from relay_run_inv [OF this assms(2)] obtain r' where r': "relay_run is r = Some (Inr r')"
    "relay_inv (concat (map front_bytes is)) r'"
    unfolding append_Nil by blast
  show ?thesis
  proof (cases "rl_back r'")
    case None
    with r' show ?thesis by (auto simp: relay_inv_def cut_off_def)
  next
    case (Some y)
    with r'(2) consider
      (live) "between (got_back r') (rl_front r')" "between (got_front r') y" "got_front r' = concat (map front_bytes is)"
      | (dead) "cut_off (got_back r') (rl_front r')" "cut_off (got_front r') y"
      by (auto simp: relay_inv_def)
    then show ?thesis
    proof cases
      case live
      then show ?thesis
        using r'(1) Some between_wire [OF live(1)] between_wire [OF live(2)] between_live [OF live(1)]
          between_live [OF live(2)] between_outgoing [OF live(1)] between_outgoing [OF live(2)]
        by (intro exI [of _ r']) (simp add: outgoing_def)
    next
      case dead
      with r'(1) Some show ?thesis by (intro exI [of _ r']) (simp add: cut_off_def)
    qed
  qed
qed

lemma TcpRelayer_relays_witness:
  "\<exists>r r' :: nat relay. relay_new = Inr r
     \<and> relay_run [Connected True, Front (Readable (Data ''abc'')), Back (Writable [Room 2])] r = Some (Inr r')
     \<and> (\<forall>y. rl_back r' = Some y \<longrightarrow> (\<exists>rest. map (Byte \<circ> Some) (got_front r') = wire y @ rest))"
proof -
  obtain r :: "nat relay" where r: "relay_new = Inr r" using relay_new_inv by blast
  from TcpRelayer_relays [OF r, of "[Connected True, Front (Readable (Data ''abc'')), Back (Writable [Room 2])]"]
  show ?thesis using r by (auto simp: input_ok_def event_ok_def split: option.splits)
qed

end
