(* ===== verification/Served_Loop.thy ===== *)
theory Served_Loop
  imports Relays Pollers
begin

text \<open>
  Connections on an event loop: the channels of an epoll poller are those of connections, whose
  callbacks are the handlers of \<^verbatim>\<open>Connection::init\<close> (\<^verbatim>\<open>src/src/Connection.cpp\<close>). It joins \<open>Pollers\<close> and
  \<open>Connections\<close>: what the poller is asked to watch is what each connection wants, in every round.
\<close>

section \<open>A connection's channel\<close>

text \<open>\<^verbatim>\<open>Connection::init\<close>: what a callback of the channel does, with the kernel's answers to \<^verbatim>\<open>readv\<close> and \<^verbatim>\<open>writev\<close>.\<close>

type_synonym answers = "read_answer \<times> write_answer list"

definition Connection_init ::
    "'h cbehaviour \<Rightarrow> kind \<Rightarrow> answers \<Rightarrow> 'h conn \<Rightarrow> 'h conn res option" where
  "Connection_init beh k ans c =
     (case k of
        ReadEvent \<Rightarrow> Some (Connection_handleReadEvent beh (fst ans) c)
      | WritEvent \<Rightarrow> Connection_handleWritEvent beh (snd ans) c
      | ErroEvent \<Rightarrow> Some (Connection_handleErroEvent beh c))"

definition read_bytes :: "kind \<Rightarrow> answers \<Rightarrow> char list" where
  "read_bytes k ans = (if k = ReadEvent then event_bytes (Readable (fst ans)) else [])"

text \<open>
  What the handler did to the channel at address \<open>p\<close>: the end of the connection destroys the channel, which
  removes itself from the poller; \<^verbatim>\<open>enableRead\<close> and \<^verbatim>\<open>enableWrit\<close> set a flag of the channel and hand both to
  the poller, of which the last counts.
\<close>

definition channel_calls :: "nat \<Rightarrow> 'h conn \<Rightarrow> 'g pcall list" where
  "channel_calls p c =
     (if destroyed c then [RemoveChannel p]
      else [EnableRead p (read_on c), EnableWrit p (write_on c), UpdateChannel p])"

text \<open>
  The connections after the callbacks in a log: connection \<open>p\<close> has the channel at address \<open>p\<close>, and \<open>ans i\<close> is
  what the kernel answers in the callback number \<open>i\<close>.
\<close>

definition callback :: "'h cbehaviour \<Rightarrow> answers \<Rightarrow> 'g src \<Rightarrow> 'h conn list \<Rightarrow> 'h conn list res option" where
  "callback beh a x cs =
     (case x of
        Callback p k \<Rightarrow> bind_run (Connection_init beh k a (cs ! p)) (\<lambda>c. Some (Inr (cs[p := c])))
      | Handler _ \<Rightarrow> Some (Inr cs))"

fun callbacks ::
    "'h cbehaviour \<Rightarrow> (nat \<Rightarrow> answers) \<Rightarrow> nat \<Rightarrow> 'g src list \<Rightarrow> 'h conn list \<Rightarrow> 'h conn list res option" where
  "callbacks beh ans i [] cs = Some (Inr cs)"
| "callbacks beh ans i (x # xs) cs = bind_run (callback beh (ans i) x cs) (callbacks beh ans (i + 1) xs)"

text \<open>The behaviour of these callbacks towards the poller.\<close>

definition conns_behaviour :: "'h cbehaviour \<Rightarrow> (nat \<Rightarrow> answers) \<Rightarrow> 'h conn list \<Rightarrow> 'g behaviour" where
  "conns_behaviour beh ans cs x log =
     (case x of
        Handler _ \<Rightarrow> []
      | Callback p k \<Rightarrow>
          (case callbacks beh ans 0 (log @ [x]) cs of
             Some (Inr cs') \<Rightarrow> channel_calls p (cs' ! p)
           | _ \<Rightarrow> []))"

text \<open>The channels of \<open>n\<close> connections at the descriptors \<open>fd\<close>, and their registration by \<^verbatim>\<open>init1\<close>.\<close>

definition conn_channel :: "int \<Rightarrow> channel" where
  "conn_channel f = \<lparr>chan_fd = f, readable = False, writable = False, old_readable = False, old_writable = False,
     has_read = True, has_writ = True, has_erro = True\<rparr>"

definition registrations :: "nat \<Rightarrow> 'g pcall list" where
  "registrations n = concat (map (\<lambda>p. [EnableRead p True, AddChannel p]) [0..<n])"

definition loop_start :: "(int \<Rightarrow> bool) \<Rightarrow> nat \<Rightarrow> (nat \<Rightarrow> int) \<Rightarrow> nat \<Rightarrow> 'g epoll res" where
  "loop_start fd_ok open_max fd n =
     do_calls (epoll_vtable fd_ok) (registrations n) (PollerEpoll_new open_max (\<lambda>p. conn_channel (fd p)))"

text \<open>\<^verbatim>\<open>EventLoop::run\<close>: round after round, each with the events that the kernel reports.\<close>

fun loop_rounds ::
    "(int \<Rightarrow> bool) \<Rightarrow> 'g behaviour \<Rightarrow> epoll_event list list \<Rightarrow> 'g epoll \<Rightarrow> 'g epoll res option" where
  "loop_rounds fd_ok b [] s = Some (Inr s)"
| "loop_rounds fd_ok b (es # ess) s = bind_run (PollerEpoll_loop_once fd_ok b es s) (loop_rounds fd_ok b ess)"

text \<open>What connection \<open>p\<close> has read in the callbacks of a log.\<close>

fun reads_of :: "nat \<Rightarrow> (nat \<Rightarrow> answers) \<Rightarrow> nat \<Rightarrow> 'g src list \<Rightarrow> char list" where
  "reads_of p ans i [] = []"
| "reads_of p ans i (x # xs) =
     (case x of Callback q k \<Rightarrow> if q = p then read_bytes k (ans i) else [] | Handler _ \<Rightarrow> [])
     @ reads_of p ans (i + 1) xs"

section \<open>Logs\<close>

lemma callbacks_snoc:
  "callbacks beh ans i (xs @ [x]) cs = bind_run (callbacks beh ans i xs cs) (callback beh (ans (i + length xs)) x)"
proof (induction xs arbitrary: i cs)
  case Nil
  show ?case
  proof (cases "callback beh (ans i) x cs")
    case (Some r)
    then show ?thesis by (cases r) simp_all
  qed simp
next
  case (Cons y ys)
  have "callbacks beh ans (i + 1) (ys @ [x]) = (\<lambda>cs. bind_run (callbacks beh ans (i + 1) ys cs)
      (callback beh (ans (i + length (y # ys))) x))"
    by (rule ext) (simp add: Cons.IH)
  then show ?case by (simp add: bind_run_assoc)
qed

lemma reads_of_snoc:
  "reads_of p ans i (xs @ [x]) = reads_of p ans i xs @
     (case x of Callback q k \<Rightarrow> if q = p then read_bytes k (ans (i + length xs)) else [] | Handler _ \<Rightarrow> [])"
  by (induction xs arbitrary: i) (simp_all split: src.split)

section \<open>The poller watches what the connections want\<close>

abbreviation watched_as :: "'g epoll \<Rightarrow> registry" where
  "watched_as s \<equiv> reg_of (epoll_flags s) s"

definition wants :: "nat \<Rightarrow> 'h conn \<Rightarrow> (nat \<times> bool \<times> bool) option" where
  "wants p c = (if destroyed c then None else Some (p, read_on c, write_on c))"

text \<open>The channels keep their descriptors and callbacks, whatever their flags.\<close>

definition same_channel :: "channel \<Rightarrow> channel \<Rightarrow> bool" where
  "same_channel a b \<longleftrightarrow> chan_fd a = chan_fd b \<and> has_read a = has_read b \<and> has_writ a = has_writ b \<and> has_erro a = has_erro b"

definition loop_ok :: "(int \<Rightarrow> bool) \<Rightarrow> int \<Rightarrow> (nat \<Rightarrow> int) \<Rightarrow> 'h conn list \<Rightarrow> 'g epoll \<Rightarrow> bool" where
  "loop_ok fd_ok lim fd cs s \<longleftrightarrow> epoll_ok fd_ok lim s \<and> (\<forall>q. pending q s = [])
     \<and> (\<forall>p. same_channel (chans s p) (conn_channel (fd p)))
     \<and> (\<forall>p < length cs. watched_as s (fd p) = wants p (cs ! p))
     \<and> (\<forall>f p b. watched_as s f = Some (p, b) \<longrightarrow> p < length cs \<and> f = fd p)"

lemma loop_okD:
  assumes "loop_ok fd_ok lim fd cs s"
  shows "epoll_ok fd_ok lim s" "\<And>q. pending q s = []" "\<And>p. same_channel (chans s p) (conn_channel (fd p))"
    "\<And>p. p < length cs \<Longrightarrow> watched_as s (fd p) = wants p (cs ! p)"
    "\<And>f p b. watched_as s f = Some (p, b) \<Longrightarrow> p < length cs \<and> f = fd p"
  using assms unfolding loop_ok_def by blast+

lemma logged [simp]:
  "epoll_ok fd_ok lim (s\<lparr>plog := l\<rparr>) = epoll_ok fd_ok lim s" "watched_as (s\<lparr>plog := l\<rparr>) = watched_as s"
  by (simp_all add: epoll_ok_def reg_of_def epoll_flags_def fun_eq_iff)

lemma resized [simp]:
  "epoll_ok fd_ok lim (s\<lparr>events_len := m\<rparr>) = epoll_ok fd_ok lim s" "watched_as (s\<lparr>events_len := m\<rparr>) = watched_as s"
  "pending q (s\<lparr>events_len := m\<rparr>) = pending q s"
  by (simp_all add: epoll_ok_def reg_of_def epoll_flags_def fun_eq_iff) (cases q; simp)

lemma pushed_append: "pushed q (cs @ ds) = pushed q cs @ pushed q ds"
proof (induction cs)
  case (Cons c cs)
  then show ?case by (cases c) simp_all
qed simp

lemma pushed_channel_calls [simp]: "pushed q (channel_calls p c) = []"
  by (simp add: channel_calls_def)

text \<open>After a callback of connection \<open>p\<close> the poller watches what it wants now.\<close>

lemma channel_calls_ok:
  fixes s :: "'g epoll"
  assumes "loop_ok fd_ok lim fd cs s" "p < length cs" "\<not> destroyed (cs ! p)" "inj_on fd {..<length cs}"
  shows "\<exists>s'. do_calls (epoll_vtable fd_ok) (channel_calls p c') (s\<lparr>plog := l\<rparr>) = Inr s'
    \<and> loop_ok fd_ok lim fd (cs[p := c']) s' \<and> plog s' = l"
proof -
  note ok = loop_okD [OF assms(1)]
  have at: "chan_fd (chans s p) = fd p" using ok(3) [of p] by (simp add: same_channel_def conn_channel_def)
  have reg: "watched_as s (fd p) = Some (p, read_on (cs ! p), write_on (cs ! p))"
    using ok(4) [OF assms(2)] assms(3) by (simp add: wants_def)
  let ?ch = "if destroyed c' then chans s else (chans s)(p := enableWrit (write_on c') (enableRead (read_on c') (chans s p)))"
  let ?reg = "(watched_as s)(fd p := wants p c')"
  have "spec_calls lim (channel_calls p c' :: 'g pcall list) (chans s, watched_as s) = Some (?ch, ?reg)"
    using at reg by (simp add: channel_calls_def wants_def Let_def enableRead_def enableWrit_def)
  then obtain s' where s': "do_calls (epoll_vtable fd_ok) (channel_calls p c') (s\<lparr>plog := l\<rparr>) = Inr s'"
    "epoll_ok fd_ok lim s'" "chans s' = ?ch" "watched_as s' = ?reg"
    using epoll_reg.do_calls_refines [of fd_ok lim "s\<lparr>plog := l\<rparr>" "channel_calls p c'"] ok(1) by auto
  have frame: "plog s' = l" "pending q s' = []" for q
    using epoll.do_calls_frame [OF s'(1), of q] ok(2) by simp_all
  have "same_channel (chans s' r) (conn_channel (fd r))" for r
    using ok(3) [of r] s'(3) by (auto simp: same_channel_def enableRead_def enableWrit_def)
  moreover have "watched_as s' (fd r) = wants r (cs[p := c'] ! r)" if "r < length cs" for r
    using that ok(4) [OF that] s'(4) assms(2,4) by (auto simp: inj_on_def nth_list_update)
  moreover have "r < length cs \<and> f = fd r" if "watched_as s' f = Some (r, b)" for f r b
    using that ok(5) [of f r b] s'(4) assms(2) by (auto simp: wants_def split: if_splits)
  ultimately have "loop_ok fd_ok lim fd (cs[p := c']) s'"
    using s'(2) frame(2) by (simp add: loop_ok_def)
  with s'(1) frame(1) show ?thesis by blast
qed

lemma loop_ok_resized [simp]: "loop_ok fd_ok lim fd cs (s\<lparr>events_len := m\<rparr>) = loop_ok fd_ok lim fd cs s"
  unfolding loop_ok_def resized by simp

text \<open>In terms of the kernel's interest list.\<close>

lemma loop_ok_interest:
  assumes "loop_ok fd_ok lim fd cs s" "p < length cs" "0 \<le> fd p" "fd p < lim"
  shows "interest s (fd p) = (if destroyed (cs ! p) then None else Some (read_on (cs ! p), write_on (cs ! p)))"
proof -
  note ok = loop_okD [OF assms(1)]
  have range: "fd p < int (length (channels s))" "interest s (fd p) \<noteq> None \<longleftrightarrow> channels s ! nat (fd p) \<noteq> None"
    using ok(1) assms(3,4) by (auto simp: epoll_ok_def)
  with ok(4) [OF assms(2)] assms(3) show ?thesis
    by (cases "interest s (fd p)") (auto simp: reg_of_def wants_def epoll_flags_def split: if_splits)
qed

section \<open>The start\<close>

lemma spec_calls_append:
  "spec_calls lim (cs @ ds) a = (case spec_calls lim cs a of None \<Rightarrow> None | Some a' \<Rightarrow> spec_calls lim ds a')"
  by (induction cs arbitrary: a) (simp_all split: option.split)

lemma registrations_spec:
  assumes "inj_on fd {..<n}" "\<forall>p < n. 0 \<le> fd p \<and> fd p < lim"
  shows "\<exists>ch r. spec_calls lim (registrations n :: 'g pcall list) (\<lambda>p. conn_channel (fd p), \<lambda>_. None) = Some (ch, r)
    \<and> (\<forall>p. same_channel (ch p) (conn_channel (fd p))) \<and> (\<forall>p \<ge> n. ch p = conn_channel (fd p))
    \<and> (\<forall>p < n. r (fd p) = Some (p, True, False)) \<and> (\<forall>f p b. r f = Some (p, b) \<longrightarrow> p < n \<and> f = fd p)"
  using assms
proof (induction n)
  case 0
  then show ?case by (simp add: registrations_def same_channel_def)
next
  case (Suc n)
  then obtain ch r where r: "spec_calls lim (registrations n :: 'g pcall list) (\<lambda>p. conn_channel (fd p), \<lambda>_. None) = Some (ch, r)"
    "\<forall>p. same_channel (ch p) (conn_channel (fd p))" "\<forall>p \<ge> n. ch p = conn_channel (fd p)"
    "\<forall>p < n. r (fd p) = Some (p, True, False)" "\<forall>f p b. r f = Some (p, b) \<longrightarrow> p < n \<and> f = fd p"
    by (auto simp: inj_on_def)
  let ?ch = "ch(n := enableRead True (conn_channel (fd n)))" and ?r = "r(fd n \<mapsto> (n, True, False))"
  have neq: "fd p \<noteq> fd n" if "p < n" for p using Suc.prems(1) that by (auto simp: inj_on_def)
  then have "r (fd n) = None" using r(5) by (metis not_None_eq surj_pair)
  then have "spec_calls lim (registrations (Suc n) :: 'g pcall list) (\<lambda>p. conn_channel (fd p), \<lambda>_. None) = Some (?ch, ?r)"
    using r(1,3) Suc.prems(2) by (simp add: registrations_def spec_calls_append enableRead_def conn_channel_def Let_def)
  moreover have "\<forall>p. same_channel (?ch p) (conn_channel (fd p))" using r(2) by (simp add: same_channel_def enableRead_def)
  moreover have "\<forall>p < Suc n. ?r (fd p) = Some (p, True, False)" using r(4) neq by (simp add: less_Suc_eq)
  moreover have "\<forall>f p b. ?r f = Some (p, b) \<longrightarrow> p < Suc n \<and> f = fd p" using r(5) by (auto simp: less_Suc_eq)
  moreover have "\<forall>p \<ge> Suc n. ?ch p = conn_channel (fd p)" using r(3) by simp
  ultimately show ?case by blast
qed

lemma loop_start_ok:
  fixes c :: "'h conn"
  assumes "inj_on fd {..<n}" "\<forall>p < n. 0 \<le> fd p \<and> fd p < lim" "lim \<le> int open_max" "\<forall>f. 0 \<le> f \<longrightarrow> f < lim \<longrightarrow> fd_ok f"
    "\<not> destroyed c" "read_on c" "\<not> write_on c"
  shows "\<exists>s :: 'g epoll. loop_start fd_ok open_max fd n = Inr s \<and> plog s = [] \<and> loop_ok fd_ok lim fd (replicate n c) s"
proof -
  let ?new = "PollerEpoll_new open_max (\<lambda>p. conn_channel (fd p)) :: 'g epoll"
  obtain ch r where r: "spec_calls lim (registrations n :: 'g pcall list) (\<lambda>p. conn_channel (fd p), \<lambda>_. None) = Some (ch, r)"
    "\<forall>p. same_channel (ch p) (conn_channel (fd p))"
    "\<forall>p < n. r (fd p) = Some (p, True, False)" "\<forall>f p b. r f = Some (p, b) \<longrightarrow> p < n \<and> f = fd p"
    using registrations_spec [OF assms(1,2)] by blast
  have new: "epoll_ok fd_ok lim ?new" "watched_as ?new = (\<lambda>_. None)" "chans ?new = (\<lambda>p. conn_channel (fd p))"
    "plog ?new = []" "pending q ?new = []" for q
    using assms(3,4) by (cases q; auto simp: epoll_ok_def reg_of_def PollerEpoll_new_def count_registered_def
      sum_list_replicate fun_eq_iff)+
  obtain s where s: "do_calls (epoll_vtable fd_ok) (registrations n) ?new = Inr s" "epoll_ok fd_ok lim s" "chans s = ch"
    "watched_as s = r"
    using epoll_reg.do_calls_refines [OF new(1), of "registrations n" "(ch, r)"] r(1) new(2,3) by auto
  have "pushed q (registrations n :: 'g pcall list) = []" for q
    by (induction n) (auto simp: registrations_def pushed_append)
  then have "plog s = []" "pending q s = []" for q
    using epoll.do_calls_frame [OF s(1), of q] new(4,5) by simp_all
  with s r(2,3,4) assms(5-7) show ?thesis by (auto simp: loop_start_def loop_ok_def wants_def)
qed

section \<open>Connections that any loop can serve\<close>

text \<open>
  The contract of a connection's callbacks: \<open>G inp c\<close> is kept by every event of a live connection that has
  read \<open>inp\<close>, and no event faults or does not return.
\<close>

locale served_on_loop =
  fixes beh :: "'h cbehaviour" and G :: "char list \<Rightarrow> 'h conn \<Rightarrow> bool"
  assumes event_keeps: "G inp c \<Longrightarrow> \<not> destroyed c \<Longrightarrow> length (event_bytes (Readable (fst a))) \<le> 16384 \<Longrightarrow>
      \<exists>c'. Connection_init beh k a c = Some (Inr c') \<and> G (inp @ read_bytes k a) c'"
begin

text \<open>The loop after some callbacks on connections that began as \<open>cs0\<close>.\<close>

definition serving ::
    "(nat \<Rightarrow> answers) \<Rightarrow> (int \<Rightarrow> bool) \<Rightarrow> int \<Rightarrow> (nat \<Rightarrow> int) \<Rightarrow> 'h conn list \<Rightarrow> 'g epoll \<Rightarrow> 'h conn list \<Rightarrow> bool" where
  "serving ans fd_ok lim fd cs0 s cs \<longleftrightarrow> callbacks beh ans 0 (plog s) cs0 = Some (Inr cs) \<and> length cs = length cs0
     \<and> loop_ok fd_ok lim fd cs s \<and> (\<forall>p < length cs. G (reads_of p ans 0 (plog s)) (cs ! p))"

lemma body_serves:
  fixes s :: "'g epoll"
  assumes "serving ans fd_ok lim fd cs0 s cs" "inj_on fd {..<length cs0}" "0 \<le> efd e" "efd e < lim"
    "\<And>i. length (event_bytes (Readable (fst (ans i)))) \<le> 16384"
  shows "\<exists>s' cs'. epoll_body fd_ok (conns_behaviour beh ans cs0) e s = Inr s' \<and> serving ans fd_ok lim fd cs0 s' cs'"
proof -
  have ser: "callbacks beh ans 0 (plog s) cs0 = Some (Inr cs)" "length cs = length cs0" "loop_ok fd_ok lim fd cs s"
    "\<And>p. p < length cs \<Longrightarrow> G (reads_of p ans 0 (plog s)) (cs ! p)"
    using assms(1) by (auto simp: serving_def)
  note ok = loop_okD [OF ser(3)]
  have range: "efd e < int (length (channels s))" using ok(1) assms(4) by (simp add: epoll_ok_def)
  show ?thesis
  proof (cases "epoll_kind e = None \<or> channels s ! nat (efd e) = None")
    case True
    then have "epoll_body fd_ok (conns_behaviour beh ans cs0) e s = Inr s"
      using assms(3) range by (auto simp: epoll_body_def Poller_getChannel_def split: option.split)
    with assms(1) show ?thesis by blast
  next
    case False
    then obtain k p where k: "epoll_kind e = Some k" and "channels s ! nat (efd e) = Some p" by auto
    then have "\<exists>b. watched_as s (efd e) = Some (p, b)" using assms(3) range by (simp add: reg_of_def)
    then obtain b where w: "watched_as s (efd e) = Some (p, b)" ..
    with ok(5) [OF w] ok(4) [of p] have p: "p < length cs" "efd e = fd p" "\<not> destroyed (cs ! p)"
      by (auto simp: wants_def split: if_splits)
    obtain c' where c': "Connection_init beh k (ans (length (plog s))) (cs ! p) = Some (Inr c')"
      "G (reads_of p ans 0 (plog s) @ read_bytes k (ans (length (plog s)))) c'"
      using event_keeps [OF ser(4) [OF p(1)] p(3) assms(5)] by blast
    let ?log = "plog s @ [Callback p k]"
    have cb: "callbacks beh ans 0 ?log cs0 = Some (Inr (cs[p := c']))"
      using ser(1) c'(1) by (simp add: callbacks_snoc callback_def)
    obtain s' where s': "do_calls (epoll_vtable fd_ok) (channel_calls p c') (s\<lparr>plog := ?log\<rparr>) = Inr s'"
      "loop_ok fd_ok lim fd (cs[p := c']) s'" "plog s' = ?log"
      using channel_calls_ok [OF ser(3) p(1,3), of c' ?log] assms(2) ser(2) by auto
    have "has_callback k (chans s p)"
      using ok(3) [of p] by (cases k) (simp_all add: same_channel_def conn_channel_def)
    then have "epoll_body fd_ok (conns_behaviour beh ans cs0) e s = Inr s'"
      using w k s'(1) cb p(1) assms(3) range
      by (simp add: epoll_body_def Poller_getChannel_def reg_of_def Channel_handle_def run_src_def conns_behaviour_def
          split: option.splits)
    moreover have "serving ans fd_ok lim fd cs0 s' (cs[p := c'])"
      using cb s'(2,3) ser(2,4) c'(2) by (auto simp: serving_def reads_of_snoc nth_list_update)
    ultimately show ?thesis by blast
  qed
qed

lemma dispatch_serves:
  "serving ans fd_ok lim fd cs0 s cs \<Longrightarrow> inj_on fd {..<length cs0} \<Longrightarrow> \<forall>e \<in> set es. 0 \<le> efd e \<and> efd e < lim \<Longrightarrow>
     (\<And>i. length (event_bytes (Readable (fst (ans i)))) \<le> 16384) \<Longrightarrow>
     \<exists>s' cs'. epoll_dispatch fd_ok (conns_behaviour beh ans cs0) es s = Some (Inr s') \<and> serving ans fd_ok lim fd cs0 s' cs'"
proof (induction es arbitrary: s cs)
  case Nil
  then show ?case by auto
next
  case (Cons e es)
  obtain s1 cs1 where s1: "epoll_body fd_ok (conns_behaviour beh ans cs0) e s = Inr s1" "serving ans fd_ok lim fd cs0 s1 cs1"
    using body_serves [OF Cons.prems(1,2) _ _ Cons.prems(4), of e] Cons.prems(3) by auto
  then have "pending NextTick s1 = []" by (simp add: serving_def loop_ok_def)
  with s1(1) Cons.IH [OF s1(2) Cons.prems(2) _ Cons.prems(4)] Cons.prems(3) show ?case by simp
qed

lemma round_serves:
  assumes "serving ans fd_ok lim fd cs0 s cs" "inj_on fd {..<length cs0}" "\<forall>e \<in> set es. 0 \<le> efd e \<and> efd e < lim"
    "\<And>i. length (event_bytes (Readable (fst (ans i)))) \<le> 16384"
  shows "\<exists>s' cs'. PollerEpoll_loop_once fd_ok (conns_behaviour beh ans cs0) es s = Some (Inr s')
    \<and> serving ans fd_ok lim fd cs0 s' cs'"
proof -
  obtain s1 cs1 where s1: "epoll_dispatch fd_ok (conns_behaviour beh ans cs0) es s = Some (Inr s1)"
    "serving ans fd_ok lim fd cs0 s1 cs1"
    using dispatch_serves [OF assms] by blast
  have quiet: "pending q s = []" "pending q s1 = []" for q
    using assms(1) s1(2) by (simp_all add: serving_def loop_ok_def)
  have "serving ans fd_ok lim fd cs0 (s1\<lparr>events_len := m\<rparr>) cs1" for m
    using s1(2) by (simp add: serving_def)
  with s1 quiet show ?thesis by (auto simp: PollerEpoll_loop_once_def)
qed

lemma rounds_serve:
  "serving ans fd_ok lim fd cs0 s cs \<Longrightarrow> inj_on fd {..<length cs0} \<Longrightarrow>
     \<forall>es \<in> set ess. \<forall>e \<in> set es. 0 \<le> efd e \<and> efd e < lim \<Longrightarrow>
     (\<And>i. length (event_bytes (Readable (fst (ans i)))) \<le> 16384) \<Longrightarrow>
     \<exists>s' cs'. loop_rounds fd_ok (conns_behaviour beh ans cs0) ess s = Some (Inr s') \<and> serving ans fd_ok lim fd cs0 s' cs'"
proof (induction ess arbitrary: s cs)
  case Nil
  then show ?case by auto
next
  case (Cons es ess)
  obtain s1 cs1 where "PollerEpoll_loop_once fd_ok (conns_behaviour beh ans cs0) es s = Some (Inr s1)"
    "serving ans fd_ok lim fd cs0 s1 cs1"
    using round_serves [OF Cons.prems(1,2) _ Cons.prems(4), of es] Cons.prems(3) by auto
  with Cons.IH [OF this(2) Cons.prems(2) _ Cons.prems(4)] Cons.prems(3) show ?case by simp
qed

end

section \<open>The echo server on a loop\<close>

text \<open>What every event keeps of a connection of the server that has read \<open>inp\<close>.\<close>

definition echoes :: "char list \<Rightarrow> 'h conn \<Rightarrow> bool" where
  "echoes inp c \<longleftrightarrow>
     (if destroyed c then cut_off inp c
      else between inp c \<and> read_on c \<and> (writTasks c \<noteq> [] \<longrightarrow> write_on c))"

lemma accepted_echoes:
  "\<exists>c :: 'h conn. accepted_conn = Inr c \<and> echoes [] c \<and> \<not> destroyed c \<and> read_on c \<and> \<not> write_on c"
  by (simp add: accepted_conn_def accepted_with_def TcpServer_initConnection_def Connection_onRead_def Connection_onErro_def
      Connection_new_def Buffer_alloc_ok Connection_init1_def Connection_enableRead_def
      echoes_def between_def plain_tasks_def outgoing_def)

lemma echo_event_keeps:
  fixes c :: "'h conn"
  assumes "echoes inp c" "\<not> destroyed c" "length (event_bytes (Readable (fst a))) \<le> 16384"
  shows "\<exists>c'. Connection_init echo k a c = Some (Inr c') \<and> echoes (inp @ read_bytes k a) c'"
proof -
  have c: "between inp c" "read_on c" "writTasks c \<noteq> [] \<longrightarrow> write_on c" using assms(1,2) by (simp_all add: echoes_def)
  have dead: "echoes inp c'" if "destroyed c'" "wire c' = wire c" for c'
    using that cut_off_wire [OF c(1)] by (simp add: echoes_def)
  show ?thesis
  proof (cases k)
    case WritEvent
    obtain c' where c': "Connection_handleWritEvent echo (snd a) c = Some (Inr c')" "wrote plain_tasks c c'"
      using echo_writes.handleWrit_wrote [of c "snd a"] c(1) by (auto simp: between_def)
    then have "echoes inp c'"
      using wrote_between [OF c(1) c'(2)] c(2,3) by (auto simp: echoes_def wrote_def cut_off_def)
    with c'(1) WritEvent show ?thesis by (simp add: Connection_init_def read_bytes_def)
  next
    case ErroEvent
    obtain c' where "Connection_handleErroEvent echo c = Inr c'" "destroyed c'" "wire c' = wire c"
      using handleErro_calm [OF calm_echo, of c] by blast
    with ErroEvent dead show ?thesis by (simp add: Connection_init_def read_bytes_def)
  next
    case ReadEvent
    show ?thesis
    proof (cases "event_bytes (Readable (fst a)) = []")
      case True
      then have "\<And>ds. fst a = Data ds \<Longrightarrow> ds = []" by simp
      from quiet_read [OF c(1) this calm_echo] obtain c' where
        "Connection_handleReadEvent echo (fst a) c = Inr c'" "c' = c \<or> destroyed c' \<and> wire c' = wire c" by blast
      with ReadEvent True dead assms(1) show ?thesis by (auto simp: Connection_init_def read_bytes_def)
    next
      case False
      then obtain ds where ds: "fst a = Data ds" "ds \<noteq> []" by (cases "fst a") auto
      obtain c' where "Connection_handleReadEvent echo (Data ds) c = Inr c'" "between (inp @ ds) c'" "read_on c' = read_on c"
        "write_on c'"
        using echo_data [OF c(1) ds(2)] assms(3) ds(1) by auto
      with ReadEvent ds(1) c(2) show ?thesis
        by (auto simp: Connection_init_def read_bytes_def echoes_def between_def)
    qed
  qed
qed

interpretation echo_loop: served_on_loop echo echoes
  by unfold_locales (rule echo_event_keeps)

section \<open>Properties\<close>

text \<open>C9. The echo server on an epoll loop. For any number of accepted connections on distinct descriptors, any
  rounds with any events that the kernel reports, and any answers of the kernel in the callbacks, no round
  and no callback faults and every round returns. A closed connection is not watched any more, and has
  sent a prefix of what it read. A live one is watched for input, and for output exactly when it has
  asked for that, which it has whenever something is queued; what it has sent, followed by what is
  queued, is exactly what it has read.\<close>

theorem epoll_serves_echo:
  fixes c :: "'h conn"
  assumes "accepted_conn = Inr c"
    and "inj_on fd {..<n}" "\<forall>p < n. 0 \<le> fd p \<and> fd p < lim" "lim \<le> int open_max" "\<forall>f. 0 \<le> f \<longrightarrow> f < lim \<longrightarrow> fd_ok f"
    and "\<forall>es \<in> set ess. \<forall>e \<in> set es. 0 \<le> efd e \<and> efd e < lim"
    and "\<forall>i. length (event_bytes (Readable (fst (ans i)))) \<le> 16384"
  shows "\<exists>(s :: 'g epoll) s' cs. loop_start fd_ok open_max fd n = Inr s
    \<and> loop_rounds fd_ok (conns_behaviour echo ans (replicate n c)) ess s = Some (Inr s')
    \<and> callbacks echo ans 0 (plog s') (replicate n c) = Some (Inr cs)
    \<and> (\<forall>p < n. let x = cs ! p; inp = map (Byte \<circ> Some) (reads_of p ans 0 (plog s')) in
        if destroyed x then interest s' (fd p) = None \<and> (\<exists>rest. inp = wire x @ rest)
        else interest s' (fd p) = Some (True, write_on x) \<and> (writTasks x \<noteq> [] \<longrightarrow> write_on x)
          \<and> wire x @ concat (map task_items (writTasks x)) = inp)"
proof -
  have c: "echoes [] c" "\<not> destroyed c" "read_on c" "\<not> write_on c"
    using accepted_echoes [where 'h = 'h] unfolding assms(1) by simp_all
  obtain s :: "'g epoll" where s: "loop_start fd_ok open_max fd n = Inr s" "plog s = []" "loop_ok fd_ok lim fd (replicate n c) s"
    using loop_start_ok [OF assms(2-5) c(2-4)] by blast
  have "echo_loop.serving ans fd_ok lim fd (replicate n c) s (replicate n c)"
    using s(2,3) c(1) by (simp add: echo_loop.serving_def)
  from echo_loop.rounds_serve [OF this _ assms(6)] assms(2,7) obtain s' cs where
    run: "loop_rounds fd_ok (conns_behaviour echo ans (replicate n c)) ess s = Some (Inr s')"
    and "echo_loop.serving ans fd_ok lim fd (replicate n c) s' cs" by auto
  then have cs: "callbacks echo ans 0 (plog s') (replicate n c) = Some (Inr cs)" "length cs = n" "loop_ok fd_ok lim fd cs s'"
    "\<forall>p < n. echoes (reads_of p ans 0 (plog s')) (cs ! p)"
    by (simp_all add: echo_loop.serving_def)
  have "let x = cs ! p; inp = map (Byte \<circ> Some) (reads_of p ans 0 (plog s')) in
      if destroyed x then interest s' (fd p) = None \<and> (\<exists>rest. inp = wire x @ rest)
      else interest s' (fd p) = Some (True, write_on x) \<and> (writTasks x \<noteq> [] \<longrightarrow> write_on x)
        \<and> wire x @ concat (map task_items (writTasks x)) = inp" if "p < n" for p
  proof -
    have "interest s' (fd p) = (if destroyed (cs ! p) then None else Some (read_on (cs ! p), write_on (cs ! p)))"
      using loop_ok_interest [OF cs(3)] cs(2) assms(3) that by simp
    moreover have "echoes (reads_of p ans 0 (plog s')) (cs ! p)" using cs(4) that by simp
    ultimately show ?thesis
      using between_outgoing [of "reads_of p ans 0 (plog s')" "cs ! p"]
      by (auto simp: echoes_def cut_off_def outgoing_def Let_def)
  qed
  with s(1) run cs(1) show ?thesis by blast
qed

lemma epoll_serves_echo_witness:
  "\<exists>(c :: nat conn) (s :: nat epoll) s' cs. accepted_conn = Inr c \<and> loop_start (\<lambda>_. True) 16 (\<lambda>p. int p + 5) 2 = Inr s
    \<and> loop_rounds (\<lambda>_. True) (conns_behaviour echo (\<lambda>i. (Data ''ping'', [Room 3])) (replicate 2 c))
        [[\<lparr>efd = 6, erdhup = False, eerr = False, ehup = False, ein = True, eout = False\<rparr>],
         [\<lparr>efd = 5, erdhup = True, eerr = False, ehup = False, ein = True, eout = False\<rparr>,
          \<lparr>efd = 6, erdhup = False, eerr = False, ehup = False, ein = False, eout = True\<rparr>]] s = Some (Inr s')
    \<and> callbacks echo (\<lambda>i. (Data ''ping'', [Room 3])) 0 (plog s') (replicate 2 c) = Some (Inr cs)
    \<and> (destroyed (cs ! 0) \<longrightarrow> interest s' 5 = None)"
proof -
  obtain c :: "nat conn" where c: "accepted_conn = Inr c" using accepted_echoes by blast
  have "inj_on (\<lambda>p. int p + 5) {..<2}" "\<forall>p < 2. 0 \<le> int p + 5 \<and> int p + 5 < 16" by (auto simp: inj_on_def)
  from epoll_serves_echo [OF c this, of 16 "\<lambda>_. True"
    "[[\<lparr>efd = 6, erdhup = False, eerr = False, ehup = False, ein = True, eout = False\<rparr>],
         [\<lparr>efd = 5, erdhup = True, eerr = False, ehup = False, ein = True, eout = False\<rparr>,
          \<lparr>efd = 6, erdhup = False, eerr = False, ehup = False, ein = False, eout = True\<rparr>]]" "\<lambda>i. (Data ''ping'', [Room 3])"]
  show ?thesis using c by (force simp: Let_def)
qed

end
