(* ===== verification/Proxies.thy ===== *)
theory Proxies
  imports Relays Numbers
begin

text \<open>
  The SOCKS4 proxy (\<^verbatim>\<open>src/examples/tcp_proxy.cpp\<close>): the handshake of an accepted connection, the connections
  that its clients make, and the relaying between them.
\<close>

section \<open>The proxy's handshake\<close>

text \<open>
  \<^verbatim>\<open>TcpProxy::handleConnectRequest\<close> on the read buffer: wait for nine bytes, refuse anything but a SOCKS4
  connect, or dial. \<^verbatim>\<open>inet_ntop\<close> prints the four bytes of an address and does not fail on them.
\<close>

datatype proxy_answer = Wait | Refuse | Dial string string

definition dotted :: "nat \<Rightarrow> nat \<Rightarrow> nat \<Rightarrow> nat \<Rightarrow> string" where
  "dotted a b c d = nat_string a @ ''.'' @ nat_string b @ ''.'' @ nat_string c @ ''.'' @ nat_string d"

definition byte_at :: "cell list \<Rightarrow> nat \<Rightarrow> nat" where
  "byte_at bs i = (case bs ! i of Some c \<Rightarrow> of_char c | None \<Rightarrow> 0)"

definition TcpProxy_handleConnectRequest :: "buf \<Rightarrow> (proxy_answer \<times> buf) res" where
  "TcpProxy_handleConnectRequest b =
     bind_res (Buffer_size b) (\<lambda>n.
     if n < 9 then Inr (Wait, b)
     else
       bind_res (Buffer_data b) (\<lambda>_.
       let bs = content b in
       if byte_at bs 0 \<noteq> 4 \<or> byte_at bs 1 \<noteq> 1 then Inr (Refuse, b)
       else
         let host = dotted (byte_at bs 4) (byte_at bs 5) (byte_at bs 6) (byte_at bs 7);
             service = to_string (int (256 * byte_at bs 2 + byte_at bs 3))
         in bind_res (Buffer_retrieve n b) (\<lambda>b. Inr (Dial host service, b))))"

text \<open>Its answer after the connection is made: only the first two of eight bytes are set.\<close>

definition TcpProxy_response :: "cell list" where
  "TcpProxy_response = [Some (CHR 0x00), Some (CHR 0x5A), None, None, None, None, None, None]"

definition TcpProxy_respond :: "'h conn \<Rightarrow> 'h conn res" where
  "TcpProxy_respond c = Connection_send_bytes TcpProxy_response 8 None c"

section \<open>The callbacks\<close>

text \<open>
  Both callbacks of a joined connection \<open>x\<close>; \<open>None\<close> is no context, and a destroyed peer an expired one.
\<close>

definition TcpProxy_onRead :: "'h conn \<Rightarrow> 'h conn option \<Rightarrow> ('h conn \<times> 'h conn option) res" where
  "TcpProxy_onRead x peer =
     (case peer of
        None \<Rightarrow> Inr (Connection_destroy x, None)
      | Some y \<Rightarrow>
          if destroyed y then Inr (Connection_destroy x, Some y)
          else bind_res (Connection_send_buffer (readBuf x) None y) (\<lambda>(b, y). Inr (x\<lparr>readBuf := b\<rparr>, Some y)))"

definition TcpProxy_onErro :: "'h conn option \<Rightarrow> 'h conn option" where
  "TcpProxy_onErro peer =
     (case peer of
        None \<Rightarrow> None
      | Some y \<Rightarrow> if destroyed y then Some y else Some (Connection_destroy y))"

text \<open>
  One accepted connection and everything it causes. \<open>px_link\<close> is its context: the number of the
  connection it was last joined to, with \<open>None\<close> until then, when its read callback is still that of the
  handshake. Each connection in \<open>px_backs\<close> has the accepted one as its context. \<open>px_dials\<close> are the hosts and
  services that clients were made for, \<open>px_waiting\<close> counts those whose connector has not run.
\<close>

record 'h proxy =
  px_front :: "'h conn"
  px_link :: "nat option"
  px_backs :: "'h conn list"
  px_dials :: "(string \<times> string) list"
  px_waiting :: nat

definition TcpProxy_start :: "'h proxy res" where
  "TcpProxy_start = bind_res accepted_conn (\<lambda>c.
     Inr \<lparr>px_front = c, px_link = None, px_backs = [], px_dials = [], px_waiting = 0\<rparr>)"

text \<open>The read callback before the connections are joined.\<close>

definition TcpProxy_handshakes :: "'h proxy \<Rightarrow> 'h proxy res" where
  "TcpProxy_handshakes s =
     bind_res (TcpProxy_handleConnectRequest (readBuf (px_front s))) (\<lambda>(answer, b).
     let x = (px_front s)\<lparr>readBuf := b\<rparr>
     in Inr (case answer of
          Wait \<Rightarrow> s\<lparr>px_front := x\<rparr>
        | Refuse \<Rightarrow> s\<lparr>px_front := Connection_destroy x\<rparr>
        | Dial host service \<Rightarrow>
            s\<lparr>px_front := x, px_dials := px_dials s @ [(host, service)], px_waiting := px_waiting s + 1\<rparr>))"

text \<open>The connector of a client, with a connection or without.\<close>

definition TcpProxy_connected :: "bool \<Rightarrow> 'h proxy \<Rightarrow> 'h proxy res" where
  "TcpProxy_connected ok s =
     (if px_waiting s = 0 then Inr s
      else
        let s = s\<lparr>px_waiting := px_waiting s - 1\<rparr>; f = px_front s in
        if ok then
          bind_res connected_conn (\<lambda>c.
          if \<not> destroyed f then
            let s = s\<lparr>px_link := Some (length (px_backs s))\<rparr>;
                c = Connection_onErro True (Connection_onRead True c);
                f = Connection_onErro True (Connection_onRead True f) in
            bind_res (Connection_enableRead True c) (\<lambda>c.
            bind_res (Connection_enableRead True f) (\<lambda>f.
            bind_res (TcpProxy_respond f) (\<lambda>f.
            Inr (s\<lparr>px_front := f, px_backs := px_backs s @ [c]\<rparr>))))
          else Inr (s\<lparr>px_backs := px_backs s @ [Connection_destroy c]\<rparr>))
        else Inr (s\<lparr>px_front := Connection_destroy f\<rparr>))"

text \<open>An event of a joined connection: the event itself, and then what the callback did.\<close>

definition proxy_event :: "sock_event \<Rightarrow> 'h conn \<Rightarrow> 'h conn \<Rightarrow> ('h conn \<times> 'h conn) res option" where
  "proxy_event e x y =
     (if destroyed x then Some (Inr (x, y))
      else bind_run (deliver silent e x) (\<lambda>x'.
        if calls_read e \<and> has_readcb x
          then Some (bind_res (TcpProxy_onRead x' (Some y)) (\<lambda>(x', p). Inr (x', case p of Some y \<Rightarrow> y | None \<Rightarrow> y)))
        else Some (Inr (x', if destroyed x' then (case TcpProxy_onErro (Some y) of Some y \<Rightarrow> y | None \<Rightarrow> y) else y))))"

datatype proxy_input = Client sock_event | Server nat sock_event | Dialled bool

definition proxy_step :: "proxy_input \<Rightarrow> 'h proxy \<Rightarrow> 'h proxy res option" where
  "proxy_step i s =
     (case i of
        Client e \<Rightarrow>
          (case px_link s of
             None \<Rightarrow>
               if destroyed (px_front s) then Some (Inr s)
               else bind_run (deliver silent e (px_front s)) (\<lambda>x.
                 Some (if calls_read e then TcpProxy_handshakes (s\<lparr>px_front := x\<rparr>) else Inr (s\<lparr>px_front := x\<rparr>)))
           | Some k \<Rightarrow>
               bind_run (proxy_event e (px_front s) (px_backs s ! k)) (\<lambda>(x, y).
                 Some (Inr (s\<lparr>px_front := x, px_backs := (px_backs s)[k := y]\<rparr>))))
      | Server k e \<Rightarrow>
          if k < length (px_backs s)
          then bind_run (proxy_event e (px_backs s ! k) (px_front s)) (\<lambda>(y, x).
                 Some (Inr (s\<lparr>px_front := x, px_backs := (px_backs s)[k := y]\<rparr>)))
          else Some (Inr s)
      | Dialled ok \<Rightarrow> Some (TcpProxy_connected ok s))"

fun proxy_run :: "proxy_input list \<Rightarrow> 'h proxy \<Rightarrow> 'h proxy res option" where
  "proxy_run [] s = Some (Inr s)"
| "proxy_run (i # is) s = bind_run (proxy_step i s) (proxy_run is)"

section \<open>The handshake\<close>

text \<open>The proxy's handshake. On fewer than nine bytes it waits; on nine or more that start with version 4 and
  command 1 it dials the address and port in them and empties the buffer, whatever else was in it; on
  any other it refuses. The answer it sends has six bytes of uninitialised storage.\<close>

theorem TcpProxy_handshake:
  assumes "buf_ok b" "content b = map Some bs"
  shows "(length bs < 9 \<longrightarrow> TcpProxy_handleConnectRequest b = Inr (Wait, b))
    \<and> (9 \<le> length bs \<and> (of_char (bs ! 0) \<noteq> (4::nat) \<or> of_char (bs ! 1) \<noteq> (1::nat)) \<longrightarrow>
        TcpProxy_handleConnectRequest b = Inr (Refuse, b))
    \<and> (\<forall>p1 p2 a1 a2 a3 a4 rest. bs = CHR 0x04 # CHR 0x01 # p1 # p2 # a1 # a2 # a3 # a4 # rest \<and> rest \<noteq> [] \<longrightarrow>
        (\<exists>b'. TcpProxy_handleConnectRequest b = Inr (Dial
            (dotted (of_char a1) (of_char a2) (of_char a3) (of_char a4))
            (nat_string (256 * of_char p1 + of_char p2)), b') \<and> buf_ok b' \<and> content b' = []))
    \<and> (\<not> destroyed c \<longrightarrow> (\<exists>c'. TcpProxy_respond c = Inr c' \<and>
        outgoing c' = outgoing c @ map Byte (Some (CHR 0x00) # Some (CHR 0x5A) # replicate 6 None)))"
proof (intro conjI impI allI; (elim conjE)?)
  have size: "Buffer_size b = Inr (int (length bs))" using Buffer_size_ok [OF assms(1)] assms(2) by simp
  have data: "\<exists>l. Buffer_data b = Inr l" if "bs \<noteq> []" using Buffer_data_ok [OF assms(1)] assms(2) that by simp
  have at: "byte_at (content b) i = of_char (bs ! i)" if "i < length bs" for i
    using that assms(2) by (simp add: byte_at_def)
  show "TcpProxy_handleConnectRequest b = Inr (Wait, b)" if "length bs < 9"
    using that size by (simp add: TcpProxy_handleConnectRequest_def)
  show "TcpProxy_handleConnectRequest b = Inr (Refuse, b)"
    if "9 \<le> length bs" and bad: "of_char (bs ! 0) \<noteq> (4::nat) \<or> of_char (bs ! 1) \<noteq> (1::nat)"
  proof -
    have "bs \<noteq> []" "0 < length bs" "1 < length bs" using \<open>9 \<le> length bs\<close> by auto
    with data at [of 0] at [of 1] bad \<open>9 \<le> length bs\<close> size show ?thesis
      by (auto simp: TcpProxy_handleConnectRequest_def Let_def)
  qed
  show "\<exists>b'. TcpProxy_handleConnectRequest b = Inr (Dial
          (dotted (of_char a1) (of_char a2) (of_char a3) (of_char a4))
          (nat_string (256 * of_char p1 + of_char p2)), b') \<and> buf_ok b' \<and> content b' = []"
    if bs: "bs = CHR 0x04 # CHR 0x01 # p1 # p2 # a1 # a2 # a3 # a4 # rest" and rest: "rest \<noteq> []" for p1 p2 a1 a2 a3 a4 rest
  proof -
    have len: "9 \<le> length bs" using bs rest by (cases rest) auto
    obtain b' where b': "Buffer_retrieve (int (length bs)) b = Inr b'" "buf_ok b'" "content b' = []"
      using Buffer_retrieve_ok [OF assms(1), of "int (length bs)"] assms(2) by auto
    obtain l where l: "Buffer_data b = Inr l" using data len by fastforce
    have c: "byte_at (content b) 0 = 4" "byte_at (content b) 1 = 1" "byte_at (content b) 2 = of_char p1"
      "byte_at (content b) 3 = of_char p2" "byte_at (content b) 4 = of_char a1" "byte_at (content b) 5 = of_char a2"
      "byte_at (content b) 6 = of_char a3" "byte_at (content b) 7 = of_char a4"
      by (simp_all add: byte_at_def assms(2) bs)
    have "\<not> int (length bs) < 9" using len by linarith
    with size l c b' show ?thesis
      by (simp add: TcpProxy_handleConnectRequest_def Let_def to_string_def del: of_nat_add of_nat_mult)
  qed
  show "\<exists>c'. TcpProxy_respond c = Inr c' \<and>
        outgoing c' = outgoing c @ map Byte (Some (CHR 0x00) # Some (CHR 0x5A) # replicate 6 None)" if "\<not> destroyed c"
  proof -
    obtain d where d: "Buffer_of_bytes TcpProxy_response 8 = Inr d" "content d = TcpProxy_response"
      using Buffer_of_bytes_ok [of 8 TcpProxy_response] by (auto simp: TcpProxy_response_def)
    then show ?thesis
      using that by (auto simp: TcpProxy_respond_def Connection_send_bytes_def push_task_def Connection_enableWrit_def
        buffer_task_def outgoing_def task_items_def TcpProxy_response_def numeral_eq_Suc)
  qed
qed

lemma TcpProxy_handshake_witness:
  "TcpProxy_handleConnectRequest (buf_of (map Some ''GET / HTTP/1.1'') 0 14) = Inr (Refuse, buf_of (map Some ''GET / HTTP/1.1'') 0 14)"
proof -
  have "buf_ok (buf_of (map Some ''GET / HTTP/1.1'') 0 14)"
    "content (buf_of (map Some ''GET / HTTP/1.1'') 0 14) = map Some ''GET / HTTP/1.1''"
    by (simp_all add: buf_of_def buf_ok_def content_def storage_def)
  from TcpProxy_handshake [OF this, THEN conjunct2, THEN conjunct1] show ?thesis by simp
qed

lemma handshake_ok:
  assumes "buf_ok b" "bufptr b \<noteq> None"
  shows "\<exists>a b'. TcpProxy_handleConnectRequest b = Inr (a, b') \<and> buf_ok b' \<and> bufptr b' \<noteq> None"
proof (cases "length (content b) < 9")
  case True
  then show ?thesis using Buffer_size_ok [OF assms(1)] assms by (simp add: TcpProxy_handleConnectRequest_def)
next
  case False
  then have "content b \<noteq> []" by auto
  note data = Buffer_data_ok [OF assms(1) this]
  obtain b' where b': "Buffer_retrieve (int (length (content b))) b = Inr b'" "buf_ok b'" "capacity b' = capacity b"
    using Buffer_retrieve_ok [OF assms(1), of "int (length (content b))"] by auto
  have "0 < capacity b" using \<open>content b \<noteq> []\<close> assms(1) by (auto simp: content_def buf_ok_def)
  with b'(3) have "bufptr b' \<noteq> None" by (cases rule: buf_ok_cases [OF b'(2)]) simp_all
  with False Buffer_size_ok [OF assms(1)] data b' assms show ?thesis
    by (auto simp: TcpProxy_handleConnectRequest_def Let_def)
qed

lemma respond_carries:
  assumes "carries hs out c"
  shows "\<exists>c'. TcpProxy_respond c = Inr c' \<and> carries hs (out @ TcpProxy_response) c'"
proof -
  note c = carriesD [OF assms]
  let ?b = "buf_of TcpProxy_response 0 8"
  have b: "Buffer_of_bytes TcpProxy_response 8 = Inr ?b" "buf_ok ?b" "content ?b = TcpProxy_response" "TcpProxy_response \<noteq> []"
    using Buffer_of_bytes_ok [of 8 TcpProxy_response]
    by (simp_all add: TcpProxy_response_def buf_of_def buf_ok_def content_def storage_def)
  let ?t = "buffer_task ?b (None :: 'a option)"
  have t: "buffer_ready ?t" "thandler ?t = None" "task_items ?t = map Byte TcpProxy_response"
    using b by (simp_all add: buffer_ready_def buffer_task_def task_items_def)
  have "TcpProxy_respond c =
      Inr (c\<lparr>writTasks := writTasks c @ [?t], queued := queued c @ task_items ?t, promised := promised c, write_on := True\<rparr>)"
    using b(1) c(1) by (simp add: TcpProxy_respond_def Connection_send_bytes_def push_task_def Connection_enableWrit_def buffer_task_def)
  moreover have "carries hs (out @ TcpProxy_response)
      (c\<lparr>writTasks := writTasks c @ [?t], queued := queued c @ task_items ?t, promised := promised c, write_on := True\<rparr>)"
    using c t by (auto simp: carries_def plain_tasks_def outgoing_def)
  ultimately show ?thesis by blast
qed

lemma connected_carries:
  "\<exists>c. (connected_conn :: 'h conn res) = Inr c \<and>
    (\<exists>c'. Connection_enableRead True (Connection_onErro True (Connection_onRead True c)) = Inr c' \<and> carries [] [] c')"
  by (simp add: connected_conn_def Connection_new_def Buffer_alloc_ok Connection_enableRead_def Connection_onRead_def
      Connection_onErro_def carries_def plain_tasks_def outgoing_def)

lemma callbacks_carries:
  assumes "carries hs out f"
  shows "\<exists>f'. Connection_enableRead True (Connection_onErro True (Connection_onRead True f)) = Inr f' \<and> carries hs out f'"
  using assms by (simp add: carries_def Connection_enableRead_def Connection_onRead_def Connection_onErro_def outgoing_def)

text \<open>The connector that finds the accepted connection alive joins it to the new one and answers the client.\<close>

lemma connected_joins:
  fixes s :: "'h proxy"
  assumes "0 < px_waiting s" "carries hs out (px_front s)"
  shows "\<exists>f c. TcpProxy_connected True s = Inr (s\<lparr>px_waiting := px_waiting s - 1, px_link := Some (length (px_backs s)),
      px_front := f, px_backs := px_backs s @ [c]\<rparr>)
    \<and> carries hs (out @ TcpProxy_response) f \<and> carries [] [] c"
proof -
  obtain c c' :: "'h conn" where c: "connected_conn = Inr c"
    "Connection_enableRead True (Connection_onErro True (Connection_onRead True c)) = Inr c'" "carries [] [] c'"
    using connected_carries by blast
  obtain f where f: "Connection_enableRead True (Connection_onErro True (Connection_onRead True (px_front s))) = Inr f"
    "carries hs out f"
    using callbacks_carries [OF assms(2)] by blast
  obtain f' where f': "TcpProxy_respond f = Inr f'" "carries hs (out @ TcpProxy_response) f'"
    using respond_carries [OF f(2)] by blast
  then show ?thesis
    using f(1) f' assms(1) c(2,3) carriesD(1) [OF assms(2)] unfolding TcpProxy_connected_def c(1)
    by (intro exI [of _ f'] exI [of _ c']) (simp add: Let_def)
qed

section \<open>Joined connections\<close>

lemma proxy_event_dead: "destroyed x \<Longrightarrow> proxy_event e x y = Some (Inr (x, y))"
  by (simp add: proxy_event_def)

lemma calls_read_data: "calls_read e \<Longrightarrow> \<exists>ds. e = Readable (Data ds) \<and> ds \<noteq> []"
  unfolding calls_read_def by (cases e rule: event_bytes.cases) auto

lemma proxy_event_data:
  fixes x y :: "'h conn"
  assumes "carries hx ox x" "carries hy oy y" "event_ok e" "calls_read e"
  shows "\<exists>x' y'. proxy_event e x y = Some (Inr (x', y')) \<and> carries [] ox x'
    \<and> carries hy (oy @ hx @ map Some (event_bytes e)) y'"
proof -
  obtain ds where ds: "e = Readable (Data ds)" "ds \<noteq> []" using calls_read_data [OF assms(4)] by blast
  obtain x' where x': "deliver silent e x = Some (Inr x')" "carries (hx @ map Some ds) ox x'"
    using carries_data [OF assms(1) ds(2)] assms(3) ds by (auto simp: event_ok_def)
  obtain b y' where "Connection_send_buffer (readBuf x') None y = Inr (b, y')" "carries [] ox (x'\<lparr>readBuf := b\<rparr>)"
    "carries hy (oy @ hx @ map Some ds) y'"
    using carries_passes [OF x'(2) assms(2)] ds(2) by auto
  then show ?thesis
    using x'(1) ds assms(4) carriesD(1,6) [OF assms(1)] carriesD(1) [OF assms(2)]
    by (simp add: proxy_event_def TcpProxy_onRead_def)
qed

lemma proxy_event_other:
  assumes "carries hx ox x" "\<not> calls_read e"
  shows "\<exists>x'. proxy_event e x y = Some (Inr (x', if destroyed x' then Connection_destroy y else y))
    \<and> (carries hx ox x' \<or> cut_short ox x')"
proof -
  obtain x' where "deliver silent e x = Some (Inr x')" "carries hx ox x' \<or> cut_short ox x'"
    using carries_other [OF assms(1)] assms(2) by (auto simp: calls_read_def)
  then show ?thesis
    using carriesD(1) [OF assms(1)] assms(2) by (auto simp: proxy_event_def TcpProxy_onErro_def Connection_destroy_def)
qed

lemma proxy_event_joined:
  fixes x y :: "'h conn"
  assumes "carries [] ox x" "carries [] oy y" "event_ok e"
  shows "\<exists>x' y'. proxy_event e x y = Some (Inr (x', y'))
    \<and> (carries [] ox x' \<and> carries [] (oy @ map Some (event_bytes e)) y'
       \<or> cut_short ox x' \<and> cut_short (oy @ map Some (event_bytes e)) y')"
proof (cases "calls_read e")
  case True
  from proxy_event_data [OF assms True] show ?thesis by auto
next
  case False
  then have bytes: "event_bytes e = []" by (simp add: calls_read_def)
  obtain x' where x': "proxy_event e x y = Some (Inr (x', if destroyed x' then Connection_destroy y else y))"
    "carries [] ox x' \<or> cut_short ox x'"
    using proxy_event_other [OF assms(1) False] by blast
  from x'(2) show ?thesis
  proof
    assume c: "carries [] ox x'"
    with x'(1) carriesD(1) [OF c] assms(2) bytes show ?thesis by auto
  next
    assume c: "cut_short ox x'"
    then have "proxy_event e x y = Some (Inr (x', Connection_destroy y))" using x'(1) by (simp add: cut_short_def)
    with c cut_short_destroy [OF assms(2)] bytes show ?thesis by auto
  qed
qed

text \<open>\<open>joined gf gb s\<close>: the two connections have relayed \<open>gf\<close> from the client and \<open>gb\<close> to it.\<close>

definition joined :: "(string \<times> string) \<Rightarrow> char list \<Rightarrow> char list \<Rightarrow> 'h proxy \<Rightarrow> bool" where
  "joined d gf gb s \<longleftrightarrow> px_link s = Some 0 \<and> px_waiting s = 0 \<and> px_dials s = [d] \<and>
     (\<exists>y. px_backs s = [y] \<and>
       (carries [] (TcpProxy_response @ map Some gb) (px_front s) \<and> carries [] (map Some gf) y
        \<or> cut_short (TcpProxy_response @ map Some gb) (px_front s) \<and> cut_short (map Some gf) y))"

fun client_bytes :: "proxy_input \<Rightarrow> char list" where
  "client_bytes (Client e) = event_bytes e"
| "client_bytes _ = []"

fun server_bytes :: "proxy_input \<Rightarrow> char list" where
  "server_bytes (Server k e) = (if k = 0 then event_bytes e else [])"
| "server_bytes _ = []"

definition proxy_input_ok :: "proxy_input \<Rightarrow> bool" where
  "proxy_input_ok i \<longleftrightarrow> (case i of Client e \<Rightarrow> event_ok e | Server _ e \<Rightarrow> event_ok e | Dialled _ \<Rightarrow> True)"

lemma joined_step:
  assumes "joined d gf gb s" "proxy_input_ok i"
  shows "\<exists>s'. proxy_step i s = Some (Inr s') \<and> joined d (gf @ client_bytes i) (gb @ server_bytes i) s'"
proof -
  obtain y where s: "px_link s = Some 0" "px_waiting s = 0" "px_dials s = [d]" "px_backs s = [y]"
    and "carries [] (TcpProxy_response @ map Some gb) (px_front s) \<and> carries [] (map Some gf) y
      \<or> cut_short (TcpProxy_response @ map Some gb) (px_front s) \<and> cut_short (map Some gf) y"
    using assms(1) unfolding joined_def by blast
  from this(5) show ?thesis
  proof
    assume live: "carries [] (TcpProxy_response @ map Some gb) (px_front s) \<and> carries [] (map Some gf) y"
    show ?thesis
    proof (cases i)
      case (Client e)
      with assms(2) have "event_ok e" by (simp add: proxy_input_ok_def)
      from proxy_event_joined [OF live [THEN conjunct1] live [THEN conjunct2] this] Client s show ?thesis
        by (auto simp: proxy_step_def joined_def)
    next
      case (Server k e)
      with assms(2) have "event_ok e" by (simp add: proxy_input_ok_def)
      from proxy_event_joined [OF live [THEN conjunct2] live [THEN conjunct1] this] Server s live show ?thesis
        by (auto simp: proxy_step_def joined_def)
    next
      case (Dialled ok)
      with s assms(1) show ?thesis by (simp add: proxy_step_def TcpProxy_connected_def)
    qed
  next
    assume dead: "cut_short (TcpProxy_response @ map Some gb) (px_front s) \<and> cut_short (map Some gf) y"
    then have "destroyed (px_front s)" "destroyed y" by (simp_all add: cut_short_def)
    then have "proxy_step i s = Some (Inr s)"
      using s by (cases i) (simp_all add: proxy_step_def proxy_event_dead TcpProxy_connected_def)
    moreover have "joined d (gf @ client_bytes i) (gb @ server_bytes i) s"
      using s dead cut_short_more [OF conjunct1 [OF dead]] cut_short_more [OF conjunct2 [OF dead]]
      by (simp add: joined_def)
    ultimately show ?thesis by blast
  qed
qed

lemma joined_run:
  "joined d gf gb s \<Longrightarrow> \<forall>i \<in> set is. proxy_input_ok i \<Longrightarrow>
     \<exists>s'. proxy_run is s = Some (Inr s') \<and>
       joined d (gf @ concat (map client_bytes is)) (gb @ concat (map server_bytes is)) s'"
proof (induction "is" arbitrary: gf gb s)
  case Nil
  then show ?case by simp
next
  case (Cons i "is")
  obtain t where t: "proxy_step i s = Some (Inr t)" "joined d (gf @ client_bytes i) (gb @ server_bytes i) t"
    using joined_step [OF Cons.prems(1), of i] Cons.prems(2) by auto
  from Cons.IH [OF t(2)] Cons.prems(2) t(1) show ?case by simp
qed

section \<open>A client\<close>

text \<open>The request comes in pieces, in as many reads.\<close>

lemma handshake_waits:
  fixes s :: "'h proxy"
  assumes "px_link s = None" "carries (map Some bs) [] (px_front s)" "ds \<noteq> []" "length ds \<le> 16384"
    "length (bs @ ds) < 9"
  shows "\<exists>f. proxy_step (Client (Readable (Data ds))) s = Some (Inr (s\<lparr>px_front := f\<rparr>)) \<and> carries (map Some (bs @ ds)) [] f"
proof -
  obtain f where f: "deliver silent (Readable (Data ds)) (px_front s) = Some (Inr f)" "carries (map Some (bs @ ds)) [] f"
    using carries_data [OF assms(2-4)] by auto
  have "TcpProxy_handleConnectRequest (readBuf f) = Inr (Wait, readBuf f)"
    using TcpProxy_handshake [OF carriesD(3) [OF f(2)] carriesD(5) [OF f(2)]] assms(5) by blast
  then show ?thesis
    using f assms(1,3) carriesD(1) [OF assms(2)]
    by (intro exI [of _ f]) (simp add: proxy_step_def calls_read_def TcpProxy_handshakes_def)
qed

lemma handshake_dials:
  fixes s :: "'h proxy"
  assumes "px_link s = None" "carries (map Some bs) [] (px_front s)" "ds \<noteq> []" "length ds \<le> 16384"
    "bs @ ds = CHR 0x04 # CHR 0x01 # p1 # p2 # a1 # a2 # a3 # a4 # user" "user \<noteq> []"
  shows "\<exists>f. proxy_step (Client (Readable (Data ds))) s = Some (Inr (s\<lparr>px_front := f,
      px_dials := px_dials s @ [(dotted (of_char a1) (of_char a2) (of_char a3) (of_char a4),
        nat_string (256 * of_char p1 + of_char p2))], px_waiting := px_waiting s + 1\<rparr>)) \<and> carries [] [] f"
proof -
  obtain f where f: "deliver silent (Readable (Data ds)) (px_front s) = Some (Inr f)" "carries (map Some (bs @ ds)) [] f"
    using carries_data [OF assms(2-4)] by auto
  obtain b where b: "TcpProxy_handleConnectRequest (readBuf f) = Inr (Dial (dotted (of_char a1) (of_char a2) (of_char a3)
      (of_char a4)) (nat_string (256 * of_char p1 + of_char p2)), b)" "buf_ok b" "content b = []"
    using TcpProxy_handshake [OF carriesD(3) [OF f(2)] carriesD(5) [OF f(2)]] assms(5,6) by blast
  have "bufptr b \<noteq> None" using handshake_ok [OF carriesD(3,4) [OF f(2)]] b(1) by auto
  then have "carries [] [] (f\<lparr>readBuf := b\<rparr>)" using b(2,3) f(2) by (simp add: carries_def outgoing_def)
  then show ?thesis
    using f(1) b(1) assms(1,3) carriesD(1) [OF assms(2)]
    by (intro exI [of _ "f\<lparr>readBuf := b\<rparr>"]) (simp add: proxy_step_def calls_read_def TcpProxy_handshakes_def Let_def)
qed

lemma handshake_pieces:
  fixes s :: "'h proxy"
  assumes "px_link s = None" "carries (map Some bs) [] (px_front s)" "\<forall>ds \<in> set rs. ds \<noteq> [] \<and> length ds \<le> 16384"
    "length (bs @ concat rs) < 9"
  shows "\<exists>f. proxy_run (map (\<lambda>ds. Client (Readable (Data ds))) rs) s = Some (Inr (s\<lparr>px_front := f\<rparr>))
    \<and> carries (map Some (bs @ concat rs)) [] f"
  using assms
proof (induction rs arbitrary: bs s)
  case Nil
  then show ?case by (intro exI [of _ "px_front s"]) simp
next
  case (Cons ds rs)
  obtain f where f: "proxy_step (Client (Readable (Data ds))) s = Some (Inr (s\<lparr>px_front := f\<rparr>))"
    "carries (map Some (bs @ ds)) [] f"
    using handshake_waits [OF Cons.prems(1,2), of ds] Cons.prems(3,4) by auto
  with Cons.IH [of "s\<lparr>px_front := f\<rparr>" "bs @ ds"] Cons.prems(1,3,4) show ?case by auto
qed

lemma proxy_run_append: "proxy_run (is @ js) = (\<lambda>s. bind_run (proxy_run is s) (proxy_run js))"
proof (induction "is")
  case (Cons i "is")
  show ?case by (rule ext) (simp add: Cons bind_run_assoc)
qed (simp add: fun_eq_iff)

text \<open>A whole client: its request and the connector put the proxy into relaying.\<close>

abbreviation pieces :: "char list list \<Rightarrow> proxy_input list" where
  "pieces rs \<equiv> map (\<lambda>ds. Client (Readable (Data ds))) rs"

lemma start_carries:
  "\<exists>s. (TcpProxy_start :: 'h proxy res) = Inr s \<and> carries [] [] (px_front s) \<and> px_link s = None \<and> px_backs s = []
    \<and> px_dials s = [] \<and> px_waiting s = 0"
proof -
  obtain c :: "'h conn" where c: "accepted_conn = Inr c" "between [] c" using accepted_between by blast
  then show ?thesis unfolding TcpProxy_start_def c(1) by (simp add: between_carries)
qed

lemma proxy_joins:
  fixes s :: "'h proxy"
  assumes "TcpProxy_start = Inr s"
    and "concat rs @ last_piece = CHR 0x04 # CHR 0x01 # p1 # p2 # a1 # a2 # a3 # a4 # user" "user \<noteq> []"
    and "length (concat rs) < 9" "\<forall>ds \<in> set (rs @ [last_piece]). ds \<noteq> [] \<and> length ds \<le> 16384"
  shows "\<exists>s'. proxy_run (pieces (rs @ [last_piece]) @ [Dialled True]) s = Some (Inr s')
    \<and> joined (dotted (of_char a1) (of_char a2) (of_char a3) (of_char a4), nat_string (256 * of_char p1 + of_char p2)) [] [] s'"
proof -
  have s: "carries (map Some []) [] (px_front s)" "px_link s = None" "px_backs s = []" "px_dials s = []" "px_waiting s = 0"
    using start_carries [where 'h = 'h] unfolding assms(1) by simp_all
  obtain f where f: "proxy_run (pieces rs) s = Some (Inr (s\<lparr>px_front := f\<rparr>))" "carries (map Some (concat rs)) [] f"
    using handshake_pieces [OF s(2,1), of rs] assms(4,5) by auto
  let ?d = "(dotted (of_char a1) (of_char a2) (of_char a3) (of_char a4), nat_string (256 * of_char p1 + of_char p2))"
  obtain g where g: "proxy_step (Client (Readable (Data last_piece))) (s\<lparr>px_front := f\<rparr>) =
      Some (Inr (s\<lparr>px_front := g, px_dials := [?d], px_waiting := 1\<rparr>))" "carries [] [] g"
    using handshake_dials [of "s\<lparr>px_front := f\<rparr>" "concat rs" last_piece p1 p2 a1 a2 a3 a4 user] f(2) s assms(2,3,5) by auto
  let ?s = "s\<lparr>px_front := g, px_dials := [?d], px_waiting := 1\<rparr>"
  obtain f' c where "TcpProxy_connected True ?s = Inr (?s\<lparr>px_waiting := px_waiting ?s - 1, px_link := Some (length (px_backs ?s)),
      px_front := f', px_backs := px_backs ?s @ [c]\<rparr>)" "carries [] ([] @ TcpProxy_response) f'" "carries [] [] c"
    using connected_joins [of ?s "[]" "[]"] g(2) by auto
  then show ?thesis
    using f(1) g(1) s(3) by (simp add: proxy_run_append proxy_step_def [of "Dialled True"] joined_def)
qed

text \<open>
  A client that asks again before it is answered has two connections made for it, and is joined to the one
  that was made last. When it goes away only that one is closed: the other stays open with nobody to
  talk to.
\<close>

lemma carries_eof:
  assumes "carries hs out x"
  shows "\<exists>x'. deliver silent (Readable Eof) x = Some (Inr x') \<and> destroyed x'"
proof -
  note x = carriesD [OF assms]
  have w: "Buffer_wdata (readBuf x) = Inr (rightIndex (readBuf x))"
    "Buffer_availbleSize (readBuf x) = Inr (capacity (readBuf x) - rightIndex (readBuf x))"
    using x(3,4) by (simp_all add: Buffer_wdata_def Buffer_availbleSize_def buf_ok_def)
  obtain d where "Connection_handleErroEvent silent x = Inr d" "destroyed d" "wire d = wire x"
    using handleErro_calm [OF calm_silent, of x] by blast
  then show ?thesis using w x(1) by (simp add: deliver_def Connection_handleReadEvent_def)
qed

theorem TcpProxy_leaves_orphan:
  assumes "request = CHR 0x04 # CHR 0x01 # p1 # p2 # a1 # a2 # a3 # a4 # user" "user \<noteq> []" "length request \<le> 16384"
  shows "\<exists>(s :: 'h proxy) s' y0 y1. TcpProxy_start = Inr s
    \<and> proxy_run [Client (Readable (Data request)), Client (Readable (Data request)), Dialled True, Dialled True,
        Client (Readable Eof)] s = Some (Inr s')
    \<and> px_backs s' = [y0, y1] \<and> destroyed (px_front s') \<and> destroyed y1 \<and> \<not> destroyed y0"
proof -
  let ?d = "(dotted (of_char a1) (of_char a2) (of_char a3) (of_char a4), nat_string (256 * of_char p1 + of_char p2))"
  obtain s :: "'h proxy" where s: "TcpProxy_start = Inr s" "carries [] [] (px_front s)" "px_link s = None" "px_backs s = []"
    "px_dials s = []" "px_waiting s = 0"
    using start_carries by blast
  have req: "request \<noteq> []" "[] @ request = CHR 0x04 # CHR 0x01 # p1 # p2 # a1 # a2 # a3 # a4 # user" using assms(1) by simp_all
  obtain f1 where f1: "proxy_step (Client (Readable (Data request))) s =
      Some (Inr (s\<lparr>px_front := f1, px_dials := [?d], px_waiting := 1\<rparr>))" "carries [] [] f1"
    using handshake_dials [OF s(3) _ req(1) assms(3) req(2) assms(2)] s(2,5,6) by auto
  let ?s1 = "s\<lparr>px_front := f1, px_dials := [?d], px_waiting := 1\<rparr>"
  obtain f2 where f2: "proxy_step (Client (Readable (Data request))) ?s1 =
      Some (Inr (?s1\<lparr>px_front := f2, px_dials := [?d, ?d], px_waiting := Suc (Suc 0)\<rparr>))" "carries [] [] f2"
    using handshake_dials [of ?s1, OF _ _ req(1) assms(3) req(2) assms(2)] f1(2) s(3) by auto
  let ?s2 = "?s1\<lparr>px_front := f2, px_dials := [?d, ?d], px_waiting := Suc (Suc 0)\<rparr>"
  obtain f3 y0 where f3: "TcpProxy_connected True ?s2 = Inr (?s2\<lparr>px_waiting := 1, px_link := Some 0, px_front := f3, px_backs := [y0]\<rparr>)"
    "carries [] TcpProxy_response f3" "carries [] [] y0"
    using connected_joins [of ?s2 "[]" "[]"] f2(2) s(4) by auto
  let ?s3 = "?s2\<lparr>px_waiting := 1, px_link := Some 0, px_front := f3, px_backs := [y0]\<rparr>"
  obtain f4 y1 where f4: "TcpProxy_connected True ?s3 = Inr (?s3\<lparr>px_waiting := 0, px_link := Some 1, px_front := f4, px_backs := [y0, y1]\<rparr>)"
    "carries [] (TcpProxy_response @ TcpProxy_response) f4" "carries [] [] y1"
    using connected_joins [of ?s3 "[]" "TcpProxy_response"] f3(2) by auto
  obtain f5 where f5: "deliver silent (Readable Eof) f4 = Some (Inr f5)" "destroyed f5" using carries_eof [OF f4(2)] by blast
  have "proxy_event (Readable Eof) f4 y1 = Some (Inr (f5, Connection_destroy y1))"
    using f5 carriesD(1) [OF f4(2)] carriesD(1) [OF f4(3)] by (simp add: proxy_event_def calls_read_def TcpProxy_onErro_def)
  moreover have "destroyed (Connection_destroy y1)" by (simp add: Connection_destroy_def)
  ultimately have "\<exists>s' y1'. proxy_run [Client (Readable (Data request)), Client (Readable (Data request)), Dialled True, Dialled True,
        Client (Readable Eof)] s = Some (Inr s') \<and> px_backs s' = [y0, y1'] \<and> destroyed (px_front s') \<and> destroyed y1'"
    using f1(1) f2(1) f3(1) f4(1) f5(2)
    by (simp add: proxy_step_def [of "Dialled _"] proxy_step_def [of "Client (Readable Eof)"])
  then show ?thesis using s(1) carriesD(1) [OF f3(3)] by blast
qed

section \<open>Properties\<close>

text \<open>C12. The proxy. A client whose request, in any pieces, is a SOCKS4 connect gets exactly the named address
  and port dialled. When the connection is made and answered, whatever then happens, no call faults and
  every handler returns; the two connections live and die together, the server has been sent a prefix of
  what the client said after its request, and the client the eight bytes of the answer and a prefix of
  what the server said, each in order; while they live the rest is queued.\<close>

theorem TcpProxy_relays:
  fixes s :: "'h proxy"
  assumes "TcpProxy_start = Inr s"
    and "concat rs @ last_piece = CHR 0x04 # CHR 0x01 # p1 # p2 # a1 # a2 # a3 # a4 # user" "user \<noteq> []"
    and "length (concat rs) < 9" "\<forall>ds \<in> set (rs @ [last_piece]). ds \<noteq> [] \<and> length ds \<le> 16384"
    and "\<forall>i \<in> set is. proxy_input_ok i"
  shows "\<exists>s' y. proxy_run (map (\<lambda>ds. Client (Readable (Data ds))) (rs @ [last_piece]) @ [Dialled True] @ is) s = Some (Inr s')
    \<and> px_dials s' = [(dotted (of_char a1) (of_char a2) (of_char a3) (of_char a4), nat_string (256 * of_char p1 + of_char p2))]
    \<and> px_backs s' = [y] \<and> (destroyed (px_front s') \<longleftrightarrow> destroyed y)
    \<and> (\<exists>rest. map (Byte \<circ> Some) (concat (map client_bytes is)) = wire y @ rest
        \<and> (\<not> destroyed y \<longrightarrow> rest = concat (map task_items (writTasks y))))
    \<and> (\<exists>rest. map Byte (TcpProxy_response @ map Some (concat (map server_bytes is))) = wire (px_front s') @ rest
        \<and> (\<not> destroyed y \<longrightarrow> rest = concat (map task_items (writTasks (px_front s')))))"
proof -
  let ?d = "(dotted (of_char a1) (of_char a2) (of_char a3) (of_char a4), nat_string (256 * of_char p1 + of_char p2))"
  let ?gf = "concat (map client_bytes is)" and ?gb = "concat (map server_bytes is)"
  obtain t where t: "proxy_run (pieces (rs @ [last_piece]) @ [Dialled True]) s = Some (Inr t)" "joined ?d [] [] t"
    using proxy_joins [OF assms(1-5)] by blast
  obtain s' where s': "proxy_run is t = Some (Inr s')" "joined ?d ?gf ?gb s'"
    using joined_run [OF t(2) assms(6)] by auto
  have run: "proxy_run (pieces (rs @ [last_piece]) @ [Dialled True] @ is) s = Some (Inr s')"
    using t(1) s'(1) by (simp add: proxy_run_append [of "pieces (rs @ [last_piece]) @ [Dialled True]" "is", simplified])
  obtain y where y: "px_dials s' = [?d]" "px_backs s' = [y]"
    and "carries [] (TcpProxy_response @ map Some ?gb) (px_front s') \<and> carries [] (map Some ?gf) y
      \<or> cut_short (TcpProxy_response @ map Some ?gb) (px_front s') \<and> cut_short (map Some ?gf) y"
    using s'(2) unfolding joined_def by blast
  from this(3) show ?thesis
  proof
    assume live: "carries [] (TcpProxy_response @ map Some ?gb) (px_front s') \<and> carries [] (map Some ?gf) y"
    then have "map Byte (map Some ?gf) = wire y @ concat (map task_items (writTasks y))"
      "map Byte (TcpProxy_response @ map Some ?gb) = wire (px_front s') @ concat (map task_items (writTasks (px_front s')))"
      using carriesD(7) by (metis outgoing_def)+
    then show ?thesis using run y live carriesD(1) by (intro exI [of _ s'] exI [of _ y]) (auto simp: comp_def)
  next
    assume dead: "cut_short (TcpProxy_response @ map Some ?gb) (px_front s') \<and> cut_short (map Some ?gf) y"
    then show ?thesis using run y by (intro exI [of _ s'] exI [of _ y]) (simp add: cut_short_def comp_def)
  qed
qed

lemma TcpProxy_relays_witness:
  "\<exists>s s' :: nat proxy. TcpProxy_start = Inr s \<and>
     proxy_run [Client (Readable (Data [CHR 0x04, CHR 0x01, CHR 0x00])),
       Client (Readable (Data [CHR 0x50, CHR 0x7F, CHR 0x00, CHR 0x00, CHR 0x01, CHR 0x00])), Dialled True,
       Client (Readable (Data ''GET'')), Server 0 (Readable (Data ''OK''))] s = Some (Inr s')
     \<and> px_dials s' = [(''127.0.0.1'', ''80'')]"
proof -
  obtain s :: "nat proxy" where s: "TcpProxy_start = Inr s" using start_carries by blast
  have "nat_string 127 = ''127''" "nat_string 0 = ''0''" "nat_string 1 = ''1''" "nat_string 80 = ''80''"
    by (code_simp)+
  with TcpProxy_relays [OF s, of "[[CHR 0x04, CHR 0x01, CHR 0x00]]" "[CHR 0x50, CHR 0x7F, CHR 0x00, CHR 0x00, CHR 0x01, CHR 0x00]"
      "CHR 0x00" "CHR 0x50" "CHR 0x7F" "CHR 0x00" "CHR 0x00" "CHR 0x01" "[CHR 0x00]"
      "[Client (Readable (Data ''GET'')), Server 0 (Readable (Data ''OK''))]"] s
  show ?thesis by (auto simp: proxy_input_ok_def event_ok_def dotted_def)
qed

end
