(* ===== verification/Small_Servers.thy ===== *)
theory Small_Servers
  imports Relays Utilities
begin

text \<open>
  The chat, daytime and discard servers (\<^verbatim>\<open>src/examples/chat.cpp\<close>, \<^verbatim>\<open>daytime.cpp\<close>, \<^verbatim>\<open>discard.cpp\<close>, and
  \<^verbatim>\<open>all.cpp\<close>, which runs them side by side): their callbacks on whole connections, for any sequence of
  accepted clients, reads and writes. Each server runs one loop, in the main thread.
\<close>

section \<open>Sending and taking text\<close>

text \<open>\<^verbatim>\<open>send(const std::string &)\<close> of a string taken out of a buffer, whose characters are cells.\<close>

definition send_text :: "cell list \<Rightarrow> 'h conn \<Rightarrow> 'h conn res" where
  "send_text msg c = (if msg = [] then Inr c else Connection_send_bytes msg (int (length msg)) None c)"

lemma send_text_between:
  fixes c :: "'h conn"
  assumes "between out c" "ds \<noteq> []"
  shows "\<exists>c'. send_text (map Some ds) c = Inr c' \<and> between (out @ ds) c'"
proof -
  let ?b = "buf_of (map Some ds) 0 (length ds)"
  let ?t = "buffer_task ?b (None :: 'h option)"
  let ?c = "c\<lparr>writTasks := writTasks c @ [?t], queued := queued c @ task_items ?t, promised := promised c, write_on := True\<rparr>"
  have items: "task_items ?t = map (Byte \<circ> Some) ds" by (simp add: task_items_def buffer_task_def)
  have "Buffer_of_bytes (map Some ds) (int (length ds)) = Inr ?b"
    using Buffer_of_bytes_ok [of "int (length ds)" "map Some ds"] by simp
  then have "send_text (map Some ds) c = Inr ?c"
    using assms by (simp add: send_text_def Connection_send_bytes_def push_task_def Connection_enableWrit_def
        buffer_task_def between_def)
  moreover have "buffer_ready ?t" using assms(2) by (simp add: buffer_ready_def buffer_task_def)
  then have "between (out @ ds) ?c"
    using assms(1) items by (auto simp: between_def plain_tasks_def outgoing_def buffer_task_def)
  ultimately show ?thesis by blast
qed

section \<open>The chat server\<close>

text \<open>
  Connections by the order in which they were accepted. \<open>members\<close> is the list of weak pointers, which are
  expired once their connection is destroyed, since nothing else keeps it. Two ghost fields record what
  was said and by whom, and how much of it had been said when each connection was accepted.
\<close>

record 'h chat =
  chat_conns :: "'h conn list"
  members :: "nat list"
  said :: "(nat \<times> char list) list"
  joined :: "nat list"

definition chat_new :: "'h chat" where
  "chat_new = \<lparr>chat_conns = [], members = [], said = [], joined = []\<rparr>"

definition chat_onAccept :: "'h conn \<Rightarrow> 'h chat \<Rightarrow> 'h chat" where
  "chat_onAccept c s =
     s\<lparr>chat_conns := chat_conns s @ [c], members := members s @ [length (chat_conns s)],
       joined := joined s @ [length (said s)]\<rparr>"

text \<open>The loop over the members, which drops the expired ones on its way.\<close>

fun chat_tell :: "cell list \<Rightarrow> nat \<Rightarrow> nat list \<Rightarrow> 'h conn list \<Rightarrow> (nat list \<times> 'h conn list) res" where
  "chat_tell msg i [] cs = Inr ([], cs)"
| "chat_tell msg i (m # ms) cs =
     (if destroyed (cs ! m) then chat_tell msg i ms cs
      else bind_res (if m \<noteq> i then send_text msg (cs ! m) else Inr (cs ! m)) (\<lambda>c.
           bind_res (chat_tell msg i ms (cs[m := c])) (\<lambda>(ms, cs). Inr (m # ms, cs))))"

definition chat_onRead :: "nat \<Rightarrow> 'h chat \<Rightarrow> 'h chat res option" where
  "chat_onRead i s =
     bind_run (Buffer_retriveveAllAsString (readBuf (chat_conns s ! i))) (\<lambda>(msg, b).
     Some (bind_res (chat_tell msg i (members s) ((chat_conns s)[i := (chat_conns s ! i)\<lparr>readBuf := b\<rparr>])) (\<lambda>(ms, cs).
     Inr (s\<lparr>chat_conns := cs, members := ms\<rparr>))))"

datatype chat_input = Accept | Event nat sock_event

definition chat_step :: "chat_input \<Rightarrow> 'h chat \<Rightarrow> 'h chat res option" where
  "chat_step i s =
     (case i of
        Accept \<Rightarrow> Some (bind_res accepted_conn (\<lambda>c. Inr (chat_onAccept c s)))
      | Event i e \<Rightarrow>
          if length (chat_conns s) \<le> i \<or> destroyed (chat_conns s ! i) then Some (Inr s)
          else bind_run (deliver silent e (chat_conns s ! i)) (\<lambda>c.
               let s' = s\<lparr>chat_conns := (chat_conns s)[i := c]\<rparr>
               in if calls_read e then chat_onRead i (s'\<lparr>said := said s @ [(i, event_bytes e)]\<rparr>) else Some (Inr s')))"

fun chat_run :: "chat_input list \<Rightarrow> 'h chat \<Rightarrow> 'h chat res option" where
  "chat_run [] s = Some (Inr s)"
| "chat_run (i # is) s = bind_run (chat_step i s) (chat_run is)"

text \<open>What connection \<open>j\<close> should get: everything the others said since it joined.\<close>

definition heard :: "nat \<Rightarrow> 'h chat \<Rightarrow> char list" where
  "heard j s = concat (map snd (filter (\<lambda>p. fst p \<noteq> j) (drop (joined s ! j) (said s))))"

definition chat_inv :: "'h chat \<Rightarrow> bool" where
  "chat_inv s \<longleftrightarrow> length (joined s) = length (chat_conns s)
     \<and> distinct (members s) \<and> (\<forall>m \<in> set (members s). m < length (chat_conns s))
     \<and> (\<forall>j < length (chat_conns s). joined s ! j \<le> length (said s)
          \<and> (if destroyed (chat_conns s ! j) then cut_off (heard j s) (chat_conns s ! j)
             else j \<in> set (members s) \<and> between (heard j s) (chat_conns s ! j)))"

lemma chat_tell_ok:
  assumes "distinct ms" "\<forall>m \<in> set ms. m < length cs" "ds \<noteq> []"
    "\<forall>m \<in> set ms. \<not> destroyed (cs ! m) \<longrightarrow> between (out m) (cs ! m)"
  shows "\<exists>cs'. chat_tell (map Some ds) i ms cs = Inr (filter (\<lambda>m. \<not> destroyed (cs ! m)) ms, cs')
    \<and> length cs' = length cs
    \<and> (\<forall>j < length cs. if j \<in> set ms \<and> j \<noteq> i \<and> \<not> destroyed (cs ! j) then between (out j @ ds) (cs' ! j) else cs' ! j = cs ! j)"
  using assms
proof (induction ms arbitrary: cs)
  case Nil
  then show ?case by simp
next
  case (Cons m ms)
  show ?case
  proof (cases "destroyed (cs ! m)")
    case True
    from Cons.IH [of cs] Cons.prems obtain cs' where cs':
      "chat_tell (map Some ds) i ms cs = Inr (filter (\<lambda>m. \<not> destroyed (cs ! m)) ms, cs')" "length cs' = length cs"
      "\<forall>j < length cs. if j \<in> set ms \<and> j \<noteq> i \<and> \<not> destroyed (cs ! j) then between (out j @ ds) (cs' ! j) else cs' ! j = cs ! j"
      by auto
    then show ?thesis using True by (intro exI [of _ cs']) auto
  next
    case False
    with Cons.prems have bt: "between (out m) (cs ! m)" "m < length cs" by auto
    obtain c where c: "(if m \<noteq> i then send_text (map Some ds) (cs ! m) else Inr (cs ! m)) = Inr c"
      "if m \<noteq> i then between (out m @ ds) c else c = cs ! m"
      using send_text_between [OF bt(1) Cons.prems(3)] by (cases "m = i") auto
    have live: "\<not> destroyed c" using c(2) bt(1) between_live by (auto split: if_splits)
    let ?cs = "cs[m := c]"
    have "m \<notin> set ms" using Cons.prems(1) by simp
    then have same: "?cs ! j = cs ! j" if "j \<in> set ms" for j using that by (metis nth_list_update_neq)
    have fil: "filter (\<lambda>m. \<not> destroyed (?cs ! m)) ms = filter (\<lambda>m. \<not> destroyed (cs ! m)) ms"
      using same by (intro filter_cong) auto
    have "\<forall>k \<in> set ms. \<not> destroyed (?cs ! k) \<longrightarrow> between (out k) (?cs ! k)"
      using Cons.prems(4) \<open>m \<notin> set ms\<close> same by (metis list.set_intros(2))
    with Cons.IH [of ?cs] Cons.prems obtain cs' where cs':
      "chat_tell (map Some ds) i ms ?cs = Inr (filter (\<lambda>m. \<not> destroyed (cs ! m)) ms, cs')" "length cs' = length cs"
      "\<forall>j < length cs. if j \<in> set ms \<and> j \<noteq> i \<and> \<not> destroyed (?cs ! j) then between (out j @ ds) (cs' ! j) else cs' ! j = ?cs ! j"
      unfolding fil by auto
    have "chat_tell (map Some ds) i (m # ms) cs = Inr (filter (\<lambda>m. \<not> destroyed (cs ! m)) (m # ms), cs')"
      using False c(1) cs'(1) by simp
    moreover have "if j \<in> set (m # ms) \<and> j \<noteq> i \<and> \<not> destroyed (cs ! j) then between (out j @ ds) (cs' ! j) else cs' ! j = cs ! j"
      if "j < length cs" for j
    proof (cases "j = m")
      case True
      with cs'(3) that \<open>m \<notin> set ms\<close> have "cs' ! j = c" by simp
      with True c(2) \<open>\<not> destroyed (cs ! m)\<close> show ?thesis by (cases "m = i") simp_all
    next
      case False
      with cs'(3) that show ?thesis by simp
    qed
    ultimately show ?thesis using cs'(2) by blast
  qed
qed

lemma chat_accept_inv:
  assumes "chat_inv s" "between [] c"
  shows "chat_inv (chat_onAccept c s)"
proof -
  let ?s = "chat_onAccept c s"
  have old: "joined ?s ! j = joined s ! j" "heard j ?s = heard j s" "chat_conns ?s ! j = chat_conns s ! j"
    if "j < length (chat_conns s)" for j
    using that assms(1) by (simp_all add: chat_inv_def chat_onAccept_def heard_def nth_append)
  have new: "joined ?s ! length (chat_conns s) = length (said s)" "heard (length (chat_conns s)) ?s = []"
    "chat_conns ?s ! length (chat_conns s) = c"
    using assms(1) by (simp_all add: chat_inv_def chat_onAccept_def heard_def nth_append)
  have fields: "length (joined ?s) = Suc (length (joined s))" "length (chat_conns ?s) = Suc (length (chat_conns s))"
    "members ?s = members s @ [length (chat_conns s)]" "said ?s = said s"
    by (simp_all add: chat_onAccept_def)
  have "length (chat_conns s) \<notin> set (members s)" using assms(1) by (auto simp: chat_inv_def)
  then show ?thesis
    using assms old new between_live [OF assms(2)]
    by (auto simp: chat_inv_def fields less_Suc_eq)
qed

text \<open>An event other than data replaces one connection.\<close>

lemma chat_update_inv:
  assumes "chat_inv s" "i < length (chat_conns s)" "\<not> destroyed (chat_conns s ! i)"
    "between (heard i s) c \<or> cut_off (heard i s) c"
  shows "chat_inv (s\<lparr>chat_conns := (chat_conns s)[i := c]\<rparr>)"
proof -
  have "heard j (s\<lparr>chat_conns := (chat_conns s)[i := c]\<rparr>) = heard j s" for j by (simp add: heard_def)
  moreover have "if destroyed c then cut_off (heard i s) c else between (heard i s) c"
    using assms(4) between_live by (auto simp: cut_off_def)
  ultimately show ?thesis using assms(1-3) by (auto simp: chat_inv_def nth_list_update)
qed

lemma heard_more:
  assumes "joined s ! j \<le> length (said s)"
  shows "heard j (s\<lparr>chat_conns := cs, members := ms, said := said s @ [(i, ds)]\<rparr>) = heard j s @ (if j = i then [] else ds)"
  using assms by (simp add: heard_def)

text \<open>The loop over the members, after connection \<open>i\<close> has given up what it read.\<close>

lemma chat_told_inv:
  fixes s :: "'h chat"
  assumes "chat_inv s" "i < length (chat_conns s)" "\<not> destroyed (chat_conns s ! i)" "ds \<noteq> []" "between (heard i s) c"
  shows "\<exists>ms cs. chat_tell (map Some ds) i (members s) ((chat_conns s)[i := c]) = Inr (ms, cs)
    \<and> chat_inv (s\<lparr>chat_conns := cs, members := ms, said := said s @ [(i, ds)]\<rparr>)"
proof -
  define cs where "cs = (chat_conns s)[i := c]"
  let ?ms = "filter (\<lambda>m. \<not> destroyed (cs ! m)) (members s)"
  have inv: "length (joined s) = length (chat_conns s)" "distinct (members s)" "\<forall>m \<in> set (members s). m < length cs"
    "joined s ! j \<le> length (said s)" "destroyed (chat_conns s ! j) \<Longrightarrow> cut_off (heard j s) (chat_conns s ! j)"
    "\<not> destroyed (chat_conns s ! j) \<Longrightarrow> j \<in> set (members s) \<and> between (heard j s) (chat_conns s ! j)"
    if "j < length (chat_conns s)" for j
    using assms(1) that by (simp_all add: chat_inv_def cs_def)
  have live: "destroyed (cs ! j) = destroyed (chat_conns s ! j)" for j
    using between_live [OF assms(5)] assms(2,3) unfolding cs_def by (cases "j = i") auto
  have all: "\<forall>m \<in> set (members s). \<not> destroyed (cs ! m) \<longrightarrow> between (heard m s) (cs ! m)"
  proof (intro ballI impI)
    fix m assume "m \<in> set (members s)" "\<not> destroyed (cs ! m)"
    then have "m < length (chat_conns s)" "\<not> destroyed (chat_conns s ! m)"
      using inv(3) [OF assms(2)] live by (simp_all add: cs_def)
    with inv(6) assms(5) show "between (heard m s) (cs ! m)" by (cases "m = i") (simp_all add: cs_def)
  qed
  obtain cs' where cs': "chat_tell (map Some ds) i (members s) cs = Inr (?ms, cs')" "length cs' = length cs"
    "\<forall>j < length cs. if j \<in> set (members s) \<and> j \<noteq> i \<and> \<not> destroyed (cs ! j) then between (heard j s @ ds) (cs' ! j) else cs' ! j = cs ! j"
    using chat_tell_ok [OF inv(2,3) [OF assms(2)] assms(4) all, of i] by blast
  let ?s = "s\<lparr>chat_conns := cs', members := ?ms, said := said s @ [(i, ds)]\<rparr>"
  have "joined ?s ! j \<le> length (said ?s) \<and>
      (if destroyed (chat_conns ?s ! j) then cut_off (heard j ?s) (chat_conns ?s ! j)
       else j \<in> set (members ?s) \<and> between (heard j ?s) (chat_conns ?s ! j))" if "j < length (chat_conns ?s)" for j
  proof -
    have j: "j < length (chat_conns s)" and jl: "j < length cs" using that cs'(2) by (simp_all add: cs_def)
    note more = heard_more [where cs = cs' and ms = ?ms and i = i and ds = ds, OF inv(4) [OF j]]
    consider (dead) "destroyed (cs ! j)" | (self) "\<not> destroyed (cs ! j)" "j = i" | (other) "\<not> destroyed (cs ! j)" "j \<noteq> i" by blast
    then show ?thesis
    proof cases
      case dead
      with live assms(3) have ji: "j \<noteq> i" by auto
      with dead cs'(3) jl have "cs' ! j = chat_conns s ! j" by (simp add: cs_def)
      with ji dead inv(4,5) [OF j] live cut_off_more show ?thesis unfolding more by simp
    next
      case self
      with cs'(3) jl assms(2) have "cs' ! j = c" by (simp add: cs_def)
      with self assms(3,5) inv(4,6) [OF j] between_live [OF assms(5)] show ?thesis unfolding more by simp
    next
      case other
      with live inv(6) [OF j] have mem: "j \<in> set (members s)" by simp
      with other cs'(3) jl have "between (heard j s @ ds) (cs' ! j)" by simp
      with other mem between_live inv(4) [OF j] show ?thesis unfolding more by auto
    qed
  qed
  moreover have "length (joined ?s) = length (chat_conns ?s)" "distinct (members ?s)"
    "\<forall>m \<in> set (members ?s). m < length (chat_conns ?s)"
    using inv(1-3) [OF assms(2)] cs'(2) by (simp_all add: cs_def)
  ultimately have "chat_inv ?s" unfolding chat_inv_def by blast
  with cs'(1) show ?thesis unfolding cs_def by blast
qed

lemma chat_read_inv:
  fixes s :: "'h chat"
  assumes "chat_inv s" "i < length (chat_conns s)" "\<not> destroyed (chat_conns s ! i)" "ds \<noteq> []" "length ds \<le> 16384"
  shows "\<exists>s'. chat_step (Event i (Readable (Data ds))) s = Some (Inr s') \<and> chat_inv s'"
proof -
  define c where "c = chat_conns s ! i"
  have bt: "between (heard i s) c" using assms(1-3) by (auto simp: chat_inv_def c_def)
  obtain b where b: "buf_ok b" "content b = map Some ds"
    "Connection_handleReadEvent silent (Data ds) c = run_cev silent ReadCb (c\<lparr>readBuf := b\<rparr>)"
    using handleRead_data [of c ds silent] bt assms(4,5) by (auto simp: between_def)
  let ?c = "c\<lparr>readBuf := b, cevents := cevents c @ [ReadCb]\<rparr>"
  have dl: "deliver silent (Readable (Data ds)) c = Some (Inr ?c)"
    using b(3) between_live [OF bt] by (simp add: deliver_def run_cev_def silent_def)
  obtain b' where b': "Buffer_retriveveAllAsString b = Some (Inr (map Some ds, b'))" "buf_ok b'" "content b' = []" "bufptr b' \<noteq> None"
    using take_all [OF b(1)] b(2) assms(4) by auto
  have "between (heard i s) (?c\<lparr>readBuf := b'\<rparr>)" using bt b'(2-4) by (simp add: between_def outgoing_def)
  from chat_told_inv [OF assms(1-4) this] obtain ms cs where t:
    "chat_tell (map Some ds) i (members s) ((chat_conns s)[i := ?c\<lparr>readBuf := b'\<rparr>]) = Inr (ms, cs)"
    "chat_inv (s\<lparr>chat_conns := cs, members := ms, said := said s @ [(i, ds)]\<rparr>)" by blast
  then have "chat_step (Event i (Readable (Data ds))) s
      = Some (Inr (s\<lparr>chat_conns := cs, members := ms, said := said s @ [(i, ds)]\<rparr>))"
    using assms(2-4) dl b'(1) by (simp add: chat_step_def calls_read_def chat_onRead_def c_def [symmetric])
  with t(2) show ?thesis by blast
qed

definition chat_input_ok :: "chat_input \<Rightarrow> bool" where
  "chat_input_ok i \<longleftrightarrow> (case i of Accept \<Rightarrow> True | Event _ e \<Rightarrow> event_ok e)"

lemma chat_step_inv:
  fixes s :: "'h chat"
  assumes "chat_inv s" "chat_input_ok i"
  shows "\<exists>s'. chat_step i s = Some (Inr s') \<and> chat_inv s'"
proof (cases i)
  case Accept
  obtain c :: "'h conn" where c: "accepted_conn = Inr c" "between [] c" using accepted_between by blast
  have "chat_step i s = Some (Inr (chat_onAccept c s))" unfolding chat_step_def Accept c(1) by simp
  with chat_accept_inv [OF assms(1) c(2)] show ?thesis by blast
next
  case (Event k e)
  show ?thesis
  proof (cases "length (chat_conns s) \<le> k \<or> destroyed (chat_conns s ! k)")
    case True
    with Event assms(1) show ?thesis by (auto simp: chat_step_def)
  next
    case False
    then have k: "k < length (chat_conns s)" "\<not> destroyed (chat_conns s ! k)" by simp_all
    then have bt: "between (heard k s) (chat_conns s ! k)" using assms(1) by (simp add: chat_inv_def)
    have e: "event_ok e" using assms(2) Event by (simp add: chat_input_ok_def)
    show ?thesis
    proof (cases "event_bytes e = []")
      case True
      obtain c where c: "deliver silent e (chat_conns s ! k) = Some (Inr c)" "between (heard k s) c \<or> cut_off (heard k s) c"
        using other_event [OF bt e True] by blast
      have "chat_step i s = Some (Inr (s\<lparr>chat_conns := (chat_conns s)[k := c]\<rparr>))"
        using Event False c(1) True by (simp add: chat_step_def calls_read_def)
      with chat_update_inv [OF assms(1) k c(2)] show ?thesis by blast
    next
      case data: False
      then obtain ds where ds: "e = Readable (Data ds)" by (cases e rule: event_bytes.cases) auto
      with chat_read_inv [OF assms(1) k, of ds] data e Event show ?thesis by (simp add: event_ok_def)
    qed
  qed
qed

lemma chat_run_inv:
  "chat_inv s \<Longrightarrow> \<forall>i \<in> set is. chat_input_ok i \<Longrightarrow> \<exists>s'. chat_run is s = Some (Inr s') \<and> chat_inv s'"
proof (induction "is" arbitrary: s)
  case Nil
  then show ?case by simp
next
  case (Cons i "is")
  obtain t where "chat_step i s = Some (Inr t)" "chat_inv t" using chat_step_inv [OF Cons.prems(1), of i] Cons.prems(2) by auto
  with Cons.IH [of t] Cons.prems(2) show ?case by simp
qed

lemma chat_new_inv: "chat_inv chat_new"
  by (simp add: chat_inv_def chat_new_def)

lemma concat_others: "concat [ds. (i, ds) \<leftarrow> ps, i \<noteq> j] = concat (map snd (filter (\<lambda>p. fst p \<noteq> j) ps))"
  by (induction ps) auto

text \<open>C15. The chat server. For any sequence of accepted clients, reads of at most 16384 bytes and writes with any
  answers of the kernel, no call faults and every handler returns. A live connection is on the list of
  members once, and what it has sent followed by what is queued for it is exactly what the other
  connections have said since it joined, in the order in which they said it; a closed one has sent a
  prefix of that.\<close>

theorem chat_server_relays_to_others:
  assumes "\<forall>i \<in> set is. chat_input_ok i"
  shows "\<exists>s' :: 'h chat. chat_run is chat_new = Some (Inr s') \<and> distinct (members s')
    \<and> (\<forall>j < length (chat_conns s'). let c = chat_conns s' ! j;
          others = concat [ds. (i, ds) \<leftarrow> drop (joined s' ! j) (said s'), i \<noteq> j]
        in if destroyed c then \<exists>rest. map (Byte \<circ> Some) others = wire c @ rest
           else j \<in> set (members s') \<and> wire c @ concat (map task_items (writTasks c)) = map (Byte \<circ> Some) others)"
proof -
  obtain s' :: "'h chat" where s': "chat_run is chat_new = Some (Inr s')" "chat_inv s'"
    using chat_run_inv [OF chat_new_inv assms] by blast
  have others: "concat [ds. (i, ds) \<leftarrow> drop (joined s' ! j) (said s'), i \<noteq> j] = heard j s'" for j
    unfolding heard_def by (rule concat_others)
  show ?thesis
  proof (intro exI [of _ s'] conjI allI impI)
    show "distinct (members s')" using s'(2) by (simp add: chat_inv_def)
    fix j assume "j < length (chat_conns s')"
    with s'(2) have "if destroyed (chat_conns s' ! j) then cut_off (heard j s') (chat_conns s' ! j)
        else j \<in> set (members s') \<and> between (heard j s') (chat_conns s' ! j)" by (simp add: chat_inv_def)
    then show "let c = chat_conns s' ! j; others = concat [ds. (i, ds) \<leftarrow> drop (joined s' ! j) (said s'), i \<noteq> j]
        in if destroyed c then \<exists>rest. map (Byte \<circ> Some) others = wire c @ rest
           else j \<in> set (members s') \<and> wire c @ concat (map task_items (writTasks c)) = map (Byte \<circ> Some) others"
      unfolding others Let_def
      using between_outgoing [of "heard j s'" "chat_conns s' ! j"] by (auto simp: cut_off_def outgoing_def)
  qed (rule s'(1))
qed

lemma chat_server_relays_to_others_witness:
  "\<exists>s' :: nat chat. chat_run [Accept, Accept, Event 0 (Readable (Data ''hi'')), Event 1 (Writable [Room 1])] chat_new = Some (Inr s')"
  using chat_server_relays_to_others [of "[Accept, Accept, Event 0 (Readable (Data ''hi'')), Event 1 (Writable [Room 1])]"]
  by (auto simp: chat_input_ok_def event_ok_def)

section \<open>The discard server\<close>

text \<open>
  The read callback logs what it takes out of the buffer: the argument of \<^verbatim>\<open>%s\<close> ends at the first NUL. The
  result is the connection and the line written to the standard error.
\<close>

definition discard_onRead ::
    "log_level \<Rightarrow> string \<Rightarrow> string \<Rightarrow> int \<Rightarrow> string \<Rightarrow> 'h conn \<Rightarrow> ('h conn \<times> cell list option) res option" where
  "discard_onRead lv time file line func c =
     bind_run (Buffer_retriveveAllAsString (readBuf c)) (\<lambda>(msg, b).
     case those msg of
       None \<Rightarrow> Some (Inl Out_of_bounds)
     | Some s \<Rightarrow> Some (bind_res (Logger_log lv INFO time file line func (''discard: '' @ c_string s)) (\<lambda>out.
                        Inr (c\<lparr>readBuf := b\<rparr>, out))))"

definition discard_event ::
    "log_level \<Rightarrow> string \<Rightarrow> string \<Rightarrow> int \<Rightarrow> string \<Rightarrow> sock_event \<Rightarrow> 'h conn \<Rightarrow> ('h conn \<times> cell list option) res option" where
  "discard_event lv time file line func e c =
     bind_run (deliver silent e c) (\<lambda>c'.
     if \<not> destroyed c \<and> calls_read e then discard_onRead lv time file line func c' else Some (Inr (c', None)))"

lemma those_map_Some [simp]: "those (map Some xs) = Some xs"
  by (induction xs) simp_all

lemma c_string_no_nul: "CHR 0x00 \<notin> set (c_string s)"
  by (auto simp: c_string_def dest: set_takeWhileD)

lemma discard_data:
  fixes c :: "'h conn"
  assumes "between [] c" "ds \<noteq> []" "length ds \<le> 16384"
  shows "\<exists>c'. between [] c' \<and> discard_event lv time file line func (Readable (Data ds)) c
    = Some (bind_res (Logger_log lv INFO time file line func (''discard: '' @ c_string ds)) (\<lambda>out. Inr (c', out)))"
proof -
  obtain b where b: "buf_ok b" "content b = map Some ds"
    "Connection_handleReadEvent silent (Data ds) c = run_cev silent ReadCb (c\<lparr>readBuf := b\<rparr>)"
    using handleRead_data [of c ds silent] assms by (auto simp: between_def)
  let ?c = "c\<lparr>readBuf := b, cevents := cevents c @ [ReadCb]\<rparr>"
  have dl: "deliver silent (Readable (Data ds)) c = Some (Inr ?c)"
    using b(3) between_live [OF assms(1)] by (simp add: deliver_def run_cev_def silent_def)
  obtain b' where b': "Buffer_retriveveAllAsString b = Some (Inr (map Some ds, b'))" "buf_ok b'" "content b' = []" "bufptr b' \<noteq> None"
    using take_all [OF b(1)] b(2) assms(2) by auto
  have "between [] (?c\<lparr>readBuf := b'\<rparr>)" using assms(1) b'(2-4) by (simp add: between_def outgoing_def)
  with dl b'(1) assms(2) between_live [OF assms(1)] show ?thesis
    by (intro exI [of _ "?c\<lparr>readBuf := b'\<rparr>"]) (simp add: discard_event_def calls_read_def discard_onRead_def)
qed

text \<open>The discard server. A read of at most 16384 bytes is thrown away: nothing is sent, and the line logged is
  the text up to its first NUL, without trailing newlines. But the line has to fit in the logger's buffer:
  with the log level at information or below, any client that sends enough bytes without a NUL makes the
  server access memory outside of the buffer.\<close>

theorem discard_server_logs:
  fixes c :: "'h conn"
  assumes "between [] c" "ds \<noteq> []" "length ds \<le> 16384" "CHR 0x00 \<notin> set (log_prefix INFO time file line func)"
    "t = log_prefix INFO time file line func @ ''discard: '' @ c_string ds"
  shows "if level_number INFO < level_number lv
     then \<exists>c' :: 'h conn. discard_event lv time file line func (Readable (Data ds)) c = Some (Inr (c', None)) \<and> between [] c'
   else if length t < 4096 \<and> length (trimmed t) < 4095
     then \<exists>c' :: 'h conn. discard_event lv time file line func (Readable (Data ds)) c
            = Some (Inr (c', Some (map Some (trimmed t @ [CHR ''\<newline>''])))) \<and> between [] c'
   else discard_event lv time file line func (Readable (Data ds)) c = Some (Inl Out_of_bounds)"
proof -
  have "CHR 0x00 \<notin> set t" using assms(4,5) c_string_no_nul by auto
  note log = log_of_text [OF assms(5) this, of lv]
  obtain c' where "between [] c'" "discard_event lv time file line func (Readable (Data ds)) c
    = Some (bind_res (Logger_log lv INFO time file line func (''discard: '' @ c_string ds)) (\<lambda>out. Inr (c', out)))"
    using discard_data [OF assms(1-3)] by blast
  then show ?thesis unfolding log by auto
qed

lemma discard_server_logs_witness:
  "\<exists>c :: nat conn. accepted_conn = Inr c \<and>
     discard_event DEBUG ''T'' ''discard.cpp'' 8 ''operator()'' (Readable (Data (replicate 4096 (CHR ''x'')))) c = Some (Inl Out_of_bounds)"
proof -
  obtain c :: "nat conn" where c: "accepted_conn = Inr c" "between [] c" using accepted_between by blast
  define p where "p = log_prefix INFO ''T'' ''discard.cpp'' 8 ''operator()''"
  have p: "CHR 0x00 \<notin> set p" unfolding p_def by code_simp
  have "c_string (replicate 4096 (CHR ''x'')) = replicate 4096 (CHR ''x'')"
    by (simp add: c_string_def takeWhile_replicate)
  then have long: "\<not> length (p @ ''discard: '' @ c_string (replicate 4096 (CHR ''x''))) < 4096" by simp
  from discard_server_logs [OF c(2), of "replicate 4096 (CHR ''x'')" "''T''" "''discard.cpp''" 8 "''operator()''", OF _ _ _ HOL.refl, of DEBUG]
  have "discard_event DEBUG ''T'' ''discard.cpp'' 8 ''operator()'' (Readable (Data (replicate 4096 (CHR ''x'')))) c
      = Some (Inl Out_of_bounds)" using p long by (simp add: p_def level_number_def)
  with c(1) show ?thesis by blast
qed

section \<open>The daytime server\<close>

text \<open>
  The accept callback sends the time and then a newline, whose completion handler destroys the
  connection; there is no read callback. The only handler is that one, of type \<^typ>\<open>unit\<close>.
\<close>

definition daytime :: "unit cbehaviour" where
  "daytime = (\<lambda>e es. case e of Ran _ \<Rightarrow> [Destroy] | _ \<Rightarrow> [])"

definition daytime_onAccept :: "string \<Rightarrow> unit conn \<Rightarrow> unit conn res" where
  "daytime_onAccept time c = do_ccalls [SendCstr time None, SendCstr ''\<newline>'' (Some ())] c"

definition daytime_accepted :: "string \<Rightarrow> unit conn res" where
  "daytime_accepted time = bind_res (accepted_with False) (daytime_onAccept time)"

fun daytime_run :: "sock_event list \<Rightarrow> unit conn \<Rightarrow> unit conn res option" where
  "daytime_run [] c = Some (Inr c)"
| "daytime_run (e # es) c = bind_run (deliver daytime e c) (daytime_run es)"

lemma calm_daytime: "calm daytime"
  by (simp add: calm_def daytime_def)

lemma closing_cases:
  assumes "closing_tasks h ts"
  obtains (last) t where "ts = [t]" "buffer_ready t" "thandler t = Some h"
    | (more) t us where "ts = t # us" "buffer_ready t" "thandler t = None" "closing_tasks h us"
proof -
  from assms obtain us t where u: "ts = us @ [t]" "plain_tasks us" "buffer_ready t" "thandler t = Some h"
    by (auto simp: closing_tasks_def)
  show ?thesis
  proof (cases us)
    case Nil
    with u show ?thesis using last by simp
  next
    case (Cons v vs)
    with u have "closing_tasks h (vs @ [t])" by (auto simp: closing_tasks_def plain_tasks_def)
    with Cons u show ?thesis using more [of v "vs @ [t]"] by (simp add: plain_tasks_def)
  qed
qed

text \<open>The whole of the last buffer is written: the handler closes the connection.\<close>

lemma consume_last:
  assumes "writTasks c = [t]" "buffer_ready t" "thandler t = Some ()" "\<not> destroyed c"
  shows "\<exists>c'. consume daytime (int (length (task_items t))) c = Some (Inr (True, c')) \<and> destroyed c' \<and> wire c' = wire c"
proof -
  from assms(2) obtain b where b: "fp t = None" "tbuffer t = Some b" "buf_ok b" "content b \<noteq> []"
    by (auto simp: buffer_ready_def)
  then have "consume daytime (int (length (task_items t))) c
      = Some (Inr (True, Connection_destroy (c\<lparr>cevents := cevents c @ [Ran ()]\<rparr>)))"
    using assms by (subst consume.simps)
      (simp add: task_items_def Buffer_size_ok run_handler_def run_cev_def daytime_def Connection_destroy_def)
  then show ?thesis using assms(4) by (simp add: Connection_destroy_def)
qed

lemma closing_Cons:
  "buffer_ready t \<Longrightarrow> thandler t = None \<Longrightarrow> closing_tasks h us \<Longrightarrow> closing_tasks h (t # us)"
  by (auto simp: closing_tasks_def plain_tasks_def intro: exI [of _ "t # _"])

lemma closing_single: "buffer_ready t \<Longrightarrow> thandler t = Some h \<Longrightarrow> closing_tasks h [t]"
  by (simp add: closing_tasks_def plain_tasks_def)

lemma consume_daytime:
  assumes "closing_tasks () (writTasks c)" "\<not> destroyed c" "n \<le> length (items_of (writTasks c))"
  shows "\<exists>ret c'. consume daytime (int n) c = Some (Inr (ret, c')) \<and> took (closing_tasks ()) n c ret c'"
  using assms
proof (induction "length (writTasks c)" arbitrary: c n rule: less_induct)
  case less
  note live = less.prems(2)
  consider "n = 0" | (part) t us where "writTasks c = t # us" "0 < n" "n < length (task_items t)"
    | (whole) t us where "writTasks c = t # us" "0 < n" "length (task_items t) \<le> n"
    using less.prems(1)
  proof (cases rule: closing_cases)
    case (last u) then show ?thesis using that by (cases "n < length (task_items u)") auto
  next
    case (more u us) then show ?thesis using that by (cases "n < length (task_items u)") auto
  qed
  then show ?case
  proof cases
    case 1
    then have "took (closing_tasks ()) n c False c"
      unfolding took_def using less.prems by (simp, intro exI [of _ "writTasks c"], simp)
    with 1 show ?thesis using consume_nothing [of daytime c] by auto
  next
    case part
    from less.prems(1) part(1) have t: "buffer_ready t" by (cases rule: closing_cases) auto
    obtain u where u: "consume daytime (int n) c = Some (Inr (True, c\<lparr>writTasks := u # us\<rparr>))" "buffer_ready u"
      "thandler u = thandler t" "task_items u = drop n (task_items t)"
      using consume_part [OF part(1) t part(2,3)] by blast
    from less.prems(1) u(2,3) part(1) have "closing_tasks () (u # us)"
      by (cases rule: closing_cases) (auto intro: closing_single closing_Cons)
    with u live part show ?thesis by (auto simp: took_def)
  next
    case (whole t us)
    from less.prems(1) show ?thesis
    proof (cases rule: closing_cases)
      case (last t')
      then have "n = length (task_items t)" "t' = t" using whole less.prems(3) by auto
      then show ?thesis using consume_last [OF last(1-3) live] last(1) by (force simp: took_def)
    next
      case (more t' us')
      let ?n = "n - length (task_items t)" and ?c = "c\<lparr>writTasks := us\<rparr>"
      have step: "consume daytime (int n) c = consume daytime (int ?n) ?c"
        using consume_whole [OF whole(1) _ _ whole(2,3)] more whole(1) by simp
      obtain ret c' where "consume daytime (int ?n) ?c = Some (Inr (ret, c'))" "took (closing_tasks ()) ?n ?c ret c'"
        using less.hyps [of ?c ?n] less.prems(3) live whole(1) more(1,4) by force
      moreover from this(2) whole(1,3) have "took (closing_tasks ()) n c ret c'"
        by (auto simp: took_def split: if_splits)
      ultimately show ?thesis using step by auto
    qed
  qed
qed

interpretation daytime_writes: write_tasks daytime "closing_tasks ()"
  by unfold_locales (use calm_daytime consume_daytime in \<open>auto simp: closing_tasks_def plain_tasks_def\<close>)

definition daytime_ok :: "char list \<Rightarrow> unit conn \<Rightarrow> bool" where
  "daytime_ok out c \<longleftrightarrow> \<not> destroyed c \<and> closing_tasks () (writTasks c) \<and> buf_ok (readBuf c) \<and> bufptr (readBuf c) \<noteq> None
     \<and> \<not> has_readcb c \<and> outgoing c = map (Byte \<circ> Some) out"

lemma daytime_ok_cut:
  assumes "daytime_ok out c" "destroyed c'" "\<exists>rest. outgoing c = wire c' @ rest"
  shows "cut_off out c'"
  using assms by (simp add: cut_off_def daytime_ok_def)

lemma daytime_accepted_ok:
  assumes "time \<noteq> []" "CHR 0x00 \<notin> set time"
  shows "\<exists>c. daytime_accepted time = Inr c \<and> daytime_ok (time @ ''\<newline>'') c"
proof -
  let ?b = "buf_of (map Some time) 0 (length time)" and ?nl = "buf_of (map Some ''\<newline>'') 0 1"
  define c where "c = \<lparr>destroyed = False, read_on = True, write_on = True, readBuf = buf_of (replicate 1024 None) 0 0,
    writTasks = [buffer_task ?b None, buffer_task ?nl (Some ())], has_readcb = False, has_errocb = True, cevents = [],
    wire = [], queued = task_items (buffer_task ?b (None :: unit option)) @ task_items (buffer_task ?nl (Some ())),
    promised = [()]\<rparr>"
  have bs: "takeWhile (\<lambda>x. x \<noteq> CHR 0x00) time = time" using assms(2) by (auto simp: takeWhile_eq_all_conv)
  have b: "Buffer_of_bytes (map Some time) (int (length time)) = Inr ?b" "Buffer_of_bytes (map Some ''\<newline>'') 1 = Inr ?nl"
    using Buffer_of_bytes_ok [of "int (length time)" "map Some time"] Buffer_of_bytes_ok [of 1 "map Some ''\<newline>''"] by simp_all
  have cs: "Connection_send_cstr time h d = Connection_send_bytes (map Some time) (int (length time)) h d"
    "Connection_send_cstr ''\<newline>'' h d = Connection_send_bytes (map Some ''\<newline>'') 1 h d" for h and d :: "unit conn"
    unfolding Connection_send_cstr_def bs by simp_all
  have "daytime_accepted time = Inr c"
    using b by (simp add: daytime_accepted_def daytime_onAccept_def accepted_with_def TcpServer_initConnection_def
      Connection_onRead_def Connection_onErro_def Connection_new_def Buffer_alloc_ok Connection_init1_def
      Connection_enableRead_def Connection_enableWrit_def cs Connection_send_bytes_def push_task_def
      c_def buffer_task_def)
  moreover have "closing_tasks () (writTasks c)"
    using assms(1) unfolding closing_tasks_def
    by (intro exI [of _ "[buffer_task ?b None]"] exI [of _ "buffer_task ?nl (Some ())"])
      (simp add: c_def plain_tasks_def buffer_ready_def buffer_task_def)
  moreover have "outgoing c = map (Byte \<circ> Some) (time @ ''\<newline>'')"
    by (simp add: outgoing_def c_def task_items_def buffer_task_def)
  ultimately show ?thesis by (simp add: daytime_ok_def c_def)
qed

lemma daytime_step:
  assumes "daytime_ok out c" "event_ok e"
  shows "\<exists>c'. deliver daytime e c = Some (Inr c') \<and> (daytime_ok out c' \<or> cut_off out c')"
proof -
  have live: "\<not> destroyed c" and cl: "closing_tasks () (writTasks c)" and rb: "buf_ok (readBuf c)" "bufptr (readBuf c) \<noteq> None"
    using assms(1) by (simp_all add: daytime_ok_def)
  show ?thesis
  proof (cases e)
    case (Writable as)
    obtain c' where c': "Connection_handleWritEvent daytime as c = Some (Inr c')" "wrote (closing_tasks ()) c c'"
      using daytime_writes.handleWrit_wrote [OF cl live] by blast
    then have "daytime_ok out c' \<or> cut_off out c'"
      using assms(1) daytime_ok_cut [OF assms(1)] by (cases "destroyed c'") (auto simp: wrote_def daytime_ok_def)
    with c'(1) Writable live show ?thesis by (auto simp: deliver_def)
  next
    case (Readable a)
    show ?thesis
    proof (cases "\<exists>ds. a = Data ds \<and> ds \<noteq> []")
      case True
      then obtain ds where ds: "a = Data ds" "ds \<noteq> []" by blast
      obtain b where b: "buf_ok b" "content b = content (readBuf c) @ map Some ds"
        "Connection_handleReadEvent daytime a c = Inr (c\<lparr>readBuf := b\<rparr>)"
        using handleRead_data [OF live rb ds(2), of daytime] assms Readable ds(1) by (auto simp: event_ok_def daytime_ok_def)
      have "bufptr b \<noteq> None" using buf_ok_bufptr [OF b(1)] b(2) ds(2) by simp
      then have "daytime_ok out (c\<lparr>readBuf := b\<rparr>)" using assms(1) b(1) by (simp add: daytime_ok_def outgoing_def)
      with b(3) Readable live show ?thesis by (auto simp: deliver_def)
    next
      case False
      then obtain c' where c': "Connection_handleReadEvent daytime a c = Inr c'" "c' = c \<or> destroyed c' \<and> wire c' = wire c"
        using quiet_event [OF live rb _ calm_daytime, of a] by auto
      then have "daytime_ok out c' \<or> cut_off out c'"
        using assms(1) daytime_ok_cut [OF assms(1), of c'] by (auto simp: outgoing_def)
      with c'(1) Readable live show ?thesis by (auto simp: deliver_def)
    qed
  qed
qed

lemma daytime_run_dead: "destroyed c \<Longrightarrow> daytime_run es c = Some (Inr c)"
  by (induction es) (simp_all add: deliver_def)

lemma daytime_run_ok:
  "daytime_ok out c \<Longrightarrow> \<forall>e \<in> set es. event_ok e \<Longrightarrow>
     \<exists>c'. daytime_run es c = Some (Inr c') \<and> (daytime_ok out c' \<or> cut_off out c')"
proof (induction es arbitrary: c)
  case Nil
  then show ?case by simp
next
  case (Cons e es)
  obtain d where d: "deliver daytime e c = Some (Inr d)" "daytime_ok out d \<or> cut_off out d"
    using daytime_step [OF Cons.prems(1), of e] Cons.prems(2) by auto
  from d(2) show ?case
  proof
    assume "daytime_ok out d"
    with Cons.IH [of d] Cons.prems(2) d(1) show ?thesis by simp
  next
    assume "cut_off out d"
    moreover from this have "daytime_run es d = Some (Inr d)" by (intro daytime_run_dead) (simp add: cut_off_def)
    ultimately show ?thesis using d(1) by simp
  qed
qed

text \<open>With room for everything one write event sends the rest, and the handler of the newline closes.\<close>

lemma daytime_closes:
  assumes "daytime_ok out c" "int (length out) \<le> r"
  shows "\<exists>c'. Connection_handleWritEvent daytime [Room r] c = Some (Inr c') \<and> destroyed c' \<and> wire c' = map (Byte \<circ> Some) out"
proof -
  have live: "\<not> destroyed c" and cl: "closing_tasks () (writTasks c)" and out: "outgoing c = map (Byte \<circ> Some) out"
    using assms(1) by (simp_all add: daytime_ok_def)
  let ?items = "items_of (writTasks c)"
  have some: "items_of ts \<noteq> []" if closing: "closing_tasks () ts" for ts
    using closing by (auto simp: closing_tasks_def buffer_ready_def task_items_def)
  obtain t ts where ts: "writTasks c = t # ts" using cl by (cases "writTasks c") (auto simp: closing_tasks_def)
  have "length out = length (wire c) + length ?items"
    using arg_cong [OF out, of length] by (simp add: outgoing_def)
  then have min: "min r (int (length ?items)) = int (length ?items)" using assms(2) by simp
  then have "0 < min r (int (length ?items))" using some [OF cl] by simp
  from daytime_writes.round_room [OF cl live ts this] obtain n ret c' where r:
    "int n = min r (int (length ?items))" "writ_round daytime (Room r) c = Some (Inr (ret, c'))"
    "took (closing_tasks ()) n (c\<lparr>wire := wire c @ take n ?items\<rparr>) ret c'" by blast
  have n: "n = length ?items" using r(1) min by simp
  have "destroyed c'" using r(3) some by (auto simp: took_def n split: if_splits)
  with r(3) have "ret" "wire c' = outgoing c" by (simp_all add: took_def n outgoing_def)
  with r(2) ts live \<open>destroyed c'\<close> out show ?thesis by (simp add: Connection_handleWritEvent_def)
qed

text \<open>C39. The daytime server. For any reads and writes of an accepted connection no call faults; what the client
  gets is a prefix of the time and a newline. While the connection lives all the rest is queued, and a
  write event with room for it sends it and then closes the connection.\<close>

theorem daytime_server_tells_time:
  assumes "time \<noteq> []" "CHR 0x00 \<notin> set time" "\<forall>e \<in> set es. event_ok e"
  shows "\<exists>c c'. daytime_accepted time = Inr c \<and> daytime_run es c = Some (Inr c')
    \<and> (\<exists>rest. map (Byte \<circ> Some) (time @ ''\<newline>'') = wire c' @ rest)
    \<and> (\<not> destroyed c' \<longrightarrow> (\<forall>r. int (length time) < r \<longrightarrow> (\<exists>c''. Connection_handleWritEvent daytime [Room r] c' = Some (Inr c'')
          \<and> destroyed c'' \<and> wire c'' = map (Byte \<circ> Some) (time @ ''\<newline>''))))"
proof -
  obtain c where c: "daytime_accepted time = Inr c" "daytime_ok (time @ ''\<newline>'') c"
    using daytime_accepted_ok [OF assms(1,2)] by blast
  obtain c' where c': "daytime_run es c = Some (Inr c')" "daytime_ok (time @ ''\<newline>'') c' \<or> cut_off (time @ ''\<newline>'') c'"
    using daytime_run_ok [OF c(2) assms(3)] by blast
  have "\<exists>rest. map (Byte \<circ> Some) (time @ ''\<newline>'') = wire c' @ rest"
    using c'(2)
  proof
    assume "daytime_ok (time @ ''\<newline>'') c'"
    then have "map (Byte \<circ> Some) (time @ ''\<newline>'') = wire c' @ items_of (writTasks c')"
      unfolding daytime_ok_def outgoing_def by simp
    then show ?thesis by blast
  qed (simp add: cut_off_def)
  moreover have "\<exists>c''. Connection_handleWritEvent daytime [Room r] c' = Some (Inr c'') \<and> destroyed c''
      \<and> wire c'' = map (Byte \<circ> Some) (time @ ''\<newline>'')" if "\<not> destroyed c'" "int (length time) < r" for r
    using c'(2) that daytime_closes [of "time @ ''\<newline>''" c' r] by (auto simp: cut_off_def)
  ultimately show ?thesis using c(1) c'(1) by blast
qed

lemma daytime_server_tells_time_witness:
  "\<exists>c c'. daytime_accepted '' 000000'' = Inr c \<and> daytime_run [Writable [Room 3], Readable (Data ''x'')] c = Some (Inr c')"
  using daytime_server_tells_time [of "'' 000000''" "[Writable [Room 3], Readable (Data ''x'')]"] by (auto simp: event_ok_def)

end
