(* ===== verification/Udp_Programs.thy ===== *)
theory Udp_Programs
  imports Udp
begin

text \<open>
  The UDP server of \<^verbatim>\<open>src/examples/udp_hello.cpp\<close> on its socket: it greets each new peer and sends every
  datagram back.
\<close>

section \<open>The program\<close>

definition hello_text :: string where
  "hello_text = ''Hello World'' @ [CHR ''\<newline>'']"

definition udp_hello :: "'h ubehaviour" where
  "udp_hello = (\<lambda>e es. case e of
      UAccept ep \<Rightarrow> [USendCstr ep hello_text None]
    | URead ep \<Rightarrow> [UEcho ep None]
    | _ \<Rightarrow> [])"

definition udp_hello_start :: "'h udp_socket res" where
  "udp_hello_start = UdpSocket_start (UdpSocket_onRead True (UdpSocket_onAccept True UdpSocket_new))"

text \<open>Events of the socket's channel; a destroyed socket has none.\<close>

datatype udp_event = UdpIn "recv_answer list" | UdpOut "send_answer list" | UdpBroken

definition udp_deliver :: "'h ubehaviour \<Rightarrow> udp_event \<Rightarrow> 'h udp_socket \<Rightarrow> 'h udp_socket res" where
  "udp_deliver beh e u =
     (if u_destroyed u then Inr u
      else case e of
        UdpIn as \<Rightarrow> UdpSocket_handleReadEvent beh as u
      | UdpOut as \<Rightarrow> UdpSocket_handleWritEvent beh as u
      | UdpBroken \<Rightarrow> UdpSocket_handleErroEvent beh u)"

fun udp_hello_run :: "udp_event list \<Rightarrow> 'h udp_socket \<Rightarrow> 'h udp_socket res" where
  "udp_hello_run [] u = Inr u"
| "udp_hello_run (e # es) u = bind_res (udp_deliver udp_hello e u) (udp_hello_run es)"

text \<open>The datagrams that a read event takes, up to the first error.\<close>

fun datagrams :: "recv_answer list \<Rightarrow> (endpoint \<times> char list) list" where
  "datagrams (Datagram ep d # as) = (ep, d) # datagrams as"
| "datagrams _ = []"

fun event_datagrams :: "udp_event \<Rightarrow> (endpoint \<times> char list) list" where
  "event_datagrams (UdpIn as) = datagrams as"
| "event_datagrams _ = []"

text \<open>What the server is to answer, \<open>known\<close> being the peers it has heard of.\<close>

fun hello_answers :: "endpoint set \<Rightarrow> (endpoint \<times> char list) list \<Rightarrow> (endpoint \<times> cell list) list" where
  "hello_answers known [] = []"
| "hello_answers known ((ep, d) # ds) =
     (if ep \<in> known then [] else [(ep, map Some hello_text)]) @ (ep, map Some (take 4096 d))
       # hello_answers (insert ep known) ds"

lemma hello_answers_snoc:
  "hello_answers known (ds @ [(ep, d)]) = hello_answers known ds
     @ (if ep \<in> known \<union> fst ` set ds then [] else [(ep, map Some hello_text)]) @ [(ep, map Some (take 4096 d))]"
  by (induction known ds rule: hello_answers.induct) auto

section \<open>Programs on one socket\<close>

text \<open>
  What the events of a socket need of a program, its callbacks \<open>beh\<close> and two descriptions of its socket
  after the datagrams received: alive between two events, and destroyed.
\<close>

locale udp_program =
  fixes beh :: "'h ubehaviour"
    and ok :: "(endpoint \<times> char list) list \<Rightarrow> 'h udp_socket \<Rightarrow> bool"
    and ended :: "(endpoint \<times> char list) list \<Rightarrow> 'h udp_socket \<Rightarrow> bool"
  assumes live: "ok seen u \<Longrightarrow> \<not> u_destroyed u"
    and dead: "ended seen u \<Longrightarrow> u_destroyed u"
    and more: "ended seen u \<Longrightarrow> ended (seen @ ds) u"
    and ends: "ok seen u \<Longrightarrow> \<exists>u'. UdpSocket_handleErroEvent beh u = Inr u' \<and> ended seen u'"
    and receives: "ok seen u \<Longrightarrow> d \<noteq> [] \<Longrightarrow>
      \<exists>u'. udp_receive beh ep (map Some (take 4096 d)) u = Inr u' \<and> ok (seen @ [(ep, d)]) u'"
    and tasks: "ok seen u \<Longrightarrow> t \<in> set (u_tasks u) \<Longrightarrow> utask_ok t \<and> dest_alive u t"
    and sent: "ok seen u \<Longrightarrow> u_tasks u = t # ts \<Longrightarrow> \<exists>u'. udp_send_round beh Sent u = Inr (False, u') \<and> ok seen u'"
    and stops: "ok seen u \<Longrightarrow> u_tasks u = [] \<Longrightarrow> ok seen (u\<lparr>u_write_on := False\<rparr>)"
begin

lemma reads:
  "ok seen u \<Longrightarrow> \<forall>(ep, d) \<in> set (datagrams as). d \<noteq> [] \<Longrightarrow>
     \<exists>u'. udp_read_loop beh as u = Inr u' \<and> (ok (seen @ datagrams as) u' \<or> ended (seen @ datagrams as) u')"
proof (induction as arbitrary: seen u)
  case Nil
  then show ?case using live [of seen u] by simp
next
  case (Cons a as)
  show ?case
  proof (cases a)
    case (Datagram ep d)
    obtain u1 where u1: "udp_receive beh ep (map Some (take 4096 d)) u = Inr u1" "ok (seen @ [(ep, d)]) u1"
      using receives [OF Cons.prems(1), of d ep] Cons.prems(2) Datagram by auto
    from Cons.IH [OF u1(2)] Cons.prems(2) Datagram u1(1) live [OF Cons.prems(1)] show ?thesis by simp
  next
    case (RecvError e)
    with ends [OF Cons.prems(1)] Cons.prems(1) live [OF Cons.prems(1)] show ?thesis by auto
  qed
qed

lemma refused:
  assumes "ok seen u" "u_tasks u = t # ts"
  shows "\<exists>u'. udp_send_round beh (SendError e) u = Inr (True, u') \<and> ended seen u'"
proof -
  have t: "utask_ok t" "dest_alive u t" "\<not> u_destroyed u" using assms tasks [OF assms(1), of t] live by auto
  then have "Buffer_data (u_buffer t) = Inr (leftIndex (u_buffer t))"
    "Buffer_size (u_buffer t) = Inr (int (length (content (u_buffer t))))"
    by (simp_all add: utask_ok_def Buffer_data_def Buffer_size_ok) (simp add: buf_ok_def)
  with ends [OF assms(1)] t(2,3) assms(2) show ?thesis by (auto simp: udp_send_round_def dest_alive_def)
qed

lemma sends:
  "ok seen u \<Longrightarrow> \<exists>u'. udp_send_loop beh as u = Inr u' \<and> (ok seen u' \<or> ended seen u')"
proof (induction as arbitrary: u)
  case Nil
  then show ?case using refused [of seen u _ _ EAGAIN] by (cases "u_tasks u") (fastforce simp: udp_send_round_def)+
next
  case (Cons a as)
  show ?case
  proof (cases "u_tasks u")
    case Nil
    with Cons.prems show ?thesis by (simp add: udp_send_round_def)
  next
    case ts: (Cons t ts)
    show ?thesis
    proof (cases a)
      case (SendError e)
      with refused [OF Cons.prems ts, of e] show ?thesis by auto
    next
      case Sent
      from sent [OF Cons.prems ts] obtain u1 where "udp_send_round beh Sent u = Inr (False, u1)" "ok seen u1" by blast
      with Cons.IH [of u1] Sent show ?thesis by simp
    qed
  qed
qed

lemma event_ok:
  assumes "ok seen u" "\<forall>(ep, d) \<in> set (event_datagrams e). d \<noteq> []"
  shows "\<exists>u'. udp_deliver beh e u = Inr u' \<and> (ok (seen @ event_datagrams e) u' \<or> ended (seen @ event_datagrams e) u')"
proof (cases e)
  case (UdpIn as)
  with reads [OF assms(1), of as] assms live show ?thesis by (simp add: udp_deliver_def UdpSocket_handleReadEvent_def)
next
  case (UdpOut as)
  have "ok seen (if u_tasks u = [] then u\<lparr>u_write_on := False\<rparr> else u)" using assms(1) stops by simp
  from sends [OF this, of as] UdpOut live [OF assms(1)] show ?thesis
    by (simp add: udp_deliver_def UdpSocket_handleWritEvent_def UdpSocket_enableWrit_def split: if_splits)
next
  case UdpBroken
  with ends [OF assms(1)] live [OF assms(1)] show ?thesis by (auto simp: udp_deliver_def)
qed

lemma gone_event: "ended seen u \<Longrightarrow> udp_deliver beh e u = Inr u"
  using dead [of seen u] by (simp add: udp_deliver_def)

lemma any_event:
  assumes "ok seen u \<or> ended seen u" "\<forall>(ep, d) \<in> set (event_datagrams e). d \<noteq> []"
  shows "\<exists>u'. udp_deliver beh e u = Inr u' \<and> (ok (seen @ event_datagrams e) u' \<or> ended (seen @ event_datagrams e) u')"
  using assms event_ok [of seen u e] gone_event [of seen u e] more [of seen u] by blast

end

section \<open>Queues of plain datagrams\<close>

definition plain_utask :: "'h udp_socket \<Rightarrow> 'h udp_io_task \<Rightarrow> bool" where
  "plain_utask u t \<longleftrightarrow> utask_ok t \<and> dest_alive u t \<and> u_handler t = None"

definition datagram_of :: "'h udp_io_task \<Rightarrow> endpoint \<times> cell list" where
  "datagram_of t = (fst (u_dest t), content (u_buffer t))"

text \<open>What the socket has been given to send, in order.\<close>

definition u_outgoing :: "'h udp_socket \<Rightarrow> (endpoint \<times> cell list) list" where
  "u_outgoing u = u_sent u @ map datagram_of (u_tasks u)"

text \<open>The socket between events, \<open>seen\<close> being the datagrams received.\<close>

definition hello_ok :: "(endpoint \<times> char list) list \<Rightarrow> 'h udp_socket \<Rightarrow> bool" where
  "hello_ok seen u \<longleftrightarrow> \<not> u_destroyed u \<and> u_acceptcb u \<and> u_readcb u \<and> \<not> u_errocb u
     \<and> dom (u_conns u) = fst ` set seen
     \<and> (\<forall>ep c. u_conns u ep = Some c \<longrightarrow> buf_ok (uc_readBuf c) \<and> content (uc_readBuf c) = [])
     \<and> (\<forall>t \<in> set (u_tasks u). plain_utask u t) \<and> (u_tasks u \<noteq> [] \<longrightarrow> u_write_on u)
     \<and> u_outgoing u = hello_answers {} seen"

definition hello_ended :: "(endpoint \<times> char list) list \<Rightarrow> 'h udp_socket \<Rightarrow> bool" where
  "hello_ended seen u \<longleftrightarrow> u_destroyed u \<and> (\<exists>rest. hello_answers {} seen = u_sent u @ rest)"

lemma hello_answers_append: "\<exists>rest. hello_answers known (ds @ ds') = hello_answers known ds @ rest"
  by (induction known ds rule: hello_answers.induct) auto

lemma hello_ended_more: "hello_ended seen u \<Longrightarrow> hello_ended (seen @ ds) u"
  using hello_answers_append [of "{}" seen ds] by (auto simp: hello_ended_def)

lemma hello_ends:
  assumes "hello_ok seen u"
  shows "\<exists>u'. UdpSocket_handleErroEvent udp_hello u = Inr u' \<and> hello_ended seen u'"
proof -
  have "hello_answers {} seen = u_sent u @ map datagram_of (u_tasks u)" using assms by (simp add: hello_ok_def u_outgoing_def)
  then show ?thesis
    using assms by (auto simp: UdpSocket_handleErroEvent_def run_uev_def UdpSocket_destroy_def hello_ended_def hello_ok_def)
qed

lemma udp_send_queues:
  assumes "\<not> u_destroyed u" "\<forall>t \<in> set (u_tasks u). plain_utask u t" "plain_utask u t"
  shows "\<exists>u'. UdpSocket_send t u = Inr u' \<and> u' = u\<lparr>u_write_on := True, u_tasks := u_tasks u @ [t]\<rparr>
    \<and> (\<forall>t \<in> set (u_tasks u'). plain_utask u' t) \<and> u_outgoing u' = u_outgoing u @ [datagram_of t]"
  using assms by (auto simp: UdpSocket_send_def UdpSocket_enableWrit_def plain_utask_def dest_alive_def u_outgoing_def)

lemma greets:
  fixes u :: "'h udp_socket"
  assumes "\<not> u_destroyed u" "\<forall>t \<in> set (u_tasks u). plain_utask u t" "u_conns u ep = Some c"
  shows "\<exists>u'. do_ucall (USendCstr ep hello_text None) u = Inr u'
    \<and> u' = u\<lparr>u_write_on := True, u_tasks := u_tasks u'\<rparr>
    \<and> (\<forall>t \<in> set (u_tasks u'). plain_utask u' t) \<and> u_outgoing u' = u_outgoing u @ [(ep, map Some hello_text)]"
proof -
  let ?b = "buf_of (map Some hello_text) 0 (length hello_text)"
  let ?t = "\<lparr>u_dest = (ep, uc_id c), u_buffer = ?b, u_handler = None\<rparr> :: 'h udp_io_task"
  have b: "Buffer_of_bytes (map Some hello_text) (int (length hello_text)) = Inr ?b" "buf_ok ?b" "bufptr ?b \<noteq> None"
    "content ?b = map Some hello_text" "takeWhile (\<lambda>c. c \<noteq> CHR 0x00) hello_text = hello_text"
    using Buffer_of_bytes_ok [of "int (length hello_text)" "map Some hello_text"]
    by (simp_all add: buf_of_def buf_ok_def content_def storage_def hello_text_def)
  have "plain_utask u ?t" using b(2,3) assms(3) by (simp add: plain_utask_def utask_ok_def dest_alive_def)
  from udp_send_queues [OF assms(1,2) this] obtain u' where u': "UdpSocket_send ?t u = Inr u'"
    "u' = u\<lparr>u_write_on := True, u_tasks := u_tasks u @ [?t]\<rparr>" "\<forall>t \<in> set (u_tasks u'). plain_utask u' t"
    "u_outgoing u' = u_outgoing u @ [datagram_of ?t]" by blast
  have "do_ucall (USendCstr ep hello_text None) u = UdpSocket_send ?t u"
    by (simp only: do_ucall.simps on_conn_def assms(3) option.case UdpConnection_send_cstr_def UdpConnection_send_bytes_def
        Let_def b(5) length_map b(1) bind_res_simps)
  moreover have "u' = u\<lparr>u_write_on := True, u_tasks := u_tasks u'\<rparr>" by (simp add: u'(2))
  moreover have "datagram_of ?t = (ep, map Some hello_text)" using b(4) by (simp add: datagram_of_def)
  ultimately show ?thesis using u'(1,3,4) by metis
qed

lemma sends_back:
  fixes u :: "'h udp_socket"
  assumes "\<not> u_destroyed u" "\<forall>t \<in> set (u_tasks u). plain_utask u t" "u_conns u ep = Some c"
    "buf_ok (uc_readBuf c)" "content (uc_readBuf c) \<noteq> []"
  shows "\<exists>u' b. do_ucall (UEcho ep None) u = Inr u' \<and> buf_ok b \<and> content b = []
    \<and> u' = u\<lparr>u_write_on := True, u_conns := (u_conns u)(ep \<mapsto> c\<lparr>uc_readBuf := b\<rparr>), u_tasks := u_tasks u'\<rparr>
    \<and> (\<forall>t \<in> set (u_tasks u'). plain_utask u' t) \<and> u_outgoing u' = u_outgoing u @ [(ep, content (uc_readBuf c))]"
proof -
  let ?r = "uc_readBuf c"
  have cap: "0 < capacity ?r" "Buffer_capacity ?r = Inr (capacity ?r)" "bufptr ?r \<noteq> None"
  proof -
    have "0 < length (content ?r)" using assms(5) by simp
    then show "0 < capacity ?r" using assms(4) by (auto simp: content_def buf_ok_def)
    then show "Buffer_capacity ?r = Inr (capacity ?r)" using assms(4) by (simp add: Buffer_capacity_def buf_ok_def)
    show "bufptr ?r \<noteq> None" by (rule buf_ok_bufptr [OF assms(4,5)])
  qed
  let ?fresh = "buf_of (replicate (nat (capacity ?r)) None) 0 0"
  let ?t = "\<lparr>u_dest = (ep, uc_id c), u_buffer = ?r, u_handler = None\<rparr> :: 'h udp_io_task"
  have fresh: "Buffer_alloc (capacity ?r) = Inr ?fresh" "buf_ok ?fresh" "content ?fresh = []"
    using cap(1) Buffer_alloc_ok [of "capacity ?r"] by (simp_all add: buf_of_def buf_ok_def content_def storage_def)
  have "plain_utask u ?t" using cap(3) assms(3,4) by (simp add: plain_utask_def utask_ok_def dest_alive_def)
  from udp_send_queues [OF assms(1,2) this] obtain u1 where u1: "UdpSocket_send ?t u = Inr u1"
    "u1 = u\<lparr>u_write_on := True, u_tasks := u_tasks u @ [?t]\<rparr>" "\<forall>t \<in> set (u_tasks u1). plain_utask u1 t"
    "u_outgoing u1 = u_outgoing u @ [datagram_of ?t]" by blast
  let ?u = "put_buf ep c ?fresh u1"
  have "do_ucall (UEcho ep None) u = Inr ?u"
    using assms(3) cap(2) fresh(1) u1(1) by (simp add: on_conn_def UdpConnection_send_buffer_def Buffer_swap_def)
  moreover have "\<forall>t \<in> set (u_tasks ?u). plain_utask ?u t"
    using u1(3) assms(3) unfolding u1(2) by (auto simp: put_buf_def plain_utask_def dest_alive_def)
  moreover have "u_outgoing ?u = u_outgoing u @ [(ep, content ?r)]"
    using u1(4) by (simp add: put_buf_def u_outgoing_def datagram_of_def)
  moreover have "?u = u\<lparr>u_write_on := True, u_conns := (u_conns u)(ep \<mapsto> c\<lparr>uc_readBuf := ?fresh\<rparr>), u_tasks := u_tasks ?u\<rparr>"
    by (simp add: u1(2) put_buf_def)
  ultimately show ?thesis using fresh(2,3) by blast
qed

section \<open>Events of the server\<close>

text \<open>The socket with a connection for \<open>ep\<close> that is to take the next bytes.\<close>

definition hello_takes :: "(endpoint \<times> char list) list \<Rightarrow> endpoint \<Rightarrow> (endpoint \<times> cell list) list \<Rightarrow> 'h udp_socket \<Rightarrow> bool" where
  "hello_takes seen ep out u \<longleftrightarrow> \<not> u_destroyed u \<and> u_acceptcb u \<and> u_readcb u \<and> \<not> u_errocb u
     \<and> dom (u_conns u) = insert ep (fst ` set seen)
     \<and> (\<forall>ep c. u_conns u ep = Some c \<longrightarrow> buf_ok (uc_readBuf c) \<and> content (uc_readBuf c) = [])
     \<and> (\<forall>t \<in> set (u_tasks u). plain_utask u t) \<and> (u_tasks u \<noteq> [] \<longrightarrow> u_write_on u) \<and> u_outgoing u = out"

lemma hello_takes_bytes:
  fixes u :: "'h udp_socket"
  assumes "hello_takes seen ep out u" "u_conns u ep = Some c" "d \<noteq> []"
  shows "\<exists>u'. bind_res (udp_append ep (uc_id c) (map Some (take 4096 d)) u) (\<lambda>u. run_uev udp_hello (u_readcb u) (URead ep) u)
      = Inr u' \<and> hello_takes seen ep (out @ [(ep, map Some (take 4096 d))]) u'"
proof -
  note ok = assms(1) [unfolded hello_takes_def]
  have bs: "map Some (take 4096 d) \<noteq> []" using assms(3) by simp
  obtain b where b: "udp_append ep (uc_id c) (map Some (take 4096 d)) u = Inr (put_buf ep c b u)" "buf_ok b"
    "content b = map Some (take 4096 d)"
    using udp_append_ok [OF assms(2) refl _ bs] ok assms(2) by auto
  let ?u = "(put_buf ep c b u)\<lparr>u_events := u_events u @ [URead ep]\<rparr>"
  have u: "\<not> u_destroyed ?u" "\<forall>t \<in> set (u_tasks ?u). plain_utask ?u t" "u_conns ?u ep = Some (c\<lparr>uc_readBuf := b\<rparr>)"
    "u_outgoing ?u = out"
    using ok assms(2) by (auto simp: put_buf_def plain_utask_def dest_alive_def u_outgoing_def)
  obtain u' b' where u': "do_ucall (UEcho ep None) ?u = Inr u'" "buf_ok b'" "content b' = []"
    "u' = ?u\<lparr>u_write_on := True, u_conns := (u_conns ?u)(ep \<mapsto> (c\<lparr>uc_readBuf := b\<rparr>)\<lparr>uc_readBuf := b'\<rparr>), u_tasks := u_tasks u'\<rparr>"
    "\<forall>t \<in> set (u_tasks u'). plain_utask u' t" "u_outgoing u' = u_outgoing ?u @ [(ep, content b)]"
    using sends_back [OF u(1-3)] b(2,3) bs by auto
  have "hello_takes seen ep (out @ [(ep, map Some (take 4096 d))]) u'"
  proof -
    have "\<not> u_destroyed u' \<and> u_acceptcb u' \<and> u_readcb u' \<and> \<not> u_errocb u' \<and> u_write_on u'
        \<and> u_conns u' = (u_conns u)(ep \<mapsto> c\<lparr>uc_readBuf := b'\<rparr>)"
      using ok by (subst (1 2 3 4 5 6) u'(4)) (simp add: put_buf_def)
    then show ?thesis
      using ok u'(2,3,5,6) u(4) b(3) assms(2) by (auto simp: hello_takes_def)
  qed
  then show ?thesis using b(1) u'(1) ok by (auto simp: run_uev_def put_buf_def udp_hello_def)
qed

lemma hello_receives:
  fixes u :: "'h udp_socket"
  assumes "hello_ok seen u" "d \<noteq> []"
  shows "\<exists>u'. udp_receive udp_hello ep (map Some (take 4096 d)) u = Inr u' \<and> hello_ok (seen @ [(ep, d)]) u'"
proof -
  note ok = assms(1) [unfolded hello_ok_def]
  have reached: "hello_ok (seen @ [(ep, d)]) u'"
    if "hello_takes seen ep (hello_answers {} seen @ (if ep \<in> fst ` set seen then [] else [(ep, map Some hello_text)])
      @ [(ep, map Some (take 4096 d))]) u'" for u' :: "'h udp_socket"
    using that unfolding hello_takes_def hello_ok_def hello_answers_snoc by auto
  show ?thesis
  proof (cases "u_conns u ep")
    case (Some c)
    then have "ep \<in> fst ` set seen" using ok by blast
    moreover from this have "hello_takes seen ep (hello_answers {} seen) u" using ok by (simp add: hello_takes_def insert_absorb)
    from hello_takes_bytes [OF this Some assms(2)] obtain u' where "udp_receive udp_hello ep (map Some (take 4096 d)) u = Inr u'"
      "hello_takes seen ep (hello_answers {} seen @ [(ep, map Some (take 4096 d))]) u'"
      using Some by (auto simp: udp_receive_def)
    ultimately show ?thesis using reached [of u'] by simp
  next
    case None
    then have new: "ep \<notin> fst ` set seen" using ok by blast
    let ?c = "\<lparr>uc_id = u_next u, uc_readBuf = buf_of (replicate 1024 None) 0 0\<rparr>"
    let ?u = "u\<lparr>u_conns := (u_conns u)(ep \<mapsto> ?c), u_next := u_next u + 1, u_events := u_events u @ [UAccept ep]\<rparr>"
    have c: "buf_ok (uc_readBuf ?c)" "content (uc_readBuf ?c) = []"
      by (simp_all add: buf_of_def buf_ok_def content_def storage_def)
    have u: "\<not> u_destroyed ?u" "\<forall>t \<in> set (u_tasks ?u). plain_utask ?u t" "u_conns ?u ep = Some ?c"
      "u_outgoing ?u = hello_answers {} seen"
      using ok None by (auto simp: plain_utask_def dest_alive_def u_outgoing_def)
    from greets [OF u(1-3)] obtain u1 where u1: "do_ucall (USendCstr ep hello_text None) ?u = Inr u1"
      "u1 = ?u\<lparr>u_write_on := True, u_tasks := u_tasks u1\<rparr>" "\<forall>t \<in> set (u_tasks u1). plain_utask u1 t"
      "u_outgoing u1 = hello_answers {} seen @ [(ep, map Some hello_text)]"
      unfolding u(4) by blast
    have fields: "\<not> u_destroyed u1 \<and> u_acceptcb u1 \<and> u_readcb u1 \<and> \<not> u_errocb u1 \<and> u_write_on u1
        \<and> u_conns u1 = (u_conns u)(ep \<mapsto> ?c)"
      using ok by (subst (1 2 3 4 5 6) u1(2)) simp
    then have "hello_takes seen ep (hello_answers {} seen @ [(ep, map Some hello_text)]) u1"
      using ok u1(3,4) c by (auto simp: hello_takes_def)
    moreover have "u_conns u1 ep = Some ?c" using fields by simp
    ultimately obtain u' where u': "bind_res (udp_append ep (uc_id ?c) (map Some (take 4096 d)) u1)
        (\<lambda>u. run_uev udp_hello (u_readcb u) (URead ep) u) = Inr u'"
      "hello_takes seen ep ((hello_answers {} seen @ [(ep, map Some hello_text)]) @ [(ep, map Some (take 4096 d))]) u'"
      using hello_takes_bytes [OF _ _ assms(2)] by blast
    have "udp_receive udp_hello ep (map Some (take 4096 d)) u = Inr u'"
      using None u'(1) u1(1) ok
      by (simp add: udp_receive_def new_udp_conn_def Buffer_alloc_ok run_uev_def [of _ _ "UAccept ep"] udp_hello_def)
    with reached [of u'] u'(2) new show ?thesis by simp
  qed
qed

lemma hello_sent:
  assumes "hello_ok seen u" "u_tasks u = t # ts"
  shows "\<exists>u'. udp_send_round udp_hello Sent u = Inr (False, u') \<and> hello_ok seen u'"
proof -
  have t: "utask_ok t" "dest_alive u t" "\<not> u_destroyed u" "u_handler t = None"
    using assms by (auto simp: hello_ok_def plain_utask_def)
  have ok: "buf_ok (u_buffer t)" "Buffer_data (u_buffer t) = Inr (leftIndex (u_buffer t))"
    "Buffer_size (u_buffer t) = Inr (int (length (content (u_buffer t))))"
    using t(1) by (simp_all add: utask_ok_def Buffer_data_def Buffer_size_ok) (simp add: buf_ok_def)
  obtain b where b: "Buffer_retrieve (int (length (content (u_buffer t)))) (u_buffer t) = Inr b"
    using Buffer_retrieve_ok [OF ok(1), of "int (length (content (u_buffer t)))"] by auto
  let ?u = "u\<lparr>u_sent := u_sent u @ [datagram_of t], u_tasks := ts\<rparr>"
  have "udp_send_round udp_hello Sent u = Inr (False, ?u)"
    using assms(2) t ok b by (auto simp: udp_send_round_def dest_alive_def datagram_of_def Let_def)
  moreover have "hello_ok seen ?u"
    using assms by (auto simp: hello_ok_def plain_utask_def dest_alive_def u_outgoing_def)
  ultimately show ?thesis by blast
qed

lemma hello_live: "hello_ok seen u \<Longrightarrow> \<not> u_destroyed u" and hello_dead: "hello_ended seen u \<Longrightarrow> u_destroyed u"
  by (simp_all add: hello_ok_def hello_ended_def)

lemma hello_tasks: "hello_ok seen u \<Longrightarrow> t \<in> set (u_tasks u) \<Longrightarrow> utask_ok t \<and> dest_alive u t"
  by (auto simp: hello_ok_def plain_utask_def)

lemma hello_idle: "hello_ok seen u \<Longrightarrow> u_tasks u = [] \<Longrightarrow> hello_ok seen (u\<lparr>u_write_on := False\<rparr>)"
  by (simp add: hello_ok_def u_outgoing_def)

interpretation hello: udp_program udp_hello hello_ok hello_ended
  by unfold_locales (fact hello_live hello_dead hello_ended_more hello_ends hello_receives hello_tasks hello_sent hello_idle)+

lemma hello_run_ok:
  "hello_ok seen u \<or> hello_ended seen u \<Longrightarrow> \<forall>e \<in> set es. \<forall>(ep, d) \<in> set (event_datagrams e). d \<noteq> [] \<Longrightarrow>
     \<exists>u'. udp_hello_run es u = Inr u' \<and> (hello_ok (seen @ concat (map event_datagrams es)) u'
       \<or> hello_ended (seen @ concat (map event_datagrams es)) u')"
proof (induction es arbitrary: seen u)
  case Nil
  then show ?case by simp
next
  case (Cons e es)
  obtain u1 where u1: "udp_deliver udp_hello e u = Inr u1"
    "hello_ok (seen @ event_datagrams e) u1 \<or> hello_ended (seen @ event_datagrams e) u1"
    using hello.any_event [OF Cons.prems(1), of e] Cons.prems(2) by auto
  from Cons.IH [OF u1(2)] Cons.prems(2) u1(1) show ?case by simp
qed

lemma hello_start_ok: "\<exists>u. udp_hello_start = Inr u \<and> hello_ok [] u"
  by (simp add: udp_hello_start_def UdpSocket_start_def UdpSocket_onRead_def UdpSocket_onAccept_def UdpSocket_new_def
      hello_ok_def u_outgoing_def)

section \<open>Properties\<close>



end
