(* ===== verification/Udp_Client.thy ===== *)
theory Udp_Client
  imports Relays Loop_Groups Udp_Programs
begin

text \<open>
  The UDP client of \<^verbatim>\<open>src/examples/udp_client.cpp\<close>: what is typed goes to the server it was told to talk to,
  what arrives is printed. It has one loop, on which everything but the resolver runs.
\<close>

section \<open>The program\<close>

text \<open>
  \<open>p_uconn\<close> is the plain pointer that the connect callback stores, the peer and the identity of its
  connection. The handler of every datagram sent does nothing.
\<close>

record udp_client =
  ud_socket :: "unit udp_socket"
  p_uconn :: "(endpoint \<times> nat) option"
  input_conn :: "unit conn"

definition udp_client_calls :: "unit ubehaviour" where
  "udp_client_calls = (\<lambda>e es. case e of URead ep \<Rightarrow> [UTake ep] | _ \<Rightarrow> [])"

definition udp_client_start :: "kernel \<Rightarrow> loop_group \<Rightarrow> udp_client res" where
  "udp_client_start k g =
     bind_res (EventLoopGroup_creatUdpClient k g) (\<lambda>(u, s, l).
     bind_res (Connection_new False False) (\<lambda>c.
     bind_res (Connection_init1 c) (\<lambda>c.
     Inr \<lparr>ud_socket = UdpSocket_onRead True (UdpSocket_onConnect True u), p_uconn = None,
          input_conn = Connection_onRead True c\<rparr>)))"

text \<open>\<^verbatim>\<open>main\<close> up to the loop: the exceptions of the library are messages, which it prints.\<close>

datatype udp_client_main = Usage | Caught string | Running udp_client

definition udp_client_main :: "string list \<Rightarrow> kernel \<Rightarrow> udp_client_main res" where
  "udp_client_main argv k =
     (if length argv \<noteq> 3 then Inr Usage
      else case bind_res (EventLoopGroup_new 0) (udp_client_start k) of
        Inl (Thrown msg) \<Rightarrow> Inr (Caught msg)
      | Inl e \<Rightarrow> Inl e
      | Inr s \<Rightarrow> Inr (Running s))"

text \<open>The answer of the resolver, on the loop; the callback of \<^verbatim>\<open>onConnect\<close> has run if there is an event more.\<close>

definition udp_client_resolved :: "endpoint list \<Rightarrow> udp_client \<Rightarrow> udp_client res" where
  "udp_client_resolved eps s =
     bind_res (EventLoopGroup_connectUdpClient udp_client_calls eps (Some (ud_socket s))) (\<lambda>r.
     case r of
       None \<Rightarrow> Inr s
     | Some u \<Rightarrow>
         Inr (s\<lparr>ud_socket := u,
           p_uconn := (if u_events u = u_events (ud_socket s) then p_uconn s
             else map_option (\<lambda>c. (hd eps, uc_id c)) (u_conns u (hd eps)))\<rparr>))"

text \<open>The use of the pointer; the connection it points to may be gone.\<close>

definition udp_client_say :: "endpoint \<times> nat \<Rightarrow> cell list \<Rightarrow> udp_client \<Rightarrow> udp_client res" where
  "udp_client_say d str s =
     (if (case u_conns (ud_socket s) (fst d) of None \<Rightarrow> False | Some c \<Rightarrow> uc_id c = snd d)
      then bind_res (UdpConnection_send_bytes d str (int (length str)) (Some ()) (ud_socket s)) (\<lambda>u.
           Inr (s\<lparr>ud_socket := u\<rparr>))
      else Inl Out_of_bounds)"

text \<open>
  A read event of descriptor 0 and the callback on it. \<^verbatim>\<open>main\<close> holds the channel, so that it stays with the
  poller when the connection is destroyed.
\<close>

definition udp_client_input :: "read_answer \<Rightarrow> udp_client \<Rightarrow> udp_client res" where
  "udp_client_input a s =
     bind_res (Connection_handleReadEvent silent a (input_conn s)) (\<lambda>c.
     let s = s\<lparr>input_conn := c\<rparr>
     in if calls_read (Readable a) then
          (case p_uconn s of
             None \<Rightarrow> Inr s
           | Some d \<Rightarrow>
               (case Buffer_retriveveAllAsString (readBuf c) of
                  None \<Rightarrow> Inl Diverges
                | Some r \<Rightarrow> bind_res r (\<lambda>(str, b). udp_client_say d str (s\<lparr>input_conn := c\<lparr>readBuf := b\<rparr>\<rparr>))))
        else Inr s)"

text \<open>A socket that has not been started has no channel with the poller.\<close>

datatype udp_client_event = Resolved "endpoint list" | Typed read_answer | Network udp_event

fun udp_client_step :: "udp_client_event \<Rightarrow> udp_client \<Rightarrow> udp_client res" where
  "udp_client_step (Resolved eps) s = udp_client_resolved eps s"
| "udp_client_step (Typed a) s = udp_client_input a s"
| "udp_client_step (Network e) s =
     (if u_read_on (ud_socket s)
      then bind_res (udp_deliver udp_client_calls e (ud_socket s)) (\<lambda>u. Inr (s\<lparr>ud_socket := u\<rparr>))
      else Inr s)"

fun udp_client_run :: "udp_client_event list \<Rightarrow> udp_client \<Rightarrow> udp_client res" where
  "udp_client_run [] s = Inr s"
| "udp_client_run (e # es) s = bind_res (udp_client_step e s) (udp_client_run es)"

section \<open>What is to be said and printed\<close>

text \<open>
  The server that was found, what was typed before, and the datagrams that the typed text makes: what was
  typed before the server was found goes with the first thing typed after.
\<close>

fun peer_after :: "endpoint option \<Rightarrow> udp_client_event \<Rightarrow> endpoint option" where
  "peer_after p (Resolved eps) = (if eps = [] then p else Some (hd eps))"
| "peer_after p e = p"

fun held_after :: "endpoint option \<Rightarrow> char list \<Rightarrow> udp_client_event \<Rightarrow> char list" where
  "held_after p held (Typed (Data ds)) = (if p = None then held @ ds else [])"
| "held_after p held e = held"

fun said_by :: "endpoint option \<Rightarrow> char list \<Rightarrow> udp_client_event \<Rightarrow> (endpoint \<times> cell list) list" where
  "said_by (Some ep) held (Typed (Data ds)) = [(ep, map Some (held @ ds))]"
| "said_by p held e = []"

fun said :: "endpoint option \<Rightarrow> char list \<Rightarrow> udp_client_event list \<Rightarrow> (endpoint \<times> cell list) list" where
  "said p held [] = []"
| "said p held (e # es) = said_by p held e @ said (peer_after p e) (held_after p held e) es"

text \<open>What is printed, once the server is found: every datagram, whoever sent it.\<close>

definition cut :: "endpoint \<times> char list \<Rightarrow> endpoint \<times> cell list" where
  "cut d = (fst d, map Some (take 4096 (snd d)))"

fun heard_by :: "endpoint option \<Rightarrow> udp_client_event \<Rightarrow> (endpoint \<times> cell list) list" where
  "heard_by p (Network e) = (if p = None then [] else map cut (event_datagrams e))"
| "heard_by p e = []"

fun heard :: "endpoint option \<Rightarrow> udp_client_event list \<Rightarrow> (endpoint \<times> cell list) list" where
  "heard p [] = []"
| "heard p (e # es) = heard_by p e @ heard (peer_after p e) es"

text \<open>Reads of at most 16384 bytes, of which the end of the input is one of its own; no empty datagrams.\<close>

fun udp_client_event_ok :: "udp_client_event \<Rightarrow> bool" where
  "udp_client_event_ok (Typed (Data ds)) \<longleftrightarrow> ds \<noteq> [] \<and> length ds \<le> 16384"
| "udp_client_event_ok (Network e) \<longleftrightarrow> (\<forall>(ep, d) \<in> set (event_datagrams e). d \<noteq> [])"
| "udp_client_event_ok e \<longleftrightarrow> True"

fun is_answer :: "udp_client_event \<Rightarrow> bool" where
  "is_answer (Resolved eps) \<longleftrightarrow> True"
| "is_answer e \<longleftrightarrow> False"

section \<open>The socket\<close>

text \<open>
  Between two events, with \<open>d\<close> behind the pointer: it was given \<open>out\<close> to send, and \<open>got\<close> has been printed.
\<close>

definition talks :: "endpoint \<times> nat \<Rightarrow> (endpoint \<times> cell list) list \<Rightarrow> (endpoint \<times> cell list) list \<Rightarrow> 'h udp_socket \<Rightarrow> bool" where
  "talks d out got u \<longleftrightarrow> \<not> u_destroyed u \<and> \<not> u_acceptcb u \<and> u_readcb u \<and> \<not> u_errocb u \<and> u_read_on u
     \<and> (\<forall>ep c. u_conns u ep = Some c \<longrightarrow> buf_ok (uc_readBuf c) \<and> content (uc_readBuf c) = [])
     \<and> (\<exists>c. u_conns u (fst d) = Some c \<and> uc_id c = snd d)
     \<and> (\<forall>t \<in> set (u_tasks u). utask_ok t \<and> dest_alive u t) \<and> (u_tasks u \<noteq> [] \<longrightarrow> u_write_on u)
     \<and> u_outgoing u = out \<and> u_taken u = got"

definition talked :: "(endpoint \<times> cell list) list \<Rightarrow> (endpoint \<times> cell list) list \<Rightarrow> 'h udp_socket \<Rightarrow> bool" where
  "talked out got u \<longleftrightarrow> u_destroyed u \<and> u_conns u = Map.empty \<and> (\<exists>rest. out = u_sent u @ rest) \<and> (\<exists>more. got = u_taken u @ more)"

lemma talked_more: "talked out got u \<Longrightarrow> talked (out @ xs) (got @ ys) u"
  by (auto simp: talked_def)

lemma talks_ends:
  assumes "talks d out got u"
  shows "\<exists>u'. UdpSocket_handleErroEvent beh u = Inr u' \<and> talked out got u'"
proof -
  have "out = u_sent u @ map datagram_of (u_tasks u)" using assms by (simp add: talks_def u_outgoing_def)
  then show ?thesis
    using assms by (auto simp: UdpSocket_handleErroEvent_def run_uev_def UdpSocket_destroy_def talked_def talks_def)
qed

lemma talks_takes:
  assumes "talks d out got u" "u_conns u ep = Some c" "bs \<noteq> []"
  shows "\<exists>u'. bind_res (udp_append ep (uc_id c) bs u) (\<lambda>u. run_uev udp_client_calls (u_readcb u) (URead ep) u) = Inr u'
    \<and> talks d out (got @ [(ep, bs)]) u'"
proof -
  note ok = assms(1) [unfolded talks_def]
  obtain b where b: "udp_append ep (uc_id c) bs u = Inr (put_buf ep c b u)" "buf_ok b" "content b = bs"
    using udp_append_ok [OF assms(2) refl _ assms(3)] ok assms(2) by auto
  obtain b' where b': "Buffer_retriveveAllAsString b = Some (Inr (bs, b'))" "buf_ok b'" "content b' = []"
    using take_all [OF b(2)] b(3) assms(3) by auto
  let ?u = "(put_buf ep (c\<lparr>uc_readBuf := b\<rparr>) b' ((put_buf ep c b u)\<lparr>u_events := u_events u @ [URead ep]\<rparr>))
    \<lparr>u_taken := u_taken u @ [(ep, bs)]\<rparr>"
  have "bind_res (udp_append ep (uc_id c) bs u) (\<lambda>u. run_uev udp_client_calls (u_readcb u) (URead ep) u) = Inr ?u"
    using b(1) b'(1) ok by (simp add: run_uev_def put_buf_def udp_client_calls_def on_conn_def)
  moreover have "talks d out (got @ [(ep, bs)]) ?u"
    using ok assms(2) b'(2,3) by (auto simp: talks_def put_buf_def dest_alive_def u_outgoing_def)
  ultimately show ?thesis by blast
qed

lemma talks_receives:
  assumes "talks d out got u" "bs \<noteq> []"
  shows "\<exists>u'. udp_receive udp_client_calls ep bs u = Inr u' \<and> talks d out (got @ [(ep, bs)]) u'"
proof (cases "u_conns u ep")
  case (Some c)
  with talks_takes [OF assms(1) Some assms(2)] show ?thesis by (simp add: udp_receive_def)
next
  case None
  note ok = assms(1) [unfolded talks_def]
  let ?c = "\<lparr>uc_id = u_next u, uc_readBuf = buf_of (replicate 1024 None) 0 0\<rparr>"
  let ?u = "u\<lparr>u_conns := (u_conns u)(ep \<mapsto> ?c), u_next := u_next u + 1\<rparr>"
  have "talks d out got ?u"
    using ok None by (auto simp: talks_def dest_alive_def u_outgoing_def buf_of_def buf_ok_def content_def storage_def)
  moreover have "u_conns ?u ep = Some ?c" by simp
  ultimately obtain u' where "bind_res (udp_append ep (uc_id ?c) bs ?u)
      (\<lambda>u. run_uev udp_client_calls (u_readcb u) (URead ep) u) = Inr u'" "talks d out (got @ [(ep, bs)]) u'"
    using talks_takes [OF _ _ assms(2)] by blast
  then show ?thesis
    using None ok by (auto simp: udp_receive_def new_udp_conn_def Buffer_alloc_ok run_uev_def [of _ False])
qed

lemma talks_sent:
  assumes "talks d out got u" "u_tasks u = t # ts"
  shows "\<exists>u'. udp_send_round udp_client_calls Sent u = Inr (False, u') \<and> talks d out got u'"
proof -
  have t: "utask_ok t" "dest_alive u t" "\<not> u_destroyed u" using assms by (auto simp: talks_def)
  have ok: "buf_ok (u_buffer t)" "Buffer_data (u_buffer t) = Inr (leftIndex (u_buffer t))"
    "Buffer_size (u_buffer t) = Inr (int (length (content (u_buffer t))))"
    using t(1) by (simp_all add: utask_ok_def Buffer_data_def Buffer_size_ok) (simp add: buf_ok_def)
  obtain b where b: "Buffer_retrieve (int (length (content (u_buffer t)))) (u_buffer t) = Inr b"
    using Buffer_retrieve_ok [OF ok(1), of "int (length (content (u_buffer t)))"] by auto
  let ?u = "u\<lparr>u_sent := u_sent u @ [datagram_of t], u_tasks := ts,
    u_events := u_events u @ (case u_handler t of None \<Rightarrow> [] | Some h \<Rightarrow> [URan h])\<rparr>"
  have "udp_send_round udp_client_calls Sent u = Inr (False, ?u)"
    using assms(2) t ok b
    by (cases "u_handler t") (auto simp: udp_send_round_def dest_alive_def datagram_of_def Let_def run_uev_def udp_client_calls_def)
  moreover have "talks d out got ?u" using assms by (auto simp: talks_def dest_alive_def u_outgoing_def)
  ultimately show ?thesis by blast
qed

interpretation client: udp_program udp_client_calls "\<lambda>seen. talks d out (got @ map cut seen)" "\<lambda>seen. talked out (got @ map cut seen)"
  for d out got
proof (unfold_locales, goal_cases)
  case (3 seen u ds)
  then show ?case using talked_more [of out "got @ map cut seen" u "[]" "map cut ds"] by simp
next
  case (4 seen u)
  then show ?case by (rule talks_ends)
next
  case (5 seen u dg ep)
  then show ?case using talks_receives [of d out "got @ map cut seen" u "map Some (take 4096 dg)" ep] by (simp add: cut_def)
next
  case (7 seen u t ts)
  then show ?case by (rule talks_sent)
qed (auto simp: talks_def talked_def u_outgoing_def dest_alive_def)

text \<open>What is typed is queued; the server that was found gets a connection.\<close>

lemma talks_says:
  assumes "talks (ep, k) out got (ud_socket s)" "ds \<noteq> []"
  shows "\<exists>u. udp_client_say (ep, k) (map Some ds) s = Inr (s\<lparr>ud_socket := u\<rparr>) \<and> talks (ep, k) (out @ [(ep, map Some ds)]) got u"
proof -
  let ?u = "ud_socket s"
  let ?b = "buf_of (map Some ds) 0 (length ds)"
  let ?t = "\<lparr>u_dest = (ep, k), u_buffer = ?b, u_handler = Some ()\<rparr>"
  have b: "Buffer_of_bytes (map Some ds) (int (length ds)) = Inr ?b" "buf_ok ?b" "bufptr ?b \<noteq> None" "content ?b = map Some ds"
    using Buffer_of_bytes_ok [of "int (length ds)" "map Some ds"]
    by (simp_all add: buf_of_def buf_ok_def content_def storage_def)
  let ?u' = "?u\<lparr>u_tasks := u_tasks ?u @ [?t], u_write_on := True\<rparr>"
  have "udp_client_say (ep, k) (map Some ds) s = Inr (s\<lparr>ud_socket := ?u'\<rparr>)"
    using assms(1) b(1)
    by (auto simp: talks_def udp_client_say_def UdpConnection_send_bytes_def UdpSocket_send_def UdpSocket_enableWrit_def)
  moreover have "talks (ep, k) (out @ [(ep, map Some ds)]) got ?u'"
    using assms(1) b(2-4) by (auto simp: talks_def utask_ok_def dest_alive_def u_outgoing_def datagram_of_def)
  ultimately show ?thesis by blast
qed

text \<open>The socket until the resolver answers.\<close>

definition unresolved :: "unit udp_socket" where
  "unresolved = UdpSocket_onRead True (UdpSocket_onConnect True UdpSocket_new)"

lemma resolves:
  assumes "ud_socket s = unresolved"
  shows "\<exists>u k. udp_client_resolved (ep # eps) s = Inr (s\<lparr>ud_socket := u, p_uconn := Some (ep, k)\<rparr>) \<and> talks (ep, k) [] [] u"
proof -
  let ?c = "\<lparr>uc_id = 0, uc_readBuf = buf_of (replicate 1024 None) 0 0\<rparr>"
  let ?u = "unresolved\<lparr>u_read_on := True, u_conns := [ep \<mapsto> ?c], u_next := 1, u_events := [UConnect ep]\<rparr>"
  have "EventLoopGroup_connectUdpClient udp_client_calls (ep # eps) (Some unresolved) = Inr (Some ?u)"
    by (simp add: EventLoopGroup_connectUdpClient_def unresolved_def UdpSocket_onRead_def UdpSocket_onConnect_def
        UdpSocket_new_def UdpSocket_start_def UdpSocket_handleConnectEvent_def new_udp_conn_def Buffer_alloc_ok
        run_uev_def udp_client_calls_def)
  then have "udp_client_resolved (ep # eps) s = Inr (s\<lparr>ud_socket := ?u, p_uconn := Some (ep, 0)\<rparr>)"
    using assms by (simp add: udp_client_resolved_def unresolved_def UdpSocket_onRead_def UdpSocket_onConnect_def UdpSocket_new_def)
  moreover have "talks (ep, 0) [] [] ?u"
    by (auto simp: talks_def unresolved_def UdpSocket_onRead_def UdpSocket_onConnect_def UdpSocket_new_def u_outgoing_def
        buf_of_def buf_ok_def content_def storage_def)
  ultimately show ?thesis by blast
qed

section \<open>The input\<close>

definition typed_ok :: "char list \<Rightarrow> 'h conn \<Rightarrow> bool" where
  "typed_ok held c \<longleftrightarrow> buf_ok (readBuf c) \<and> bufptr (readBuf c) \<noteq> None \<and> content (readBuf c) = map Some held
     \<and> \<not> has_errocb c \<and> (\<not> destroyed c \<longrightarrow> has_readcb c)"

lemma input_data:
  fixes c :: "'h conn"
  assumes "typed_ok held c" "\<not> destroyed c" "ds \<noteq> []" "length ds \<le> 16384"
  shows "\<exists>c'. Connection_handleReadEvent silent (Data ds) c = Inr c' \<and> typed_ok (held @ ds) c' \<and> \<not> destroyed c'"
proof -
  note c = assms(1) [unfolded typed_ok_def]
  obtain b where b: "buf_ok b" "content b = map Some held @ map Some ds"
    "Connection_handleReadEvent silent (Data ds) c = run_cev silent ReadCb (c\<lparr>readBuf := b\<rparr>)"
    using handleRead_data [OF assms(2) _ _ assms(3,4), of silent] c assms(2) by auto
  have "content b \<noteq> []" using b(2) assms(3) by simp
  then have "bufptr b \<noteq> None" by (cases "bufptr b") (simp_all add: content_def storage_def)
  then have "typed_ok (held @ ds) (c\<lparr>readBuf := b, cevents := cevents c @ [ReadCb]\<rparr>)"
    using b(1,2) c assms(2) by (simp add: typed_ok_def)
  with b(3) assms(2) show ?thesis by (simp add: run_cev_def silent_def)
qed

lemma input_other:
  fixes c :: "'h conn"
  assumes "typed_ok held c" "\<And>ds. a \<noteq> Data ds"
  shows "if destroyed c then Connection_handleReadEvent silent a c = Inl Null_deref
    else \<exists>c'. Connection_handleReadEvent silent a c = Inr c' \<and> typed_ok held c'"
proof -
  note c = assms(1) [unfolded typed_ok_def]
  have w: "Buffer_wdata (readBuf c) = Inr (rightIndex (readBuf c))"
    "Buffer_availbleSize (readBuf c) = Inr (capacity (readBuf c) - rightIndex (readBuf c))"
    using c by (simp_all add: Buffer_wdata_def Buffer_availbleSize_def buf_ok_def)
  have "typed_ok held (Connection_destroy c)" using c by (simp add: typed_ok_def Connection_destroy_def)
  then show ?thesis
    using w assms c by (cases a) (auto simp: Connection_handleReadEvent_def Connection_handleErroEvent_def)
qed

lemma input_gone: "typed_ok held c \<Longrightarrow> destroyed c \<Longrightarrow> Connection_handleReadEvent silent a c = Inl Null_deref"
  by (simp add: typed_ok_def Connection_handleReadEvent_def Buffer_wdata_def Buffer_availbleSize_def buf_ok_def)

section \<open>One event\<close>

text \<open>The program between two events. The pointer is set once the server is found, and never reset.\<close>

definition client_ok ::
    "endpoint option \<Rightarrow> char list \<Rightarrow> (endpoint \<times> cell list) list \<Rightarrow> (endpoint \<times> cell list) list \<Rightarrow> udp_client \<Rightarrow> bool" where
  "client_ok p held out got s \<longleftrightarrow> typed_ok held (input_conn s)
     \<and> (case p of
          None \<Rightarrow> p_uconn s = None \<and> ud_socket s = unresolved \<and> out = [] \<and> got = []
        | Some ep \<Rightarrow> (\<exists>k. p_uconn s = Some (ep, k) \<and> (talks (ep, k) out got (ud_socket s) \<or> talked out got (ud_socket s))))"

definition client_fault :: "udp_client_event \<Rightarrow> udp_client \<Rightarrow> fault \<Rightarrow> bool" where
  "client_fault e s f \<longleftrightarrow> (\<exists>a. e = Typed a \<and>
     (destroyed (input_conn s) \<and> f = Null_deref
      \<or> u_destroyed (ud_socket s) \<and> p_uconn s \<noteq> None \<and> calls_read (Readable a) \<and> f = Out_of_bounds))"

definition client_does :: "endpoint option \<Rightarrow> char list \<Rightarrow> (endpoint \<times> cell list) list \<Rightarrow> (endpoint \<times> cell list) list \<Rightarrow>
    udp_client_event \<Rightarrow> udp_client \<Rightarrow> bool" where
  "client_does p held out got e s \<longleftrightarrow>
     (case udp_client_step e s of
        Inl f \<Rightarrow> client_fault e s f
      | Inr s' \<Rightarrow> client_ok (peer_after p e) (held_after p held e) (out @ said_by p held e) (got @ heard_by p e) s')"

lemma client_reads:
  assumes "client_ok p held out got s" "udp_client_event_ok (Typed (Data ds))" "\<not> destroyed (input_conn s)"
  shows "client_does p held out got (Typed (Data ds)) s"
proof -
  note ok = assms(1) [unfolded client_ok_def]
  have ds: "ds \<noteq> []" "length ds \<le> 16384" using assms(2) by simp_all
  obtain c where c: "Connection_handleReadEvent silent (Data ds) (input_conn s) = Inr c" "typed_ok (held @ ds) c" "\<not> destroyed c"
    using input_data [OF conjunct1 [OF ok] assms(3) ds] by blast
  note step = client_does_def udp_client_input_def calls_read_def
  show ?thesis
  proof (cases p)
    case None
    with c ok ds show ?thesis by (simp add: step client_ok_def)
  next
    case (Some ep)
    then obtain k where k: "p_uconn s = Some (ep, k)" "talks (ep, k) out got (ud_socket s) \<or> talked out got (ud_socket s)"
      using ok by auto
    obtain b where b: "Buffer_retriveveAllAsString (readBuf c) = Some (Inr (map Some (held @ ds), b))"
      "buf_ok b" "content b = []" "bufptr b \<noteq> None"
      using take_all [of "readBuf c"] c(2) ds(1) by (auto simp: typed_ok_def)
    have c': "typed_ok [] (c\<lparr>readBuf := b\<rparr>)" using b(2-4) c(2,3) by (simp add: typed_ok_def)
    show ?thesis
    proof (cases "u_destroyed (ud_socket s)")
      case True
      then have "u_conns (ud_socket s) = Map.empty" using k(2) by (auto simp: talks_def talked_def)
      then show ?thesis
        using k(1) True b(1) c(1) ds by (simp add: step udp_client_say_def client_fault_def)
    next
      case False
      then have "talks (ep, k) out got (ud_socket s)" using k(2) by (simp add: talked_def)
      from talks_says [of ep k out got "s\<lparr>input_conn := c\<lparr>readBuf := b\<rparr>\<rparr>" "held @ ds"] this ds(1) obtain u where
        "udp_client_say (ep, k) (map Some (held @ ds)) (s\<lparr>input_conn := c\<lparr>readBuf := b\<rparr>\<rparr>) =
           Inr (s\<lparr>input_conn := c\<lparr>readBuf := b\<rparr>, ud_socket := u\<rparr>)"
        "talks (ep, k) (out @ [(ep, map Some (held @ ds))]) got u" by auto
      with k b(1) c(1) c' ds Some show ?thesis by (simp add: step client_ok_def)
    qed
  qed
qed

lemma client_input:
  assumes "client_ok p held out got s" "udp_client_event_ok (Typed a)"
  shows "client_does p held out got (Typed a) s"
proof (cases "destroyed (input_conn s)")
  case True
  then show ?thesis
    using assms(1) input_gone [of held "input_conn s" a]
    by (simp add: client_ok_def client_does_def udp_client_input_def client_fault_def)
next
  case False
  show ?thesis
  proof (cases "\<exists>ds. a = Data ds")
    case True
    with client_reads [OF assms(1) _ False] assms(2) show ?thesis by blast
  next
    case other: False
    then obtain c where "Connection_handleReadEvent silent a (input_conn s) = Inr c" "typed_ok held c"
      using input_other [of held "input_conn s" a] assms(1) False by (auto simp: client_ok_def)
    moreover have "\<not> calls_read (Readable a)" "held_after p held (Typed a) = held" "said_by p held (Typed a) = []"
      using other by (cases p; cases a; simp add: calls_read_def)+
    ultimately show ?thesis using assms(1) by (cases p) (simp_all add: client_does_def udp_client_input_def client_ok_def)
  qed
qed

lemma client_network:
  assumes "client_ok p held out got s" "udp_client_event_ok (Network e)"
  shows "client_does p held out got (Network e) s"
proof (cases p)
  case None
  then show ?thesis
    using assms(1)
    by (simp add: client_ok_def client_does_def unresolved_def UdpSocket_onRead_def UdpSocket_onConnect_def UdpSocket_new_def)
next
  case (Some ep)
  with assms(1) obtain k where k: "p_uconn s = Some (ep, k)" "talks (ep, k) out got (ud_socket s) \<or> talked out got (ud_socket s)"
    by (auto simp: client_ok_def)
  obtain u where u: "udp_deliver udp_client_calls e (ud_socket s) = Inr u"
    "talks (ep, k) out (got @ map cut (event_datagrams e)) u \<or> talked out (got @ map cut (event_datagrams e)) u"
    using client.any_event [of "(ep, k)" out got "[]" "ud_socket s" e] k(2) assms(2) by auto
  show ?thesis
  proof (cases "u_read_on (ud_socket s)")
    case True
    with u k(1) Some assms(1) show ?thesis by (simp add: client_does_def client_ok_def)
  next
    case False
    then have "talked out got (ud_socket s)" using k(2) by (simp add: talks_def)
    then have "talked out (got @ map cut (event_datagrams e)) (ud_socket s)"
      using talked_more [of out got "ud_socket s" "[]"] by simp
    with False k(1) Some assms(1) show ?thesis by (simp add: client_does_def client_ok_def)
  qed
qed

lemma client_resolves:
  assumes "client_ok p held out got s" "p = None"
  shows "client_does p held out got (Resolved eps) s"
proof (cases eps)
  case Nil
  with assms show ?thesis
    by (simp add: client_does_def client_ok_def udp_client_resolved_def EventLoopGroup_connectUdpClient_def)
next
  case (Cons ep es)
  from assms have "ud_socket s = unresolved" by (simp add: client_ok_def)
  from resolves [OF this, of ep es] obtain u k where
    "udp_client_resolved (ep # es) s = Inr (s\<lparr>ud_socket := u, p_uconn := Some (ep, k)\<rparr>)" "talks (ep, k) [] [] u" by blast
  with assms Cons show ?thesis by (simp add: client_does_def client_ok_def)
qed

text \<open>Any run from such a state, before the resolver has answered or after it has answered for the last time.\<close>

definition client_ends ::
    "(endpoint \<times> cell list) list \<Rightarrow> (endpoint \<times> cell list) list \<Rightarrow> udp_client_event list \<Rightarrow> udp_client \<Rightarrow> bool" where
  "client_ends out got es s \<longleftrightarrow>
     (case udp_client_run es s of
        Inl f \<Rightarrow> \<exists>es1 e es2 s1. es = es1 @ e # es2 \<and> udp_client_run es1 s = Inr s1 \<and> client_fault e s1 f
      | Inr s' \<Rightarrow> \<exists>p held. client_ok p held out got s')"

lemma client_run:
  "client_ok p held out got s \<Longrightarrow> \<forall>e \<in> set es. udp_client_event_ok e \<Longrightarrow>
     length (filter is_answer es) \<le> (if p = None then 1 else 0) \<Longrightarrow>
     client_ends (out @ said p held es) (got @ heard p es) es s"
proof (induction es arbitrary: p held out got s)
  case Nil
  then show ?case by (auto simp: client_ends_def)
next
  case (Cons e es)
  have does: "client_does p held out got e s"
  proof (cases e)
    case (Resolved eps)
    with Cons.prems(3) have "p = None" by (cases p) simp_all
    with client_resolves [OF Cons.prems(1)] Resolved show ?thesis by blast
  next
    case (Typed a)
    with client_input [OF Cons.prems(1), of a] Cons.prems(2) show ?thesis by simp
  next
    case (Network n)
    with client_network [OF Cons.prems(1), of n] Cons.prems(2) show ?thesis by simp
  qed
  show ?case
  proof (cases "udp_client_step e s")
    case (Inl f)
    with does have "client_fault e s f" by (simp add: client_does_def)
    then have "\<exists>es1 e1 es2 s2. e # es = es1 @ e1 # es2 \<and> udp_client_run es1 s = Inr s2 \<and> client_fault e1 s2 f"
      by (intro exI [of _ "[]"] exI [of _ e] exI [of _ es] exI [of _ s]) simp
    with Inl show ?thesis by (simp add: client_ends_def)
  next
    case (Inr s1)
    have next_ok: "client_ok (peer_after p e) (held_after p held e) (out @ said_by p held e) (got @ heard_by p e) s1"
      using does Inr by (simp add: client_does_def)
    have "length (filter is_answer es) \<le> (if peer_after p e = None then 1 else 0)"
      using Cons.prems(3) by (cases e; cases p) simp_all
    from Cons.IH [OF next_ok _ this] Cons.prems(2)
    have ends: "client_ends (out @ said p held (e # es)) (got @ heard p (e # es)) es s1" by simp
    show ?thesis
    proof (cases "udp_client_run es s1")
      case (Inr s2)
      with ends \<open>udp_client_step e s = Inr s1\<close> show ?thesis by (simp add: client_ends_def)
    next
      case (Inl f)
      with ends obtain es1 e1 es2 s2 where "es = es1 @ e1 # es2" "udp_client_run es1 s1 = Inr s2" "client_fault e1 s2 f"
        by (auto simp: client_ends_def)
      then have "e # es = (e # es1) @ e1 # es2" "udp_client_run (e # es1) s = Inr s2"
        using \<open>udp_client_step e s = Inr s1\<close> by simp_all
      with \<open>client_fault e1 s2 f\<close> have "\<exists>es1 e1 es2 s2. e # es = es1 @ e1 # es2 \<and> udp_client_run es1 s = Inr s2 \<and> client_fault e1 s2 f"
        by blast
      with Inl \<open>udp_client_step e s = Inr s1\<close> show ?thesis by (simp add: client_ends_def del: append.simps)
    qed
  qed
qed

lemma client_starts:
  assumes "udp_client_start k g = Inr s"
  shows "client_ok None [] [] [] s"
  using assms
  by (auto simp: udp_client_start_def EventLoopGroup_creatUdpClient_def bind_res_Inr_iff Connection_new_def Buffer_alloc_ok
      Connection_init1_def Connection_onRead_def client_ok_def unresolved_def typed_ok_def buf_of_def buf_ok_def
      content_def storage_def)

section \<open>Properties\<close>


definition client_session :: "udp_client_event list" where
  "client_session = [Typed (Data ''a''), Resolved [peer_a], Typed (Data ''b''),
     Network (UdpIn [Datagram peer_b ''yo'', RecvError EAGAIN]), Network (UdpOut [Sent])]"


text \<open>Both faults happen.\<close>

theorem udp_client_faults:
  assumes "udp_client_start k g = Inr s" "ds \<noteq> []" "length ds \<le> 16384"
  shows "udp_client_run [Typed Eof, Typed a] s = Inl Null_deref"
    "udp_client_run [Resolved [ep], Network UdpBroken, Typed (Data ds)] s = Inl Out_of_bounds"
proof -
  note start = client_starts [OF assms(1)]
  have s: "typed_ok [] (input_conn s)" "\<not> destroyed (input_conn s)" "ud_socket s = unresolved"
    using start assms(1) by (auto simp: client_ok_def udp_client_start_def bind_res_Inr_iff Connection_new_def
        Connection_init1_def Connection_onRead_def split: prod.splits)
  have "Connection_handleReadEvent silent Eof (input_conn s) = Inr (Connection_destroy (input_conn s))"
    using s by (simp add: typed_ok_def Connection_handleReadEvent_def Buffer_wdata_def Buffer_availbleSize_def
        Connection_handleErroEvent_def buf_ok_def)
  moreover have "typed_ok [] (Connection_destroy (input_conn s))" "destroyed (Connection_destroy (input_conn s))"
    using s(1) by (simp_all add: typed_ok_def Connection_destroy_def)
  ultimately show "udp_client_run [Typed Eof, Typed a] s = Inl Null_deref"
    using input_gone [of "[]" "Connection_destroy (input_conn s)" a] by (simp add: udp_client_input_def calls_read_def)
next
  note start = client_starts [OF assms(1)]
  have s: "\<not> destroyed (input_conn s)" "typed_ok [] (input_conn s)" "ud_socket s = unresolved"
    using start assms(1) by (auto simp: client_ok_def udp_client_start_def bind_res_Inr_iff Connection_new_def
        Connection_init1_def Connection_onRead_def split: prod.splits)
  obtain u n where u: "udp_client_resolved [ep] s = Inr (s\<lparr>ud_socket := u, p_uconn := Some (ep, n)\<rparr>)" "talks (ep, n) [] [] u"
    using resolves [OF s(3), of ep "[]"] by blast
  obtain v where v: "udp_deliver udp_client_calls UdpBroken u = Inr v" "talked [] [] v"
    using talks_ends [OF u(2), of udp_client_calls] u(2) by (auto simp: udp_deliver_def talks_def)
  let ?s = "s\<lparr>p_uconn := Some (ep, n), ud_socket := v\<rparr>"
  obtain c where c: "Connection_handleReadEvent silent (Data ds) (input_conn s) = Inr c" "typed_ok ds c"
    using input_data [OF s(2,1) assms(2,3)] by auto
  obtain b where "Buffer_retriveveAllAsString (readBuf c) = Some (Inr (map Some ds, b))"
    using take_all [of "readBuf c"] c(2) assms(2) by (auto simp: typed_ok_def)
  then have "udp_client_input (Data ds) ?s = Inl Out_of_bounds"
    using c(1) assms(2) v(2) by (simp add: udp_client_input_def calls_read_def udp_client_say_def talked_def)
  moreover have "u_read_on u" using u(2) by (simp add: talks_def)
  ultimately show "udp_client_run [Resolved [ep], Network UdpBroken, Typed (Data ds)] s = Inl Out_of_bounds"
    using u(1) v(1) by simp
qed

end
