(* ===== verification/Echo_Client.thy ===== *)
theory Echo_Client
  imports Relays Numbers
begin

text \<open>
  The benchmark \<^verbatim>\<open>src/examples/echo_client.cpp\<close>: clients that connect to an echo server, begin together when
  the last one is connected, and end the program when each has got its bytes. Its callbacks run on
  several loops; here they run one at a time, in any order.
\<close>

section \<open>The program\<close>

text \<open>
  \<open>bn_conns ! i\<close> is the connection of client \<open>i\<close>, once made, and \<open>bn_bytes ! i\<close> its count. \<open>bn_order\<close> is the
  vector \<^verbatim>\<open>conns\<close> of plain pointers, \<open>bn_begins\<close> are the handlers queued with the loops of the clients,
  \<open>bn_notes\<close> those queued with the first loop: \<open>True\<close> from a client that has finished, \<open>False\<close> from one that
  failed.
\<close>

record 'h bench =
  bn_conns :: "'h conn option list"
  bn_bytes :: "nat list"
  bn_order :: "nat list"
  bn_active :: int
  bn_connected :: int
  bn_finished :: int
  bn_begins :: "nat list"
  bn_notes :: "bool list"
  bn_exited :: bool

definition bench_new :: "nat \<Rightarrow> nat \<Rightarrow> 'h bench" where
  "bench_new concurrency active =
     \<lparr>bn_conns = replicate (min concurrency active) None, bn_bytes = replicate (min concurrency active) 0, bn_order = [],
      bn_active = int active, bn_connected = 0, bn_finished = 0, bn_begins = [], bn_notes = [], bn_exited = False\<rparr>"

definition conn_gone :: "'h conn option \<Rightarrow> bool" where
  "conn_gone x \<longleftrightarrow> (case x of None \<Rightarrow> False | Some c \<Rightarrow> destroyed c)"

text \<open>The connector of client \<open>i\<close>. It follows the pointers in \<^verbatim>\<open>conns\<close>, whether or not the connections are still there.\<close>

definition bench_connect :: "nat \<Rightarrow> 'h bench \<Rightarrow> 'h bench res" where
  "bench_connect i s =
     bind_res connected_conn (\<lambda>c.
     let s = s\<lparr>bn_order := bn_order s @ [i], bn_connected := bn_connected s + 1\<rparr>
     in bind_res
          (if bn_connected s \<noteq> bn_active s then bind_res (Connection_enableRead False c) (\<lambda>c. Inr (c, s))
           else if \<exists>j \<in> set (bn_order s). j \<noteq> i \<and> conn_gone (bn_conns s ! j) then Inl Null_deref
           else Inr (c, s\<lparr>bn_begins := bn_begins s @ bn_order s\<rparr>))
          (\<lambda>(c, s). Inr (s\<lparr>bn_conns := (bn_conns s)[i := Some (Connection_onErro True (Connection_onRead True c))]\<rparr>)))"

text \<open>The handler that makes a client begin.\<close>

definition bench_begin :: "string \<Rightarrow> nat \<Rightarrow> 'h bench \<Rightarrow> 'h bench res" where
  "bench_begin msg j s =
     (case bn_conns s ! j of
        None \<Rightarrow> Inl Null_deref
      | Some c \<Rightarrow>
          if destroyed c then Inl Null_deref
          else bind_res (Connection_enableRead True c) (\<lambda>c.
               bind_res (Connection_send_bytes (map Some msg) (int (length msg)) None c) (\<lambda>c.
               Inr (s\<lparr>bn_conns := (bn_conns s)[j := Some c], bn_begins := remove1 j (bn_begins s)\<rparr>))))"

text \<open>The read callback of client \<open>i\<close>, on the connection \<open>c\<close> whose buffer has been filled.\<close>

definition bench_read :: "nat \<Rightarrow> nat \<Rightarrow> 'h conn \<Rightarrow> 'h bench \<Rightarrow> 'h bench res" where
  "bench_read per i c s =
     bind_res (Buffer_size (readBuf c)) (\<lambda>n.
     let s = s\<lparr>bn_bytes := (bn_bytes s)[i := bn_bytes s ! i + nat n]\<rparr>
     in bind_res (Connection_send_buffer (readBuf c) None c) (\<lambda>(b, c).
        let c = c\<lparr>readBuf := b\<rparr>
        in if per \<le> bn_bytes s ! i
           then Inr (s\<lparr>bn_conns := (bn_conns s)[i := Some (Connection_destroy c)], bn_notes := bn_notes s @ [True]\<rparr>)
           else Inr (s\<lparr>bn_conns := (bn_conns s)[i := Some c]\<rparr>)))"

text \<open>An event of client \<open>i\<close>; without interest in input no data are read. An error calls the error callback.\<close>

definition bench_event :: "nat \<Rightarrow> nat \<Rightarrow> sock_event \<Rightarrow> 'h bench \<Rightarrow> 'h bench res option" where
  "bench_event per i e s =
     (case bn_conns s ! i of
        None \<Rightarrow> Some (Inr s)
      | Some c \<Rightarrow>
          if destroyed c \<or> calls_read e \<and> \<not> read_on c then Some (Inr s)
          else bind_run (deliver silent e c) (\<lambda>c'.
            if calls_read e then Some (bench_read per i c' s)
            else Some (Inr (s\<lparr>bn_conns := (bn_conns s)[i := Some c'],
                   bn_notes := bn_notes s @ (if destroyed c' then [False] else [])\<rparr>))))"

text \<open>The oldest handler of the first loop.\<close>

definition bench_note :: "'h bench \<Rightarrow> 'h bench" where
  "bench_note s =
     (case bn_notes s of
        [] \<Rightarrow> s
      | fin # ns \<Rightarrow>
          let s = s\<lparr>bn_active := bn_active s - 1, bn_finished := bn_finished s + (if fin then 1 else 0), bn_notes := ns\<rparr>
          in if bn_active s \<le> 0 then s\<lparr>bn_exited := True\<rparr> else s)"

text \<open>
  What can happen: a client connects, or in vain; a client begins; something happens to its connection; the
  first loop runs a handler. Nothing happens after \<^verbatim>\<open>exit(0)\<close>.
\<close>

datatype bench_input = Connects nat bool | Begins nat | Happens nat sock_event | Notes

definition bench_step :: "string \<Rightarrow> nat \<Rightarrow> bench_input \<Rightarrow> 'h bench \<Rightarrow> 'h bench res option" where
  "bench_step msg per x s =
     (if bn_exited s then Some (Inr s)
      else case x of
        Connects i ok \<Rightarrow>
          Some (if ok \<and> i < length (bn_conns s) \<and> bn_conns s ! i = None then bench_connect i s else Inr s)
      | Begins j \<Rightarrow> Some (if j \<in> set (bn_begins s) then bench_begin msg j s else Inr s)
      | Happens i e \<Rightarrow> if i < length (bn_conns s) then bench_event per i e s else Some (Inr s)
      | Notes \<Rightarrow> Some (Inr (bench_note s)))"

fun bench_run :: "string \<Rightarrow> nat \<Rightarrow> bench_input list \<Rightarrow> 'h bench \<Rightarrow> 'h bench res option" where
  "bench_run msg per [] s = Some (Inr s)"
| "bench_run msg per (x # xs) s = bind_run (bench_step msg per x s) (bench_run msg per xs)"

text \<open>
  The arguments of \<^verbatim>\<open>main\<close>; \<open>None\<close> is the usage message. The product of the two \<^verbatim>\<open>int\<close>s is made as an \<^verbatim>\<open>int\<close> (an
  overflow, which C++ leaves undefined, is written as the wrap-around it is) and then turned into an
  \<^verbatim>\<open>unsigned long\<close>. Vectors of a negative length throw.
\<close>

record bench_plan =
  bp_msg_num :: int
  bp_msg_len :: int
  bp_concurrency :: int
  bp_active :: int

definition bench_arguments :: "string list \<Rightarrow> bench_plan option" where
  "bench_arguments argv =
     (if length argv = 7 then
        Some \<lparr>bp_msg_num = atoi (argv ! 5), bp_msg_len = atoi (argv ! 6), bp_concurrency = atoi (argv ! 3),
          bp_active = atoi (argv ! 4)\<rparr>
      else if length argv = 6 then
        Some \<lparr>bp_msg_num = atoi (argv ! 4), bp_msg_len = atoi (argv ! 5), bp_concurrency = atoi (argv ! 3),
          bp_active = atoi (argv ! 3)\<rparr>
      else None)"

definition bytes_per_client :: "bench_plan \<Rightarrow> 64 word" where
  "bytes_per_client pl = scast (word_of_int (bp_msg_len pl) * word_of_int (bp_msg_num pl) :: 32 word)"

definition bench_main :: "string list \<Rightarrow> (string \<times> nat \<times> 'h bench) option res" where
  "bench_main argv =
     (case bench_arguments argv of
        None \<Rightarrow> Inr None
      | Some pl \<Rightarrow>
          if bp_msg_len pl < 0 \<or> bp_concurrency pl < 0 then Inl (Thrown ''std::length_error'')
          else Inr (Some (replicate (nat (bp_msg_len pl)) CHR ''A'', unat (bytes_per_client pl),
                 (bench_new (nat (bp_concurrency pl)) (nat (bp_active pl)))\<lparr>bn_active := bp_active pl\<rparr>)))"

section \<open>The accounts\<close>

text \<open>How many clients have ended, and how many have got their bytes.\<close>

definition ended :: "'h bench \<Rightarrow> nat" where
  "ended s = length (filter conn_gone (bn_conns s))"

definition complete :: "nat \<Rightarrow> 'h bench \<Rightarrow> nat" where
  "complete per s = length (filter (\<lambda>(x, n). conn_gone x \<and> per \<le> n) (zip (bn_conns s) (bn_bytes s)))"

definition client_ok :: "nat \<Rightarrow> nat \<Rightarrow> 'h conn option \<Rightarrow> bool" where
  "client_ok per n x \<longleftrightarrow> (case x of None \<Rightarrow> n = 0 | Some c \<Rightarrow> destroyed c \<or> n < per \<and> (\<exists>out. carries [] out c))"

definition bench_ok :: "nat \<Rightarrow> nat \<Rightarrow> 'h bench \<Rightarrow> bool" where
  "bench_ok per active s \<longleftrightarrow> length (bn_bytes s) = length (bn_conns s) \<and> length (bn_conns s) \<le> active
     \<and> (\<forall>i < length (bn_conns s). client_ok per (bn_bytes s ! i) (bn_conns s ! i))
     \<and> (\<forall>j \<in> set (bn_order s) \<union> set (bn_begins s). j < length (bn_conns s))
     \<and> bn_active s + int (ended s) = int active + int (length (bn_notes s))
     \<and> bn_finished s + int (length (filter (\<lambda>b. b) (bn_notes s))) = int (complete per s)
     \<and> (bn_exited s \<longleftrightarrow> bn_active s \<le> 0)"

lemma length_filter_update:
  "i < length xs \<Longrightarrow> length (filter P (xs[i := x])) + (if P (xs ! i) then 1 else 0) = length (filter P xs) + (if P x then 1 else 0)"
proof (induction xs arbitrary: i)
  case (Cons y xs)
  show ?case
  proof (cases i)
    case (Suc k)
    with Cons.IH [of k] Cons.prems show ?thesis by auto
  qed auto
qed simp

text \<open>A live or missing connection of client \<open>i\<close> is replaced by \<open>x\<close>, and its count by \<open>n\<close>.\<close>

lemma accounts_update:
  assumes "i < length (bn_conns s)" "length (bn_bytes s) = length (bn_conns s)" "\<not> conn_gone (bn_conns s ! i)"
    "bn_conns s' = (bn_conns s)[i := x]" "bn_bytes s' = (bn_bytes s)[i := n]"
  shows "ended s' = ended s + (if conn_gone x then 1 else 0)"
    "complete per s' = complete per s + (if conn_gone x \<and> per \<le> n then 1 else 0)"
proof -
  show "ended s' = ended s + (if conn_gone x then 1 else 0)"
    using length_filter_update [OF assms(1), of conn_gone x] assms(3,4) by (simp add: ended_def)
  have "zip (bn_conns s') (bn_bytes s') = (zip (bn_conns s) (bn_bytes s))[i := (x, n)]"
    using assms(4,5) by (simp add: update_zip)
  then show "complete per s' = complete per s + (if conn_gone x \<and> per \<le> n then 1 else 0)"
    using length_filter_update [of i "zip (bn_conns s) (bn_bytes s)" "\<lambda>(x, n). conn_gone x \<and> per \<le> n" "(x, n)"] assms(1-3)
    by (simp add: complete_def)
qed

lemma bench_okD:
  assumes "bench_ok per active s"
  shows "length (bn_bytes s) = length (bn_conns s)" "length (bn_conns s) \<le> active"
    "\<And>i. i < length (bn_conns s) \<Longrightarrow> client_ok per (bn_bytes s ! i) (bn_conns s ! i)"
    "\<And>j. j \<in> set (bn_order s) \<Longrightarrow> j < length (bn_conns s)" "\<And>j. j \<in> set (bn_begins s) \<Longrightarrow> j < length (bn_conns s)"
    "bn_active s + int (ended s) = int active + int (length (bn_notes s))"
    "bn_finished s + int (length (filter (\<lambda>b. b) (bn_notes s))) = int (complete per s)"
    "bn_exited s \<longleftrightarrow> bn_active s \<le> 0"
  using assms by (auto simp: bench_ok_def)

text \<open>One client changes, and with it at most one note.\<close>

lemma bench_ok_client:
  assumes "bench_ok per active s" "i < length (bn_conns s)" "\<not> conn_gone (bn_conns s ! i)" "client_ok per n x"
    "bn_conns s' = (bn_conns s)[i := x]" "bn_bytes s' = (bn_bytes s)[i := n]"
    "bn_notes s' = bn_notes s @ (if conn_gone x then [per \<le> n] else [])"
    "set (bn_order s') \<subseteq> insert i (set (bn_order s))" "set (bn_begins s') \<subseteq> set (bn_begins s) \<union> set (bn_order s')"
    "bn_active s' = bn_active s" "bn_finished s' = bn_finished s" "bn_exited s' = bn_exited s"
  shows "bench_ok per active s'"
proof -
  note ok = bench_okD [OF assms(1)]
  note acc = accounts_update [OF assms(2) ok(1) assms(3) assms(5,6)]
  have "client_ok per (bn_bytes s' ! j) (bn_conns s' ! j)" if "j < length (bn_conns s')" for j
    using that ok(1,3) assms(2,4-6) by (auto simp: nth_list_update)
  moreover have "\<forall>j \<in> set (bn_order s') \<union> set (bn_begins s'). j < length (bn_conns s')"
  proof
    fix j assume "j \<in> set (bn_order s') \<union> set (bn_begins s')"
    then have "j = i \<or> j \<in> set (bn_order s) \<or> j \<in> set (bn_begins s)" using assms(8,9) by auto
    then show "j < length (bn_conns s')" using ok(4,5) assms(2,5) by auto
  qed
  ultimately show ?thesis
    unfolding bench_ok_def using ok(1,2,6,7,8) assms(5-7,10-12) acc(1) acc(2) [of per] by (auto split: if_splits)
qed

section \<open>Steps\<close>

lemma client_okD: "client_ok per n (Some c) \<Longrightarrow> \<not> destroyed c \<Longrightarrow> n < per \<and> (\<exists>out. carries [] out c)"
  by (simp add: client_ok_def)

lemma connect_ok:
  fixes s :: "'h bench"
  assumes "bench_ok per active s" "i < length (bn_conns s)" "bn_conns s ! i = None" "0 < per"
  shows "bench_connect i s = Inl Null_deref \<or> (\<exists>s'. bench_connect i s = Inr s' \<and> bench_ok per active s')"
proof -
  note ok = bench_okD [OF assms(1)]
  have n: "bn_bytes s ! i = 0" using ok(3) [OF assms(2)] assms(3) by (simp add: client_ok_def)
  then have same: "(bn_bytes s)[i := 0] = bn_bytes s" using list_update_id [of "bn_bytes s" i] by simp
  let ?c = "\<lambda>r. \<lparr>destroyed = False, read_on = r, write_on = False, readBuf = buf_of (replicate 1024 None) 0 0, writTasks = [],
    has_readcb = True, has_errocb = True, cevents = [], wire = [], queued = [], promised = []\<rparr> :: 'h conn"
  have c: "client_ok per 0 (Some (?c r))" "\<not> conn_gone (Some (?c r))" for r
    using assms(4) by (auto simp: client_ok_def carries_def outgoing_def plain_tasks_def conn_gone_def intro!: exI [of _ "[]"])
  have "bench_connect i s = Inl Null_deref \<or>
      (\<exists>r begins. bench_connect i s = Inr (s\<lparr>bn_order := bn_order s @ [i], bn_connected := bn_connected s + 1,
          bn_begins := bn_begins s @ begins, bn_conns := (bn_conns s)[i := Some (?c r)]\<rparr>) \<and> set begins \<subseteq> insert i (set (bn_order s)))"
  proof (cases "bn_connected s + 1 = bn_active s")
    case True
    then show ?thesis
      by (auto simp: bench_connect_def connected_conn_def Connection_new_def Buffer_alloc_ok Connection_enableRead_def
          Connection_onRead_def Connection_onErro_def Let_def intro!: exI [of _ True] exI [of _ "bn_order s @ [i]"])
  next
    case False
    then show ?thesis
      by (auto simp: bench_connect_def connected_conn_def Connection_new_def Buffer_alloc_ok Connection_enableRead_def
          Connection_onRead_def Connection_onErro_def Let_def intro!: exI [of _ False] exI [of _ "[]"])
  qed
  then show ?thesis
  proof (elim disjE exE conjE)
    fix r begins
    assume "bench_connect i s = Inr (s\<lparr>bn_order := bn_order s @ [i], bn_connected := bn_connected s + 1,
          bn_begins := bn_begins s @ begins, bn_conns := (bn_conns s)[i := Some (?c r)]\<rparr>)" "set begins \<subseteq> insert i (set (bn_order s))"
    moreover from this(2) have "bench_ok per active (s\<lparr>bn_order := bn_order s @ [i], bn_connected := bn_connected s + 1,
          bn_begins := bn_begins s @ begins, bn_conns := (bn_conns s)[i := Some (?c r)]\<rparr>)"
      using c [of r] n assms(2,3) ok(1)
      by (intro bench_ok_client [OF assms(1,2) _ c(1) [of r]]) (auto simp: conn_gone_def same)
    ultimately show ?thesis by blast
  qed simp
qed

text \<open>A client begins.\<close>

lemma begin_ok:
  fixes s :: "'h bench"
  assumes "bench_ok per active s" "j \<in> set (bn_begins s)" "msg \<noteq> []"
  shows "bench_begin msg j s = Inl Null_deref \<or> (\<exists>s'. bench_begin msg j s = Inr s' \<and> bench_ok per active s')"
proof (cases "bn_conns s ! j")
  case None
  then show ?thesis by (simp add: bench_begin_def)
next
  case (Some c)
  note ok = bench_okD [OF assms(1)]
  have j: "j < length (bn_conns s)" by (rule ok(5) [OF assms(2)])
  show ?thesis
  proof (cases "destroyed c")
    case True
    with Some show ?thesis by (simp add: bench_begin_def)
  next
    case False
    obtain out where c: "bn_bytes s ! j < per" "carries [] out c"
      using client_okD [OF ok(3) [OF j, unfolded Some] False] by blast
    from c(2) have "carries [] out (c\<lparr>read_on := True\<rparr>)" by (simp add: carries_def outgoing_def)
    from carries_sends [OF this assms(3)] obtain c' where
      c': "Connection_send_bytes (map Some msg) (int (length msg)) None (c\<lparr>read_on := True\<rparr>) = Inr c'"
      "carries [] (out @ map Some msg) c'" by blast
    let ?s = "s\<lparr>bn_conns := (bn_conns s)[j := Some c'], bn_begins := remove1 j (bn_begins s)\<rparr>"
    have "client_ok per (bn_bytes s ! j) (Some c')" "\<not> conn_gone (Some c')"
      using c(1) c'(2) carriesD(1) by (auto simp: client_ok_def conn_gone_def)
    then have "bench_ok per active ?s"
      using Some False set_remove1_subset [of j "bn_begins s"]
      by (intro bench_ok_client [OF assms(1) j, of "bn_bytes s ! j" "Some c'"]) (auto simp: conn_gone_def)
    moreover have "bench_begin msg j s = Inr ?s"
      using Some False c'(1) by (simp add: bench_begin_def Connection_enableRead_def)
    ultimately show ?thesis by blast
  qed
qed

text \<open>Something happens to a connection.\<close>

lemma happens_read:
  fixes s :: "'h bench"
  assumes "bench_ok per active s" "i < length (bn_conns s)" "event_ok e" "bn_conns s ! i = Some c"
    "\<not> destroyed c" "calls_read e" "read_on c" "bn_bytes s ! i < per" "carries [] out c"
  shows "\<exists>s'. bench_event per i e s = Some (Inr s') \<and> bench_ok per active s'"
proof -
  note ok = bench_okD [OF assms(1)] and c = assms(8,9)
  have live: "\<not> conn_gone (bn_conns s ! i)" using assms(4,5) by (simp add: conn_gone_def)
  obtain ds where ds: "e = Readable (Data ds)" "ds \<noteq> []"
    using assms(6) unfolding calls_read_def by (cases e rule: event_bytes.cases) auto
  obtain c1 where c1: "deliver silent e c = Some (Inr c1)" "carries (map Some ds) out c1"
    using carries_data [OF c(2) ds(2)] assms(3) ds(1) by (auto simp: event_ok_def)
  have ne: "map Some ds \<noteq> []" using ds(2) by simp
  from carries_returns [OF c1(2) ne] obtain b c2 where c2: "Connection_send_buffer (readBuf c1) None c1 = Inr (b, c2)"
    "carries [] (out @ map Some ds) (c2\<lparr>readBuf := b\<rparr>)" by blast
  define n where "n = bn_bytes s ! i + length ds"
  define x where "x = Some (if per \<le> n then Connection_destroy (c2\<lparr>readBuf := b\<rparr>) else c2\<lparr>readBuf := b\<rparr>)"
  let ?s = "s\<lparr>bn_conns := (bn_conns s)[i := x], bn_bytes := (bn_bytes s)[i := n],
    bn_notes := bn_notes s @ (if conn_gone x then [per \<le> n] else [])\<rparr>"
  have gone: "conn_gone x \<longleftrightarrow> per \<le> n"
    using carriesD(1) [OF c2(2)] by (simp add: x_def conn_gone_def Connection_destroy_def)
  have "Buffer_size (readBuf c1) = Inr (int (length ds))"
    using Buffer_size_ok [OF carriesD(3) [OF c1(2)]] carriesD(5) [OF c1(2)] by simp
  then have "bench_event per i e s = Some (Inr ?s)"
    using assms(4-7) c1(1) c2(1) gone assms(2) ok(1)
    by (auto simp: bench_event_def bench_read_def Let_def n_def x_def)
  moreover have "client_ok per n x"
    using c2(2) by (auto simp: client_ok_def x_def Connection_destroy_def)
  then have "bench_ok per active ?s"
    by (intro bench_ok_client [OF assms(1,2) live]) auto
  ultimately show ?thesis by blast
qed

lemma happens_quiet:
  fixes s :: "'h bench"
  assumes "bench_ok per active s" "i < length (bn_conns s)" "event_ok e" "bn_conns s ! i = Some c"
    "\<not> destroyed c" "\<not> calls_read e" "bn_bytes s ! i < per" "carries [] out c"
  shows "\<exists>s'. bench_event per i e s = Some (Inr s') \<and> bench_ok per active s'"
proof -
  note ok = bench_okD [OF assms(1)] and c = assms(7,8)
  have live: "\<not> conn_gone (bn_conns s ! i)" using assms(4,5) by (simp add: conn_gone_def)
  obtain c' where c': "deliver silent e c = Some (Inr c')" "carries [] out c' \<or> cut_short out c'"
    using carries_other [OF c(2)] assms(6) by (auto simp: calls_read_def)
  let ?s = "s\<lparr>bn_conns := (bn_conns s)[i := Some c'], bn_notes := bn_notes s @ (if destroyed c' then [False] else [])\<rparr>"
  have "client_ok per (bn_bytes s ! i) (Some c')"
    using c'(2) c(1) by (auto simp: client_ok_def cut_short_def)
  then have "bench_ok per active ?s"
    using c(1) by (intro bench_ok_client [OF assms(1,2) live, of "bn_bytes s ! i" "Some c'"]) (auto simp: conn_gone_def)
  moreover have "bench_event per i e s = Some (Inr ?s)"
    using assms(4-6) c'(1) by (simp add: bench_event_def)
  ultimately show ?thesis by blast
qed

lemma happens_ok:
  fixes s :: "'h bench"
  assumes "bench_ok per active s" "i < length (bn_conns s)" "event_ok e"
  shows "\<exists>s'. bench_event per i e s = Some (Inr s') \<and> bench_ok per active s'"
proof (cases "bn_conns s ! i")
  case None
  with assms(1) show ?thesis by (simp add: bench_event_def)
next
  case (Some c)
  show ?thesis
  proof (cases "destroyed c \<or> calls_read e \<and> \<not> read_on c")
    case True
    with Some assms(1) show ?thesis by (simp add: bench_event_def)
  next
    case False
    then obtain out where "bn_bytes s ! i < per" "carries [] out c"
      using client_okD [OF bench_okD(3) [OF assms(1,2), unfolded Some]] by blast
    with happens_read [OF assms Some] happens_quiet [OF assms Some] False show ?thesis
      by (cases "calls_read e") simp_all
  qed
qed

text \<open>A handler of the first loop.\<close>

lemma note_ok:
  assumes "bench_ok per active s" "\<not> bn_exited s"
  shows "bench_ok per active (bench_note s)"
proof (cases "bn_notes s")
  case Nil
  with assms(1) show ?thesis by (simp add: bench_note_def)
next
  case (Cons fin ns)
  let ?s = "s\<lparr>bn_active := bn_active s - 1, bn_finished := bn_finished s + (if fin then 1 else 0), bn_notes := ns\<rparr>"
  have "ended (bench_note s) = ended s" "complete per (bench_note s) = complete per s"
    using Cons by (simp_all add: bench_note_def ended_def complete_def Let_def)
  then show ?thesis
    using assms Cons by (auto simp: bench_ok_def bench_note_def Let_def)
qed

definition bench_input_ok :: "bench_input \<Rightarrow> bool" where
  "bench_input_ok x \<longleftrightarrow> (case x of Happens i e \<Rightarrow> event_ok e | _ \<Rightarrow> True)"

lemma bench_step_ok:
  assumes "bench_ok per active s" "bench_input_ok x" "msg \<noteq> []" "0 < per"
  shows "bench_step msg per x s = Some (Inl Null_deref) \<or> (\<exists>s'. bench_step msg per x s = Some (Inr s') \<and> bench_ok per active s')"
proof (cases "bn_exited s")
  case True
  with assms(1) show ?thesis by (simp add: bench_step_def)
next
  case False
  show ?thesis
  proof (cases x)
    case (Connects i ok)
    with connect_ok [OF assms(1) _ _ assms(4), of i] assms(1) False show ?thesis by (auto simp: bench_step_def)
  next
    case (Begins j)
    with begin_ok [OF assms(1) _ assms(3), of j] assms(1) False show ?thesis by (auto simp: bench_step_def)
  next
    case (Happens i e)
    with happens_ok [OF assms(1), of i e] assms(1,2) False show ?thesis by (auto simp: bench_step_def bench_input_ok_def)
  next
    case Notes
    with note_ok [OF assms(1) False] False show ?thesis by (simp add: bench_step_def)
  qed
qed

lemma bench_run_ok:
  assumes "msg \<noteq> []" "0 < per"
  shows "bench_ok per active s \<Longrightarrow> \<forall>x \<in> set xs. bench_input_ok x \<Longrightarrow>
     bench_run msg per xs s = Some (Inl Null_deref) \<or> (\<exists>s'. bench_run msg per xs s = Some (Inr s') \<and> bench_ok per active s')"
proof (induction xs arbitrary: s)
  case Nil
  then show ?case by simp
next
  case (Cons x xs)
  have "bench_input_ok x" using Cons.prems(2) by simp
  from bench_step_ok [OF Cons.prems(1) this assms] show ?case
  proof (elim disjE exE conjE)
    fix t assume "bench_step msg per x s = Some (Inr t)" "bench_ok per active t"
    with Cons.IH [of t] Cons.prems(2) show ?thesis by simp
  qed simp
qed

lemma bench_new_ok: "0 < active \<Longrightarrow> bench_ok per active (bench_new concurrency active)"
  by (auto simp: bench_ok_def bench_new_def ended_def complete_def client_ok_def conn_gone_def set_zip
      filter_replicate zip_replicate)

section \<open>Properties\<close>



text \<open>The fault happens: a client that is closed while others are still connecting is gone when the last
  of them follows the pointers.\<close>

theorem echo_client_uses_dead_connection:
  "bench_run msg per [Connects 0 True, Happens 0 (Readable Eof), Connects 1 True] (bench_new 2 2 :: 'h bench) = Some (Inl Null_deref)"
  by (simp add: bench_step_def bench_new_def bench_connect_def connected_conn_def Connection_new_def Buffer_alloc_ok
      Connection_enableRead_def Connection_onRead_def Connection_onErro_def Let_def bench_event_def calls_read_def deliver_def
      Connection_handleReadEvent_def Buffer_wdata_def Buffer_availbleSize_def buf_of_def Connection_handleErroEvent_def
      run_cev_def silent_def Connection_destroy_def conn_gone_def numeral_2_eq_2)

text \<open>
  The arguments. More active clients than clients are never all connected and never all ended, so the
  program does not end; and the product of the two numbers can wrap to a total that no client can ever
  reach, or to none at all.
\<close>

lemma bench_step_length:
  assumes "bench_step msg per x s = Some (Inr s')"
  shows "length (bn_conns s') = length (bn_conns s)"
  using assms
  by (cases x) (auto simp: bench_step_def bench_connect_def bench_begin_def bench_event_def bench_read_def bench_note_def
      Let_def bind_res_Inr_iff bind_run_def split: if_splits option.splits sum.splits list.splits)

lemma bench_run_length: "bench_run msg per xs s = Some (Inr s') \<Longrightarrow> length (bn_conns s') = length (bn_conns s)"
proof (induction xs arbitrary: s)
  case (Cons x xs)
  then obtain s1 where "bench_step msg per x s = Some (Inr s1)" "bench_run msg per xs s1 = Some (Inr s')"
    by (auto simp: bind_run_def split: option.splits sum.splits)
  with Cons.IH [of s1] bench_step_length [of msg per x s s1] show ?case by simp
qed simp

theorem echo_client_never_ends:
  assumes "bench_main argv = Inr (Some (msg, per, s :: 'h bench))" "bench_arguments argv = Some pl"
    and "bp_concurrency pl < bp_active pl" "msg \<noteq> []" "0 < per" "\<forall>x \<in> set xs. bench_input_ok x"
    and "bench_run msg per xs s = Some (Inr s')"
  shows "\<not> bn_exited s' \<and> 0 < bn_active s'"
proof -
  let ?n = "nat (bp_active pl)" and ?k = "nat (bp_concurrency pl)"
  have s: "s = bench_new ?k ?n" "0 \<le> bp_concurrency pl"
    using assms(1-3) by (auto simp: bench_main_def bench_new_def split: if_splits)
  then have n: "0 < ?n" "?k < ?n" using assms(3) by simp_all
  have "bench_ok per ?n s" using bench_new_ok [OF n(1)] by (simp add: s(1))
  from bench_run_ok [OF assms(4,5) this assms(6)] assms(7) have ok: "bench_ok per ?n s'" by auto
  have "length (bn_conns s') = ?k" using bench_run_length [OF assms(7)] n(2) s(1) by (simp add: bench_new_def)
  then have "ended s' \<le> ?k" using length_filter_le [of conn_gone "bn_conns s'"] by (simp add: ended_def)
  with bench_okD(6,8) [OF ok] n(2) show ?thesis by linarith
qed

theorem echo_client_total_wraps:
  "unat (bytes_per_client \<lparr>bp_msg_num = 65536, bp_msg_len = 65536, bp_concurrency = k, bp_active = a\<rparr>) = 0"
  "unat (bytes_per_client \<lparr>bp_msg_num = 50000, bp_msg_len = 50000, bp_concurrency = k, bp_active = a\<rparr>) = 2 ^ 64 - 1794967296"
  by (simp_all add: bytes_per_client_def)

end
