(* ===== verification/Named_Clients.thy ===== *)
theory Named_Clients
  imports Loop_Groups
begin

text \<open>
  TCP clients made from a name (\<^verbatim>\<open>EventLoopGroup::creatTcpClient\<close>, \<^verbatim>\<open>src/src/EventLoopGroup.cpp\<close>), across the threads
  that take part: the thread that asks, the thread of the resolver, the loop that gets its answer and the
  loop that serves the client.
\<close>

section \<open>The threads together\<close>

text \<open>
  Clients are numbered in the order in which they are asked for. \<open>nc_answers\<close> are the answers that the
  resolver has posted to loops and \<open>nc_starts\<close> the starts that loops have posted to others; a loop runs what
  is posted to it in order. \<open>nc_held\<close> says whether the program still holds its pointer to the client.
\<close>

record named_clients =
  nc_resolver :: "nat resolver_thread"
  nc_answers :: "(nat \<times> endpoint list \<times> nat) list"
  nc_starts :: "(nat \<times> nat) list"
  nc_clients :: "tcp_client list"
  nc_names :: "(string \<times> string) list"
  nc_held :: "bool list"

definition named_clients_new :: named_clients where
  "named_clients_new = \<lparr>nc_resolver = ResolverThread_new, nc_answers = [], nc_starts = [], nc_clients = [],
     nc_names = [], nc_held = []\<rparr>"

text \<open>The resolver's thread is made by the first call; \<open>here\<close> is the loop of the calling thread, if it has one.\<close>

definition Resolver_async_resolve :: "nat option \<Rightarrow> string \<Rightarrow> string \<Rightarrow> 'h \<Rightarrow> 'h resolver_thread \<Rightarrow> 'h resolver_thread" where
  "Resolver_async_resolve here host service h rt = ResolverThread_resolve (host, service, here, Some h) rt"

text \<open>\<^verbatim>\<open>creatTcpClient\<close>, and the \<^verbatim>\<open>onConnect\<close> with which every caller goes on.\<close>

definition EventLoopGroup_creatTcpClient :: "nat option \<Rightarrow> string \<Rightarrow> string \<Rightarrow> named_clients \<Rightarrow> named_clients" where
  "EventLoopGroup_creatTcpClient here host service w =
     w\<lparr>nc_resolver := Resolver_async_resolve here host service (length (nc_clients w)) (nc_resolver w),
       nc_clients := nc_clients w @ [TcpClient_new False False], nc_names := nc_names w @ [(host, service)],
       nc_held := nc_held w @ [True]\<rparr>"

definition client_onConnect :: "nat \<Rightarrow> named_clients \<Rightarrow> named_clients" where
  "client_onConnect i w = w\<lparr>nc_clients := (nc_clients w)[i := TcpClient_onConnect True (nc_clients w ! i)]\<rparr>"

text \<open>A step of the resolver's thread; what it posts goes to the loops.\<close>

definition resolver_works :: "getaddrinfo \<Rightarrow> named_clients \<Rightarrow> named_clients res" where
  "resolver_works gai w =
     bind_res (ResolverThread_step gai (nc_resolver w)) (\<lambda>rt.
     Inr (w\<lparr>nc_resolver := rt,
       nc_answers := nc_answers w @ drop (length (rt_posted (nc_resolver w))) (rt_posted rt)\<rparr>))"

text \<open>The loop \<open>l\<close> runs the oldest answer posted to it; \<open>k\<close> are the kernel's answers to its calls.\<close>

definition loop_answers :: "kernel \<Rightarrow> loop_group \<Rightarrow> nat \<Rightarrow> named_clients \<Rightarrow> named_clients res" where
  "loop_answers k g l w =
     (case List.extract (\<lambda>a. fst a = l) (nc_answers w) of
        None \<Rightarrow> Inr w
      | Some (before, (_, eps, i), behind) \<Rightarrow>
          let w = w\<lparr>nc_answers := before @ behind\<rparr>
          in bind_res (EventLoopGroup_connectTcpClient k g l eps (if nc_held w ! i then Some (nc_clients w ! i) else None)) (\<lambda>r.
             case r of
               None \<Rightarrow> Inr w
             | Some (t, post) \<Rightarrow>
                 Inr (w\<lparr>nc_starts := nc_starts w @ (case post of None \<Rightarrow> [] | Some l' \<Rightarrow> [(l', i)]),
                        nc_clients := (nc_clients w)[i := t]\<rparr>)))"

definition loop_starts :: "nat \<Rightarrow> named_clients \<Rightarrow> named_clients res" where
  "loop_starts l w =
     (case List.extract (\<lambda>s. fst s = l) (nc_starts w) of
        None \<Rightarrow> Inr w
      | Some (before, (_, i), behind) \<Rightarrow>
          bind_res (TcpClient_start (nc_clients w ! i)) (\<lambda>t.
          Inr (w\<lparr>nc_starts := before @ behind, nc_clients := (nc_clients w)[i := t]\<rparr>)))"

text \<open>
  What can happen: a client is asked for; the program drops its pointer to one; the resolver works or is
  told to stop; a loop runs an answer or a start; the socket of a client has an event.
\<close>

datatype named_event = Create "nat option" string string | Drop nat | Resolves | Ends
  | Answers kernel nat | Starts nat | Fires nat client_event

fun named_step :: "getaddrinfo \<Rightarrow> loop_group \<Rightarrow> named_event \<Rightarrow> named_clients \<Rightarrow> named_clients res" where
  "named_step gai g (Create here host service) w =
     Inr (client_onConnect (length (nc_clients w)) (EventLoopGroup_creatTcpClient here host service w))"
| "named_step gai g (Drop i) w = Inr (w\<lparr>nc_held := (nc_held w)[i := False]\<rparr>)"
| "named_step gai g Resolves w = resolver_works gai w"
| "named_step gai g Ends w = Inr (w\<lparr>nc_resolver := ResolverThread_stop (nc_resolver w)\<rparr>)"
| "named_step gai g (Answers k l) w = loop_answers k g l w"
| "named_step gai g (Starts l) w = loop_starts l w"
| "named_step gai g (Fires i e) w =
     (if i < length (nc_clients w) then
        bind_res (client_round e (nc_clients w ! i)) (\<lambda>t. Inr (w\<lparr>nc_clients := (nc_clients w)[i := t]\<rparr>))
      else Inr w)"

fun named_run :: "getaddrinfo \<Rightarrow> loop_group \<Rightarrow> named_event list \<Rightarrow> named_clients \<Rightarrow> named_clients res" where
  "named_run gai g [] w = Inr w"
| "named_run gai g (e # es) w = bind_res (named_step gai g e w) (named_run gai g es)"

text \<open>Every asking thread has a loop; the kernel gives a descriptor and does not refuse at once.\<close>

definition agrees :: "kernel \<Rightarrow> bool" where
  "agrees k \<longleftrightarrow> (\<exists>fd. k_socket k = Inr fd \<and> 0 \<le> fd \<and> k_fcntl k fd = Inr ()
     \<and> (\<forall>ep. k_connect k fd ep = Inr () \<or> k_connect k fd ep = Inl EINPROGRESS))"

fun named_event_ok :: "named_event \<Rightarrow> bool" where
  "named_event_ok (Create here host service) \<longleftrightarrow> here \<noteq> None"
| "named_event_ok (Answers k l) \<longleftrightarrow> agrees k"
| "named_event_ok e \<longleftrightarrow> True"

section \<open>The life of a client\<close>

text \<open>Not started yet; connecting; and done, its connector called once.\<close>

definition fresh :: "tcp_client \<Rightarrow> bool" where
  "fresh t \<longleftrightarrow> cl_chan t = None \<and> ticks t = [] \<and> connected t = [] \<and> cl_connector t"

definition connecting :: "tcp_client \<Rightarrow> bool" where
  "connecting t \<longleftrightarrow> cl_chan t \<noteq> None \<and> ticks t = [] \<and> connected t = [] \<and> cl_connector t \<and> cl_loop t \<and> cl_socket t"

definition told :: "tcp_client \<Rightarrow> bool" where
  "told t \<longleftrightarrow> cl_chan t = None \<and> ticks t = [] \<and> length (connected t) = 1"

lemma told_round: "told t \<Longrightarrow> client_round e t = Inr t"
  by (cases t) (simp add: told_def client_round_def)

lemma fresh_round: "fresh t \<Longrightarrow> client_round e t = Inr t"
  by (cases t) (simp add: fresh_def client_round_def)

lemma connecting_round: "connecting t \<Longrightarrow> \<exists>t'. client_round e t = Inr t' \<and> told t'"
  by (cases e) (auto simp: connecting_def told_def client_round_def TcpClient_handleWrit_def TcpClient_handleErro_def
      TcpClient_destroy_def TcpClient_tick_def Let_def)

lemma fresh_starts: "fresh t \<Longrightarrow> cl_loop t \<Longrightarrow> cl_socket t \<Longrightarrow> \<exists>t'. TcpClient_start t = Inr t' \<and> connecting t'"
  by (auto simp: fresh_def connecting_def TcpClient_start_def)

text \<open>What is under way for client \<open>i\<close>.\<close>

definition under_way :: "named_clients \<Rightarrow> nat \<Rightarrow> nat" where
  "under_way w i = count_list (map (snd \<circ> snd \<circ> snd) (bq_queue (rt_requests (nc_resolver w)))) (Some i)
     + count_list (map (snd \<circ> snd) (nc_answers w)) i + count_list (map snd (nc_starts w)) i"

definition found :: "getaddrinfo \<Rightarrow> named_clients \<Rightarrow> nat \<Rightarrow> endpoint list" where
  "found gai w i = Resolver_resolve gai (fst (nc_names w ! i)) (snd (nc_names w ! i))"

definition phase :: "getaddrinfo \<Rightarrow> named_clients \<Rightarrow> nat \<Rightarrow> bool" where
  "phase gai w i \<longleftrightarrow> (let t = nc_clients w ! i in
     under_way w i = 1 \<and> fresh t
     \<or> under_way w i = 0 \<and> (found gai w i \<noteq> [] \<and> (connecting t \<or> told t)
         \<or> fresh t \<and> (found gai w i = [] \<or> \<not> nc_held w ! i)))"

fun request_ok :: "named_clients \<Rightarrow> nat request \<Rightarrow> bool" where
  "request_ok w (host, service, here, h) \<longleftrightarrow>
     (\<forall>i. h = Some i \<longrightarrow> i < length (nc_clients w) \<and> nc_names w ! i = (host, service) \<and> here \<noteq> None)"

definition named_ok :: "getaddrinfo \<Rightarrow> named_clients \<Rightarrow> bool" where
  "named_ok gai w \<longleftrightarrow> length (nc_names w) = length (nc_clients w) \<and> length (nc_held w) = length (nc_clients w)
     \<and> (\<forall>r \<in> set (bq_queue (rt_requests (nc_resolver w))). request_ok w r)
     \<and> (\<forall>(l, eps, i) \<in> set (nc_answers w). i < length (nc_clients w) \<and> eps = found gai w i)
     \<and> (\<forall>(l, i) \<in> set (nc_starts w). i < length (nc_clients w) \<and> found gai w i \<noteq> []
          \<and> cl_loop (nc_clients w ! i) \<and> cl_socket (nc_clients w ! i))
     \<and> (\<forall>i < length (nc_clients w). phase gai w i)"

lemma named_okD:
  assumes "named_ok gai w"
  shows "length (nc_names w) = length (nc_clients w)" "length (nc_held w) = length (nc_clients w)"
    "r \<in> set (bq_queue (rt_requests (nc_resolver w))) \<Longrightarrow> request_ok w r"
    "(l, eps, i) \<in> set (nc_answers w) \<Longrightarrow> i < length (nc_clients w) \<and> eps = found gai w i"
    "(l, i) \<in> set (nc_starts w) \<Longrightarrow> i < length (nc_clients w) \<and> found gai w i \<noteq> []
       \<and> cl_loop (nc_clients w ! i) \<and> cl_socket (nc_clients w ! i)"
    "i < length (nc_clients w) \<Longrightarrow> phase gai w i"
  using assms by (auto simp: named_ok_def)

lemma request_ok_mono:
  "request_ok w r \<Longrightarrow> length (nc_clients w) \<le> length (nc_clients w') \<Longrightarrow>
     (\<And>i. i < length (nc_clients w) \<Longrightarrow> nc_names w' ! i = nc_names w ! i) \<Longrightarrow> request_ok w' r"
  by (cases r) auto

lemma named_new_ok: "named_ok gai named_clients_new"
  by (simp add: named_ok_def named_clients_new_def ResolverThread_new_def BlockingQueue_new_def)

section \<open>One event\<close>

lemma under_way_new:
  assumes "named_ok gai w"
  shows "under_way w (length (nc_clients w)) = 0"
proof -
  let ?n = "length (nc_clients w)"
  have "Some ?n \<notin> set (map (snd \<circ> snd \<circ> snd) (bq_queue (rt_requests (nc_resolver w))))"
    using named_okD(3) [OF assms] by fastforce
  moreover have "?n \<notin> set (map (snd \<circ> snd) (nc_answers w))" "?n \<notin> set (map snd (nc_starts w))"
    using named_okD(4,5) [OF assms] by fastforce+
  ultimately show ?thesis unfolding under_way_def add_is_0 count_list_0_iff by blast
qed

lemma create_ok:
  assumes "named_ok gai w"
  shows "named_ok gai (client_onConnect (length (nc_clients w)) (EventLoopGroup_creatTcpClient (Some l) host service w))"
    (is "named_ok gai ?w")
proof -
  let ?n = "length (nc_clients w)"
  note ok = named_okD [OF assms]
  have w: "nc_clients ?w = nc_clients w @ [TcpClient_onConnect True (TcpClient_new False False)]"
    "nc_names ?w = nc_names w @ [(host, service)]" "nc_held ?w = nc_held w @ [True]" "nc_answers ?w = nc_answers w"
    "nc_starts ?w = nc_starts w"
    "bq_queue (rt_requests (nc_resolver ?w)) = bq_queue (rt_requests (nc_resolver w)) @ [(host, service, Some l, Some ?n)]"
    by (simp_all add: client_onConnect_def EventLoopGroup_creatTcpClient_def Resolver_async_resolve_def ResolverThread_resolve_def)
  have old: "found gai ?w i = found gai w i" "nc_clients ?w ! i = nc_clients w ! i" "nc_held ?w ! i = nc_held w ! i"
    "under_way ?w i = under_way w i" if "i < ?n" for i
    using that ok(1,2) by (simp_all add: w found_def nth_append under_way_def)
  have "under_way ?w ?n = 1" using under_way_new [OF assms] by (simp add: w under_way_def)
  moreover have "fresh (nc_clients ?w ! ?n)" by (simp add: w fresh_def TcpClient_onConnect_def TcpClient_new_def)
  ultimately have "phase gai ?w ?n" by (simp add: phase_def)
  then have "phase gai ?w i" if "i < Suc ?n" for i
    using that ok(6) old by (cases "i = ?n") (auto simp: phase_def Let_def)
  moreover have "request_ok ?w r" if r: "r \<in> set (bq_queue (rt_requests (nc_resolver ?w)))" for r
  proof (cases "r = (host, service, Some l, Some ?n)")
    case True
    then show ?thesis using ok(1) by (simp add: w nth_append)
  next
    case False
    then have "request_ok w r" using r ok(3) by (simp add: w)
    then show ?thesis by (rule request_ok_mono) (use ok(1) in \<open>simp_all add: w nth_append\<close>)
  qed
  moreover have "\<forall>(l, eps, i) \<in> set (nc_answers ?w). i < length (nc_clients ?w) \<and> eps = found gai ?w i"
    using ok(4) old(1) by (fastforce simp: w(1,4))
  moreover have "\<forall>(l, i) \<in> set (nc_starts ?w). i < length (nc_clients ?w) \<and> found gai ?w i \<noteq> []
      \<and> cl_loop (nc_clients ?w ! i) \<and> cl_socket (nc_clients ?w ! i)"
    using ok(5) old(1,2) by (fastforce simp: w(1,5) nth_append)
  ultimately show ?thesis using ok(1,2) by (simp add: named_ok_def w(1-3))
qed

lemma drop_ok:
  assumes "named_ok gai w"
  shows "named_ok gai (w\<lparr>nc_held := (nc_held w)[i := False]\<rparr>)" (is "named_ok gai ?w")
proof -
  note ok = named_okD [OF assms]
  have same: "found gai ?w = found gai w" "under_way ?w = under_way w" by (simp_all add: fun_eq_iff found_def under_way_def)
  have "phase gai ?w j" if "j < length (nc_clients w)" for j
    using ok(6) [OF that] ok(2) that same by (cases "i = j") (auto simp: phase_def Let_def)
  moreover have "request_ok ?w r \<longleftrightarrow> request_ok w r" for r by (cases r) simp
  ultimately show ?thesis using assms same by (simp add: named_ok_def)
qed

text \<open>What only the requests, the answers and the starts of a client make of its phase.\<close>

lemma phase_cong:
  assumes "nc_clients w' ! i = nc_clients w ! i" "nc_names w' = nc_names w" "nc_held w' = nc_held w" "under_way w' i = under_way w i"
  shows "phase gai w' i = phase gai w i"
  using assms by (simp add: phase_def found_def Let_def)

lemma resolver_ok:
  assumes "named_ok gai w"
  shows "\<exists>w'. resolver_works gai w = Inr w' \<and> named_ok gai w'"
proof -
  let ?rt = "nc_resolver w"
  note ok = named_okD [OF assms]
  have idle: "named_ok gai (w\<lparr>nc_resolver := ?rt\<lparr>rt_pc := pc\<rparr>\<rparr>)" for pc
  proof -
    have "request_ok (w\<lparr>nc_resolver := ?rt\<lparr>rt_pc := pc\<rparr>\<rparr>) r \<longleftrightarrow> request_ok w r" for r by (cases r) simp
    moreover have "phase gai (w\<lparr>nc_resolver := ?rt\<lparr>rt_pc := pc\<rparr>\<rparr>) i = phase gai w i" for i
      by (rule phase_cong) (simp_all add: under_way_def)
    ultimately show ?thesis using assms by (simp add: named_ok_def found_def)
  qed
  show ?thesis
  proof (cases "rt_pc ?rt = Popping \<and> bq_queue (rt_requests ?rt) \<noteq> []")
    case False
    then consider "ResolverThread_step gai ?rt = Inr ?rt" | pc where "ResolverThread_step gai ?rt = Inr (?rt\<lparr>rt_pc := pc\<rparr>)"
      by (cases "rt_pc ?rt") (auto simp: ResolverThread_step_def bq_defs)
    then show ?thesis using assms idle by cases (auto simp: resolver_works_def)
  next
    case True
    then obtain host service here h q where q: "bq_queue (rt_requests ?rt) = (host, service, here, h) # q"
      by (metis list.exhaust prod_cases4)
    then have r: "request_ok w (host, service, here, h)" by (metis ok(3) list.set_intros(1))
    obtain as where as: "ResolverThread_answer gai (host, service, here, h) = Inr as"
      "as = (case h of None \<Rightarrow> [] | Some i \<Rightarrow> [(the here, found gai w i, i)])"
      using r by (cases h; cases here) (auto simp: ResolverThread_answer_def found_def)
    let ?w = "w\<lparr>nc_resolver := ?rt\<lparr>rt_requests := (rt_requests ?rt)\<lparr>bq_queue := q\<rparr>, rt_pc := Testing,
      rt_posted := rt_posted ?rt @ as\<rparr>, nc_answers := nc_answers w @ as\<rparr>"
    have "resolver_works gai w = Inr ?w"
      using True q as(1) by (simp add: resolver_works_def ResolverThread_step_def bq_defs)
    moreover have "under_way ?w i = under_way w i" for i
      using q as(2) by (auto simp: under_way_def split: option.splits)
    then have "phase gai ?w i = phase gai w i" for i by (intro phase_cong) simp_all
    moreover have "request_ok ?w r \<longleftrightarrow> request_ok w r" for r by (cases r) simp
    moreover have "found gai ?w = found gai w" by (simp add: fun_eq_iff found_def)
    ultimately show ?thesis
      using assms q r as(2) by (auto simp: named_ok_def split: option.splits)
  qed
qed

text \<open>One client moves on; the others are as they were.\<close>

lemma client_moves:
  fixes w :: named_clients
  assumes ok: "named_ok gai w" and i: "i < length (nc_clients w)"
    and w': "w' = w\<lparr>nc_answers := as, nc_starts := ss, nc_clients := (nc_clients w)[i := t]\<rparr>"
    and less: "set as \<subseteq> set (nc_answers w)" "\<And>l j. (l, j) \<in> set ss \<Longrightarrow> j \<noteq> i \<Longrightarrow> (l, j) \<in> set (nc_starts w)"
    and others: "\<And>j. j \<noteq> i \<Longrightarrow> under_way w' j = under_way w j"
    and started: "\<And>l. (l, i) \<in> set ss \<Longrightarrow> found gai w i \<noteq> [] \<and> cl_loop t \<and> cl_socket t"
    and phase: "phase gai w' i"
  shows "named_ok gai w'"
proof -
  note okD = named_okD [OF ok]
  have same: "found gai w' = found gai w" "length (nc_clients w') = length (nc_clients w)" "nc_names w' = nc_names w"
    "nc_held w' = nc_held w" "nc_resolver w' = nc_resolver w"
    by (simp_all add: w' fun_eq_iff found_def)
  have "phase gai w' j" if "j < length (nc_clients w)" for j
  proof (cases "j = i")
    case False
    then have "phase gai w' j = phase gai w j" by (intro phase_cong) (simp_all add: others, simp_all add: w')
    with okD(6) [OF that] show ?thesis by simp
  qed (use phase in simp)
  moreover have "request_ok w' r" if "r \<in> set (bq_queue (rt_requests (nc_resolver w)))" for r
    using okD(3) [OF that] by (rule request_ok_mono) (simp_all add: same)
  moreover have "i' < length (nc_clients w) \<and> eps = found gai w i'" if "(l, eps, i') \<in> set (nc_answers w')" for l eps i'
    using that less(1) okD(4) [of l eps i'] by (auto simp: w')
  moreover have "j < length (nc_clients w) \<and> found gai w j \<noteq> [] \<and> cl_loop (nc_clients w' ! j) \<and> cl_socket (nc_clients w' ! j)"
    if "(l, j) \<in> set (nc_starts w')" for l j
  proof (cases "j = i")
    case True
    with that started [of l] i show ?thesis by (simp add: w')
  next
    case False
    with that less(2) [of l j] okD(5) [of l j] show ?thesis by (simp add: w')
  qed
  ultimately show ?thesis using okD(1,2) unfolding named_ok_def same by blast
qed

lemma agrees_socket:
  assumes "agrees k" "EventLoopGroup_new n = Inr g" "0 \<le> n"
  shows "\<exists>s s' l. Socket_of_endpoint (k_socket k) ep False = Inr s \<and> Socket_connect k s = Inr s'
    \<and> EventLoopGroup_robinLoop1 (sock_fd s') g = Inr l"
proof -
  obtain fd where k: "k_socket k = Inr fd" "0 \<le> fd" "k_fcntl k fd = Inr ()"
    "k_connect k fd ep = Inr () \<or> k_connect k fd ep = Inl EINPROGRESS"
    using assms(1) unfolding agrees_def by blast
  let ?s = "\<lparr>isUdp = False, sock_fd = fd, sock_fp = True, sock_ep = ep\<rparr>"
  have "Socket_of_endpoint (k_socket k) ep False = Inr ?s" using socket_of_endpoint_ok [OF k(2)] k(1) by simp
  moreover have "Socket_connect k ?s = Inr ?s"
    using k by (auto simp: Socket_connect_def Socket_setNoblock_def)
  moreover have "\<exists>l. EventLoopGroup_robinLoop1 (sock_fd ?s) g = Inr l"
    using EventLoopGroup_robin [OF assms(3,2) k(2)] by (cases "n = 0") simp_all
  ultimately show ?thesis by blast
qed

text \<open>What an answer makes of a client that is not started yet.\<close>

definition answered :: "endpoint list \<Rightarrow> bool \<Rightarrow> (tcp_client \<times> nat option) option \<Rightarrow> bool" where
  "answered eps held r \<longleftrightarrow>
     (case r of
        None \<Rightarrow> eps = [] \<or> \<not> held
      | Some (t, None) \<Rightarrow> eps \<noteq> [] \<and> connecting t
      | Some (t, Some l) \<Rightarrow> eps \<noteq> [] \<and> fresh t \<and> cl_loop t \<and> cl_socket t)"

lemma connect_answered:
  assumes "agrees k" "EventLoopGroup_new n = Inr g" "0 \<le> n" "fresh t"
  shows "\<exists>r. EventLoopGroup_connectTcpClient k g l eps (if held then Some t else None) = Inr r \<and> answered eps held r"
proof (cases "held \<and> eps \<noteq> []")
  case False
  then show ?thesis by (auto simp: EventLoopGroup_connectTcpClient_def answered_def split: list.splits)
next
  case True
  then obtain ep rest where eps: "eps = ep # rest" by (cases eps) auto
  obtain s s' m where s: "Socket_of_endpoint (k_socket k) ep False = Inr s" "Socket_connect k s = Inr s'"
    "EventLoopGroup_robinLoop1 (sock_fd s') g = Inr m"
    using agrees_socket [OF assms(1-3), of ep] by blast
  let ?t = "TcpClient_setSocket (TcpClient_setEventLoop t)"
  have t: "fresh ?t" "cl_loop ?t" "cl_socket ?t"
    using assms(4) by (simp_all add: fresh_def TcpClient_setSocket_def TcpClient_setEventLoop_def)
  obtain t' where "TcpClient_start ?t = Inr t'" "connecting t'" using fresh_starts [OF t] by blast
  with True eps s t show ?thesis
    by (cases "m = l") (simp_all add: EventLoopGroup_connectTcpClient_def answered_def)
qed

lemma not_under_way:
  assumes "count_list (map snd ss) i = 0"
  shows "(m, i) \<notin> set ss"
  using assms unfolding count_list_0_iff by force

definition new_start :: "(tcp_client \<times> nat option) option \<Rightarrow> nat \<Rightarrow> (nat \<times> nat) list" where
  "new_start r i = (case r of Some (_, Some l) \<Rightarrow> [(l, i)] | _ \<Rightarrow> [])"

lemma answer_moves:
  assumes "named_ok gai w" "nc_answers w = as1 @ (l, eps, i) # as2" "answered eps (nc_held w ! i) r"
  shows "named_ok gai (w\<lparr>nc_answers := as1 @ as2, nc_starts := nc_starts w @ new_start r i,
    nc_clients := (nc_clients w)[i := (case r of None \<Rightarrow> nc_clients w ! i | Some (t, _) \<Rightarrow> t)]\<rparr>)" (is "named_ok gai ?w")
proof -
  have i: "i < length (nc_clients w)" "found gai w i = eps" using named_okD(4) [OF assms(1), of l eps i] assms(2) by auto
  have "under_way w i \<noteq> 0" by (simp add: under_way_def assms(2))
  with named_okD(6) [OF assms(1) i(1)] have p: "under_way w i = 1" "fresh (nc_clients w ! i)" by (auto simp: phase_def Let_def)
  have way: "under_way ?w j = (if j = i then 0 else under_way w j) + count_list (map snd (new_start r i)) j" for j
    using p(1) assms(2) by (auto simp: under_way_def)
  have none: "(m, i) \<notin> set (nc_starts w)" for m
    using p(1) assms(2) by (intro not_under_way) (simp add: under_way_def)
  have same: "found gai ?w i = eps" "nc_held ?w = nc_held w" using i(2) by (simp_all add: found_def)
  have "phase gai ?w i"
    using assms(3) p(2) i(1) unfolding phase_def Let_def way same
    by (auto simp: answered_def new_start_def split: option.splits)
  moreover have "found gai w i \<noteq> [] \<and> cl_loop t \<and> cl_socket t"
    if "(m, i) \<in> set (nc_starts w @ new_start r i)" "t = (case r of None \<Rightarrow> nc_clients w ! i | Some (t, _) \<Rightarrow> t)" for m t
    using that none [of m] assms(3) i(2) by (auto simp: answered_def new_start_def split: option.splits)
  moreover have "under_way ?w j = under_way w j" if "j \<noteq> i" for j
    using way [of j] that by (simp add: new_start_def split: option.splits)
  ultimately show ?thesis
    using assms(2) by (intro client_moves [OF assms(1) i(1) refl]) (auto simp: new_start_def split: option.splits)
qed

lemma answer_ok:
  assumes "named_ok gai w" "agrees k" "EventLoopGroup_new n = Inr g" "0 \<le> n"
  shows "\<exists>w'. loop_answers k g l w = Inr w' \<and> named_ok gai w'"
proof (cases "List.extract (\<lambda>a. fst a = l) (nc_answers w)")
  case None
  with assms(1) show ?thesis by (simp add: loop_answers_def)
next
  case (Some x)
  obtain as1 l' eps i as2 where x: "x = (as1, (l', eps, i), as2)" by (cases x) auto
  with Some have split: "nc_answers w = as1 @ (l', eps, i) # as2" by (simp add: extract_Some_iff)
  then have i: "i < length (nc_clients w)" using named_okD(4) [OF assms(1), of l' eps i] by auto
  have "under_way w i \<noteq> 0" by (simp add: under_way_def split)
  with named_okD(6) [OF assms(1) i] have "fresh (nc_clients w ! i)" by (auto simp: phase_def Let_def)
  from connect_answered [OF assms(2-4) this, of l eps "nc_held w ! i"] obtain r where
    r: "EventLoopGroup_connectTcpClient k g l eps (if nc_held w ! i then Some (nc_clients w ! i) else None) = Inr r"
      "answered eps (nc_held w ! i) r" by blast
  have "loop_answers k g l w = Inr (w\<lparr>nc_answers := as1 @ as2, nc_starts := nc_starts w @ new_start r i,
      nc_clients := (nc_clients w)[i := (case r of None \<Rightarrow> nc_clients w ! i | Some (t, _) \<Rightarrow> t)]\<rparr>)"
    using r(1) by (cases r) (auto simp: loop_answers_def Some x Let_def new_start_def split: option.splits)
  with answer_moves [OF assms(1) split r(2)] show ?thesis by blast
qed

lemma start_ok:
  assumes "named_ok gai w"
  shows "\<exists>w'. loop_starts l w = Inr w' \<and> named_ok gai w'"
proof (cases "List.extract (\<lambda>s. fst s = l) (nc_starts w)")
  case None
  with assms show ?thesis by (simp add: loop_starts_def)
next
  case (Some x)
  obtain ss1 l' i ss2 where x: "x = (ss1, (l', i), ss2)" by (cases x) auto
  with Some have split: "nc_starts w = ss1 @ (l', i) # ss2" by (simp add: extract_Some_iff)
  let ?t = "nc_clients w ! i"
  have i: "i < length (nc_clients w)" "found gai w i \<noteq> []" "cl_loop ?t" "cl_socket ?t"
    using named_okD(5) [OF assms, of l' i] split by auto
  have "under_way w i \<noteq> 0" by (simp add: under_way_def split)
  with named_okD(6) [OF assms i(1)] have p: "under_way w i = 1" "fresh ?t" by (auto simp: phase_def Let_def)
  obtain t where t: "TcpClient_start ?t = Inr t" "connecting t" using fresh_starts [OF p(2) i(3,4)] by blast
  let ?w = "w\<lparr>nc_starts := ss1 @ ss2, nc_clients := (nc_clients w)[i := t]\<rparr>"
  have way: "under_way ?w j = (if j = i then 0 else under_way w j)" for j
    using p(1) by (auto simp: under_way_def split)
  have gone: "(m, i) \<notin> set (ss1 @ ss2)" for m
    using way [of i] by (intro not_under_way) (simp add: under_way_def)
  have "loop_starts l w = Inr ?w" by (simp add: loop_starts_def Some x t(1))
  moreover have "phase gai ?w i" using t(2) i way [of i] by (simp add: phase_def found_def Let_def)
  then have "named_ok gai ?w"
    using way gone split by (intro client_moves [OF assms i(1), where as = "nc_answers w"]) auto
  ultimately show ?thesis by blast
qed

lemma fire_ok:
  assumes "named_ok gai w" "i < length (nc_clients w)"
  shows "\<exists>t. client_round e (nc_clients w ! i) = Inr t \<and> named_ok gai (w\<lparr>nc_clients := (nc_clients w)[i := t]\<rparr>)"
proof -
  let ?t = "nc_clients w ! i"
  note p = named_okD(6) [OF assms(1,2), unfolded phase_def Let_def]
  then consider (conn) "connecting ?t" "under_way w i = 0" "found gai w i \<noteq> []" | (fresh) "fresh ?t" | (told) "told ?t" by auto
  then show ?thesis
  proof cases
    case conn
    obtain t where t: "client_round e ?t = Inr t" "told t" using connecting_round [OF conn(1)] by blast
    let ?w = "w\<lparr>nc_clients := (nc_clients w)[i := t]\<rparr>"
    have way: "under_way ?w = under_way w" by (simp add: fun_eq_iff under_way_def)
    have gone: "(m, i) \<notin> set (nc_starts w)" for m
      using conn(2) by (intro not_under_way) (simp add: under_way_def)
    have "phase gai ?w i" using t(2) conn assms(2) way by (simp add: phase_def found_def Let_def)
    then have "named_ok gai ?w"
      using way gone by (intro client_moves [OF assms, where as = "nc_answers w" and ss = "nc_starts w"]) auto
    with t(1) show ?thesis by blast
  qed (use assms fresh_round told_round in auto)
qed

lemma named_step_ok:
  assumes "named_ok gai w" "named_event_ok e" "EventLoopGroup_new n = Inr g" "0 \<le> n"
  shows "\<exists>w'. named_step gai g e w = Inr w' \<and> named_ok gai w'"
proof (cases e)
  case (Create here host service)
  with assms(2) create_ok [OF assms(1)] show ?thesis by auto
next
  case (Drop i)
  with drop_ok [OF assms(1)] show ?thesis by simp
next
  case Resolves
  with resolver_ok [OF assms(1)] show ?thesis by simp
next
  case Ends
  let ?w = "w\<lparr>nc_resolver := ResolverThread_stop (nc_resolver w)\<rparr>"
  have q: "bq_queue (rt_requests (ResolverThread_stop (nc_resolver w))) = bq_queue (rt_requests (nc_resolver w)) @ [([], [], None, None)]"
    by (simp add: ResolverThread_stop_def ResolverThread_resolve_def)
  have "phase gai ?w i = phase gai w i" for i by (rule phase_cong) (simp_all add: under_way_def q)
  moreover have "request_ok ?w r" if "r \<in> set (bq_queue (rt_requests (nc_resolver ?w)))" for r
  proof (cases "r = ([], [], None, None)")
    case False
    with that have "request_ok w r" using named_okD(3) [OF assms(1)] by (simp add: q)
    then show ?thesis by (rule request_ok_mono) simp_all
  qed simp
  ultimately have "named_ok gai ?w" using assms(1) by (simp add: named_ok_def found_def)
  with Ends show ?thesis by simp
next
  case (Answers k l)
  with answer_ok [OF assms(1) _ assms(3,4)] assms(2) show ?thesis by simp
next
  case (Starts l)
  with start_ok [OF assms(1)] show ?thesis by simp
next
  case (Fires i x)
  with fire_ok [OF assms(1), of i x] assms(1) show ?thesis by auto
qed

lemma named_run_ok:
  "named_ok gai w \<Longrightarrow> \<forall>e \<in> set es. named_event_ok e \<Longrightarrow> EventLoopGroup_new n = Inr g \<Longrightarrow> 0 \<le> n \<Longrightarrow>
     \<exists>w'. named_run gai g es w = Inr w' \<and> named_ok gai w'"
proof (induction es arbitrary: w)
  case (Cons e es)
  then obtain w1 where "named_step gai g e w = Inr w1" "named_ok gai w1" using named_step_ok [of gai w e n g] by auto
  with Cons.IH [of w1] Cons.prems(2-4) show ?case by simp
qed simp

section \<open>Properties\<close>


definition naming :: "named_event list" where
  "naming = [Create (Some 0) ''localhost'' ''8080'', Create (Some 0) ''nowhere'' ''80'', Resolves, Resolves, Answers willing 0,
     Resolves, Resolves, Starts 2, Answers willing 0, Fires 0 Writable]"


text \<open>
  The other ways to end: a client asked for on a thread without a loop makes the resolver's thread follow a
  null pointer, and a connection refused at once throws out of the loop that connects.
\<close>

theorem named_clients_faults:
  "named_run gai g [Create None host service, Resolves, Resolves] named_clients_new = Inl Null_deref"
  "Resolver_resolve gai host service = ep # eps \<Longrightarrow> k_socket k = Inr fd \<Longrightarrow> 0 \<le> fd \<Longrightarrow> k_fcntl k fd = Inr () \<Longrightarrow>
     k_connect k fd ep = Inl e \<Longrightarrow> e \<noteq> EINPROGRESS \<Longrightarrow>
     named_run gai g [Create (Some l) host service, Resolves, Resolves, Answers k l] named_clients_new = Inl (Thrown (strerror e))"
proof -
  note steps = named_clients_new_def client_onConnect_def EventLoopGroup_creatTcpClient_def Resolver_async_resolve_def
    ResolverThread_resolve_def ResolverThread_new_def BlockingQueue_new_def resolver_works_def ResolverThread_step_def bq_defs
    ResolverThread_answer_def loop_answers_def List.extract_def
  show "named_run gai g [Create None host service, Resolves, Resolves] named_clients_new = Inl Null_deref"
    by (simp add: steps)
  assume a: "Resolver_resolve gai host service = ep # eps" "k_socket k = Inr fd" "0 \<le> fd" "k_fcntl k fd = Inr ()"
    "k_connect k fd ep = Inl e" "e \<noteq> EINPROGRESS"
  have "EventLoopGroup_connectTcpClient k g l (ep # eps) (Some t) = Inl (Thrown (strerror e))" for t
    using EventLoopGroup_creation_errors [where k = k and g = g and here = l and t = t and fd = fd and e = e and ep = ep] a by blast
  then show "named_run gai g [Create (Some l) host service, Resolves, Resolves, Answers k l] named_clients_new = Inl (Thrown (strerror e))"
    using a(1) by (simp add: steps)
qed

end
