(* ===== verification/Http_Programs.thy ===== *)
theory Http_Programs
  imports Http_Streams Loop_Groups
begin

text \<open>
  The file server from its name to its files: \<^verbatim>\<open>HttpServer\<close> on a \<^verbatim>\<open>TcpServer\<close>
  (\<^verbatim>\<open>src/src/http/HttpServer.cpp\<close>), as \<^verbatim>\<open>src/examples/httpd.cpp\<close> makes it, the connections it accepts, and
  the requests that follow one another on a connection.
\<close>

section \<open>The program\<close>

text \<open>The constructor, given \<^verbatim>\<open>nullptr\<close> when no server could be made. It starts the server once more.\<close>

definition HttpServer_new :: "tcp_server option \<Rightarrow> tcp_server res" where
  "HttpServer_new server =
     (case server of
        None \<Rightarrow> Inl Null_deref
      | Some srv \<Rightarrow> TcpServer_start (TcpServer_onErro True (TcpServer_onAccept True (TcpServer_onRead True srv))))"

definition httpd_root :: string where
  "httpd_root = ''/home/ccsexyz''"

definition httpd_main :: "getaddrinfo \<Rightarrow> kernel \<Rightarrow> tcp_server created res" where
  "httpd_main gai k =
     bind_res (EventLoopGroup_creatTcpServer gai k ''localhost'' ''8080'') (\<lambda>r.
     case r of
       Exited msg \<Rightarrow> Inr (Exited msg)
     | Unavailable \<Rightarrow> bind_res (HttpServer_new None) (\<lambda>srv. Inr (Created srv))
     | Created srv \<Rightarrow> bind_res (HttpServer_new (Some srv)) (\<lambda>srv. Inr (Created srv)))"

text \<open>
  An accepted connection. It gets the read callback that the server had when it was accepted; the rest runs
  later on its loop, and asks the server, as it is then, for the accept callback, which makes the context.
\<close>

definition HttpServer_handleAcceptEvent :: "tcp_server \<Rightarrow> tcp_server \<Rightarrow> (http_context option \<times> http_handler conn) res" where
  "HttpServer_handleAcceptEvent before srv =
     bind_res (accepted_with (srv_readcb before)) (\<lambda>c.
     Inr (if srv_acceptcb srv then Some HttpContext_new else None, c))"

definition HttpServer_handleReadEvent ::
    "string \<Rightarrow> (string \<Rightarrow> nat option) \<Rightarrow> (nat \<Rightarrow> int answer) \<Rightarrow> string list \<Rightarrow> http_context option \<Rightarrow>
     http_handler conn \<Rightarrow> (http_context option \<times> http_handler conn) res option" where
  "HttpServer_handleReadEvent root open_file fstat keys x c =
     (case x of
        None \<Rightarrow> Some (Inl Assertion)
      | Some x \<Rightarrow> bind_run (http_server_loop root open_file fstat keys x c) (\<lambda>(x, c). Some (Inr (Some x, c))))"

text \<open>Read events with the pieces of a request, and then one write event; and so on.\<close>

fun http_session ::
    "string \<Rightarrow> (string \<Rightarrow> nat option) \<Rightarrow> (nat \<Rightarrow> int answer) \<Rightarrow> string list \<Rightarrow>
     (string list \<times> write_answer list) list \<Rightarrow> http_context \<Rightarrow> http_handler conn \<Rightarrow>
     (http_context \<times> http_handler conn) res option" where
  "http_session root open_file fstat keys [] x c = Some (Inr (x, c))"
| "http_session root open_file fstat keys ((ps, as) # es) x c =
     bind_run (http_reads root open_file fstat keys ps x c) (\<lambda>(x, c).
     bind_run (http_write x as c) (\<lambda>c.
     http_session root open_file fstat keys es x c))"

text \<open>A request that can be served, in pieces that end at the end of a line; there is room for each write of \<open>r\<close> bytes.\<close>

definition arrives :: "string \<Rightarrow> (string \<Rightarrow> nat option) \<Rightarrow> (nat \<Rightarrow> int answer) \<Rightarrow> string list \<Rightarrow> int \<Rightarrow> wanted \<times> string list \<Rightarrow> bool" where
  "arrives root open_file fstat keys r wp \<longleftrightarrow> (case wp of ((hkeys, q, s, f, n), ps) \<Rightarrow>
     wanted_ok root open_file fstat (hkeys, q, s, f, n) \<and> CHR 0x0A \<notin> set (req_uri q) \<and> CHR 0x0A \<notin> set (req_query q)
     \<and> concat ps = s \<and> (\<forall>p \<in> set ps. p \<noteq> [] \<and> last p = CHR 0x0A \<and> length p \<le> 16384)
     \<and> n \<le> r \<and> int (length (response_text keys n (req_uri q))) \<le> r)"

definition answer_bytes :: "string list \<Rightarrow> wanted \<times> string list \<Rightarrow> item list" where
  "answer_bytes keys wp = map (Byte \<circ> Some) (head_text keys (fst wp)) @ file_bytes (fst wp)"

section \<open>One request after the other\<close>

lemma session_step:
  assumes "arrives root open_file fstat keys r wp" "reading c" "cleared x" "keep_alive x"
  shows "\<exists>x' c'. http_session root open_file fstat keys ((snd wp, [Room r, Room r]) # es) x c
      = http_session root open_file fstat keys es x' c'
    \<and> wire c' = wire c @ answer_bytes keys wp \<and> keep_alive x' = keeps (fst wp)
    \<and> (if keeps (fst wp) then reading c' \<and> cleared x' else destroyed c')"
proof -
  obtain hkeys q s f n ps where wp: "wp = ((hkeys, q, s, f, n), ps)" by (cases wp) auto
  obtain p0 where p0: "requestParser x = RequestParser_clear p0" using assms(3) by (auto simp: cleared_def)
  have w: "printable hkeys q" "Request_toString hkeys q = Inr s" "buffer_text (req_body q) = Inr []"
    "CHR 0x0A \<notin> set (req_uri q)" "CHR 0x0A \<notin> set (req_query q)" "concat ps = s"
    "\<forall>p \<in> set ps. p \<noteq> [] \<and> last p = CHR 0x0A \<and> length p \<le> 16384"
    "root @ req_uri q \<noteq> []" "open_file (root @ req_uri q) = Some f" "fstat f = Inr n" "0 < n" "n \<le> r"
    "int (length (response_text keys n (req_uri q))) \<le> r"
    using assms(1) by (simp_all add: arrives_def wanted_ok_def wp)
  obtain x' c1 c2 where r: "http_reads root open_file fstat keys ps x c = Some (Inr (x', c1))"
    "keep_alive x' = (keep_alive x \<and> req_headers q ''Connection'' = Some ''keep-alive'')"
    "req_headers q ''Connection'' = Some ''keep-alive'' \<longrightarrow> cleared x'"
    "http_write x' [Room r, Room r] c1 = Some (Inr c2)" "if keep_alive x' then reading c2 else destroyed c2"
    "wire c2 = wire c @ map (Byte \<circ> Some) (response_text keys n (req_uri q)) @ file_items f 0 (nat n)"
    using HttpServer_serves_pieces [where x = x and c = c and keys = keys and root = root and open_file = open_file
      and fstat = fstat and f = f and n = n and q = q, OF w(1-7) assms(2) p0 w(8-13)] by blast
  then show ?thesis
    using assms(4) by (intro exI [of _ x'] exI [of _ c2])
      (simp add: wp answer_bytes_def head_text_def file_bytes_def keeps_def)
qed

lemma session_ok:
  "\<forall>wp \<in> set rs. arrives root open_file fstat keys r wp \<Longrightarrow> \<forall>wp \<in> set (butlast rs). keeps (fst wp) \<Longrightarrow>
     reading c \<Longrightarrow> cleared x \<Longrightarrow> keep_alive x \<Longrightarrow>
     \<exists>x' c'. http_session root open_file fstat keys (map (\<lambda>wp. (snd wp, [Room r, Room r])) rs) x c = Some (Inr (x', c'))
       \<and> wire c' = wire c @ concat (map (answer_bytes keys) rs)
       \<and> (if \<forall>wp \<in> set rs. keeps (fst wp) then reading c' else destroyed c')"
proof (induction rs arbitrary: x c)
  case Nil
  then show ?case by simp
next
  case (Cons wp rs)
  obtain x1 c1 where s: "http_session root open_file fstat keys (map (\<lambda>wp. (snd wp, [Room r, Room r])) (wp # rs)) x c
      = http_session root open_file fstat keys (map (\<lambda>wp. (snd wp, [Room r, Room r])) rs) x1 c1"
    "wire c1 = wire c @ answer_bytes keys wp" "keep_alive x1 = keeps (fst wp)"
    "if keeps (fst wp) then reading c1 \<and> cleared x1 else destroyed c1"
  proof -
    have "arrives root open_file fstat keys r wp" using Cons.prems(1) by simp
    from session_step [OF this Cons.prems(3-5), of "map (\<lambda>wp. (snd wp, [Room r, Room r])) rs"] that show thesis by auto
  qed
  show ?case
  proof (cases "rs = []")
    case True
    with s show ?thesis by simp
  next
    case False
    then have "keeps (fst wp)" "\<forall>wp \<in> set (butlast rs). keeps (fst wp)" using Cons.prems(2) by simp_all
    with Cons.IH [of c1 x1] Cons.prems(1) s show ?thesis by simp
  qed
qed

text \<open>The server that is made, and what it does with the first two answers of \<^verbatim>\<open>accept\<close>.\<close>

definition names_httpd :: "getaddrinfo \<Rightarrow> kernel \<Rightarrow> int \<Rightarrow> bool" where
  "names_httpd gai k fd \<longleftrightarrow> (\<exists>a as. gai ''localhost'' ''8080'' = Some (a # as) \<and> k_socket k = Inr fd \<and> 0 \<le> fd
     \<and> k_fcntl k fd = Inr () \<and> k_setsockopt k fd = Inr () \<and> k_bind k fd (Endpoint_of_addrinfo a) = Inr ()
     \<and> k_listen k fd = Inr ())"

lemma httpd_made:
  assumes "names_httpd gai k fd"
  shows "\<exists>srv s. httpd_main gai k = Inr (Created srv) \<and> srv_acceptcb srv \<and> srv_readcb srv \<and> accepted srv = []
    \<and> listenfd srv = fd \<and> srv_socket srv = Some s \<and> sock_fd s = fd"
proof -
  obtain a as where k: "gai ''localhost'' ''8080'' = Some (a # as)" "k_socket k = Inr fd" "0 \<le> fd"
    "k_fcntl k fd = Inr ()" "k_setsockopt k fd = Inr ()" "k_bind k fd (Endpoint_of_addrinfo a) = Inr ()" "k_listen k fd = Inr ()"
    using assms by (auto simp: names_httpd_def)
  define s where "s = \<lparr>isUdp = False, sock_fd = fd, sock_fp = True, sock_ep = Endpoint_of_addrinfo a\<rparr>"
  have "EventLoopGroup_creatTcpServer gai k ''localhost'' ''8080'' =
      Inr (Created (TcpServer_new\<lparr>srv_socket := Some s, listenfd := fd, listening := True\<rparr>))"
    using k listen_ok [OF k(4,5), of s] socket_of_endpoint_ok [OF k(3)]
    by (simp add: EventLoopGroup_creatTcpServer_def Resolver_resolve_def s_def TcpServer_start_def TcpServer_setServerSocket_def)
  then show ?thesis
    by (simp add: httpd_main_def HttpServer_new_def TcpServer_onErro_def TcpServer_onAccept_def TcpServer_onRead_def
        TcpServer_start_def TcpServer_new_def s_def)
qed

lemma accepts_until:
  assumes "group_ok g" "srv_socket srv = Some s" "0 \<le> sock_fd s" "0 \<le> listenfd srv" "answers_ok ans"
    and "\<forall>j < m. ans j \<noteq> Inl EAGAIN" "ans m = Inl EAGAIN"
  shows "TcpServer_handleAcceptEvent g ans srv = Some (Inr (foldl (take_answer g) srv (map ans [0..<m]), m + 1))"
  using accept_loop_steps [OF assms(1,3,5), of m 0 srv] accept_loop_stop [of s ans m g, OF assms(3,7)] assms(2,4,6)
  by (simp add: TcpServer_handleAcceptEvent_def)

lemma accepted_reading: "\<exists>c :: 'h conn. accepted_with rcb = Inr c \<and> reading c \<and> wire c = []"
  by (simp add: accepted_with_def TcpServer_initConnection_def Connection_onRead_def Connection_onErro_def
      Connection_new_def Buffer_alloc_ok Connection_init1_def Connection_enableRead_def reading_def)

lemma HttpContext_cleared: "cleared HttpContext_new" "keep_alive HttpContext_new"
  by (auto simp: cleared_def HttpContext_new_def RequestParser_new_def RequestParser_clear_def intro!: exI [of _ RequestParser_new])

section \<open>Properties\<close>


definition one_client :: "nat \<Rightarrow> (int \<times> endpoint) answer" where
  "one_client i = (if i = 0 then Inr (7, Endpoint 1 10) else Inl EAGAIN)"


text \<open>
  Without a server the constructor follows a null pointer. When an error of \<^verbatim>\<open>accept\<close> follows a connection
  that has just been accepted, the server forgets its callbacks before the accept callback of the
  connection runs: the connection has a read callback but no context, and the first read event fails the
  assertion.
\<close>

theorem httpd_faults:
  "Resolver_resolve gai ''localhost'' ''8080'' = [] \<Longrightarrow> httpd_main gai k = Inl Null_deref"
  "names_httpd gai k lfd \<Longrightarrow> group_ok g \<Longrightarrow> ans 0 = Inr (fd, peer) \<Longrightarrow> ans 1 = Inl e \<Longrightarrow> e \<noteq> EAGAIN \<Longrightarrow> e \<noteq> EINTR \<Longrightarrow>
     ans 2 = Inl EAGAIN \<Longrightarrow> answers_ok ans \<Longrightarrow>
     \<exists>srv srv' c. httpd_main gai k = Inr (Created srv) \<and> TcpServer_handleAcceptEvent g ans srv = Some (Inr (srv', 3))
       \<and> HttpServer_handleAcceptEvent srv srv' = Inr (None, c) \<and> has_readcb c \<and> read_on c
       \<and> HttpServer_handleReadEvent root open_file fstat keys None c = Some (Inl Assertion)"
proof -
  show "httpd_main gai k = Inl Null_deref" if "Resolver_resolve gai ''localhost'' ''8080'' = []"
    using that by (simp add: httpd_main_def EventLoopGroup_creatTcpServer_def HttpServer_new_def)
  assume a: "names_httpd gai k lfd" "group_ok g" "ans 0 = Inr (fd, peer)" "ans 1 = Inl e" "e \<noteq> EAGAIN" "e \<noteq> EINTR"
    "ans 2 = Inl EAGAIN" "answers_ok ans"
  obtain srv s where srv: "httpd_main gai k = Inr (Created srv)" "srv_readcb srv" "listenfd srv = lfd" "srv_socket srv = Some s"
    "sock_fd s = lfd"
    using httpd_made [OF a(1)] by blast
  have lfd: "0 \<le> lfd" using a(1) by (auto simp: names_httpd_def)
  have before: "\<forall>j < 2. ans j \<noteq> Inl EAGAIN" using a(3-5) by (auto simp: less_2_cases_iff)
  let ?srv = "foldl (take_answer g) srv (map ans [0..<2])"
  have "TcpServer_handleAcceptEvent g ans srv = Some (Inr (?srv, 3))"
    using accepts_until [OF a(2) srv(4) _ _ a(8) before a(7)] srv(3,5) lfd by simp
  moreover have "\<not> srv_acceptcb ?srv"
    using a(3,4,6) by (simp add: numeral_2_eq_2 take_answer_def TcpServer_handleErroEvent_def)
  moreover obtain c :: "http_handler conn" where "accepted_with True = Inr c" "has_readcb c" "read_on c"
    by (simp add: accepted_with_def TcpServer_initConnection_def Connection_onRead_def Connection_onErro_def
        Connection_new_def Buffer_alloc_ok Connection_init1_def Connection_enableRead_def)
  ultimately show "\<exists>srv srv' c. httpd_main gai k = Inr (Created srv) \<and> TcpServer_handleAcceptEvent g ans srv = Some (Inr (srv', 3))
       \<and> HttpServer_handleAcceptEvent srv srv' = Inr (None, c) \<and> has_readcb c \<and> read_on c
       \<and> HttpServer_handleReadEvent root open_file fstat keys None c = Some (Inl Assertion)"
    using srv(1,2) by (simp add: HttpServer_handleAcceptEvent_def HttpServer_handleReadEvent_def)
qed

end
