(* ===== verification/Example_Programs.thy ===== *)
theory Example_Programs
  imports Http_Programs
begin

text \<open>
  The \<^verbatim>\<open>main\<close> functions of the TCP servers in \<^verbatim>\<open>src/examples/\<close>, up to the loop: from the arguments and the names
  to servers that listen, with the callbacks that the other theories give them. The \<open>i\<close>th server is made
  with the kernel's answers \<open>k i\<close>.
\<close>

section \<open>Servers and their callbacks\<close>

text \<open>Every program calls a method of the pointer that \<^verbatim>\<open>creatTcpServer\<close> returns.\<close>

definition with_server :: "tcp_server created \<Rightarrow> (tcp_server \<Rightarrow> tcp_server res) \<Rightarrow> tcp_server created res" where
  "with_server r cb =
     (case r of
        Unavailable \<Rightarrow> Inl Null_deref
      | Exited msg \<Rightarrow> Inr (Exited msg)
      | Created srv \<Rightarrow> bind_res (cb srv) (\<lambda>srv. Inr (Created srv)))"

type_synonym server_plan = "string \<times> (tcp_server \<Rightarrow> tcp_server res)"

definition chat_plan :: server_plan where
  "chat_plan = (''9379'', \<lambda>srv. Inr (TcpServer_onRead True (TcpServer_onAccept True srv)))"

definition daytime_plan :: server_plan where
  "daytime_plan = (''9378'', \<lambda>srv. Inr (TcpServer_onAccept True srv))"

definition discard_plan :: server_plan where
  "discard_plan = (''9376'', \<lambda>srv. Inr (TcpServer_onRead True srv))"

definition echo_plan :: server_plan where
  "echo_plan = (''9377'', \<lambda>srv. Inr (TcpServer_onRead True srv))"

text \<open>The servers of one program, made one after the other.\<close>

fun make_servers :: "getaddrinfo \<Rightarrow> (nat \<Rightarrow> kernel) \<Rightarrow> nat \<Rightarrow> server_plan list \<Rightarrow> tcp_server list created res" where
  "make_servers gai k i [] = Inr (Created [])"
| "make_servers gai k i ((service, cb) # ps) =
     bind_res (EventLoopGroup_creatTcpServer gai (k i) ''localhost'' service) (\<lambda>r.
     bind_res (with_server r cb) (\<lambda>r.
     case r of
       Created srv \<Rightarrow>
         bind_res (make_servers gai k (i + 1) ps) (\<lambda>rs.
         case rs of Created srvs \<Rightarrow> Inr (Created (srv # srvs)) | Exited msg \<Rightarrow> Inr (Exited msg) | Unavailable \<Rightarrow> Inr Unavailable)
     | Exited msg \<Rightarrow> Inr (Exited msg)
     | Unavailable \<Rightarrow> Inr Unavailable))"

definition chat_main :: "getaddrinfo \<Rightarrow> (nat \<Rightarrow> kernel) \<Rightarrow> tcp_server list created res" where
  "chat_main gai k = make_servers gai k 0 [chat_plan]"

definition daytime_main :: "getaddrinfo \<Rightarrow> (nat \<Rightarrow> kernel) \<Rightarrow> tcp_server list created res" where
  "daytime_main gai k = make_servers gai k 0 [daytime_plan]"

definition discard_main :: "getaddrinfo \<Rightarrow> (nat \<Rightarrow> kernel) \<Rightarrow> tcp_server list created res" where
  "discard_main gai k = make_servers gai k 0 [discard_plan]"

definition echo_main :: "getaddrinfo \<Rightarrow> (nat \<Rightarrow> kernel) \<Rightarrow> tcp_server list created res" where
  "echo_main gai k = make_servers gai k 0 [echo_plan]"

definition all_main :: "getaddrinfo \<Rightarrow> (nat \<Rightarrow> kernel) \<Rightarrow> tcp_server list created res" where
  "all_main gai k = make_servers gai k 0 [chat_plan, daytime_plan, discard_plan, echo_plan]"

text \<open>
  The relay and the proxy take their port from the arguments. Their exceptions are messages that \<^verbatim>\<open>main\<close>
  catches and prints; here those of the arguments and of the server. The relay starts its server again.
\<close>

datatype program_end = Printed string | Quit string | Serving "tcp_server list"

definition ending :: "tcp_server list created res \<Rightarrow> program_end res" where
  "ending r =
     (case r of
        Inl (Thrown msg) \<Rightarrow> Inr (Printed msg)
      | Inl e \<Rightarrow> Inl e
      | Inr (Created srvs) \<Rightarrow> Inr (Serving srvs)
      | Inr (Exited msg) \<Rightarrow> Inr (Quit msg)
      | Inr Unavailable \<Rightarrow> Inl Null_deref)"

definition all_callbacks :: "tcp_server \<Rightarrow> tcp_server" where
  "all_callbacks srv = TcpServer_onErro True (TcpServer_onRead True (TcpServer_onAccept True srv))"

definition TcpRelayer_plan :: "string \<Rightarrow> server_plan" where
  "TcpRelayer_plan listenport = (listenport, \<lambda>srv. TcpServer_start (all_callbacks srv))"

definition TcpRelayer_main :: "string list \<Rightarrow> getaddrinfo \<Rightarrow> (nat \<Rightarrow> kernel) \<Rightarrow> program_end res" where
  "TcpRelayer_main argv gai k =
     ending (if length argv \<noteq> 4 then Inl (Thrown ''usage: ./tcp_relayer host service listenport'')
             else make_servers gai k 0 [TcpRelayer_plan (argv ! 3)])"

definition TcpProxy_plan :: "string \<Rightarrow> server_plan" where
  "TcpProxy_plan listenport = (listenport, \<lambda>srv. Inr (all_callbacks srv))"

definition TcpProxy_main :: "string list \<Rightarrow> getaddrinfo \<Rightarrow> (nat \<Rightarrow> kernel) \<Rightarrow> program_end res" where
  "TcpProxy_main argv gai k =
     ending (if length argv \<noteq> 2 then Inl (Thrown ''usage: ./tcp_proxy listenport'')
             else make_servers gai k 0 [TcpProxy_plan (argv ! 1)])"

section \<open>What they come to\<close>

text \<open>A plan sets callbacks, and at most starts the server again.\<close>

definition only_callbacks :: "(tcp_server \<Rightarrow> tcp_server res) \<Rightarrow> bool" where
  "only_callbacks cb \<longleftrightarrow> (\<forall>srv s. srv_socket srv = Some s \<and> listening srv \<and> listenfd srv = sock_fd s \<longrightarrow>
     (\<exists>srv'. cb srv = Inr srv' \<and> srv_socket srv' = Some s \<and> listening srv' \<and> listenfd srv' = sock_fd s \<and> accepted srv' = accepted srv))"

lemmas callback_defs = TcpServer_onErro_def TcpServer_onRead_def TcpServer_onAccept_def TcpServer_start_def

lemma plans_only_callbacks:
  "\<forall>p \<in> {chat_plan, daytime_plan, discard_plan, echo_plan, TcpRelayer_plan port, TcpProxy_plan port}. only_callbacks (snd p)"
  by (simp add: only_callbacks_def chat_plan_def daytime_plan_def discard_plan_def echo_plan_def TcpRelayer_plan_def
      TcpProxy_plan_def all_callbacks_def callback_defs)

text \<open>The kernel agrees to a server on the first address of a name.\<close>

definition serves_name :: "getaddrinfo \<Rightarrow> kernel \<Rightarrow> string \<Rightarrow> int \<Rightarrow> bool" where
  "serves_name gai k service fd \<longleftrightarrow> (\<exists>a as. gai ''localhost'' service = Some (a # as) \<and> k_socket k = Inr fd \<and> 0 \<le> fd
     \<and> k_fcntl k fd = Inr () \<and> k_setsockopt k fd = Inr () \<and> k_bind k fd (Endpoint_of_addrinfo a) = Inr ()
     \<and> k_listen k fd = Inr ())"

lemma server_made:
  assumes "serves_name gai k service fd" "only_callbacks cb"
  shows "\<exists>srv0 srv s. EventLoopGroup_creatTcpServer gai k ''localhost'' service = Inr (Created srv0)
    \<and> with_server (Created srv0) cb = Inr (Created srv) \<and> srv_socket srv = Some s \<and> sock_fd s = fd \<and> listening srv
    \<and> listenfd srv = fd \<and> accepted srv = []"
proof -
  obtain a as where k: "gai ''localhost'' service = Some (a # as)" "k_socket k = Inr fd" "0 \<le> fd"
    "k_fcntl k fd = Inr ()" "k_setsockopt k fd = Inr ()" "k_bind k fd (Endpoint_of_addrinfo a) = Inr ()" "k_listen k fd = Inr ()"
    using assms(1) by (auto simp: serves_name_def)
  define s where "s = \<lparr>isUdp = False, sock_fd = fd, sock_fp = True, sock_ep = Endpoint_of_addrinfo a\<rparr>"
  define srv where "srv = TcpServer_new\<lparr>srv_socket := Some s, listenfd := fd, listening := True\<rparr>"
  have "EventLoopGroup_creatTcpServer gai k ''localhost'' service = Inr (Created srv)"
    using k listen_ok [OF k(4,5), of s] socket_of_endpoint_ok [OF k(3)]
    by (simp add: EventLoopGroup_creatTcpServer_def Resolver_resolve_def s_def srv_def TcpServer_start_def TcpServer_setServerSocket_def)
  moreover have "srv_socket srv = Some s" "listening srv" "listenfd srv = sock_fd s" "accepted srv = []" "sock_fd s = fd"
    by (simp_all add: srv_def s_def TcpServer_new_def)
  moreover from this assms(2) obtain srv' where "cb srv = Inr srv'" "srv_socket srv' = Some s" "listening srv'"
    "listenfd srv' = sock_fd s" "accepted srv' = accepted srv"
    unfolding only_callbacks_def by blast
  ultimately show ?thesis by (simp add: with_server_def)
qed

text \<open>
  When every service resolves and the kernel agrees, the program has a listening server for each, in order;
  when one does not resolve after the others were made, it follows a null pointer.
\<close>

theorem make_servers_listen:
  assumes "\<forall>p \<in> set ps. only_callbacks (snd p)" "\<forall>j < length ps. serves_name gai (k (i + j)) (fst (ps ! j)) (fds ! j)"
    and "length fds = length ps"
  shows "\<exists>srvs. make_servers gai k i ps = Inr (Created srvs) \<and> map listenfd srvs = fds
    \<and> (\<forall>srv \<in> set srvs. listening srv \<and> accepted srv = [])"
  using assms
proof (induction ps arbitrary: i fds)
  case Nil
  then show ?case by simp
next
  case (Cons p ps)
  obtain service cb where p: "p = (service, cb)" by (cases p)
  obtain fd fds' where fds: "fds = fd # fds'" using Cons.prems(3) by (cases fds) simp_all
  have "serves_name gai (k i) service fd" using Cons.prems(2) p fds by auto
  moreover have "only_callbacks cb" using Cons.prems(1) p by simp
  ultimately obtain srv0 srv where srv: "EventLoopGroup_creatTcpServer gai (k i) ''localhost'' service = Inr (Created srv0)"
    "with_server (Created srv0) cb = Inr (Created srv)" "listening srv" "listenfd srv = fd" "accepted srv = []"
    using server_made by blast
  have "\<forall>j < length ps. serves_name gai (k (i + 1 + j)) (fst (ps ! j)) (fds' ! j)"
    using Cons.prems(2) fds by auto
  with Cons.IH [of "i + 1" fds'] Cons.prems(1,3) fds obtain srvs where "make_servers gai k (i + 1) ps = Inr (Created srvs)"
    "map listenfd srvs = fds'" "\<forall>srv \<in> set srvs. listening srv \<and> accepted srv = []" by auto
  with srv fds p show ?case by simp
qed

theorem all_main_listens:
  assumes "serves_name gai (k 0) ''9379'' a" "serves_name gai (k 1) ''9378'' b" "serves_name gai (k 2) ''9376'' c"
    "serves_name gai (k 3) ''9377'' d"
  shows "\<exists>srvs. all_main gai k = Inr (Created srvs) \<and> map listenfd srvs = [a, b, c, d]
    \<and> (\<forall>srv \<in> set srvs. listening srv \<and> accepted srv = [])"
proof -
  let ?ps = "[chat_plan, daytime_plan, discard_plan, echo_plan]"
  have "\<forall>p \<in> set ?ps. only_callbacks (snd p)" using plans_only_callbacks by simp
  moreover have "\<forall>j < length ?ps. serves_name gai (k (0 + j)) (fst (?ps ! j)) ([a, b, c, d] ! j)"
    using assms by (simp add: less_Suc_eq numeral_eq_Suc all_conj_distrib chat_plan_def daytime_plan_def discard_plan_def echo_plan_def)
  ultimately show ?thesis using make_servers_listen [of ?ps gai k 0 "[a, b, c, d]"] unfolding all_main_def by simp
qed

theorem main_without_server:
  assumes "Resolver_resolve gai ''localhost'' (fst p) = []"
  shows "make_servers gai k i (p # ps) = Inl Null_deref"
  using assms by (cases p) (simp add: EventLoopGroup_creatTcpServer_def with_server_def)

theorem TcpRelayer_main_ends:
  "length argv \<noteq> 4 \<Longrightarrow> TcpRelayer_main argv gai k = Inr (Printed ''usage: ./tcp_relayer host service listenport'')"
  "length argv = 4 \<Longrightarrow> Resolver_resolve gai ''localhost'' (argv ! 3) = [] \<Longrightarrow> TcpRelayer_main argv gai k = Inl Null_deref"
  "length argv = 4 \<Longrightarrow> serves_name gai (k 0) (argv ! 3) fd \<Longrightarrow>
     \<exists>srv. TcpRelayer_main argv gai k = Inr (Serving [srv]) \<and> listening srv \<and> listenfd srv = fd"
proof -
  show "TcpRelayer_main argv gai k = Inr (Printed ''usage: ./tcp_relayer host service listenport'')" if "length argv \<noteq> 4"
    using that by (simp add: TcpRelayer_main_def ending_def)
  show "TcpRelayer_main argv gai k = Inl Null_deref" if "length argv = 4" "Resolver_resolve gai ''localhost'' (argv ! 3) = []"
    using that main_without_server [of gai "TcpRelayer_plan (argv ! 3)" k 0 "[]"]
    by (simp add: TcpRelayer_main_def ending_def TcpRelayer_plan_def)
  assume a: "length argv = 4" "serves_name gai (k 0) (argv ! 3) fd"
  have "only_callbacks (snd (TcpRelayer_plan (argv ! 3)))" using plans_only_callbacks by blast
  with make_servers_listen [of "[TcpRelayer_plan (argv ! 3)]" gai k 0 "[fd]"] a obtain srvs where
    "make_servers gai k 0 [TcpRelayer_plan (argv ! 3)] = Inr (Created srvs)" "map listenfd srvs = [fd]"
    "\<forall>srv \<in> set srvs. listening srv" by (auto simp: TcpRelayer_plan_def)
  with a(1) show "\<exists>srv. TcpRelayer_main argv gai k = Inr (Serving [srv]) \<and> listening srv \<and> listenfd srv = fd"
    by (auto simp: TcpRelayer_main_def ending_def)
qed

end
