(* ===== verification/Spec2Isabelle.thy ===== *)
theory Spec2Isabelle
  imports Prelude Interfaces Timestamps Buffers Binary_Heap Timer_Queue Timer_Events Poller_Base Pollers Connections
    Numbers Http_Text Http_Request Http_Reply Http_Server Http_Streams Sockets Tcp Udp
    Event_Queue Utilities Loop_Groups Loop_Threads Exit_Callers Served_Conns Relays Served_Loop Proxies Small_Servers
    Udp_Programs Udp_Client Echo_Client Named_Clients Http_Programs Example_Programs
begin

text \<open>
  A model of \<^verbatim>\<open>liby-cpp\<close>, a C++ library for event-driven network programs, and what is proved of it.
  Sources are named relative to \<^verbatim>\<open>src/\<close>; everything of the library is in \<^verbatim>\<open>src/src/\<close>.

  \<^bold>\<open>The program.\<close> An \<^verbatim>\<open>EventLoop\<close> repeats the rounds of a \<^verbatim>\<open>Poller\<close> (select, poll, epoll or kqueue), which
  calls the callbacks of the \<^verbatim>\<open>Channel\<close>s whose descriptors are ready and then the handlers queued for the
  end of the round. A \<^verbatim>\<open>TimerQueue\<close> (a \<^verbatim>\<open>BinaryHeap\<close> of weak references to timers) and an \<^verbatim>\<open>EventQueue\<close>
  (a \<^verbatim>\<open>BlockingQueue\<close> of handlers with an eventfd) hang on the loop as channels. An \<^verbatim>\<open>EventLoopGroup\<close>
  runs several loops in threads and makes servers and clients: \<^verbatim>\<open>TcpServer\<close> accepts \<^verbatim>\<open>Connection\<close>s,
  \<^verbatim>\<open>TcpClient\<close> makes one, \<^verbatim>\<open>UdpSocket\<close> shares a socket among \<^verbatim>\<open>UdpConnection\<close>s. Connections read into a
  \<^verbatim>\<open>Buffer\<close> and write a queue of buffers and files. The HTTP classes parse and answer requests on
  connections.

  \<^bold>\<open>How it is modelled.\<close>
  \<^item> An object is a record, an enumeration a datatype, and each operation a function named
    \<open>Class_operation\<close> that takes the state and returns the new one. A failure is a value of \<open>fault\<close>
    (\<open>Prelude\<close>): a failed assertion, an access outside of storage, a null pointer, an exception, an
    empty container, the end of the program. A computation that may not return is an option, and \<open>None\<close>
    means that it does not (\<open>partial_function\<close>); no fuel is used anywhere.
  \<^item> Bytes are characters; a cell of memory is \<open>None\<close> until it is written. Offsets and lengths are \<open>int\<close>,
    as the source computes them in signed types; the casts to \<^verbatim>\<open>uint16_t\<close>, \<^verbatim>\<open>uint32_t\<close> and \<^verbatim>\<open>uint64_t\<close> are
    modelled with words or with the remainder written out.
  \<^item> What the kernel answers is an argument of the operation that asks it, so every theorem holds for all
    answers: lists of answers for \<^verbatim>\<open>readv\<close>, \<^verbatim>\<open>writev\<close>, \<^verbatim>\<open>sendto\<close>, \<^verbatim>\<open>recvfrom\<close>, a function from numbers for
    \<^verbatim>\<open>accept\<close>, a record of functions for \<^verbatim>\<open>socket\<close>, \<^verbatim>\<open>bind\<close>, \<^verbatim>\<open>connect\<close>. The clock, \<^verbatim>\<open>getaddrinfo\<close>, the file
    system, and the order in which an unordered map is walked are arguments too.
  \<^item> What user callbacks do is an argument: a function from the event, and the events before it, to a list
    of calls on the object. So callbacks may send, consume, destroy or cancel at any time.
  \<^item> Shared and weak pointers are addresses in a store (\<open>Timer_Queue\<close>) or flags (\<open>destroyed\<close>); a use of an
    object that is gone is a fault.

  \<^bold>\<open>The theories.\<close>
  \<^item> \<open>Prelude\<close>: faults, sequencing, checked memory, C++ arithmetic. \<open>Interfaces\<close>: the contracts as locales,
    byte queue, weak order, priority queue and keyed store, each with the lemmas of its clients, and each
    interpreted in the theory of its provider.
  \<^item> \<open>Timestamps\<close> (\<^verbatim>\<open>util.h\<close>), \<open>Buffers\<close> (\<^verbatim>\<open>Buffer.h\<close>, \<^verbatim>\<open>Buffer.cpp\<close>), \<open>Binary_Heap\<close> (\<^verbatim>\<open>BinaryHeap.h\<close>): the data
    structures, with the invariants that every operation keeps, \<open>buf_ok\<close> and the heap order, and the
    exact conditions under which an operation faults or does not return. A buffer implements a byte queue;
    a heap implements a priority queue over any weak order.
  \<^item> \<open>Timer_Queue\<close> (\<^verbatim>\<open>TimerQueue\<close>, \<^verbatim>\<open>TimerMixin\<close>, the timer calls of \<^verbatim>\<open>EventLoop\<close>): timers by address, with
    expired references in the heap; the states reachable by calls and timeouts, and in them which timers
    fire, when, and that a cancelled one does not. \<open>Timer_Events\<close> puts the timerfd beside the queue: its
    read handler, that pending timers always have an alarm, and which times stop a queue for good.
  \<^item> \<open>Poller_Base\<close> (\<^verbatim>\<open>Poller\<close>, \<^verbatim>\<open>Channel\<close>) and \<open>Pollers\<close> (the four pollers): the abstract registry of channels
    that they implement, the order of callbacks in a round, and where they leave the contract.
  \<^item> \<open>Connections\<close> (\<^verbatim>\<open>Connection\<close>): the three event handlers and the send calls; the reachable states, and
    that the wire followed by the queue is what was sent.
  \<^item> \<open>Event_Queue\<close> (\<^verbatim>\<open>BlockingQueue\<close>, \<^verbatim>\<open>EventQueue\<close>, \<^verbatim>\<open>EventLoop::runEventHandler\<close>): threads as sequences of
    atomic actions that interleave in any order; handlers run in the order posted, no wake-up is lost, and
    the loop empties its queue.
  \<^item> \<open>Sockets\<close>, \<open>Tcp\<close>, \<open>Udp\<close>, \<open>Loop_Groups\<close>: descriptors, endpoints and sockets; the accept loop and the connecting
    client; the shared UDP socket; the resolver and the making of servers and clients from names.
  \<^item> \<open>Numbers\<close>, \<open>Http_Text\<close>, \<open>Http_Request\<close>, \<open>Http_Reply\<close>, \<open>Http_Server\<close>, \<open>Http_Streams\<close> (\<^verbatim>\<open>http/\<close>):
    decimal and C strings, the shared parsing of lines, both incremental parsers at the level of
    positions in memory with their round trips, the handlers of the server and the client on
    connections, and the server over requests in pieces, pipelined requests and the closing of the
    connection.
  \<^item> \<open>Loop_Threads\<close> (\<^verbatim>\<open>EventLoop::run\<close>, \<^verbatim>\<open>EventLoopGroup\<close>): the loops and the threads of a group from its
    constructor to the join, with the thread-local pointers, the functor that keeps the loops running
    and the eventfds that wake them; that the group ends once the functor says no.
  \<^item> \<open>Utilities\<close>: the trie as a map, the signal registry, the text of times, the macros and the line buffer of
    the logger. \<open>Exit_Callers\<close>: the functors run at the end of the program or of a scope.
  \<^item> \<open>Served_Conns\<close>, \<open>Relays\<close>, \<open>Proxies\<close>, \<open>Small_Servers\<close>: programs of \<^verbatim>\<open>examples/\<close> on whole connections, with the bytes
    followed from one end to the other. \<open>Served_Conns\<close> is what they share: connections as a server makes
    them, and the locale \<open>write_tasks\<close> for the handlers of their queues; \<open>Relays\<close> has the echo server and
    the TCP relay, \<open>Proxies\<close> the SOCKS4 proxy from the request to the relaying, \<open>Small_Servers\<close> the chat, daytime and discard servers.
  \<^item> \<open>Served_Loop\<close>: pollers and connections together, the echo server on the rounds of an epoll loop. Its
    locale \<open>served_on_loop\<close> is the contract of callbacks that any loop can serve; in every round the poller
    watches exactly what the connections want.
  \<^item> \<open>Udp_Programs\<close>, \<open>Echo_Client\<close>: the UDP server of \<^verbatim>\<open>examples/udp_hello.cpp\<close> and the benchmark
    \<^verbatim>\<open>examples/echo_client.cpp\<close>, whose counters and plain pointers are followed through any order of events.

  \<^bold>\<open>What is shown.\<close> Each property stands after a numbered text and is about the definitions of the model,
  not about a simplified copy. Most say that the code does what it means to; some state exactly when it
  does not. Where a theorem has hypotheses, a lemma with the suffix \<open>_witness\<close> applies it to a concrete
  case.

  \<^bold>\<open>Not modelled.\<close> The mutual exclusion inside of a mutex (the actions of \<open>Event_Queue\<close> are atomic); the
  copying of \<^verbatim>\<open>std::function\<close>s; the conversions of \<^verbatim>\<open>Timestamp\<close> to \<^verbatim>\<open>double\<close>; the thin wrappers of single
  system calls in \<^verbatim>\<open>Socket\<close>; failures of allocation; the logger thread, which is never started; the
  report of the benchmark, in floating point; the build files.
\<close>

end
